(* ===== verification/Xv6_Prelude.thy ===== *)
theory Xv6_Prelude
  imports Main "HOL-Library.Word"
begin

text \<open>
  The vocabulary of the development: the machine types of \<^verbatim>\<open>types.h\<close>, the outcome of a
  kernel routine, and the facts about words and lists that several components share.

  A kernel routine either returns a value, or ends in \<^verbatim>\<open>panic(msg)\<close>, or dereferences a
  null pointer (\<open>Fault\<close>), or runs a page loop whose unsigned counter passes \<open>2 ^ 32\<close>
  (\<open>Wrapped\<close>, the boundary of the model: such a loop starts again at the low addresses). The
  theorems of the components show that \<open>Wrapped\<close> is not reached for ranges below
  \<^verbatim>\<open>KERNBASE\<close>, the only ones the kernel passes for user memory. \<open>Refault\<close> is kernel code that
  takes the same page fault again and again without progress.
\<close>

unbundle bit_operations_syntax

type_synonym u8 = "8 word"
type_synonym u16 = "16 word"
type_synonym u32 = "32 word"

named_theorems res_simps \<open>unfolding of sequenced kernel routines\<close>
named_theorems addr_simps \<open>page arithmetic\<close>

section \<open>Outcomes of kernel routines\<close>

datatype 'a res = Ret 'a | Panic string | Fault | Wrapped | Refault

definition rbind :: "'a res \<Rightarrow> ('a \<Rightarrow> 'b res) \<Rightarrow> 'b res" where
  "rbind m f = (case m of Ret x \<Rightarrow> f x | Panic e \<Rightarrow> Panic e | Fault \<Rightarrow> Fault | Wrapped \<Rightarrow> Wrapped
     | Refault \<Rightarrow> Refault)"

lemma rbind_simps [simp]:
  "rbind (Ret x) f = f x" "rbind (Panic e) f = Panic e" "rbind Fault f = Fault" "rbind Wrapped f = Wrapped"
  "rbind Refault f = Refault"
  by (simp_all add: rbind_def)

lemma rbind_eq_Ret [res_simps]: "rbind m f = Ret y \<longleftrightarrow> (\<exists>x. m = Ret x \<and> f x = Ret y)"
  by (cases m) auto

lemma rbind_neq_Wrapped [res_simps]:
  "rbind m f = Wrapped \<longleftrightarrow> m = Wrapped \<or> (\<exists>x. m = Ret x \<and> f x = Wrapped)"
  by (cases m) auto

lemma rbind_cong [fundef_cong]:
  "m = m' \<Longrightarrow> (\<And>x. m' = Ret x \<Longrightarrow> f x = g x) \<Longrightarrow> rbind m f = rbind m' g"
  by (cases m') auto

section \<open>Words\<close>

lemma mask_12: "(0xFFF :: u32) = mask 12"
  by (simp add: mask_eq_exp_minus_1)

lemma unat_and_FFF [addr_simps]: "unat (a AND 0xFFF :: u32) = unat a mod 4096"
proof -
  have "uint (take_bit 12 a) = uint a mod 4096"
    by (simp only: unsigned_take_bit_eq) (simp add: take_bit_eq_mod)
  then have "unat (take_bit 12 a) = unat a mod 4096"
    by (metis nat_mod_as_int nat_int of_nat_numeral uint_nat)
  then show ?thesis by (simp only: mask_12 take_bit_eq_mask)
qed

lemma word_page_split: "(a AND NOT 0xFFF) + (a AND 0xFFF) = (a :: u32)"
proof -
  have "(a AND NOT 0xFFF) + (a AND 0xFFF) = (a AND NOT 0xFFF) OR (a AND 0xFFF)"
    by (rule disjunctive_add_eq_or) (rule bit_word_eqI, auto simp: bit_simps)
  also have "\<dots> = a"
    by (rule bit_word_eqI) (auto simp: bit_simps)
  finally show ?thesis .
qed

lemma unat_and_not_FFF [addr_simps]: "unat (a AND NOT 0xFFF :: u32) = unat a div 4096 * 4096"
proof -
  have "a AND NOT 0xFFF = a - (a AND 0xFFF)"
    using word_page_split [of a] by (metis add_diff_cancel_right')
  moreover have "a AND 0xFFF \<le> a" by (rule word_and_le2)
  ultimately have "unat (a AND NOT 0xFFF) = unat a - unat a mod 4096"
    by (simp add: unat_sub unat_and_FFF)
  then show ?thesis by (simp add: minus_mod_eq_div_mult)
qed

lemma unat_add_no_wrap: "unat a + unat b < 2 ^ 32 \<Longrightarrow> unat (a + b :: u32) = unat a + unat b"
  by (simp add: unat_word_ariths)

lemma unat_less_2p32: "unat (a :: u32) < 4294967296"
  using unsigned_less [of a] by simp

lemma or_and_distrib: "(a OR b) AND c = (a AND c) OR (b AND c)" for a b c :: u32
  by (rule bit_word_eqI) (auto simp: bit_simps)

end
