(* ===== verification/Phys_Mem.thy ===== *)
theory Phys_Mem
  imports Xv6_Prelude
begin

text \<open>
  Physical memory and addresses: the constants and macros of \<^verbatim>\<open>memlayout.h\<close> and \<^verbatim>\<open>mmu.h\<close>,
  and a byte memory indexed by physical address with little-endian 32-bit loads and stores.
  \<open>mem_set\<close> and \<open>mem_move\<close> are the effects of \<^verbatim>\<open>memset\<close> and \<^verbatim>\<open>memmove\<close>; the theory
  \<open>Kstring\<close> proves that the loops of \<^verbatim>\<open>string.c\<close> compute them.
\<close>

section \<open>Layout and page arithmetic\<close>

definition PGSIZE :: u32 where "PGSIZE = 4096"
definition KERNBASE :: u32 where "KERNBASE = 0x80000000"
definition PHYSTOP :: u32 where "PHYSTOP = 0xE000000"
definition EXTMEM :: u32 where "EXTMEM = 0x100000"
definition DEVSPACE :: u32 where "DEVSPACE = 0xFE000000"
definition KERNLINK :: u32 where "KERNLINK = KERNBASE + EXTMEM"

lemmas layout_defs = PGSIZE_def KERNBASE_def PHYSTOP_def EXTMEM_def DEVSPACE_def KERNLINK_def

definition V2P :: "u32 \<Rightarrow> u32" where "V2P a = a - KERNBASE"
definition P2V :: "u32 \<Rightarrow> u32" where "P2V a = a + KERNBASE"

definition PGROUNDUP :: "u32 \<Rightarrow> u32" where
  "PGROUNDUP sz = (sz + PGSIZE - 1) AND NOT (PGSIZE - 1)"
definition PGROUNDDOWN :: "u32 \<Rightarrow> u32" where
  "PGROUNDDOWN a = a AND NOT (PGSIZE - 1)"

definition PDX :: "u32 \<Rightarrow> u32" where "PDX va = drop_bit 22 va AND 0x3FF"
definition PTX :: "u32 \<Rightarrow> u32" where "PTX va = drop_bit 12 va AND 0x3FF"
definition PGADDR :: "u32 \<Rightarrow> u32 \<Rightarrow> u32 \<Rightarrow> u32" where
  "PGADDR d t ofs = (push_bit 22 d OR push_bit 12 t OR ofs)"

definition PTE_P :: u32 where "PTE_P = 0x001"
definition PTE_W :: u32 where "PTE_W = 0x002"
definition PTE_U :: u32 where "PTE_U = 0x004"
definition PTE_COW :: u32 where "PTE_COW = 0x200"

definition PTE_ADDR :: "u32 \<Rightarrow> u32" where "PTE_ADDR pte = pte AND NOT 0xFFF"
definition PTE_FLAGS :: "u32 \<Rightarrow> u32" where "PTE_FLAGS pte = pte AND 0xFFF"

lemmas pte_bits = PTE_P_def PTE_W_def PTE_U_def PTE_COW_def

text \<open>\<open>flag pte f\<close> is the C test \<^verbatim>\<open>*pte & f\<close>.\<close>

definition flag :: "u32 \<Rightarrow> u32 \<Rightarrow> bool" where "flag pte f \<longleftrightarrow> pte AND f \<noteq> 0"

definition aligned :: "u32 \<Rightarrow> bool" where "aligned a \<longleftrightarrow> a AND 0xFFF = 0"

lemma V2P_P2V [simp]: "V2P (P2V a) = a" and P2V_V2P [simp]: "P2V (V2P a) = a"
  by (simp_all add: V2P_def P2V_def)

lemma V2P_inj [simp]: "V2P a = V2P b \<longleftrightarrow> a = b"
  by (simp add: V2P_def)

lemma P2V_inj [simp]: "P2V a = P2V b \<longleftrightarrow> a = b"
  by (simp add: P2V_def)

lemma PTE_ADDR_PGROUNDDOWN: "PTE_ADDR a = PGROUNDDOWN a"
  by (simp add: PTE_ADDR_def PGROUNDDOWN_def PGSIZE_def)

lemma unat_PGROUNDDOWN [addr_simps]: "unat (PGROUNDDOWN a) = unat a div 4096 * 4096"
  unfolding PGROUNDDOWN_def PGSIZE_def using unat_and_not_FFF [of a] by simp

lemma aligned_iff_mod [addr_simps]: "aligned a \<longleftrightarrow> unat a mod 4096 = 0"
  unfolding aligned_def unat_and_FFF [symmetric] unat_eq_0 ..

lemma aligned_dvd: "aligned a \<longleftrightarrow> 4096 dvd unat a"
  by (simp only: aligned_iff_mod dvd_eq_mod_eq_0)

lemma aligned_0 [simp]: "aligned 0"
  by (simp add: aligned_def)

lemma aligned_PGROUNDDOWN [simp]: "aligned (PGROUNDDOWN a)"
  by (simp add: addr_simps)

lemma aligned_PTE_ADDR [simp]: "aligned (PTE_ADDR a)"
  by (simp add: PTE_ADDR_PGROUNDDOWN)

lemma PGROUNDDOWN_aligned: "aligned a \<Longrightarrow> PGROUNDDOWN a = a"
  by (rule word_unat_eq_iff [THEN iffD2]) (auto simp: addr_simps)

lemma PGROUNDDOWN_idem [simp]: "PGROUNDDOWN (PGROUNDDOWN a) = PGROUNDDOWN a"
  by (simp add: PGROUNDDOWN_aligned)

lemma unat_V2P [addr_simps]: "KERNBASE \<le> v \<Longrightarrow> unat (V2P v) = unat v - 2147483648"
  by (simp add: V2P_def KERNBASE_def unat_sub)

lemma aligned_add [intro]: "aligned a \<Longrightarrow> aligned b \<Longrightarrow> aligned (a + b)"
  unfolding aligned_dvd by (auto simp: unat_word_ariths intro!: dvd_mod dvd_add)

lemma aligned_diff [intro]: "aligned a \<Longrightarrow> aligned b \<Longrightarrow> aligned (a - b)"
  unfolding aligned_dvd by (auto simp: unat_sub_if_size word_size intro!: dvd_diff_nat dvd_add)

lemma aligned_KERNBASE [simp]: "aligned KERNBASE" and aligned_PGSIZE [simp]: "aligned PGSIZE"
  by (simp_all add: aligned_def layout_defs)

lemma aligned_V2P [simp]: "aligned (V2P v) \<longleftrightarrow> aligned v"
  by (metis P2V_V2P P2V_def V2P_def aligned_KERNBASE aligned_add aligned_diff)

lemma aligned_P2V [simp]: "aligned (P2V v) \<longleftrightarrow> aligned v"
  by (metis V2P_P2V aligned_V2P)

lemma aligned_add_PGSIZE [simp]: "aligned (a + PGSIZE) \<longleftrightarrow> aligned a"
  by (metis add_diff_cancel_right' aligned_PGSIZE aligned_add aligned_diff)

lemma alignedE: "aligned a \<Longrightarrow> (\<And>k. unat a = 4096 * k \<Longrightarrow> thesis) \<Longrightarrow> thesis"
  unfolding aligned_dvd by (elim dvdE)

lemma aligned_le:
  assumes "aligned u" "aligned v" "unat u < unat v + 4096"
  shows "u \<le> v"
proof -
  obtain j where "unat u = 4096 * j" by (rule alignedE [OF assms(1)])
  moreover obtain k where "unat v = 4096 * k" by (rule alignedE [OF assms(2)])
  ultimately show ?thesis using assms(3) by (simp add: word_le_nat_alt)
qed

lemma unat_PGROUNDUP:
  assumes "unat a \<le> 4294963200"
  shows "unat (PGROUNDUP a) = (unat a + 4095) div 4096 * 4096"
proof -
  have "unat (a + 0xFFF) = unat a + 4095"
    using assms by (intro unat_add_no_wrap [of a "0xFFF", simplified]) simp
  then show ?thesis
    using unat_and_not_FFF [of "a + 0xFFF"] by (simp add: PGROUNDUP_def PGSIZE_def add.commute)
qed

lemma PGROUNDUP_bounds:
  assumes "unat a \<le> 4294963200"
  shows "aligned (PGROUNDUP a)" "a \<le> PGROUNDUP a" "unat (PGROUNDUP a) < unat a + 4096"
proof -
  note u = unat_PGROUNDUP [OF assms]
  show "aligned (PGROUNDUP a)" by (simp add: aligned_dvd u)
  have m: "(unat a + 4095) div 4096 * 4096 + (unat a + 4095) mod 4096 = unat a + 4095"
    by (rule div_mult_mod_eq)
  have "(unat a + 4095) mod 4096 \<le> 4095" by (simp add: Suc_leI less_Suc_eq_le [symmetric])
  with m show "a \<le> PGROUNDUP a" "unat (PGROUNDUP a) < unat a + 4096"
    unfolding word_le_nat_alt u by linarith+
qed

text \<open>An entry \<^verbatim>\<open>pa | flags\<close> splits back into its address and its flags.\<close>

lemma PTE_ADDR_or [simp]:
  assumes "aligned pa" "f AND NOT 0xFFF = 0"
  shows "PTE_ADDR (pa OR f) = pa"
proof -
  have "pa AND NOT 0xFFF = pa" using word_page_split [of pa] assms(1) by (simp add: aligned_def)
  with assms(2) show ?thesis by (simp only: PTE_ADDR_def or_and_distrib or.right_neutral)
qed

lemma PTE_FLAGS_or [simp]:
  assumes "aligned pa" "f AND NOT 0xFFF = 0"
  shows "PTE_FLAGS (pa OR f) = f"
proof -
  have "f AND 0xFFF = f" using word_page_split [of f] assms(2) by simp
  moreover have "pa AND 0xFFF = 0" using assms(1) by (simp add: aligned_def)
  ultimately show ?thesis by (simp only: PTE_FLAGS_def or_and_distrib or.left_neutral)
qed

lemma unat_and_3FF: "unat (a AND 0x3FF :: u32) = unat a mod 1024"
proof -
  have m: "(0x3FF :: u32) = mask 10" by (simp add: mask_eq_exp_minus_1)
  have "uint (take_bit 10 a) = uint a mod 1024"
    by (simp only: unsigned_take_bit_eq) (simp add: take_bit_eq_mod)
  then have "unat (take_bit 10 a) = unat a mod 1024"
    by (metis nat_mod_as_int nat_int of_nat_numeral uint_nat)
  then show ?thesis by (simp only: m take_bit_eq_mask)
qed

lemma unat_PTX: "unat (PTX va) = unat va div 4096 mod 1024"
  by (simp add: PTX_def unat_and_3FF drop_bit_eq_div unat_div)

lemma unat_PDX: "unat (PDX va) = unat va div 4194304"
proof -
  have "unat va div 4194304 < 1024"
    using unat_less_2p32 [of va] by (simp add: less_mult_imp_div_less)
  then show ?thesis
    by (simp add: PDX_def unat_and_3FF drop_bit_eq_div unat_div)
qed

lemma PDX_bound: "unat (PDX va) < 1024"
  by (simp add: PDX_def unat_and_3FF)

lemma PTX_bound: "unat (PTX va) < 1024"
  by (simp add: PTX_def unat_and_3FF)

text \<open>The two indices determine the page of an address.\<close>

lemma PDX_PTX_eq_iff: "PDX a = PDX b \<and> PTX a = PTX b \<longleftrightarrow> PGROUNDDOWN a = PGROUNDDOWN b"
proof -
  have d: "x div 4194304 = x div 4096 div 1024" for x :: nat
    by (simp add: div_mult2_eq [symmetric])
  have "PDX a = PDX b \<and> PTX a = PTX b \<longleftrightarrow> unat a div 4096 = unat b div 4096"
    unfolding word_unat_eq_iff unat_PDX unat_PTX d
    by (metis div_mult_mod_eq)
  also have "\<dots> \<longleftrightarrow> PGROUNDDOWN a = PGROUNDDOWN b"
    unfolding word_unat_eq_iff unat_PGROUNDDOWN by simp
  finally show ?thesis .
qed

section \<open>Frames\<close>

text \<open>Two addresses with the same \<^const>\<open>PGROUNDDOWN\<close> lie in the same physical frame.\<close>

lemma frame_offset:
  assumes "aligned p" "unat ofs < 4096"
  shows "PGROUNDDOWN (p + ofs) = p"
proof -
  obtain k where k: "unat p = 4096 * k"
    using assms(1) unfolding aligned_dvd by (rule dvdE)
  then have "k < 1048576" using unat_less_2p32 [of p] by simp
  with k assms(2) have "unat p + unat ofs < 2 ^ 32" by simp
  then have "unat (p + ofs) = unat p + unat ofs" by (rule unat_add_no_wrap)
  with assms show ?thesis
    by (intro word_unat_eq_iff [THEN iffD2]) (auto simp: addr_simps)
qed

lemma frame_diff_less:
  assumes "aligned p"
  shows "x - p < PGSIZE \<longleftrightarrow> PGROUNDDOWN x = p"
proof
  assume "x - p < PGSIZE"
  then have "unat (x - p) < 4096" by (simp add: PGSIZE_def word_less_nat_alt)
  then have "PGROUNDDOWN (p + (x - p)) = p" by (rule frame_offset [OF assms])
  then show "PGROUNDDOWN x = p" by simp
next
  assume "PGROUNDDOWN x = p"
  moreover have "PGROUNDDOWN x + (x AND 0xFFF) = x"
    using word_page_split [of x] by (simp add: PGROUNDDOWN_def PGSIZE_def)
  then have "x - PGROUNDDOWN x = x AND 0xFFF"
    by (simp only: diff_eq_eq add.commute)
  ultimately have "unat (x - p) < 4096" by (simp add: unat_and_FFF)
  then show "x - p < PGSIZE" by (simp add: PGSIZE_def word_less_nat_alt)
qed

text \<open>Word-aligned addresses: the entries of page tables and the links of the free list.\<close>

definition aligned4 :: "u32 \<Rightarrow> bool" where "aligned4 a \<longleftrightarrow> 4 dvd unat a"

lemma aligned_aligned4 [simp]: "aligned a \<Longrightarrow> aligned4 a"
  unfolding aligned_dvd aligned4_def by (rule dvd_trans [rotated]) auto

lemma unat_aligned4_add:
  assumes "aligned4 a" "k < 4"
  shows "unat (a + k) = unat a + unat k"
proof -
  obtain m where m: "unat a = 4 * m" using assms(1) unfolding aligned4_def by (rule dvdE)
  then have "m < 1073741824" using unat_less_2p32 [of a] by simp
  moreover have "unat k < 4" using assms(2) by (simp add: word_less_nat_alt)
  ultimately show ?thesis using m by (intro unat_add_no_wrap) simp
qed

lemma aligned4_frame:
  assumes "aligned4 a" "k < 4"
  shows "PGROUNDDOWN (a + k) = PGROUNDDOWN a"
proof -
  obtain m where m: "unat a = 4 * m" using assms(1) unfolding aligned4_def by (rule dvdE)
  have "unat k < 4" using assms(2) by (simp add: word_less_nat_alt)
  then have "(4 * m + unat k) div 4 = m" by simp
  then have "(4 * m + unat k) div 4096 = 4 * m div 4096"
    using div_mult2_eq [of "4 * m + unat k" 4 1024] div_mult2_eq [of "4 * m" 4 1024] by simp
  then show ?thesis
    by (simp add: word_unat_eq_iff unat_PGROUNDDOWN unat_aligned4_add [OF assms] m)
qed

lemma aligned4_disjoint:
  assumes "aligned4 a" "aligned4 b" "i < 4" "j < 4" "a + i = b + j"
  shows "a = b"
proof -
  have "unat a + unat i = unat b + unat j"
    using assms unat_aligned4_add [of a i] unat_aligned4_add [of b j] by simp
  moreover have "unat i < 4" "unat j < 4" using assms by (simp_all add: word_less_nat_alt)
  moreover obtain m where "unat a = 4 * m" using assms(1) unfolding aligned4_def by (rule dvdE)
  moreover obtain n where "unat b = 4 * n" using assms(2) unfolding aligned4_def by (rule dvdE)
  ultimately show ?thesis by (simp add: word_unat_eq_iff)
qed

lemma unat_4_mult: "unat i < 1024 \<Longrightarrow> unat (4 * i :: u32) = 4 * unat i"
  by (simp add: unat_word_ariths)

lemma entry_frame [simp]: "aligned p \<Longrightarrow> unat i < 1024 \<Longrightarrow> PGROUNDDOWN (p + 4 * i) = p"
  by (rule frame_offset) (simp_all add: unat_4_mult)

lemma entry_aligned4 [simp]: "aligned p \<Longrightarrow> aligned4 (p + 4 * i)"
  using aligned_aligned4 [of p] unfolding aligned4_def
  by (auto simp: unat_word_ariths intro!: dvd_mod dvd_add)

lemma entry_inj: "unat i < 1024 \<Longrightarrow> unat j < 1024 \<Longrightarrow> (p :: u32) + 4 * i = p + 4 * j \<longleftrightarrow> i = j"
  unfolding add_left_cancel by (simp only: word_unat_eq_iff unat_4_mult) simp

section \<open>Byte memory\<close>

type_synonym pmem = "u32 \<Rightarrow> u8"

definition load32 :: "pmem \<Rightarrow> u32 \<Rightarrow> u32" where
  "load32 m a =
     (ucast (m a) OR push_bit 8 (ucast (m (a + 1)))
      OR push_bit 16 (ucast (m (a + 2))) OR push_bit 24 (ucast (m (a + 3))))"

definition store32 :: "pmem \<Rightarrow> u32 \<Rightarrow> u32 \<Rightarrow> pmem" where
  "store32 m a v =
     m(a := ucast v, a + 1 := ucast (drop_bit 8 v),
       a + 2 := ucast (drop_bit 16 v), a + 3 := ucast (drop_bit 24 v))"

definition mem_set :: "pmem \<Rightarrow> u32 \<Rightarrow> u8 \<Rightarrow> u32 \<Rightarrow> pmem" where
  "mem_set m dst c n = (\<lambda>a. if a - dst < n then c else m a)"

definition mem_move :: "pmem \<Rightarrow> u32 \<Rightarrow> u32 \<Rightarrow> u32 \<Rightarrow> pmem" where
  "mem_move m dst src n = (\<lambda>a. if a - dst < n then m (src + (a - dst)) else m a)"

definition mem_put :: "pmem \<Rightarrow> u32 \<Rightarrow> u8 list \<Rightarrow> pmem" where
  "mem_put m dst bs = (\<lambda>a. if unat (a - dst) < length bs then bs ! unat (a - dst) else m a)"

lemma load32_store32 [simp]: "load32 (store32 m a v) a = v"
proof (rule bit_word_eqI)
  fix n assume "n < LENGTH(32)"
  then consider "n < 8" | "8 \<le> n" "n < 16" | "16 \<le> n" "n < 24" | "24 \<le> n" "n < 32"
    by fastforce
  then show "bit (load32 (store32 m a v) a) n = bit v n"
    by cases (simp_all add: load32_def store32_def bit_simps, linarith+)
qed

lemma load32_cong:
  assumes "\<And>k. k < 4 \<Longrightarrow> m (a + k) = m' (a + k)"
  shows "load32 m a = load32 m' a"
  using assms [of 0] assms [of 1] assms [of 2] assms [of 3] by (simp add: load32_def)

lemma store32_outside:
  assumes "\<And>k. k < 4 \<Longrightarrow> x \<noteq> a + k"
  shows "store32 m a v x = m x"
  using assms [of 0] assms [of 1] assms [of 2] assms [of 3] by (simp add: store32_def)

lemma store32_frame [simp]:
  assumes "aligned4 a" "PGROUNDDOWN x \<noteq> PGROUNDDOWN a"
  shows "store32 m a v x = m x"
  by (rule store32_outside) (metis assms aligned4_frame)

lemma load32_store32_other [simp]:
  assumes "aligned4 a" "aligned4 b" "a \<noteq> b"
  shows "load32 (store32 m a v) b = load32 m b"
  by (rule load32_cong, rule store32_outside) (metis assms aligned4_disjoint)

lemma load32_frame_cong:
  assumes "aligned4 a" "\<And>x. PGROUNDDOWN x = PGROUNDDOWN a \<Longrightarrow> m x = m' x"
  shows "load32 m a = load32 m' a"
  by (rule load32_cong) (metis assms aligned4_frame)

lemma mem_set_page: "aligned p \<Longrightarrow> mem_set m p c PGSIZE x = (if PGROUNDDOWN x = p then c else m x)"
  by (simp add: mem_set_def frame_diff_less)

lemma mem_move_page:
  "aligned p \<Longrightarrow> mem_move m p q PGSIZE x = (if PGROUNDDOWN x = p then m (q + (x - p)) else m x)"
  by (simp add: mem_move_def frame_diff_less)

lemma load32_mem_set_page:
  assumes "aligned p" "aligned4 a"
  shows "load32 (mem_set m p 0 PGSIZE) a = (if PGROUNDDOWN a = p then 0 else load32 m a)"
proof (cases "PGROUNDDOWN a = p")
  case True
  then have "load32 (mem_set m p 0 PGSIZE) a = load32 (\<lambda>_. 0) a"
    by (intro load32_frame_cong) (simp_all add: assms mem_set_page)
  with True show ?thesis by (simp add: load32_def)
next
  case False
  then show ?thesis
    by (simp, intro load32_frame_cong) (simp_all add: assms mem_set_page)
qed

end
