(* ===== verification/Kalloc.thy ===== *)
theory Kalloc
  imports Phys_Mem
begin

text \<open>
  The physical page allocator of \<^verbatim>\<open>kalloc.c\<close>: the free list threaded through the first word
  of every free page, and the reference counts that copy-on-write adds. Every routine of the
  file is a critical section under \<^verbatim>\<open>kmem.lock\<close> and is one step here; the lock itself is the
  subject of the theory \<open>Spinlock\<close>. The linker symbol \<^verbatim>\<open>end\<close> is the field \<open>kend\<close>, which no
  routine changes. Counts are unbounded integers: a count is at most the number of page table
  entries, far below \<open>2 ^ 31\<close>.
\<close>

section \<open>State and routines\<close>

record kmem =
  phys :: pmem
  freelist :: u32
  refcnt :: "nat \<Rightarrow> int"
  use_lock :: bool
  kend :: u32

definition refindex :: "u32 \<Rightarrow> nat res" where
  "refindex pa =
     (if pa \<ge> PHYSTOP \<or> pa mod PGSIZE \<noteq> 0 then Panic ''refindex''
      else Ret (unat (pa div PGSIZE)))"

definition kfree :: "'z kmem_scheme \<Rightarrow> u32 \<Rightarrow> 'z kmem_scheme res" where
  "kfree s v =
     (if v mod PGSIZE \<noteq> 0 \<or> v < kend s \<or> V2P v \<ge> PHYSTOP then Panic ''kfree''
      else rbind (refindex (V2P v)) (\<lambda>idx.
        if refcnt s idx \<le> 0 then Panic ''kfree ref''
        else
          let s = s\<lparr>refcnt := (refcnt s)(idx := refcnt s idx - 1)\<rparr>
          in if refcnt s idx > 0 then Ret s
             else
               let m = mem_set (phys s) (V2P v) 1 PGSIZE;
                   m = store32 m (V2P v) (freelist s)
               in Ret (s\<lparr>phys := m, freelist := v\<rparr>)))"

definition kalloc :: "'z kmem_scheme \<Rightarrow> (u32 \<times> 'z kmem_scheme) res" where
  "kalloc s =
     (let r = freelist s
      in if r \<noteq> 0 then
           let s = s\<lparr>freelist := load32 (phys s) (V2P r)\<rparr>
           in rbind (refindex (V2P r)) (\<lambda>idx.
                Ret (r, s\<lparr>refcnt := (refcnt s)(idx := 1)\<rparr>))
         else Ret (r, s))"

definition kref_inc :: "'z kmem_scheme \<Rightarrow> u32 \<Rightarrow> 'z kmem_scheme res" where
  "kref_inc s pa =
     rbind (refindex pa) (\<lambda>idx.
       if refcnt s idx \<le> 0 then Panic ''kref_inc''
       else Ret (s\<lparr>refcnt := (refcnt s)(idx := refcnt s idx + 1)\<rparr>))"

definition kref_get :: "'z kmem_scheme \<Rightarrow> u32 \<Rightarrow> int res" where
  "kref_get s pa = rbind (refindex pa) (\<lambda>idx. Ret (refcnt s idx))"

lemma kfree_Ret_guard:
  "kfree s v = Ret s' \<Longrightarrow> v mod PGSIZE = 0 \<and> kend s \<le> v \<and> V2P v < PHYSTOP"
  by (auto simp: kfree_def split: if_splits)

text \<open>
  The loop of \<^verbatim>\<open>freerange\<close> cannot run past the end of the address space: \<^const>\<open>kfree\<close> panics
  on the first page at or above \<^const>\<open>PHYSTOP\<close>.
\<close>

lemma below_PHYSTOP_no_wrap: "V2P v < PHYSTOP \<Longrightarrow> unat v < unat (v + PGSIZE)"
proof -
  assume "V2P v < PHYSTOP"
  then have "unat (v - 0x80000000) < 234881024"
    by (simp add: V2P_def KERNBASE_def PHYSTOP_def word_less_nat_alt)
  then have "unat v < 4294963200"
    by (simp add: unat_sub_if_size word_size split: if_splits)
  then show ?thesis by (simp add: PGSIZE_def unat_word_ariths)
qed

function freerange_loop :: "'z kmem_scheme \<Rightarrow> u32 \<Rightarrow> u32 \<Rightarrow> 'z kmem_scheme res" where
  "freerange_loop s p vend =
     (if p + PGSIZE \<le> vend then
        let s = s\<lparr>refcnt := (refcnt s)(unat (V2P p div PGSIZE) := 1)\<rparr>
        in rbind (kfree s p) (\<lambda>s. freerange_loop s (p + PGSIZE) vend)
      else Ret s)"
  by pat_completeness auto
termination
  by (relation "measure (\<lambda>(s, p, vend). 4294967296 - unat p)")
     (auto dest!: kfree_Ret_guard below_PHYSTOP_no_wrap
           simp: unat_less_2p32 intro!: diff_less_mono2)

declare freerange_loop.simps [simp del]

definition freerange :: "'z kmem_scheme \<Rightarrow> u32 \<Rightarrow> u32 \<Rightarrow> 'z kmem_scheme res" where
  "freerange s vstart vend = freerange_loop s (PGROUNDUP vstart) vend"

definition kinit1 :: "'z kmem_scheme \<Rightarrow> u32 \<Rightarrow> u32 \<Rightarrow> 'z kmem_scheme res" where
  "kinit1 s vstart vend = freerange (s\<lparr>use_lock := False\<rparr>) vstart vend"

definition kinit2 :: "'z kmem_scheme \<Rightarrow> u32 \<Rightarrow> u32 \<Rightarrow> 'z kmem_scheme res" where
  "kinit2 s vstart vend =
     rbind (freerange s vstart vend) (\<lambda>s. Ret (s\<lparr>use_lock := True\<rparr>))"

section \<open>Pages and their counters\<close>

definition kpage :: "'z kmem_scheme \<Rightarrow> u32 \<Rightarrow> bool" where
  "kpage s v \<longleftrightarrow> aligned v \<and> kend s \<le> v \<and> V2P v < PHYSTOP"

definition pidx :: "u32 \<Rightarrow> nat" where
  "pidx v = unat (V2P v div PGSIZE)"

lemma mod_PGSIZE_iff: "a mod PGSIZE = 0 \<longleftrightarrow> aligned a"
  by (simp add: word_unat_eq_iff unat_mod PGSIZE_def aligned_iff_mod)

lemma unat_div_PGSIZE: "unat (a div PGSIZE) = unat a div 4096"
  by (simp add: unat_div PGSIZE_def)

lemma div_PGSIZE_inj: "aligned a \<Longrightarrow> aligned b \<Longrightarrow> unat (a div PGSIZE) = unat (b div PGSIZE) \<Longrightarrow> a = b"
  by (metis unat_div_PGSIZE PGROUNDDOWN_aligned unat_PGROUNDDOWN word_unat_eq_iff)

lemma pidx_inj: "aligned u \<Longrightarrow> aligned v \<Longrightarrow> pidx u = pidx v \<longleftrightarrow> u = v"
  by (auto simp: pidx_def dest: div_PGSIZE_inj [rotated 2])

lemma pidx_P2V: "pidx (P2V pa) = unat (pa div PGSIZE)"
  by (simp add: pidx_def)

lemma refindex_Ret [simp]: "aligned pa \<Longrightarrow> pa < PHYSTOP \<Longrightarrow> refindex pa = Ret (unat (pa div PGSIZE))"
  by (simp add: refindex_def mod_PGSIZE_iff not_le)

lemma kpage_nonzero: "kpage s v \<Longrightarrow> v \<noteq> 0"
  by (auto simp: kpage_def V2P_def KERNBASE_def PHYSTOP_def)

lemma kpage_aligned [simp]: "kpage s v \<Longrightarrow> aligned v"
  by (simp add: kpage_def)

lemma refindex_kpage [simp]: "kpage s v \<Longrightarrow> refindex (V2P v) = Ret (pidx v)"
  by (simp add: kpage_def pidx_def)

lemma kpage_cong: "kend s' = kend s \<Longrightarrow> kpage s' = kpage s"
  by (simp add: kpage_def fun_eq_iff)

text \<open>The page that the last reference to \<open>v\<close> gives back: junk-filled and linked in.\<close>

definition put_page :: "'z kmem_scheme \<Rightarrow> u32 \<Rightarrow> 'z kmem_scheme" where
  "put_page s v =
     s\<lparr>refcnt := (refcnt s)(pidx v := 0),
       phys := store32 (mem_set (phys s) (V2P v) 1 PGSIZE) (V2P v) (freelist s),
       freelist := v\<rparr>"

lemma kfree_not_kpage: "\<not> kpage s v \<Longrightarrow> kfree s v = Panic ''kfree''"
  by (auto simp: kfree_def kpage_def mod_PGSIZE_iff)

lemma kfree_no_owner: "kpage s v \<Longrightarrow> refcnt s (pidx v) \<le> 0 \<Longrightarrow> kfree s v = Panic ''kfree ref''"
  using refindex_kpage [of s v] by (simp add: kfree_def kpage_def mod_PGSIZE_iff not_less not_le)

lemma kfree_shared:
  "kpage s v \<Longrightarrow> 1 < refcnt s (pidx v) \<Longrightarrow>
     kfree s v = Ret (s\<lparr>refcnt := (refcnt s)(pidx v := refcnt s (pidx v) - 1)\<rparr>)"
  using refindex_kpage [of s v] by (simp add: kfree_def kpage_def mod_PGSIZE_iff Let_def not_less not_le)

lemma kfree_last:
  "kpage s v \<Longrightarrow> refcnt s (pidx v) = 1 \<Longrightarrow> kfree s v = Ret (put_page s v)"
  using refindex_kpage [of s v]
  by (simp add: kfree_def kpage_def mod_PGSIZE_iff Let_def put_page_def not_less not_le)

lemmas kfree_cases = kfree_not_kpage kfree_no_owner kfree_shared kfree_last

section \<open>The free list\<close>

text \<open>\<open>free_list_at m r xs\<close>: following the links from \<open>r\<close> visits the pages \<open>xs\<close> and ends.\<close>

fun free_list_at :: "pmem \<Rightarrow> u32 \<Rightarrow> u32 list \<Rightarrow> bool" where
  "free_list_at m r [] \<longleftrightarrow> r = 0"
| "free_list_at m r (x # xs) \<longleftrightarrow> r = x \<and> x \<noteq> 0 \<and> free_list_at m (load32 m (V2P x)) xs"

text \<open>
  \<open>kmem_rel s xs\<close>: the allocator state \<open>s\<close> holds the free pages \<open>xs\<close>, in list order; no page
  is on the list twice, a page on the list has no owner, and no count is negative.
\<close>

definition kmem_rel :: "'z kmem_scheme \<Rightarrow> u32 list \<Rightarrow> bool" where
  "kmem_rel s xs \<longleftrightarrow>
     free_list_at (phys s) (freelist s) xs \<and> distinct xs \<and>
     (\<forall>x \<in> set xs. kpage s x \<and> refcnt s (pidx x) = 0) \<and> (\<forall>i. 0 \<le> refcnt s i)"

definition kmem_inv :: "'z kmem_scheme \<Rightarrow> bool" where
  "kmem_inv s \<longleftrightarrow> (\<exists>xs. kmem_rel s xs)"

text \<open>The allocator holds every page without an owner: nothing has leaked.\<close>

definition no_leak :: "'z kmem_scheme \<Rightarrow> u32 list \<Rightarrow> bool" where
  "no_leak s xs \<longleftrightarrow> (\<forall>v. kpage s v \<longrightarrow> refcnt s (pidx v) = 0 \<longrightarrow> v \<in> set xs)"

lemma free_list_at_functional:
  "free_list_at m r xs \<Longrightarrow> free_list_at m r ys \<Longrightarrow> xs = ys"
proof (induction xs arbitrary: r ys)
  case Nil
  then show ?case by (cases ys) auto
next
  case (Cons x xs)
  then show ?case by (cases ys) auto
qed

lemma free_list_at_cong:
  assumes "free_list_at m r xs" "\<And>x. x \<in> set xs \<Longrightarrow> load32 m' (V2P x) = load32 m (V2P x)"
  shows "free_list_at m' r xs"
  using assms by (induction xs arbitrary: r) auto

lemma load32_V2P_frame_cong:
  "aligned x \<Longrightarrow> (\<And>a. PGROUNDDOWN a = V2P x \<Longrightarrow> m' a = m a) \<Longrightarrow> load32 m' (V2P x) = load32 m (V2P x)"
  by (rule load32_frame_cong) (auto simp: PGROUNDDOWN_aligned)

lemma kmem_rel_D:
  assumes "kmem_rel s xs"
  shows "free_list_at (phys s) (freelist s) xs" "distinct xs"
    "\<And>x. x \<in> set xs \<Longrightarrow> kpage s x" "\<And>x. x \<in> set xs \<Longrightarrow> refcnt s (pidx x) = 0"
    "0 \<le> refcnt s i"
  using assms by (auto simp: kmem_rel_def)

lemma kmem_rel_free_list:
  "kmem_rel s xs \<Longrightarrow> freelist s = (case xs of [] \<Rightarrow> 0 | x # _ \<Rightarrow> x)"
  by (cases xs) (auto simp: kmem_rel_def)

section \<open>What each routine does to a well-formed allocator\<close>

lemma kalloc_empty: "kmem_rel s [] \<Longrightarrow> kalloc s = Ret (0, s)"
  by (simp add: kalloc_def kmem_rel_def)

lemma kalloc_Cons:
  assumes "kmem_rel s (x # xs)"
  shows "\<exists>r. kalloc s = Ret (x, s\<lparr>freelist := r, refcnt := (refcnt s)(pidx x := 1)\<rparr>) \<and>
             kmem_rel (s\<lparr>freelist := r, refcnt := (refcnt s)(pidx x := 1)\<rparr>) xs"
proof -
  note rel = kmem_rel_D [OF assms]
  have x: "freelist s = x" "x \<noteq> 0" and l: "free_list_at (phys s) (load32 (phys s) (V2P x)) xs"
    using rel(1) by auto
  have kp: "kpage s x" using rel(3) by simp
  have "pidx y \<noteq> pidx x" if "y \<in> set xs" for y
    using that rel(2) rel(3) [of y] kp by (auto simp: pidx_inj)
  then have "kmem_rel (s\<lparr>freelist := load32 (phys s) (V2P x), refcnt := (refcnt s)(pidx x := 1)\<rparr>) xs"
    using rel l by (auto simp: kmem_rel_def kpage_def)
  with x kp show ?thesis by (auto simp: kalloc_def Let_def)
qed

lemma put_page_rel:
  assumes "kmem_rel s xs" "kpage s v" "v \<notin> set xs"
  shows "kmem_rel (put_page s v) (v # xs)"
proof -
  note rel = kmem_rel_D [OF assms(1)]
  let ?m = "store32 (mem_set (phys s) (V2P v) 1 PGSIZE) (V2P v) (freelist s)"
  have other: "load32 ?m (V2P x) = load32 (phys s) (V2P x)" if "x \<in> set xs" for x
  proof (rule load32_V2P_frame_cong)
    show "aligned x" using rel(3) [OF that] by simp
    fix a assume "PGROUNDDOWN a = V2P x"
    moreover have "x \<noteq> v" using that assms(3) by auto
    ultimately show "?m a = phys s a" using assms(2)
      by (simp add: mem_set_page PGROUNDDOWN_aligned)
  qed
  have "free_list_at ?m v (v # xs)"
    using free_list_at_cong [OF rel(1) other] kpage_nonzero [OF assms(2)] by simp
  moreover have "kpage (put_page s v) x" if "kpage s x" for x
    using that by (simp add: put_page_def kpage_def)
  ultimately show ?thesis
    using rel assms by (auto simp: kmem_rel_def put_page_def)
qed

lemma kmem_rel_set_ref:
  assumes "kmem_rel s xs" "0 < n" "refcnt s i \<noteq> 0"
  shows "kmem_rel (s\<lparr>refcnt := (refcnt s)(i := n)\<rparr>) xs"
  using assms by (auto simp: kmem_rel_def kpage_def)

lemma kfree_rel:
  assumes "kmem_rel s xs" "kpage s v" "0 < refcnt s (pidx v)"
  shows "\<exists>s'. kfree s v = Ret s' \<and> kend s' = kend s \<and>
    refcnt s' = (refcnt s)(pidx v := refcnt s (pidx v) - 1) \<and>
    kmem_rel s' (if refcnt s (pidx v) = 1 then v # xs else xs) \<and>
    (\<forall>a. PGROUNDDOWN a \<noteq> V2P v \<or> 1 < refcnt s (pidx v) \<longrightarrow> phys s' a = phys s a)"
proof (cases "refcnt s (pidx v) = 1")
  case True
  have "v \<notin> set xs" using kmem_rel_D(4) [OF assms(1)] assms(3) by fastforce
  then have "kmem_rel (put_page s v) (v # xs)" by (rule put_page_rel [OF assms(1,2)])
  moreover have "phys (put_page s v) a = phys s a" if "PGROUNDDOWN a \<noteq> V2P v" for a
    using that assms(2) by (simp add: put_page_def mem_set_page PGROUNDDOWN_aligned)
  ultimately show ?thesis
    using True kfree_last [OF assms(2) True] by (simp add: put_page_def)
next
  case False
  with assms(3) have "1 < refcnt s (pidx v)" by simp
  then show ?thesis
    using False kfree_shared [OF assms(2)] kmem_rel_set_ref [OF assms(1)] by simp
qed

lemma kref_inc_rel:
  assumes "kmem_rel s xs" "kpage s v" "0 < refcnt s (pidx v)"
  shows "kref_inc s (V2P v) = Ret (s\<lparr>refcnt := (refcnt s)(pidx v := refcnt s (pidx v) + 1)\<rparr>) \<and>
    kmem_rel (s\<lparr>refcnt := (refcnt s)(pidx v := refcnt s (pidx v) + 1)\<rparr>) xs"
  using assms(2,3) by (simp add: kref_inc_def kmem_rel_set_ref [OF assms(1)])

text \<open>The routines touch their own fields only, whatever larger state they are part of.\<close>

lemma kalloc_frame: "kalloc s = Ret (p, s') \<Longrightarrow>
    kend s' = kend s \<and> use_lock s' = use_lock s \<and> phys s' = phys s \<and> kmem.more s' = kmem.more s"
  by (auto simp: kalloc_def Let_def res_simps split: if_splits)

lemma kfree_frame: "kfree s v = Ret s' \<Longrightarrow>
    kend s' = kend s \<and> use_lock s' = use_lock s \<and> kmem.more s' = kmem.more s"
  by (auto simp: kfree_def Let_def res_simps split: if_splits)

lemma kref_inc_frame: "kref_inc s pa = Ret s' \<Longrightarrow>
    kend s' = kend s \<and> use_lock s' = use_lock s \<and> phys s' = phys s \<and> freelist s' = freelist s \<and>
    kmem.more s' = kmem.more s"
  by (auto simp: kref_inc_def res_simps split: if_splits)

section \<open>The interface the rest of the kernel relies on\<close>

text \<open>
  A page allocator with counted references. The clients in \<^verbatim>\<open>vm.c\<close> and \<^verbatim>\<open>proc.c\<close> rely on
  these laws only: a new page had no owner and has one, nothing else changes; dropping a
  reference never touches memory that somebody else owns.
\<close>

locale page_allocator =
  fixes inv :: "'s \<Rightarrow> bool" and mem :: "'s \<Rightarrow> pmem" and refs :: "'s \<Rightarrow> nat \<Rightarrow> int"
    and page :: "'s \<Rightarrow> u32 \<Rightarrow> bool"
    and alloc :: "'s \<Rightarrow> (u32 \<times> 's) res" and drop :: "'s \<Rightarrow> u32 \<Rightarrow> 's res"
    and dup :: "'s \<Rightarrow> u32 \<Rightarrow> 's res"
  assumes alloc_total: "inv s \<Longrightarrow> \<exists>p s'. alloc s = Ret (p, s')"
    and alloc_inv: "inv s \<Longrightarrow> alloc s = Ret (p, s') \<Longrightarrow> inv s' \<and> mem s' = mem s \<and> page s' = page s"
    and alloc_new: "inv s \<Longrightarrow> alloc s = Ret (p, s') \<Longrightarrow> p \<noteq> 0 \<Longrightarrow>
      page s p \<and> refs s (pidx p) = 0 \<and> refs s' = (refs s)(pidx p := 1)"
    and alloc_none: "inv s \<Longrightarrow> alloc s = Ret (0, s') \<Longrightarrow> s' = s"
    and refs_nonneg: "inv s \<Longrightarrow> 0 \<le> refs s i"
    and drop_law: "inv s \<Longrightarrow> page s p \<Longrightarrow> 0 < refs s (pidx p) \<Longrightarrow>
      \<exists>s'. drop s p = Ret s' \<and> inv s' \<and> page s' = page s \<and>
        refs s' = (refs s)(pidx p := refs s (pidx p) - 1) \<and>
        (\<forall>a. PGROUNDDOWN a \<noteq> V2P p \<or> 1 < refs s (pidx p) \<longrightarrow> mem s' a = mem s a)"
    and dup_law: "inv s \<Longrightarrow> page s p \<Longrightarrow> 0 < refs s (pidx p) \<Longrightarrow>
      \<exists>s'. dup s (V2P p) = Ret s' \<and> inv s' \<and> page s' = page s \<and> mem s' = mem s \<and>
        refs s' = (refs s)(pidx p := refs s (pidx p) + 1)"
begin

text \<open>A page that has an owner is never handed out again.\<close>

lemma alloc_not_owned:
  "inv s \<Longrightarrow> alloc s = Ret (p, s') \<Longrightarrow> p \<noteq> 0 \<Longrightarrow> 0 < refs s (pidx q) \<Longrightarrow> pidx q \<noteq> pidx p"
  using alloc_new by fastforce

lemma alloc_refs_mono:
  "inv s \<Longrightarrow> alloc s = Ret (p, s') \<Longrightarrow> refs s i \<le> refs s' i"
  using alloc_new [of s p s'] alloc_none [of s s'] by (cases "p = 0") auto

text \<open>Giving a page back undoes taking it, as far as ownership goes.\<close>

lemma alloc_drop:
  assumes "inv s" "alloc s = Ret (p, s')" "p \<noteq> 0"
  shows "\<exists>s''. drop s' p = Ret s'' \<and> inv s'' \<and> refs s'' = refs s"
proof -
  note new = alloc_new [OF assms] and inv = alloc_inv [OF assms(1,2)]
  have "page s' p" "0 < refs s' (pidx p)" using new inv by auto
  then obtain s'' where "drop s' p = Ret s''" "inv s''"
      "refs s'' = (refs s')(pidx p := refs s' (pidx p) - 1)"
    using drop_law inv by blast
  with new show ?thesis by auto
qed

lemma dup_drop:
  assumes "inv s" "page s p" "0 < refs s (pidx p)"
  shows "\<exists>s' s''. dup s (V2P p) = Ret s' \<and> drop s' p = Ret s'' \<and> inv s'' \<and>
    refs s'' = refs s \<and> mem s'' = mem s"
proof -
  obtain s' where s': "dup s (V2P p) = Ret s'" "inv s'" "page s' = page s" "mem s' = mem s"
      "refs s' = (refs s)(pidx p := refs s (pidx p) + 1)"
    using dup_law [OF assms] by blast
  moreover have "0 < refs s' (pidx p)" "1 < refs s' (pidx p)" using s'(5) assms(3) by auto
  ultimately obtain s'' where "drop s' p = Ret s''" "inv s''"
      "refs s'' = (refs s')(pidx p := refs s' (pidx p) - 1)" "\<forall>a. mem s'' a = mem s' a"
    using drop_law [of s' p] assms(2) by auto
  with s' show ?thesis by auto
qed

end

lemma kmem_inv_alloc:
  assumes "kmem_inv s"
  shows "\<exists>p s'. kalloc s = Ret (p, s') \<and> kmem_inv s' \<and> phys s' = phys s \<and> kend s' = kend s \<and>
    (if p = 0 then s' = s
     else kpage s p \<and> refcnt s (pidx p) = 0 \<and> refcnt s' = (refcnt s)(pidx p := 1))"
proof -
  obtain xs where xs: "kmem_rel s xs" using assms by (auto simp: kmem_inv_def)
  show ?thesis
  proof (cases xs)
    case Nil
    then show ?thesis using xs kalloc_empty [of s] assms by auto
  next
    case (Cons x ys)
    then obtain r where "kalloc s = Ret (x, s\<lparr>freelist := r, refcnt := (refcnt s)(pidx x := 1)\<rparr>)"
        "kmem_rel (s\<lparr>freelist := r, refcnt := (refcnt s)(pidx x := 1)\<rparr>) ys"
      using kalloc_Cons [of s x ys] xs by auto
    moreover have "kpage s x" "refcnt s (pidx x) = 0" using kmem_rel_D [OF xs] Cons by auto
    ultimately show ?thesis using kpage_nonzero by (fastforce simp: kmem_inv_def)
  qed
qed

interpretation ka: page_allocator kmem_inv phys refcnt kpage kalloc kfree kref_inc
proof
  fix s :: "'z kmem_scheme" and p s' assume inv: "kmem_inv s"
  from kmem_inv_alloc [OF inv] show "\<exists>p s'. kalloc s = Ret (p, s')" by blast
  show "0 \<le> refcnt s i" for i using inv kmem_rel_D(5) by (auto simp: kmem_inv_def)
  show "kalloc s = Ret (0, s') \<Longrightarrow> s' = s" using kmem_inv_alloc [OF inv] by auto
  show "kalloc s = Ret (p, s') \<Longrightarrow> p \<noteq> 0 \<Longrightarrow>
      kpage s p \<and> refcnt s (pidx p) = 0 \<and> refcnt s' = (refcnt s)(pidx p := 1)"
    using kmem_inv_alloc [OF inv] by auto
  show "kalloc s = Ret (p, s') \<Longrightarrow> kmem_inv s' \<and> phys s' = phys s \<and> kpage s' = kpage s"
    using kmem_inv_alloc [OF inv] by (auto intro: kpage_cong)
next
  fix s :: "'z kmem_scheme" and p assume "kmem_inv s" "kpage s p" "0 < refcnt s (pidx p)"
  then obtain xs where xs: "kmem_rel s xs" "kpage s p" "0 < refcnt s (pidx p)"
    by (auto simp: kmem_inv_def)
  show "\<exists>s'. kfree s p = Ret s' \<and> kmem_inv s' \<and> kpage s' = kpage s \<and>
        refcnt s' = (refcnt s)(pidx p := refcnt s (pidx p) - 1) \<and>
        (\<forall>a. PGROUNDDOWN a \<noteq> V2P p \<or> 1 < refcnt s (pidx p) \<longrightarrow> phys s' a = phys s a)"
    using kfree_rel [OF xs] unfolding kmem_inv_def by (blast intro: kpage_cong)
  show "\<exists>s'. kref_inc s (V2P p) = Ret s' \<and> kmem_inv s' \<and> kpage s' = kpage s \<and>
        phys s' = phys s \<and> refcnt s' = (refcnt s)(pidx p := refcnt s (pidx p) + 1)"
    using kref_inc_rel [OF xs] by (auto simp: kmem_inv_def kpage_def fun_eq_iff)
qed

section \<open>Boot\<close>

definition page_range :: "u32 \<Rightarrow> u32 \<Rightarrow> u32 set" where
  "page_range lo hi = {v. aligned v \<and> lo \<le> v \<and> unat v + 4096 \<le> unat hi}"

lemma page_range_step:
  assumes "aligned p" "unat p + 4096 \<le> unat hi"
  shows "page_range p hi = insert p (page_range (p + PGSIZE) hi)"
proof -
  have u: "unat (p + PGSIZE) = unat p + 4096"
    using assms(2) unat_less_2p32 [of hi] unat_add_no_wrap [of p PGSIZE] by (simp add: PGSIZE_def)
  have "p + PGSIZE \<le> v" if "aligned v" "p \<le> v" "v \<noteq> p" for v
  proof (rule aligned_le)
    show "aligned (p + PGSIZE)" "aligned v" using assms(1) that(1) by simp_all
    show "unat (p + PGSIZE) < unat v + 4096"
      using that(2,3) by (simp add: u word_le_nat_alt word_unat_eq_iff)
  qed
  moreover have "p \<le> v" if "p + PGSIZE \<le> v" for v
    using that by (simp add: word_le_nat_alt u)
  ultimately show ?thesis
    using assms by (auto simp: page_range_def)
qed

lemma page_range_empty: "\<not> unat p + 4096 \<le> unat hi \<Longrightarrow> page_range p hi = {}"
  by (auto simp: page_range_def word_le_nat_alt)

lemma freerange_loop_rel:
  assumes "kmem_rel s xs" "aligned p" "kend s \<le> p" "KERNBASE \<le> p" "vend \<le> P2V PHYSTOP"
    "\<forall>x \<in> set xs. x < p" "p \<le> P2V PHYSTOP"
  shows "\<exists>s' ys. freerange_loop s p vend = Ret s' \<and> kmem_rel s' ys \<and>
    set ys = set xs \<union> page_range p vend \<and> kend s' = kend s \<and>
    (\<forall>i. i \<notin> pidx ` page_range p vend \<longrightarrow> refcnt s' i = refcnt s i)"
  using assms
proof (induction s p vend arbitrary: xs rule: freerange_loop.induct)
  case (1 s p vend)
  have hi: "unat vend \<le> 2382364672"
    using "1.prems"(5) by (simp add: word_le_nat_alt P2V_def PHYSTOP_def KERNBASE_def)
  have "unat p \<le> 2382364672"
    using "1.prems"(7) by (simp add: word_le_nat_alt P2V_def PHYSTOP_def KERNBASE_def)
  then have u: "unat (p + PGSIZE) = unat p + 4096"
    using unat_add_no_wrap [of p PGSIZE] by (simp add: PGSIZE_def)
  have e: "unat (V2P p div PGSIZE) = pidx p" by (simp add: pidx_def)
  show ?case
  proof (cases "unat p + 4096 \<le> unat vend")
    case False
    have "\<not> p + PGSIZE \<le> vend" using False by (simp add: word_le_nat_alt u)
    with False "1.prems"(1) show ?thesis
      by (auto simp: freerange_loop.simps [of s p vend] page_range_empty)
  next
    case True
    have le: "p + PGSIZE \<le> vend" using True by (simp add: word_le_nat_alt u)
    let ?s = "s\<lparr>refcnt := (refcnt s)(pidx p := 1)\<rparr>"
    have kp: "kpage s p"
      using "1.prems" True hi
      by (simp add: kpage_def word_less_nat_alt unat_V2P PHYSTOP_def)
    have np: "p \<notin> set xs" using "1.prems"(6) by auto
    have rel: "kmem_rel ?s xs"
      using "1.prems"(1) np kp by (auto simp: kmem_rel_def kpage_def pidx_inj)
    have kp': "kpage ?s p" using kp by (simp add: kpage_def)
    have free: "kfree ?s p = Ret (put_page ?s p)" by (rule kfree_last [OF kp']) simp
    have rel': "kmem_rel (put_page ?s p) (p # xs)" by (rule put_page_rel [OF rel kp' np])
    have lt: "p < p + PGSIZE" by (simp add: word_less_nat_alt u)
    have "\<exists>s' ys. freerange_loop (put_page ?s p) (p + PGSIZE) vend = Ret s' \<and> kmem_rel s' ys \<and>
      set ys = set (p # xs) \<union> page_range (p + PGSIZE) vend \<and> kend s' = kend (put_page ?s p) \<and>
      (\<forall>i. i \<notin> pidx ` page_range (p + PGSIZE) vend \<longrightarrow> refcnt s' i = refcnt (put_page ?s p) i)"
      using "1.prems" lt le
      by (intro "1.IH" [OF le refl, unfolded e, OF free rel']) (auto simp: put_page_def)
    then show ?thesis
      using le free page_range_step [OF "1.prems"(2) True]
      by (auto simp: freerange_loop.simps [of s p vend] put_page_def e)
  qed
qed

lemma unat_P2V_PHYSTOP: "unat (P2V PHYSTOP) = 2382364672"
  by (simp add: P2V_def PHYSTOP_def KERNBASE_def)

lemma freerange_rel:
  assumes "kmem_rel s xs" "kend s \<le> lo" "KERNBASE \<le> lo" "lo \<le> vend" "vend \<le> P2V PHYSTOP"
    "\<forall>x \<in> set xs. x < lo" "aligned vend"
  shows "\<exists>s' ys. freerange s lo vend = Ret s' \<and> kmem_rel s' ys \<and>
    set ys = set xs \<union> page_range lo vend \<and> kend s' = kend s \<and>
    (\<forall>i. i \<notin> pidx ` page_range lo vend \<longrightarrow> refcnt s' i = refcnt s i)"
proof -
  have b: "unat lo \<le> unat vend" "unat vend \<le> 2382364672"
    using assms(4,5) by (simp_all add: word_le_nat_alt unat_P2V_PHYSTOP)
  then have b': "unat lo \<le> 4294963200" by simp
  note up = PGROUNDUP_bounds [OF b']
  have r: "page_range (PGROUNDUP lo) vend = page_range lo vend"
  proof -
    have "PGROUNDUP lo \<le> v" if "aligned v" "lo \<le> v" for v
      using aligned_le [OF up(1) that(1)] up(3) that(2) by (simp add: word_le_nat_alt)
    then show ?thesis using up(2) by (auto simp: page_range_def)
  qed
  have "PGROUNDUP lo \<le> vend"
    using aligned_le [OF up(1) assms(7)] up(3) b(1) by simp
  then have "PGROUNDUP lo \<le> P2V PHYSTOP" using assms(5) by simp
  with up assms show ?thesis
    using freerange_loop_rel [of s xs "PGROUNDUP lo" vend] unfolding r freerange_def by fastforce
qed

text \<open>The two calls of \<^verbatim>\<open>main\<close> that hand the memory above the kernel to the allocator.\<close>

definition entry_top :: u32 where
  "entry_top = P2V (4 * 1024 * 1024)"

definition kboot :: "'z kmem_scheme \<Rightarrow> 'z kmem_scheme res" where
  "kboot s =
     rbind (kinit1 s (kend s) entry_top)
       (\<lambda>s. kinit2 s entry_top (P2V PHYSTOP))"

definition kmem_bss :: "pmem \<Rightarrow> u32 \<Rightarrow> kmem" where
  "kmem_bss m e = \<lparr>phys = m, freelist = 0, refcnt = (\<lambda>_. 0), use_lock = False, kend = e\<rparr>"

lemma kpage_iff_page_range: "KERNBASE \<le> kend s \<Longrightarrow> kpage s v \<longleftrightarrow> v \<in> page_range (kend s) (P2V PHYSTOP)"
proof -
  assume k: "KERNBASE \<le> kend s"
  have "V2P v < PHYSTOP \<longleftrightarrow> unat v + 4096 \<le> unat (P2V PHYSTOP)"
    if a: "aligned v" and v: "kend s \<le> v"
  proof -
    have v: "KERNBASE \<le> v" using k v by simp
    obtain j where "unat v = 4096 * j" by (rule alignedE [OF a])
    then show ?thesis
      by (simp add: word_less_nat_alt unat_V2P [OF v] unat_P2V_PHYSTOP) (simp add: PHYSTOP_def, arith)
  qed
  then show ?thesis unfolding kpage_def page_range_def by blast
qed

lemma freerange_loop_frame:
  "freerange_loop s p vend = Ret s' \<Longrightarrow> kend s' = kend s \<and> kmem.more s' = kmem.more s"
proof (induction s p vend rule: freerange_loop.induct)
  case (1 s p vend)
  show ?case
  proof (cases "p + PGSIZE \<le> vend")
    case True
    let ?s = "s\<lparr>refcnt := (refcnt s)(unat (V2P p div PGSIZE) := 1)\<rparr>"
    obtain s1 where s1: "kfree ?s p = Ret s1" "freerange_loop s1 (p + PGSIZE) vend = Ret s'"
      using "1.prems" True by (auto simp: freerange_loop.simps [of s p] res_simps Let_def)
    then show ?thesis using "1.IH" [OF True refl s1] kfree_frame [OF s1(1)] by simp
  qed (use "1.prems" in \<open>simp add: freerange_loop.simps [of s p]\<close>)
qed

lemma kboot_frame: "kboot s = Ret s' \<Longrightarrow> kend s' = kend s \<and> kmem.more s' = kmem.more s"
  by (auto simp: kboot_def kinit1_def kinit2_def freerange_def res_simps dest!: freerange_loop_frame)

text \<open>Booting from the zero-initialised data segment frees every page of the kernel's memory.\<close>

lemma kboot_gen:
  fixes s0 :: "'z kmem_scheme"
  assumes s0: "freelist s0 = 0" "refcnt s0 = (\<lambda>_. 0)" and "KERNBASE \<le> kend s0" "kend s0 \<le> entry_top"
  shows "\<exists>s ys. kboot s0 = Ret s \<and> kmem_rel s ys \<and> no_leak s ys \<and> use_lock s \<and>
    set ys = Collect (kpage s)"
proof -
  define e where "e = kend s0"
  note assms = assms(3,4) [folded e_def]
  let ?mid = entry_top
  have mid: "unat ?mid = 2151677952" "aligned ?mid"
    by (simp_all add: entry_top_def P2V_def KERNBASE_def aligned_def)
  have e: "unat e \<le> 2151677952" using assms(2) by (simp add: word_le_nat_alt mid)
  have "kmem_rel (s0\<lparr>use_lock := False\<rparr>) []" by (simp add: kmem_rel_def s0)
  then obtain s1 ys1 where s1: "kinit1 s0 e ?mid = Ret s1" "kmem_rel s1 ys1"
      "set ys1 = page_range e ?mid" "kend s1 = e"
    using freerange_rel [of "s0\<lparr>use_lock := False\<rparr>" "[]" e ?mid] assms mid
    by (auto simp: kinit1_def e_def word_le_nat_alt unat_P2V_PHYSTOP)
  have below: "\<forall>x \<in> set ys1. x < ?mid" by (auto simp: s1 page_range_def word_less_nat_alt)
  have top: "aligned (P2V PHYSTOP)" by (simp add: aligned_def PHYSTOP_def P2V_def KERNBASE_def)
  have b: "kend s1 \<le> ?mid" "KERNBASE \<le> ?mid" "?mid \<le> P2V PHYSTOP"
    using e by (simp_all add: s1 word_le_nat_alt mid unat_P2V_PHYSTOP KERNBASE_def)
  obtain s2 ys2 where s2: "freerange s1 ?mid (P2V PHYSTOP) = Ret s2" "kmem_rel s2 ys2"
      "set ys2 = set ys1 \<union> page_range ?mid (P2V PHYSTOP)" "kend s2 = e"
    using freerange_rel [OF s1(2) b(1,2,3) order_refl below top] s1(4) by auto
  have "page_range e ?mid \<union> page_range ?mid (P2V PHYSTOP) = page_range e (P2V PHYSTOP)"
  proof -
    have "unat v + 4096 \<le> unat ?mid \<or> ?mid \<le> v" if "aligned v" for v
      using aligned_le [OF mid(2) that] not_less by blast
    moreover have "e \<le> v" if "?mid \<le> v" for v using that assms(2) by simp
    moreover have "unat ?mid \<le> unat (P2V PHYSTOP)" by (simp add: mid unat_P2V_PHYSTOP)
    ultimately show ?thesis unfolding page_range_def by fastforce
  qed
  then have all: "set ys2 = Collect (kpage s2)"
    using s2 s1(3) kpage_iff_page_range [of s2] assms(1) by auto
  let ?s = "s2\<lparr>use_lock := True\<rparr>"
  have "kmem_rel ?s ys2" using s2(2) by (simp add: kmem_rel_def kpage_def)
  moreover have "kpage ?s = kpage s2" by (rule kpage_cong) simp
  moreover have "kboot s0 = Ret ?s"
    using s1(1) s2(1) by (simp add: kboot_def kinit2_def e_def)
  ultimately show ?thesis using all by (auto simp: no_leak_def)
qed

lemma kboot_rel:
  assumes "KERNBASE \<le> e" "e \<le> entry_top"
  shows "\<exists>s ys. kboot (kmem_bss m e) = Ret s \<and> kmem_rel s ys \<and> no_leak s ys \<and> use_lock s \<and>
    set ys = Collect (kpage s)"
  by (rule kboot_gen) (simp_all add: kmem_bss_def assms)

text \<open>
  The allocator as a state machine: it boots as \<^verbatim>\<open>main\<close> does, then runs any sequence of calls
  that return (a call that panics stops the machine).
\<close>

inductive kreach :: "kmem \<Rightarrow> bool" where
  boot: "KERNBASE \<le> e \<Longrightarrow> e \<le> entry_top \<Longrightarrow> kboot (kmem_bss m e) = Ret s \<Longrightarrow> kreach s"
| alloc: "kreach s \<Longrightarrow> kalloc s = Ret (p, s') \<Longrightarrow> kreach s'"
| free: "kreach s \<Longrightarrow> kfree s v = Ret s' \<Longrightarrow> kreach s'"
| share: "kreach s \<Longrightarrow> kref_inc s pa = Ret s' \<Longrightarrow> kreach s'"

definition kmem_sound :: "'z kmem_scheme \<Rightarrow> bool" where
  "kmem_sound s \<longleftrightarrow> (\<exists>xs. kmem_rel s xs \<and> no_leak s xs)"

lemma kmem_sound_alloc: "kmem_sound s \<Longrightarrow> kalloc s = Ret (p, s') \<Longrightarrow> kmem_sound s'"
proof -
  assume "kmem_sound s" and a: "kalloc s = Ret (p, s')"
  then obtain xs where xs: "kmem_rel s xs" "no_leak s xs" by (auto simp: kmem_sound_def)
  show ?thesis
  proof (cases xs)
    case Nil
    then show ?thesis using a xs kalloc_empty [of s] by (auto simp: kmem_sound_def)
  next
    case (Cons x ys)
    then have "kmem_rel s' ys" "refcnt s' = (refcnt s)(pidx x := 1)" "kend s' = kend s"
      using kalloc_Cons [of s x ys] xs(1) a by auto
    moreover have "no_leak s' ys"
      using xs(2) Cons calculation kpage_cong [of s' s] by (auto simp: no_leak_def split: if_splits)
    ultimately show ?thesis by (auto simp: kmem_sound_def)
  qed
qed

lemma kmem_sound_free: "kmem_sound s \<Longrightarrow> kfree s v = Ret s' \<Longrightarrow> kmem_sound s'"
proof -
  assume "kmem_sound s" and f: "kfree s v = Ret s'"
  then obtain xs where xs: "kmem_rel s xs" "no_leak s xs" by (auto simp: kmem_sound_def)
  have v: "kpage s v" "0 < refcnt s (pidx v)"
    using f kfree_not_kpage [of s v] kfree_no_owner [of s v] by (fastforce simp: not_le)+
  let ?ys = "if refcnt s (pidx v) = 1 then v # xs else xs"
  have s': "kend s' = kend s" "refcnt s' = (refcnt s)(pidx v := refcnt s (pidx v) - 1)"
      "kmem_rel s' ?ys"
    using kfree_rel [OF xs(1) v] f by auto
  have "w \<in> set ?ys" if "kpage s w" "refcnt s' (pidx w) = 0" for w
    using that xs(2) v by (auto simp: s' no_leak_def pidx_inj split: if_splits)
  then have "no_leak s' ?ys"
    using kpage_cong [OF s'(1)] unfolding no_leak_def by simp
  with s'(3) show ?thesis by (auto simp: kmem_sound_def)
qed

lemma kmem_sound_share: "kmem_sound s \<Longrightarrow> kref_inc s pa = Ret s' \<Longrightarrow> kmem_sound s'"
proof -
  assume "kmem_sound s" and f: "kref_inc s pa = Ret s'"
  then obtain xs where xs: "kmem_rel s xs" "no_leak s xs" by (auto simp: kmem_sound_def)
  obtain i where i: "0 < refcnt s i" "s' = s\<lparr>refcnt := (refcnt s)(i := refcnt s i + 1)\<rparr>"
    using f by (auto simp: kref_inc_def res_simps not_le split: if_splits)
  have "kmem_rel s' xs" using i kmem_rel_set_ref [OF xs(1)] by simp
  moreover have "no_leak s' xs"
    using xs(2) i by (auto simp: no_leak_def kpage_def split: if_splits)
  ultimately show ?thesis by (auto simp: kmem_sound_def)
qed

lemma kreach_sound: "kreach s \<Longrightarrow> kmem_sound s"
proof (induction rule: kreach.induct)
  case (boot e m s)
  then show ?case using kboot_rel [of e m] by (auto simp: kmem_sound_def)
qed (blast intro: kmem_sound_alloc kmem_sound_free kmem_sound_share)+

section \<open>Properties\<close>

lemma kboot_reachable: "\<exists>s. kreach s \<and> (\<forall>v. kpage s v \<longrightarrow> refcnt s (pidx v) = 0) \<and> kpage s 0x80500000"
proof -
  have e: "KERNBASE \<le> (0x80200000 :: u32)" "0x80200000 \<le> entry_top"
    by (simp_all add: KERNBASE_def entry_top_def P2V_def)
  obtain s ys where s: "kboot (kmem_bss (\<lambda>_. 0) 0x80200000) = Ret s" "kmem_rel s ys" "set ys = Collect (kpage s)"
    using kboot_rel [OF e, of "\<lambda>_. 0"] by blast
  have "kend s = 0x80200000" using kboot_frame [OF s(1)] by (simp add: kmem_bss_def)
  then have "kpage s 0x80500000" by (simp add: kpage_def aligned_def V2P_def KERNBASE_def PHYSTOP_def)
  moreover have "refcnt s (pidx v) = 0" if "kpage s v" for v using that kmem_rel_D(4) [OF s(2)] s(3) by blast
  ultimately show ?thesis using kreach.boot [OF e s(1)] by blast
qed

text \<open>C28. In every state that the allocator reaches from boot by any sequence of allocations, frees
  and shares, the linked free list ends, has no page twice, and holds exactly the pages of kernel
  memory whose reference count is 0: no page leaks and none is handed out while it has an owner.\<close>

theorem kalloc_free_list_exact:
  assumes "kreach s"
  shows "\<exists>xs. free_list_at (phys s) (freelist s) xs \<and> distinct xs \<and>
    set xs = {v. kpage s v \<and> refcnt s (pidx v) = 0}"
  using kreach_sound [OF assms] by (fastforce simp: kmem_sound_def kmem_rel_def no_leak_def)

theorem kalloc_free_list_exact_witness:
  "\<exists>s xs. kreach s \<and> free_list_at (phys s) (freelist s) xs \<and> distinct xs \<and> 0x80500000 \<in> set xs"
proof -
  obtain s where "kreach s" "\<forall>v. kpage s v \<longrightarrow> refcnt s (pidx v) = 0" "kpage s 0x80500000"
    using kboot_reachable by blast
  then show ?thesis using kalloc_free_list_exact [of s] by fastforce
qed

text \<open>C29. \<^const>\<open>kalloc\<close> never panics in a reachable state. It returns 0 only when every page of
  kernel memory has an owner; otherwise it returns a page that nobody owned, which then has exactly
  one owner, and no other count and no byte of memory changes.\<close>

theorem kalloc_fresh:
  assumes "kreach s"
  shows "\<exists>p s'. kalloc s = Ret (p, s') \<and> phys s' = phys s \<and>
    (if \<forall>v. kpage s v \<longrightarrow> 0 < refcnt s (pidx v) then p = 0 \<and> s' = s
     else kpage s p \<and> refcnt s (pidx p) = 0 \<and> refcnt s' = (refcnt s)(pidx p := 1))"
proof -
  obtain xs where xs: "kmem_rel s xs" "no_leak s xs"
    using kreach_sound [OF assms] by (auto simp: kmem_sound_def)
  show ?thesis
  proof (cases xs)
    case Nil
    then have "\<forall>v. kpage s v \<longrightarrow> 0 < refcnt s (pidx v)"
      using xs kmem_rel_D(5) [OF xs(1)] by (fastforce simp: no_leak_def less_le)
    then show ?thesis using kalloc_empty xs(1) Nil by auto
  next
    case (Cons x ys)
    then have "kpage s x" "refcnt s (pidx x) = 0" using kmem_rel_D(3,4) [OF xs(1)] by auto
    moreover from this have "\<not> (\<forall>v. kpage s v \<longrightarrow> 0 < refcnt s (pidx v))" by auto
    ultimately show ?thesis using kalloc_Cons [of s x ys] xs(1) Cons by (auto simp del: not_all)
  qed
qed

theorem kalloc_fresh_witness: "\<exists>s p s'. kreach s \<and> kalloc s = Ret (p, s') \<and> kpage s p"
proof -
  obtain s where s: "kreach s" "\<forall>v. kpage s v \<longrightarrow> refcnt s (pidx v) = 0" "kpage s 0x80500000"
    using kboot_reachable by blast
  then have "(\<forall>v. kpage s v \<longrightarrow> 0 < refcnt s (pidx v)) = False" by auto
  then show ?thesis using kalloc_fresh [OF s(1)] s(1) by (simp only: if_False) blast
qed

text \<open>The free list is a stack: after the last reference to a page is dropped, the next
  allocation returns that page, and the free list and all counts are as they were.\<close>

theorem kfree_kalloc:
  assumes "kpage s v" "refcnt s (pidx v) = 1"
  shows "\<exists>s1 s2. kfree s v = Ret s1 \<and> kalloc s1 = Ret (v, s2) \<and> freelist s2 = freelist s \<and> refcnt s2 = refcnt s"
proof -
  have "kpage (put_page s v) v" using assms(1) by (simp add: put_page_def kpage_def)
  then have "kalloc (put_page s v) = Ret (v, put_page s v\<lparr>freelist := freelist s, refcnt := (refcnt s)(pidx v := 1)\<rparr>)"
    using kpage_nonzero [OF assms(1)] by (simp add: kalloc_def put_page_def)
  then show ?thesis using kfree_last [OF assms] assms(2) by (auto simp: fun_upd_idem_iff)
qed

theorem kfree_kalloc_witness:
  "\<exists>s1 s2. kfree (kmem_bss (\<lambda>_. 7) 0x80200000\<lparr>refcnt := (\<lambda>_. 1)\<rparr>) 0x80500000 = Ret s1 \<and>
     kalloc s1 = Ret (0x80500000, s2) \<and> freelist s2 = 0"
  using kfree_kalloc [of "kmem_bss (\<lambda>_. 7) 0x80200000\<lparr>refcnt := (\<lambda>_. 1)\<rparr>" "0x80500000"]
  by (auto simp: kpage_def kmem_bss_def aligned_def V2P_def KERNBASE_def PHYSTOP_def)

end
