(* ===== verification/Paging.thy ===== *)
theory Paging
  imports Kalloc
begin

text \<open>
  Two-level page tables as \<^verbatim>\<open>vm.c\<close> builds and walks them: \<^verbatim>\<open>walkpgdir\<close> and \<^verbatim>\<open>mappages\<close> on
  the byte memory, and the abstraction the other routines are proved with. \<open>lookup m d va\<close> is
  the entry the hardware finds for \<open>va\<close> in the directory \<open>d\<close> (0 when the page table is
  missing), \<open>tables_ok s D\<close> says that the directories \<open>D\<close> own pairwise distinct table frames.
  A kernel pointer is its 32-bit virtual address; a null pointer is 0.
\<close>

section \<open>walkpgdir and mappages\<close>

definition kload :: "'z kmem_scheme \<Rightarrow> u32 \<Rightarrow> u32" where
  "kload s p = load32 (phys s) (V2P p)"

definition kstore :: "'z kmem_scheme \<Rightarrow> u32 \<Rightarrow> u32 \<Rightarrow> 'z kmem_scheme" where
  "kstore s p v = s\<lparr>phys := store32 (phys s) (V2P p) v\<rparr>"

definition walkpgdir :: "'z kmem_scheme \<Rightarrow> u32 \<Rightarrow> u32 \<Rightarrow> bool \<Rightarrow> (u32 \<times> 'z kmem_scheme) res" where
  "walkpgdir s pgdir va alloc =
     (let pde = pgdir + 4 * PDX va
      in if flag (kload s pde) PTE_P then
           Ret (P2V (PTE_ADDR (kload s pde)) + 4 * PTX va, s)
         else if \<not> alloc then Ret (0, s)
         else rbind (kalloc s) (\<lambda>(pgtab, s).
           if pgtab = 0 then Ret (0, s)
           else
             let s = s\<lparr>phys := mem_set (phys s) (V2P pgtab) 0 PGSIZE\<rparr>;
                 s = kstore s pde (V2P pgtab OR PTE_P OR PTE_W OR PTE_U)
             in Ret (pgtab + 4 * PTX va, s)))"

function mappages_loop ::
    "'z kmem_scheme \<Rightarrow> u32 \<Rightarrow> u32 \<Rightarrow> u32 \<Rightarrow> u32 \<Rightarrow> u32 \<Rightarrow> (int \<times> 'z kmem_scheme) res" where
  "mappages_loop s pgdir a lastp pa perm =
     rbind (walkpgdir s pgdir a True) (\<lambda>(pte, s).
       if pte = 0 then Ret (-1, s)
       else if flag (kload s pte) PTE_P then Panic ''remap''
       else
         let s = kstore s pte (pa OR perm OR PTE_P)
         in if a = lastp then Ret (0, s)
            else if a + PGSIZE \<le> a then Wrapped
            else mappages_loop s pgdir (a + PGSIZE) lastp (pa + PGSIZE) perm)"
  by pat_completeness auto
termination
  by (relation "measure (\<lambda>(s, d, a, l, pa, p). 4294967296 - unat a)")
     (auto simp: word_le_nat_alt unat_less_2p32 intro!: diff_less_mono2)

declare mappages_loop.simps [simp del]

definition mappages ::
    "'z kmem_scheme \<Rightarrow> u32 \<Rightarrow> u32 \<Rightarrow> u32 \<Rightarrow> u32 \<Rightarrow> u32 \<Rightarrow> (int \<times> 'z kmem_scheme) res" where
  "mappages s pgdir va sz pa perm =
     mappages_loop s pgdir (PGROUNDDOWN va) (PGROUNDDOWN (va + sz - 1)) pa perm"

section \<open>The entry of an address\<close>

definition pde_addr :: "u32 \<Rightarrow> u32 \<Rightarrow> u32" where
  "pde_addr d va = V2P d + 4 * PDX va"

definition pde_of :: "pmem \<Rightarrow> u32 \<Rightarrow> u32 \<Rightarrow> u32" where
  "pde_of m d va = load32 m (pde_addr d va)"

definition pte_addr :: "pmem \<Rightarrow> u32 \<Rightarrow> u32 \<Rightarrow> u32" where
  "pte_addr m d va = PTE_ADDR (pde_of m d va) + 4 * PTX va"

definition has_table :: "pmem \<Rightarrow> u32 \<Rightarrow> u32 \<Rightarrow> bool" where
  "has_table m d va \<longleftrightarrow> flag (pde_of m d va) PTE_P"

definition lookup :: "pmem \<Rightarrow> u32 \<Rightarrow> u32 \<Rightarrow> u32" where
  "lookup m d va = (if has_table m d va then load32 m (pte_addr m d va) else 0)"

definition present :: "pmem \<Rightarrow> u32 \<Rightarrow> u32 \<Rightarrow> bool" where
  "present m d va \<longleftrightarrow> flag (lookup m d va) PTE_P"

lemma flag_0 [simp]: "\<not> flag 0 f"
  by (simp add: flag_def)

lemma flag_or: "flag (a OR b) f \<longleftrightarrow> flag a f \<or> flag b f"
  unfolding flag_def or_and_distrib by (simp add: or_eq_0_iff)

lemma V2P_add: "V2P (a + b) = V2P a + b"
  by (simp add: V2P_def)

lemma V2P_P2V_add [simp]: "V2P (P2V a + b) = a + b"
  by (simp add: V2P_add)

lemma kload_pde [simp]: "kload s (d + 4 * PDX va) = pde_of (phys s) d va"
  by (simp add: kload_def V2P_add pde_of_def pde_addr_def)

lemma pde_addr_frame [simp]: "aligned d \<Longrightarrow> PGROUNDDOWN (pde_addr d va) = V2P d"
  by (simp add: pde_addr_def PDX_bound)

lemma pde_addr_aligned4 [simp]: "aligned d \<Longrightarrow> aligned4 (pde_addr d va)"
  by (simp add: pde_addr_def)

lemma pde_addr_inj: "aligned d \<Longrightarrow> aligned d' \<Longrightarrow>
    pde_addr d va = pde_addr d' va' \<longleftrightarrow> d = d' \<and> PDX va = PDX va'"
  by (metis V2P_inj entry_inj PDX_bound pde_addr_def pde_addr_frame)

lemma pte_addr_frame [simp]: "PGROUNDDOWN (pte_addr m d va) = PTE_ADDR (pde_of m d va)"
  by (simp add: pte_addr_def PTX_bound)

lemma pte_addr_aligned4 [simp]: "aligned4 (pte_addr m d va)"
  by (simp add: pte_addr_def)

lemma load32_store32_if:
  "aligned4 a \<Longrightarrow> aligned4 b \<Longrightarrow> load32 (store32 m a v) b = (if a = b then v else load32 m b)"
  by simp

section \<open>Directories that own their tables\<close>

definition tabs :: "pmem \<Rightarrow> u32 \<Rightarrow> u32 set" where
  "tabs m d = insert (V2P d) {PTE_ADDR (pde_of m d va) |va. has_table m d va}"

definition owned :: "'z kmem_scheme \<Rightarrow> u32 \<Rightarrow> bool" where
  "owned s f \<longleftrightarrow> kpage s (P2V f) \<and> 0 < refcnt s (pidx (P2V f))"

definition sole :: "'z kmem_scheme \<Rightarrow> u32 \<Rightarrow> bool" where
  "sole s f \<longleftrightarrow> kpage s (P2V f) \<and> refcnt s (pidx (P2V f)) = 1"

lemma sole_owned: "sole s f \<Longrightarrow> owned s f"
  by (simp add: sole_def owned_def)

text \<open>
  \<open>tables_ok s D\<close>: every directory of \<open>D\<close> and every page table it points to is a page with
  exactly one reference, and no frame is used twice among them.
\<close>

definition tables_ok :: "'z kmem_scheme \<Rightarrow> u32 set \<Rightarrow> bool" where
  "tables_ok s D \<longleftrightarrow>
     (\<forall>d \<in> D. sole s (V2P d)) \<and>
     (\<forall>d \<in> D. \<forall>va. has_table (phys s) d va \<longrightarrow> sole s (PTE_ADDR (pde_of (phys s) d va))) \<and>
     (\<forall>d \<in> D. \<forall>d' \<in> D. \<forall>va. has_table (phys s) d va \<longrightarrow> PTE_ADDR (pde_of (phys s) d va) \<noteq> V2P d') \<and>
     (\<forall>d \<in> D. \<forall>d' \<in> D. \<forall>va va'. has_table (phys s) d va \<longrightarrow> has_table (phys s) d' va' \<longrightarrow>
        PTE_ADDR (pde_of (phys s) d va) = PTE_ADDR (pde_of (phys s) d' va') \<longrightarrow>
        d = d' \<and> PDX va = PDX va')"

lemma tables_ok_D:
  assumes "tables_ok s D" "d \<in> D"
  shows "owned s (V2P d)" "kpage s d" "aligned d"
    "has_table (phys s) d va \<Longrightarrow> owned s (PTE_ADDR (pde_of (phys s) d va))"
    "has_table (phys s) d va \<Longrightarrow> d' \<in> D \<Longrightarrow> PTE_ADDR (pde_of (phys s) d va) \<noteq> V2P d'"
    "has_table (phys s) d va \<Longrightarrow> d' \<in> D \<Longrightarrow> has_table (phys s) d' va' \<Longrightarrow>
       PTE_ADDR (pde_of (phys s) d va) = PTE_ADDR (pde_of (phys s) d' va') \<longleftrightarrow>
       d = d' \<and> PDX va = PDX va'"
    "sole s (V2P d)" "has_table (phys s) d va \<Longrightarrow> sole s (PTE_ADDR (pde_of (phys s) d va))"
  using assms by (auto simp: tables_ok_def sole_def owned_def kpage_def pde_of_def pde_addr_def)

lemma tables_ok_I:
  assumes "\<And>d. d \<in> D \<Longrightarrow> sole s (V2P d)"
    "\<And>d va. d \<in> D \<Longrightarrow> has_table (phys s) d va \<Longrightarrow> sole s (PTE_ADDR (pde_of (phys s) d va))"
    "\<And>d d' va. d \<in> D \<Longrightarrow> d' \<in> D \<Longrightarrow> has_table (phys s) d va \<Longrightarrow>
       PTE_ADDR (pde_of (phys s) d va) \<noteq> V2P d'"
    "\<And>d d' va va'. d \<in> D \<Longrightarrow> d' \<in> D \<Longrightarrow> has_table (phys s) d va \<Longrightarrow> has_table (phys s) d' va' \<Longrightarrow>
       PTE_ADDR (pde_of (phys s) d va) = PTE_ADDR (pde_of (phys s) d' va') \<Longrightarrow>
       d = d' \<and> PDX va = PDX va'"
  shows "tables_ok s D"
  using assms unfolding tables_ok_def by blast

lemma tables_ok_cong:
  assumes ok: "tables_ok s D"
    and pde: "\<And>d va. d \<in> D \<Longrightarrow> pde_of (phys s') d va = pde_of (phys s) d va"
    and own: "\<And>f. f \<in> (\<Union>d \<in> D. tabs (phys s) d) \<Longrightarrow> sole s f \<Longrightarrow> sole s' f"
  shows "tables_ok s' D"
proof -
  have ht: "has_table (phys s') d va = has_table (phys s) d va" if "d \<in> D" for d va
    using pde [OF that] by (simp add: has_table_def)
  show ?thesis
  proof (rule tables_ok_I)
    fix d assume d: "d \<in> D"
    show "sole s' (V2P d)" using tables_ok_D(7) [OF ok d] d by (auto intro!: own simp: tabs_def)
  next
    fix d va assume d: "d \<in> D" and "has_table (phys s') d va"
    then have t: "has_table (phys s) d va" by (simp add: ht)
    show "sole s' (PTE_ADDR (pde_of (phys s') d va))"
      unfolding pde [OF d] by (rule own [OF _ tables_ok_D(8) [OF ok d t]]) (use d t in \<open>auto simp: tabs_def\<close>)
  next
    fix d d' va assume "d \<in> D" "d' \<in> D" "has_table (phys s') d va"
    then show "PTE_ADDR (pde_of (phys s') d va) \<noteq> V2P d'"
      using tables_ok_D(5) [OF ok] by (simp add: ht pde)
  next
    fix d d' va va' assume "d \<in> D" "d' \<in> D" "has_table (phys s') d va" "has_table (phys s') d' va'"
      "PTE_ADDR (pde_of (phys s') d va) = PTE_ADDR (pde_of (phys s') d' va')"
    then show "d = d' \<and> PDX va = PDX va'"
      using tables_ok_D(6) [OF ok, of d va d' va'] by (simp add: ht pde)
  qed
qed

lemma owned_cong: "kend s' = kend s \<Longrightarrow> refcnt s' = refcnt s \<Longrightarrow> owned s' = owned s"
  by (simp add: owned_def kpage_def fun_eq_iff)

lemma owned_upd_phys [simp]: "owned (s\<lparr>phys := m\<rparr>) = owned s"
  by (rule owned_cong) simp_all

lemma sole_cong: "kend s' = kend s \<Longrightarrow> refcnt s' = refcnt s \<Longrightarrow> sole s' = sole s"
  by (simp add: sole_def kpage_def fun_eq_iff)

lemma sole_upd_phys [simp]: "sole (s\<lparr>phys := m\<rparr>) = sole s"
  by (rule sole_cong) simp_all

lemma same_page_lookup:
  "PGROUNDDOWN a = PGROUNDDOWN b \<Longrightarrow> lookup m d a = lookup m d b"
  using PDX_PTX_eq_iff [of a b]
  by (simp add: lookup_def has_table_def pte_addr_def pde_of_def pde_addr_def)

lemma pte_addr_inj:
  assumes "tables_ok s D" "d \<in> D" "d' \<in> D" "has_table (phys s) d va" "has_table (phys s) d' va'"
  shows "pte_addr (phys s) d va = pte_addr (phys s) d' va' \<longleftrightarrow>
    d = d' \<and> PGROUNDDOWN va = PGROUNDDOWN va'"
proof
  assume e: "pte_addr (phys s) d va = pte_addr (phys s) d' va'"
  then have "PTE_ADDR (pde_of (phys s) d va) = PTE_ADDR (pde_of (phys s) d' va')"
    by (metis pte_addr_frame)
  then have "d = d' \<and> PDX va = PDX va'" using tables_ok_D(6) [OF assms(1,2,4,3,5)] by simp
  moreover from this e have "4 * PTX va = 4 * PTX va'"
    by (simp add: pte_addr_def pde_of_def pde_addr_def)
  then have "PTX va = PTX va'" using entry_inj [of "PTX va" "PTX va'" 0] by (simp add: PTX_bound)
  ultimately show "d = d' \<and> PGROUNDDOWN va = PGROUNDDOWN va'"
    by (simp add: PDX_PTX_eq_iff [symmetric])
next
  assume "d = d' \<and> PGROUNDDOWN va = PGROUNDDOWN va'"
  then show "pte_addr (phys s) d va = pte_addr (phys s) d' va'"
    using PDX_PTX_eq_iff [of va va'] by (simp add: pte_addr_def pde_of_def pde_addr_def)
qed

text \<open>Writing one entry changes that entry and nothing else of any directory.\<close>

lemma store_pte:
  assumes ok: "tables_ok s D" and d: "d \<in> D" and t: "has_table (phys s) d va"
    and m'_def: "m' = store32 (phys s) (pte_addr (phys s) d va) v"
  shows "\<And>d' va'. d' \<in> D \<Longrightarrow> pde_of m' d' va' = pde_of (phys s) d' va'"
    and "\<And>d' va'. d' \<in> D \<Longrightarrow> lookup m' d' va' =
      (if d' = d \<and> PGROUNDDOWN va' = PGROUNDDOWN va then v else lookup (phys s) d' va')"
    and "tables_ok (s\<lparr>phys := m'\<rparr>) D"
proof -
  show pde: "pde_of m' d' va' = pde_of (phys s) d' va'" if d': "d' \<in> D" for d' va'
  proof -
    have "pte_addr (phys s) d va \<noteq> pde_addr d' va'"
      using tables_ok_D(5) [OF ok d t d'] tables_ok_D(3) [OF ok d']
      by (metis pde_addr_frame pte_addr_frame)
    then show ?thesis using tables_ok_D(3) [OF ok d'] by (simp add: m'_def pde_of_def)
  qed
  then have ht: "has_table m' d' va' = has_table (phys s) d' va'"
      and pa: "pte_addr m' d' va' = pte_addr (phys s) d' va'" if "d' \<in> D" for d' va'
    using that by (simp_all add: has_table_def pte_addr_def)
  show "lookup m' d' va' =
      (if d' = d \<and> PGROUNDDOWN va' = PGROUNDDOWN va then v else lookup (phys s) d' va')"
    if d': "d' \<in> D" for d' va'
  proof (cases "has_table (phys s) d' va'")
    case True
    have "lookup m' d' va' =
        (if pte_addr (phys s) d va = pte_addr (phys s) d' va' then v else lookup (phys s) d' va')"
      using True d' by (simp add: lookup_def ht pa) (simp add: m'_def load32_store32_if)
    then show ?thesis using pte_addr_inj [OF ok d d' t True] by auto
  next
    case False
    then have "d' = d \<longrightarrow> PGROUNDDOWN va' \<noteq> PGROUNDDOWN va"
      using t PDX_PTX_eq_iff [of va' va] by (auto simp: has_table_def pde_of_def pde_addr_def)
    with False d' show ?thesis by (auto simp: lookup_def ht)
  qed
  show "tables_ok (s\<lparr>phys := m'\<rparr>) D"
    by (rule tables_ok_cong [OF ok]) (simp_all add: pde)
qed

section \<open>What walkpgdir does\<close>

lemma kload_P2V [simp]: "kload s (P2V a) = load32 (phys s) a"
  by (simp add: kload_def)

lemma kstore_P2V [simp]: "kstore s (P2V a) v = s\<lparr>phys := store32 (phys s) a v\<rparr>"
  by (simp add: kstore_def)

lemma P2V_add: "P2V a + b = P2V (a + b)"
  by (simp add: P2V_def)

lemma walkpgdir_find:
  "walkpgdir s d va False = Ret (if has_table (phys s) d va then P2V (pte_addr (phys s) d va) else 0, s)"
  by (simp add: walkpgdir_def Let_def has_table_def pte_addr_def P2V_add)

lemma P2V_frame_nonzero: "PGROUNDDOWN a < PHYSTOP \<Longrightarrow> P2V a \<noteq> 0"
proof
  assume lt: "PGROUNDDOWN a < PHYSTOP" and "P2V a = 0"
  then have "a = - KERNBASE" unfolding P2V_def by (simp add: eq_neg_iff_add_eq_0)
  with lt show False by (simp add: PGROUNDDOWN_def layout_defs)
qed

lemma owned_PHYSTOP: "owned s f \<Longrightarrow> f < PHYSTOP"
  by (simp add: owned_def kpage_def)

lemma owned_aligned [simp]: "owned s f \<Longrightarrow> aligned f"
  by (simp add: owned_def kpage_def)

lemma pte_ptr_nonzero:
  assumes "tables_ok s D" "d \<in> D" "has_table (phys s) d va"
  shows "P2V (pte_addr (phys s) d va) \<noteq> 0"
  using owned_PHYSTOP [OF tables_ok_D(4) [OF assms]] by (intro P2V_frame_nonzero) simp

text \<open>
  \<open>vm_ext s s' D\<close>: between the two states only page tables were added, in frames that nobody
  owned, and the memory of every owned frame that is not a table of \<open>D\<close> is as before.
\<close>

definition all_tabs :: "'z kmem_scheme \<Rightarrow> u32 set \<Rightarrow> u32 set" where
  "all_tabs s D = (\<Union>d \<in> D. tabs (phys s) d)"

definition vm_ext :: "'z kmem_scheme \<Rightarrow> 'z kmem_scheme \<Rightarrow> u32 set \<Rightarrow> bool" where
  "vm_ext s s' D \<longleftrightarrow>
     kend s' = kend s \<and> kmem.more s' = kmem.more s \<and>
     (\<forall>i. 0 < refcnt s i \<longrightarrow> refcnt s' i = refcnt s i) \<and>
     (\<forall>a. owned s (PGROUNDDOWN a) \<longrightarrow> PGROUNDDOWN a \<notin> all_tabs s D \<longrightarrow> phys s' a = phys s a) \<and>
     (\<forall>f. owned s f \<longrightarrow> f \<in> all_tabs s' D \<longrightarrow> f \<in> all_tabs s D) \<and>
     (\<forall>f. owned s' f \<longrightarrow> owned s f \<or> f \<in> all_tabs s' D) \<and> all_tabs s D \<subseteq> all_tabs s' D"

lemma vm_ext_refl [simp]: "vm_ext s s D"
  by (simp add: vm_ext_def)

lemma vm_ext_D:
  assumes "vm_ext s s' D"
  shows "kend s' = kend s" "kmem.more s' = kmem.more s"
    "\<And>i. 0 < refcnt s i \<Longrightarrow> refcnt s' i = refcnt s i"
    "\<And>a. owned s (PGROUNDDOWN a) \<Longrightarrow> PGROUNDDOWN a \<notin> all_tabs s D \<Longrightarrow> phys s' a = phys s a"
    "\<And>f. owned s f \<Longrightarrow> f \<in> all_tabs s' D \<Longrightarrow> f \<in> all_tabs s D"
    "\<And>f. owned s' f \<Longrightarrow> owned s f \<or> f \<in> all_tabs s' D" "all_tabs s D \<subseteq> all_tabs s' D"
  using assms unfolding vm_ext_def by blast+

lemma vm_ext_owned:
  assumes "vm_ext s s' D" "owned s f"
  shows "owned s' f"
  using assms(2) vm_ext_D(3) [OF assms(1), of "pidx (P2V f)"] kpage_cong [OF vm_ext_D(1) [OF assms(1)]]
  by (simp add: owned_def)

lemma vm_ext_trans:
  assumes 1: "vm_ext s s' D" and 2: "vm_ext s' s'' D"
  shows "vm_ext s s'' D"
  unfolding vm_ext_def
proof (intro conjI allI impI)
  show "kend s'' = kend s" "kmem.more s'' = kmem.more s"
    using vm_ext_D(1,2) [OF 1] vm_ext_D(1,2) [OF 2] by simp_all
  show "refcnt s'' i = refcnt s i" if "0 < refcnt s i" for i
    using that vm_ext_D(3) [OF 1] vm_ext_D(3) [OF 2, of i] by simp
  show f: "f \<in> all_tabs s D" if "owned s f" "f \<in> all_tabs s'' D" for f
    using that vm_ext_D(5) [OF 1] vm_ext_D(5) [OF 2] vm_ext_owned [OF 1] by blast
  show "phys s'' a = phys s a" if "owned s (PGROUNDDOWN a)" "PGROUNDDOWN a \<notin> all_tabs s D" for a
    using that vm_ext_D(4,5) [OF 1] vm_ext_D(4) [OF 2] vm_ext_owned [OF 1] by metis
  show "owned s f \<or> f \<in> all_tabs s'' D" if "owned s'' f" for f
    using that vm_ext_D(6) [OF 1] vm_ext_D(6,7) [OF 2] by blast
  show "all_tabs s D \<subseteq> all_tabs s'' D" using vm_ext_D(7) [OF 1] vm_ext_D(7) [OF 2] by blast
qed

lemma vm_ext_upd_phys:
  assumes "\<And>a. owned s (PGROUNDDOWN a) \<Longrightarrow> PGROUNDDOWN a \<notin> all_tabs s D \<Longrightarrow> m a = phys s a"
    and "all_tabs (s\<lparr>phys := m\<rparr>) D = all_tabs s D"
  shows "vm_ext s (s\<lparr>phys := m\<rparr>) D"
  using assms by (simp add: vm_ext_def)

lemma all_tabs_cong:
  assumes "\<And>d va. d \<in> D \<Longrightarrow> pde_of (phys s') d va = pde_of (phys s) d va"
  shows "all_tabs s' D = all_tabs s D"
  using assms by (simp add: all_tabs_def tabs_def has_table_def)

lemma store_pte_ext:
  assumes "tables_ok s D" "d \<in> D" "has_table (phys s) d va"
  shows "vm_ext s (s\<lparr>phys := store32 (phys s) (pte_addr (phys s) d va) v\<rparr>) D"
proof (rule vm_ext_upd_phys)
  let ?m = "store32 (phys s) (pte_addr (phys s) d va) v"
  show "all_tabs (s\<lparr>phys := ?m\<rparr>) D = all_tabs s D"
    by (rule all_tabs_cong) (simp add: store_pte(1) [OF assms refl])
  fix a assume "PGROUNDDOWN a \<notin> all_tabs s D"
  moreover have "PTE_ADDR (pde_of (phys s) d va) \<in> all_tabs s D"
    using assms(2,3) by (auto simp: all_tabs_def tabs_def)
  ultimately show "?m a = phys s a" by (intro store32_frame) auto
qed

text \<open>Installing a zeroed page table changes no lookup.\<close>

lemma install_table:
  assumes ok: "tables_ok s D" and inv: "kmem_inv s" and d: "d \<in> D"
    and t: "\<not> has_table (phys s) d va"
    and al: "kalloc s = Ret (pg, s1)" "pg \<noteq> 0"
    and m': "m' = store32 (mem_set (phys s1) (V2P pg) 0 PGSIZE) (pde_addr d va)
               (V2P pg OR PTE_P OR PTE_W OR PTE_U)"
  shows "tables_ok (s1\<lparr>phys := m'\<rparr>) D" "has_table m' d va"
    "pte_addr m' d va = V2P pg + 4 * PTX va"
    "\<And>d' va'. d' \<in> D \<Longrightarrow> lookup m' d' va' = lookup (phys s) d' va'"
    "vm_ext s (s1\<lparr>phys := m'\<rparr>) D"
proof -
  have new: "kpage s pg" "refcnt s (pidx pg) = 0" "refcnt s1 = (refcnt s)(pidx pg := 1)"
    using ka.alloc_new [OF inv al] by auto
  have fr: "kend s1 = kend s" "phys s1 = phys s" "kmem.more s1 = kmem.more s"
    using kalloc_frame [OF al(1)] by auto
  have fresh: "V2P pg \<noteq> f" if "owned s f" for f
    using that new(2) by (auto simp: owned_def)
  have sole1: "sole s1 f \<longleftrightarrow> sole s f \<or> f = V2P pg" for f
  proof (cases "f = V2P pg")
    case True
    then show ?thesis using new kpage_cong [OF fr(1)] by (simp add: sole_def)
  next
    case False
    then have "P2V f \<noteq> pg" by (metis V2P_P2V)
    then have "kpage s (P2V f) \<Longrightarrow> pidx (P2V f) \<noteq> pidx pg"
      using kpage_aligned [OF new(1)] by (metis kpage_aligned pidx_inj)
    with False show ?thesis using new(3) kpage_cong [OF fr(1)] by (auto simp: sole_def)
  qed
  let ?e = "V2P pg OR PTE_P OR PTE_W OR PTE_U"
  have e: "PTE_ADDR ?e = V2P pg" "flag ?e PTE_P"
    using PTE_ADDR_or [of "V2P pg" "PTE_P OR PTE_W OR PTE_U"] new(1)
    by (simp_all add: pte_bits flag_or) (simp add: flag_def)
  have ad: "aligned d'" "owned s (V2P d')" if "d' \<in> D" for d'
    using tables_ok_D [OF ok that] by auto
  have pde: "pde_of m' d' va' = (if d' = d \<and> PDX va' = PDX va then ?e else pde_of (phys s) d' va')"
    if d': "d' \<in> D" for d' va'
  proof -
    have "V2P pg \<noteq> V2P d'" by (rule fresh) (rule ad(2) [OF d'])
    then have "load32 (mem_set (phys s) (V2P pg) 0 PGSIZE) (pde_addr d' va') = pde_of (phys s) d' va'"
      using new(1) ad(1) [OF d'] by (auto simp: load32_mem_set_page pde_of_def)
    then show ?thesis
      using ad(1) [OF d] ad(1) [OF d'] pde_addr_inj [of d d' va va']
      by (auto simp: m' fr pde_of_def load32_store32_if)
  qed
  show ht: "has_table m' d va" using pde [OF d, of va] e by (simp add: has_table_def)
  show pa: "pte_addr m' d va = V2P pg + 4 * PTX va" using pde [OF d, of va] e by (simp add: pte_addr_def)
  have nt: "\<not> has_table (phys s) d va'" if "PDX va' = PDX va" for va'
    using t that by (simp add: has_table_def pde_of_def pde_addr_def)
  have oldtab: "owned s (PTE_ADDR (pde_of (phys s) d' va'))" if "d' \<in> D" "has_table (phys s) d' va'" for d' va'
    using tables_ok_D(4) [OF ok that(1)] that(2) by simp
  have cases: "(d' = d \<and> PDX va' = PDX va \<and> PTE_ADDR (pde_of m' d' va') = V2P pg) \<or>
      (has_table (phys s) d' va' \<and> pde_of m' d' va' = pde_of (phys s) d' va')"
    if "d' \<in> D" "has_table m' d' va'" for d' va'
    using that pde [OF that(1), of va'] e by (auto simp: has_table_def split: if_splits)
  show tok: "tables_ok (s1\<lparr>phys := m'\<rparr>) D"
  proof (rule tables_ok_I, simp_all)
    fix d' assume "d' \<in> D"
    then show "sole s1 (V2P d')" using tables_ok_D(7) [OF ok] sole1 by auto
  next
    fix d' va' assume "d' \<in> D" "has_table m' d' va'"
    then show "sole s1 (PTE_ADDR (pde_of m' d' va'))" using cases sole1 tables_ok_D(8) [OF ok] by metis
  next
    fix d1 d2 va' assume "d1 \<in> D" "d2 \<in> D" "has_table m' d1 va'"
    then show "PTE_ADDR (pde_of m' d1 va') \<noteq> V2P d2"
      using cases fresh ad tables_ok_D(5) [OF ok] by metis
  next
    fix d1 d2 va1 va2
    assume "d1 \<in> D" "d2 \<in> D" "has_table m' d1 va1" "has_table m' d2 va2"
      "PTE_ADDR (pde_of m' d1 va1) = PTE_ADDR (pde_of m' d2 va2)"
    then show "d1 = d2 \<and> PDX va1 = PDX va2"
      using cases [of d1 va1] cases [of d2 va2] fresh oldtab tables_ok_D(6) [OF ok] by metis
  qed
  have mem: "m' a = phys s a" if "PGROUNDDOWN a \<noteq> V2P pg" "PGROUNDDOWN a \<noteq> V2P d" for a
    using that new(1) ad(1) [OF d] by (simp add: m' fr mem_set_page)
  have zero: "load32 m' (pte_addr m' d va') = 0" if "PDX va' = PDX va" for va'
  proof -
    have "PTE_ADDR (pde_of m' d va') = V2P pg" using that pde [OF d, of va'] e by simp
    then have f: "PGROUNDDOWN (pte_addr m' d va') = V2P pg" by simp
    moreover have "pde_addr d va \<noteq> pte_addr m' d va'"
      using f fresh [OF ad(2) [OF d]] ad(1) [OF d] by (metis pde_addr_frame)
    ultimately show ?thesis
      using new(1) ad(1) [OF d] by (subst m') (simp add: load32_store32_if load32_mem_set_page)
  qed
  show "lookup m' d' va' = lookup (phys s) d' va'" if d': "d' \<in> D" for d' va'
  proof (cases "d' = d \<and> PDX va' = PDX va")
    case True
    then show ?thesis using zero nt by (simp add: lookup_def)
  next
    case False
    then have p: "pde_of m' d' va' = pde_of (phys s) d' va'" using pde [OF d', of va'] by auto
    then have ht': "has_table m' d' va' = has_table (phys s) d' va'" by (simp add: has_table_def)
    show ?thesis
    proof (cases "has_table (phys s) d' va'")
      case True
      have "load32 m' (pte_addr m' d' va') = load32 (phys s) (pte_addr m' d' va')"
      proof (rule load32_frame_cong)
        fix x assume "PGROUNDDOWN x = PGROUNDDOWN (pte_addr m' d' va')"
        then have "PGROUNDDOWN x = PTE_ADDR (pde_of (phys s) d' va')" by (simp add: p)
        then show "m' x = phys s x"
          using mem fresh [OF oldtab [OF d' True]] tables_ok_D(5) [OF ok d' True d] by metis
      qed simp
      then show ?thesis using True ht' p by (simp add: lookup_def pte_addr_def)
    next
      case False
      then show ?thesis by (simp add: lookup_def ht')
    qed
  qed
  show "vm_ext s (s1\<lparr>phys := m'\<rparr>) D"
    unfolding vm_ext_def
  proof (intro conjI allI impI)
    show "kend (s1\<lparr>phys := m'\<rparr>) = kend s" "kmem.more (s1\<lparr>phys := m'\<rparr>) = kmem.more s"
      using fr by simp_all
    show "0 < refcnt s i \<Longrightarrow> refcnt (s1\<lparr>phys := m'\<rparr>) i = refcnt s i" for i
      using new by auto
    show "phys (s1\<lparr>phys := m'\<rparr>) a = phys s a"
      if "owned s (PGROUNDDOWN a)" "PGROUNDDOWN a \<notin> all_tabs s D" for a
      using that d mem [of a] fresh [OF that(1)] by (auto simp: all_tabs_def tabs_def)
    show "f \<in> all_tabs s D" if f: "owned s f" "f \<in> all_tabs (s1\<lparr>phys := m'\<rparr>) D" for f
    proof -
      obtain d' where d': "d' \<in> D" "f \<in> tabs m' d'" using f(2) by (auto simp: all_tabs_def)
      then have "f = V2P d' \<or> (\<exists>va'. has_table (phys s) d' va' \<and> f = PTE_ADDR (pde_of (phys s) d' va'))"
        using cases [OF d'(1)] fresh [OF f(1)] unfolding tabs_def by fastforce
      then have "f \<in> tabs (phys s) d'" by (auto simp: tabs_def)
      with d'(1) show ?thesis by (auto simp: all_tabs_def)
    qed
    show "owned s f \<or> f \<in> all_tabs (s1\<lparr>phys := m'\<rparr>) D" if "owned (s1\<lparr>phys := m'\<rparr>) f" for f
    proof (cases "f = V2P pg")
      case True
      then have "f = PTE_ADDR (pde_of m' d va)" using pde [OF d, of va] e by simp
      then show ?thesis using d ht by (auto simp: all_tabs_def tabs_def)
    next
      case False
      then have "P2V f \<noteq> pg" by (metis V2P_P2V)
      then have "kpage s (P2V f) \<Longrightarrow> pidx (P2V f) \<noteq> pidx pg"
        using kpage_aligned [OF new(1)] by (metis kpage_aligned pidx_inj)
      then show ?thesis using that new(3) kpage_cong [OF fr(1)] by (auto simp: owned_def)
    qed
    show "all_tabs s D \<subseteq> all_tabs (s1\<lparr>phys := m'\<rparr>) D"
    proof
      fix f assume "f \<in> all_tabs s D"
      then obtain d' where d': "d' \<in> D" "f \<in> tabs (phys s) d'" by (auto simp: all_tabs_def)
      have "pde_of m' d' va' = pde_of (phys s) d' va'" if "has_table (phys s) d' va'" for va'
        using pde [OF d'(1), of va'] nt [of va'] that by auto
      then have "has_table m' d' va' \<and> pde_of m' d' va' = pde_of (phys s) d' va'"
        if "has_table (phys s) d' va'" for va'
        using that by (simp add: has_table_def)
      then have "f \<in> tabs m' d'" using d'(2) unfolding tabs_def by (smt (verit) insert_iff mem_Collect_eq)
      with d'(1) show "f \<in> all_tabs (s1\<lparr>phys := m'\<rparr>) D" by (auto simp: all_tabs_def)
    qed
  qed
qed

lemma kmem_inv_upd_phys:
  assumes "kmem_inv s" "\<And>a. \<exists>f. PGROUNDDOWN a = f \<and> \<not> owned s f \<Longrightarrow> m a = phys s a"
  shows "kmem_inv (s\<lparr>phys := m\<rparr>)"
proof -
  obtain xs where xs: "kmem_rel s xs" using assms(1) by (auto simp: kmem_inv_def)
  note rel = kmem_rel_D [OF xs]
  have "load32 m (V2P x) = load32 (phys s) (V2P x)" if "x \<in> set xs" for x
  proof (rule load32_V2P_frame_cong)
    show "aligned x" using rel(3) [OF that] by simp
    have "\<not> owned s (V2P x)" using rel(4) [OF that] by (simp add: owned_def)
    then show "m a = phys s a" if "PGROUNDDOWN a = V2P x" for a
      using that by (intro assms(2)) auto
  qed
  then have "free_list_at m (freelist s) xs" using free_list_at_cong [OF rel(1)] by blast
  then have "kmem_rel (s\<lparr>phys := m\<rparr>) xs" using xs by (simp add: kmem_rel_def kpage_def)
  then show ?thesis by (auto simp: kmem_inv_def)
qed

text \<open>Memory inside owned frames may change freely: the free list does not run through them.\<close>

lemma kmem_inv_owned_write:
  assumes "kmem_inv s" "\<And>a. \<not> owned s (PGROUNDDOWN a) \<Longrightarrow> m a = phys s a"
  shows "kmem_inv (s\<lparr>phys := m\<rparr>)"
  using assms by (intro kmem_inv_upd_phys) auto

lemma store_pte_inv:
  assumes "tables_ok s D" "kmem_inv s" "d \<in> D" "has_table (phys s) d va"
  shows "kmem_inv (s\<lparr>phys := store32 (phys s) (pte_addr (phys s) d va) v\<rparr>)"
proof (rule kmem_inv_owned_write [OF assms(2)])
  fix a assume "\<not> owned s (PGROUNDDOWN a)"
  then have "PGROUNDDOWN a \<noteq> PTE_ADDR (pde_of (phys s) d va)"
    using tables_ok_D(4) [OF assms(1,3,4)] by auto
  then show "store32 (phys s) (pte_addr (phys s) d va) v a = phys s a" by (intro store32_frame) auto
qed

lemma walkpgdir_alloc:
  assumes ok: "tables_ok s D" and inv: "kmem_inv s" and d: "d \<in> D"
  shows "\<exists>p s'. walkpgdir s d va True = Ret (p, s') \<and> tables_ok s' D \<and> kmem_inv s' \<and> vm_ext s s' D \<and>
    (\<forall>d' \<in> D. \<forall>va'. lookup (phys s') d' va' = lookup (phys s) d' va') \<and>
    (if p = 0 then s' = s \<and> \<not> has_table (phys s) d va
     else has_table (phys s') d va \<and> p = P2V (pte_addr (phys s') d va))"
proof (cases "has_table (phys s) d va")
  case True
  then show ?thesis
    using ok inv pte_ptr_nonzero [OF ok d True]
    by (simp add: walkpgdir_def Let_def has_table_def pte_addr_def P2V_add)
next
  case False
  obtain pg s1 where al: "kalloc s = Ret (pg, s1)" using ka.alloc_total [OF inv] by blast
  show ?thesis
  proof (cases "pg = 0")
    case True
    then have "s1 = s" using ka.alloc_none [OF inv] al by simp
    with True False al ok inv show ?thesis
      by (simp add: walkpgdir_def Let_def has_table_def)
  next
    case pg: False
    let ?m = "store32 (mem_set (phys s1) (V2P pg) 0 PGSIZE) (pde_addr d va)
               (V2P pg OR PTE_P OR PTE_W OR PTE_U)"
    let ?s = "s1\<lparr>phys := ?m\<rparr>"
    note it = install_table [OF ok inv d False al pg refl]
    have new: "kpage s pg" "refcnt s1 = (refcnt s)(pidx pg := 1)"
      using ka.alloc_new [OF inv al pg] by auto
    have own: "owned s1 (V2P pg)" "owned s1 (V2P d)"
      using new kpage_cong [of s1 s] kalloc_frame [OF al] tables_ok_D(1) [OF ok d]
      by (auto simp: owned_def)
    have "kmem_inv ?s"
    proof (rule kmem_inv_owned_write)
      show "kmem_inv s1" using ka.alloc_inv [OF inv al] by simp
      fix a assume "\<not> owned s1 (PGROUNDDOWN a)"
      then have "PGROUNDDOWN a \<noteq> V2P pg" "PGROUNDDOWN a \<noteq> V2P d" using own by auto
      then show "?m a = phys s1 a"
        using new(1) tables_ok_D(3) [OF ok d] by (simp add: mem_set_page)
    qed
    moreover have "walkpgdir s d va True = Ret (P2V (pte_addr ?m d va), ?s)"
      using False pg al unfolding it(3)
      by (simp add: walkpgdir_def Let_def has_table_def kstore_def pde_addr_def V2P_add
          P2V_add [symmetric])
    moreover have "P2V (pte_addr ?m d va) \<noteq> 0"
      using pte_ptr_nonzero [OF it(1) d, of va] it(2) by simp
    ultimately show ?thesis using it False by simp
  qed
qed

text \<open>
  Mapping one page: the entry is written if it was absent, the call panics if it was present,
  and it returns -1, leaving every lookup as it was, when no page table can be allocated.
\<close>

lemma mappages_page:
  assumes ok: "tables_ok s D" and inv: "kmem_inv s" and d: "d \<in> D" and va: "aligned va"
  shows "present (phys s) d va \<Longrightarrow> mappages s d va PGSIZE pa perm = Panic ''remap''"
    and "\<not> present (phys s) d va \<Longrightarrow>
      \<exists>r s'. mappages s d va PGSIZE pa perm = Ret (r, s') \<and>
        tables_ok s' D \<and> kmem_inv s' \<and> vm_ext s s' D \<and>
        (r = -1 \<and> s' = s \<and> \<not> has_table (phys s) d va \<or>
         r = 0 \<and> (\<forall>d' \<in> D. \<forall>va'. lookup (phys s') d' va' =
           (if d' = d \<and> PGROUNDDOWN va' = va then pa OR perm OR PTE_P else lookup (phys s) d' va')))"
proof -
  have last: "PGROUNDDOWN (va + PGSIZE - 1) = va"
  proof -
    have "va + PGSIZE - 1 = va + 4095" unfolding PGSIZE_def by simp
    then show ?thesis using frame_offset [OF va, of 4095] by (simp only:) simp
  qed
  obtain p s1 where w: "walkpgdir s d va True = Ret (p, s1)" "tables_ok s1 D" "kmem_inv s1"
      "vm_ext s s1 D" "\<forall>d' \<in> D. \<forall>va'. lookup (phys s1) d' va' = lookup (phys s) d' va'"
      "if p = 0 then s1 = s \<and> \<not> has_table (phys s) d va
       else has_table (phys s1) d va \<and> p = P2V (pte_addr (phys s1) d va)"
    using walkpgdir_alloc [OF ok inv d] by blast
  have eq: "mappages s d va PGSIZE pa perm =
      (if p = 0 then Ret (-1, s1)
       else if flag (kload s1 p) PTE_P then Panic ''remap''
       else Ret (0, kstore s1 p (pa OR perm OR PTE_P)))"
    by (simp add: mappages_def mappages_loop.simps [of s d va] last w(1) PGROUNDDOWN_aligned [OF va])
  have lk: "p \<noteq> 0 \<Longrightarrow> kload s1 p = lookup (phys s) d va"
  proof -
    assume "p \<noteq> 0"
    then have "kload s1 p = lookup (phys s1) d va" using w(6) by (simp add: lookup_def)
    then show ?thesis using w(5) d by simp
  qed
  show "mappages s d va PGSIZE pa perm = Panic ''remap''" if "present (phys s) d va"
    using that eq lk w(6) by (auto simp: present_def lookup_def split: if_splits)
  show "\<exists>r s'. mappages s d va PGSIZE pa perm = Ret (r, s') \<and>
        tables_ok s' D \<and> kmem_inv s' \<and> vm_ext s s' D \<and>
        (r = -1 \<and> s' = s \<and> \<not> has_table (phys s) d va \<or>
         r = 0 \<and> (\<forall>d' \<in> D. \<forall>va'. lookup (phys s') d' va' =
           (if d' = d \<and> PGROUNDDOWN va' = va then pa OR perm OR PTE_P else lookup (phys s) d' va')))"
    if np: "\<not> present (phys s) d va"
  proof (cases "p = 0")
    case True
    then show ?thesis using eq w by auto
  next
    case False
    then have t: "has_table (phys s1) d va" and p: "p = P2V (pte_addr (phys s1) d va)"
      using w(6) by auto
    let ?m = "store32 (phys s1) (pte_addr (phys s1) d va) (pa OR perm OR PTE_P)"
    have "mappages s d va PGSIZE pa perm = Ret (0, s1\<lparr>phys := ?m\<rparr>)"
      using eq False lk np p by (simp add: present_def)
    then show ?thesis
      using store_pte [OF w(2) d t refl] store_pte_inv [OF w(2,3) d t] w(5)
        vm_ext_trans [OF w(4) store_pte_ext [OF w(2) d t]]
      by (auto simp: PGROUNDDOWN_aligned [OF va])
  qed
qed

end
