(* ===== verification/Proc_Types.thy ===== *)
theory Proc_Types
  imports Phys_Mem
begin

text \<open>
  The per-process data of \<^verbatim>\<open>proc.h\<close> and the lookup of memory areas in \<^verbatim>\<open>proc.c\<close>. A pointer to
  a slot of the process table is the slot's index; a null pointer is \<open>None\<close>. An entry of
  \<open>ofile\<close> is the index of a slot of the file table, \<open>cwd\<close> the index of a slot of the inode cache.
\<close>

section \<open>Constants\<close>

definition NPROC :: nat where "NPROC = 64"
definition NOFILE :: nat where "NOFILE = 16"
definition MAX_VMAS :: nat where "MAX_VMAS = 16"
definition DEFAULT_PRIORITY :: int where "DEFAULT_PRIORITY = 1"
definition MAX_PRIORITY :: int where "MAX_PRIORITY = 10"
definition KSTACKSIZE :: u32 where "KSTACKSIZE = 4096"
definition PROT_READ :: u32 where "PROT_READ = 1"
definition PROT_WRITE :: u32 where "PROT_WRITE = 2"

section \<open>Memory areas\<close>

record vma =
  vstart :: u32
  vlength :: u32
  vprot :: u32
  vused :: bool

definition vma_zero :: vma where
  "vma_zero = \<lparr>vstart = 0, vlength = 0, vprot = 0, vused = False\<rparr>"

text \<open>
  Both searches run over the slots in order and return the index of the first hit. The
  containment test subtracts instead of adding, as the source does.
\<close>

fun vma_find_from :: "vma list \<Rightarrow> u32 \<Rightarrow> nat \<Rightarrow> nat option" where
  "vma_find_from [] addr i = None"
| "vma_find_from (v # vs) addr i =
     (if \<not> vused v then vma_find_from vs addr (Suc i)
      else if vstart v \<le> addr \<and> addr - vstart v < vlength v then Some i
      else vma_find_from vs addr (Suc i))"

definition vma_find :: "vma list \<Rightarrow> u32 \<Rightarrow> nat option" where
  "vma_find vmas addr = vma_find_from vmas addr 0"

fun vma_find_exact_from :: "vma list \<Rightarrow> u32 \<Rightarrow> u32 \<Rightarrow> nat \<Rightarrow> nat option" where
  "vma_find_exact_from [] addr len i = None"
| "vma_find_exact_from (v # vs) addr len i =
     (if vused v \<and> vstart v = addr \<and> vlength v = len then Some i
      else vma_find_exact_from vs addr len (Suc i))"

definition vma_find_exact :: "vma list \<Rightarrow> u32 \<Rightarrow> u32 \<Rightarrow> nat option" where
  "vma_find_exact vmas addr len = vma_find_exact_from vmas addr len 0"

text \<open>The addresses of an area, without reference to wrap-around.\<close>

definition in_vma :: "vma \<Rightarrow> u32 \<Rightarrow> bool" where
  "in_vma v a \<longleftrightarrow> vused v \<and> unat (vstart v) \<le> unat a \<and> unat a < unat (vstart v) + unat (vlength v)"

lemma in_vma_code: "in_vma v a \<longleftrightarrow> vused v \<and> vstart v \<le> a \<and> a - vstart v < vlength v"
  by (auto simp: in_vma_def word_le_nat_alt word_less_nat_alt unat_sub)

lemma find_from_SomeD:
  "vma_find_from vs a k = Some i \<Longrightarrow> \<exists>j < length vs. i = k + j \<and> in_vma (vs ! j) a \<and> (\<forall>l < j. \<not> in_vma (vs ! l) a)"
proof (induction vs a k rule: vma_find_from.induct)
  case (2 v vs addr k)
  show ?case
  proof (cases "in_vma v addr")
    case True
    with "2.prems" have "i = k" by (auto simp: in_vma_code)
    with True show ?thesis by (intro exI [of _ 0]) auto
  next
    case False
    with "2.prems" have "vma_find_from vs addr (Suc k) = Some i"
      by (auto simp: in_vma_code split: if_splits)
    moreover have "\<not> vused v \<or> vused v \<and> \<not> (vstart v \<le> addr \<and> addr - vstart v < vlength v)"
      using False by (auto simp: in_vma_code)
    ultimately obtain j where j: "j < length vs" "i = Suc k + j" "in_vma (vs ! j) addr"
        "\<forall>l < j. \<not> in_vma (vs ! l) addr"
      using "2.IH" by blast
    have "\<not> in_vma ((v # vs) ! l) addr" if "l < Suc j" for l
      using that False j(4) by (cases l) auto
    with j show ?thesis by (intro exI [of _ "Suc j"]) auto
  qed
qed simp

lemma find_from_None: "vma_find_from vs a k = None \<longleftrightarrow> (\<forall>v \<in> set vs. \<not> in_vma v a)"
  by (induction vs a k rule: vma_find_from.induct) (auto simp: in_vma_code)

lemma vma_find_Some: "vma_find vs a = Some i \<Longrightarrow> i < length vs \<and> in_vma (vs ! i) a"
  by (auto simp: vma_find_def dest: find_from_SomeD)

lemma vma_find_None: "vma_find vs a = None \<longleftrightarrow> (\<forall>v \<in> set vs. \<not> in_vma v a)"
  by (simp add: vma_find_def find_from_None)

lemma find_exact_from_SomeD:
  "vma_find_exact_from vs a n k = Some i \<Longrightarrow>
     \<exists>j < length vs. i = k + j \<and> vused (vs ! j) \<and> vstart (vs ! j) = a \<and> vlength (vs ! j) = n"
proof (induction vs a n k rule: vma_find_exact_from.induct)
  case (2 v vs addr len k)
  then show ?case by (fastforce split: if_splits)
qed simp

lemma vma_find_exact_Some: "vma_find_exact vs a n = Some i \<Longrightarrow>
    i < length vs \<and> vused (vs ! i) \<and> vstart (vs ! i) = a \<and> vlength (vs ! i) = n"
  by (auto simp: vma_find_exact_def dest: find_exact_from_SomeD)

section \<open>Processes\<close>

datatype procstate = UNUSED | EMBRYO | SLEEPING | RUNNABLE | RUNNING | ZOMBIE

text \<open>
  What a process sleeps on is the address of a kernel object: an entry of the process table, the
  variable \<^verbatim>\<open>ticks\<close>, one of the two counters of a pipe, or some other object, numbered. Different
  objects have different addresses.
\<close>

datatype chan_addr = NullChan | ProcChan nat | TicksChan | PipeReadChan u32 | PipeWriteChan u32 | ObjChan nat

text \<open>The registers of a trap frame that the kernel code reads or writes.\<close>

record trapframe =
  tf_eax :: u32
  tf_trapno :: u32
  tf_err :: u32
  tf_eip :: u32
  tf_cs :: u32
  tf_ds :: u32
  tf_es :: u32
  tf_ss :: u32
  tf_eflags :: u32
  tf_esp :: u32

record proc =
  psz :: u32
  pgdir :: u32
  kstack :: u32
  state :: procstate
  pid :: int
  parent :: "nat option"
  tf :: trapframe
  chan :: chan_addr
  killed :: bool
  trace_enabled :: bool
  priority :: int
  ofile :: "nat option list"
  cwd :: "nat option"
  pname :: string
  vmas :: "vma list"

end
