(* ===== verification/Vm.thy ===== *)
theory Vm
  imports Paging Proc_Types
begin

text \<open>
  The virtual memory routines of \<^verbatim>\<open>vm.c\<close>: building and freeing address spaces, the demand
  paging and protection changes behind \<^verbatim>\<open>mmap\<close>, copy-on-write, and the diagnostics. The state
  extends the allocator's with the CPU's page table register and the linker symbol \<^verbatim>\<open>data\<close>.
  A routine that the source declares with a pointer result returns 0 for the null pointer.
  Messages printed with \<^verbatim>\<open>cprintf\<close> are not part of the state.
\<close>

section \<open>State and loops\<close>

record vmach = kmem +
  cr3 :: u32
  kdata :: u32
  kpgdir :: u32

definition lcr3 :: "'z vmach_scheme \<Rightarrow> u32 \<Rightarrow> 'z vmach_scheme" where
  "lcr3 s v = s\<lparr>cr3 := v\<rparr>"

text \<open>
  \<^verbatim>\<open>for(a = start; a < end; a += PGSIZE) body\<close>: the body either leaves the routine
  (\<open>Inl\<close>, the value is the routine's outcome) or goes on (\<open>Inr\<close>).
\<close>

function page_loop :: "(u32 \<Rightarrow> 's \<Rightarrow> ('b + 's) res) \<Rightarrow> u32 \<Rightarrow> u32 \<Rightarrow> 's \<Rightarrow> ('b + 's) res" where
  "page_loop body a lim s =
     (if a < lim then
        rbind (body a s) (\<lambda>r. case r of
          Inl b \<Rightarrow> Ret (Inl b)
        | Inr s \<Rightarrow> if a + PGSIZE \<le> a then Wrapped else page_loop body (a + PGSIZE) lim s)
      else Ret (Inr s))"
  by pat_completeness auto
termination
  by (relation "measure (\<lambda>(body, a, lim, s). 4294967296 - unat a)")
     (auto simp: word_le_nat_alt unat_less_2p32 intro!: diff_less_mono2)

declare page_loop.simps [simp del]

section \<open>Demand paging and protection\<close>

definition vm_alloc_mmap_page ::
    "'z vmach_scheme \<Rightarrow> u32 \<Rightarrow> u32 \<Rightarrow> u32 \<Rightarrow> (int \<times> 'z vmach_scheme) res" where
  "vm_alloc_mmap_page s pgd va prot =
     (let va = PGROUNDDOWN va
      in rbind (kalloc s) (\<lambda>(mem, s).
        if mem = 0 then Ret (-1, s)
        else
          let s = s\<lparr>phys := mem_set (phys s) (V2P mem) 0 PGSIZE\<rparr>;
              perm = (if flag prot PROT_WRITE then PTE_U OR PTE_W else PTE_U)
          in rbind (mappages s pgd va PGSIZE (V2P mem) perm) (\<lambda>(r, s).
            if r < 0 then rbind (kfree s mem) (\<lambda>s. Ret (-1, s))
            else Ret (0, lcr3 s (V2P pgd)))))"

definition vm_protect_step :: "u32 \<Rightarrow> u32 \<Rightarrow> u32 \<Rightarrow> 'z vmach_scheme \<Rightarrow> (int + 'z vmach_scheme) res" where
  "vm_protect_step pgd prot a s =
     rbind (walkpgdir s pgd a False) (\<lambda>(pte, s).
       if pte = 0 \<or> \<not> flag (kload s pte) PTE_P then Ret (Inr s)
       else if flag prot PROT_WRITE then
         rbind (if flag (kload s pte) PTE_COW then Ret True
                else rbind (kref_get s (PTE_ADDR (kload s pte))) (\<lambda>refs. Ret (refs > 1)))
           (\<lambda>shared.
             if shared then
               let s = kstore s pte (kload s pte AND NOT PTE_W);
                   s = kstore s pte (kload s pte OR PTE_COW)
               in Ret (Inr s)
             else Ret (Inr (kstore s pte (kload s pte OR PTE_W))))
       else Ret (Inr (kstore s pte (kload s pte AND NOT PTE_W))))"

definition vm_protect_range ::
    "'z vmach_scheme \<Rightarrow> u32 \<Rightarrow> u32 \<Rightarrow> u32 \<Rightarrow> u32 \<Rightarrow> (int \<times> 'z vmach_scheme) res" where
  "vm_protect_range s pgd start len prot =
     rbind (page_loop (vm_protect_step pgd prot) start (start + len) s) (\<lambda>r. case r of
       Inl e \<Rightarrow> Ret (e, s)
     | Inr s \<Rightarrow> Ret (0, lcr3 s (V2P pgd)))"

definition vm_unmap_step :: "u32 \<Rightarrow> u32 \<Rightarrow> 'z vmach_scheme \<Rightarrow> (int + 'z vmach_scheme) res" where
  "vm_unmap_step pgd a s =
     rbind (walkpgdir s pgd a False) (\<lambda>(pte, s).
       if pte = 0 \<or> \<not> flag (kload s pte) PTE_P then Ret (Inr s)
       else
         let pa = PTE_ADDR (kload s pte)
         in if pa = 0 then Panic ''vm_unmap_range''
            else rbind (kfree s (P2V pa)) (\<lambda>s. Ret (Inr (kstore s pte 0))))"

definition vm_unmap_range ::
    "'z vmach_scheme \<Rightarrow> u32 \<Rightarrow> u32 \<Rightarrow> u32 \<Rightarrow> (int \<times> 'z vmach_scheme) res" where
  "vm_unmap_range s pgd start len =
     rbind (page_loop (vm_unmap_step pgd) start (start + len) s) (\<lambda>r. case r of
       Inl e \<Rightarrow> Ret (e, s)
     | Inr s \<Rightarrow> Ret (0, lcr3 s (V2P pgd)))"

section \<open>Copy-on-write faults\<close>

definition cow_fault :: "'z vmach_scheme \<Rightarrow> u32 \<Rightarrow> u32 \<Rightarrow> (int \<times> 'z vmach_scheme) res" where
  "cow_fault s pgd va =
     (let va = PGROUNDDOWN va
      in rbind (walkpgdir s pgd va False) (\<lambda>(pte, s).
        if pte = 0 then Ret (0, s)
        else if \<not> flag (kload s pte) PTE_P then Ret (0, s)
        else if \<not> flag (kload s pte) PTE_COW then Ret (0, s)
        else
          let pa = PTE_ADDR (kload s pte);
              flags = PTE_FLAGS (kload s pte)
          in rbind (kref_get s pa) (\<lambda>refs.
            if refs < 1 then Panic ''cow refcount''
            else if refs = 1 then
              let flags = flags OR PTE_W;
                  flags = flags AND NOT PTE_COW;
                  s = kstore s pte (pa OR flags)
              in Ret (1, lcr3 s (V2P pgd))
            else rbind (kalloc s) (\<lambda>(mem, s).
              if mem = 0 then Ret (-1, s)
              else
                let s = s\<lparr>phys := mem_move (phys s) (V2P mem) pa PGSIZE\<rparr>;
                    flags = flags OR PTE_W;
                    flags = flags AND NOT PTE_COW;
                    s = kstore s pte (V2P mem OR flags)
                in rbind (kfree s (P2V pa)) (\<lambda>s. Ret (1, lcr3 s (V2P pgd)))))))"

section \<open>Growing, shrinking and freeing an address space\<close>

function deallocuvm_loop ::
    "'z vmach_scheme \<Rightarrow> u32 \<Rightarrow> u32 \<Rightarrow> u32 \<Rightarrow> 'z vmach_scheme res" where
  "deallocuvm_loop s pgd a oldsz =
     (if a < oldsz then
        rbind (walkpgdir s pgd a False) (\<lambda>(pte, s).
          if pte = 0 then
            let a' = PGADDR (PDX a + 1) 0 0 - PGSIZE + PGSIZE
            in if a' \<le> a then Wrapped else deallocuvm_loop s pgd a' oldsz
          else
            rbind (if flag (kload s pte) PTE_P then
                     let pa = PTE_ADDR (kload s pte)
                     in if pa = 0 then Panic ''kfree''
                        else rbind (kfree s (P2V pa)) (\<lambda>s. Ret (kstore s pte 0))
                   else Ret s)
              (\<lambda>s. if a + PGSIZE \<le> a then Wrapped
                   else deallocuvm_loop s pgd (a + PGSIZE) oldsz))
      else Ret s)"
  by pat_completeness auto
termination
  by (relation "measure (\<lambda>(s, d, a, oldsz). 4294967296 - unat a)")
     (auto simp: word_le_nat_alt unat_less_2p32 intro!: diff_less_mono2)

declare deallocuvm_loop.simps [simp del]

definition deallocuvm ::
    "'z vmach_scheme \<Rightarrow> u32 \<Rightarrow> u32 \<Rightarrow> u32 \<Rightarrow> (u32 \<times> 'z vmach_scheme) res" where
  "deallocuvm s pgd oldsz newsz =
     (if newsz \<ge> oldsz then Ret (oldsz, s)
      else rbind (deallocuvm_loop s pgd (PGROUNDUP newsz) oldsz) (\<lambda>s. Ret (newsz, s)))"

definition allocuvm_step ::
    "u32 \<Rightarrow> u32 \<Rightarrow> u32 \<Rightarrow> u32 \<Rightarrow> 'z vmach_scheme \<Rightarrow> ((u32 \<times> 'z vmach_scheme) + 'z vmach_scheme) res" where
  "allocuvm_step pgd oldsz newsz a s =
     rbind (kalloc s) (\<lambda>(mem, s).
       if mem = 0 then
         rbind (deallocuvm s pgd newsz oldsz) (\<lambda>(_, s). Ret (Inl (0, s)))
       else
         let s = s\<lparr>phys := mem_set (phys s) (V2P mem) 0 PGSIZE\<rparr>
         in rbind (mappages s pgd a PGSIZE (V2P mem) (PTE_W OR PTE_U)) (\<lambda>(r, s).
           if r < 0 then
             rbind (deallocuvm s pgd newsz oldsz) (\<lambda>(_, s).
               rbind (kfree s mem) (\<lambda>s. Ret (Inl (0, s))))
           else Ret (Inr s)))"

definition allocuvm ::
    "'z vmach_scheme \<Rightarrow> u32 \<Rightarrow> u32 \<Rightarrow> u32 \<Rightarrow> (u32 \<times> 'z vmach_scheme) res" where
  "allocuvm s pgd oldsz newsz =
     (if newsz \<ge> KERNBASE then Ret (0, s)
      else if newsz < oldsz then Ret (oldsz, s)
      else rbind (page_loop (allocuvm_step pgd oldsz newsz) (PGROUNDUP oldsz) newsz s)
        (\<lambda>r. case r of Inl out \<Rightarrow> Ret out | Inr s \<Rightarrow> Ret (newsz, s)))"

fun freevm_tables :: "'z vmach_scheme \<Rightarrow> u32 \<Rightarrow> nat list \<Rightarrow> 'z vmach_scheme res" where
  "freevm_tables s pgd [] = Ret s"
| "freevm_tables s pgd (i # is) =
     (let pde = kload s (pgd + 4 * of_nat i)
      in if flag pde PTE_P then
           rbind (kfree s (P2V (PTE_ADDR pde))) (\<lambda>s. freevm_tables s pgd is)
         else freevm_tables s pgd is)"

definition freevm :: "'z vmach_scheme \<Rightarrow> u32 \<Rightarrow> 'z vmach_scheme res" where
  "freevm s pgd =
     (if pgd = 0 then Panic ''freevm: no pgdir''
      else rbind (deallocuvm s pgd KERNBASE 0) (\<lambda>(_, s).
        rbind (freevm_tables s pgd [0..<1024]) (\<lambda>s. kfree s pgd)))"

section \<open>Kernel mappings and new address spaces\<close>

definition kmap :: "u32 \<Rightarrow> (u32 \<times> u32 \<times> u32 \<times> u32) list" where
  "kmap dat =
     [(KERNBASE, 0, EXTMEM, PTE_W),
      (KERNLINK, V2P KERNLINK, V2P dat, 0),
      (dat, V2P dat, PHYSTOP, PTE_W),
      (DEVSPACE, DEVSPACE, 0, PTE_W)]"

fun setupkvm_loop :: "'z vmach_scheme \<Rightarrow> u32 \<Rightarrow> (u32 \<times> u32 \<times> u32 \<times> u32) list \<Rightarrow>
    (u32 \<times> 'z vmach_scheme) res" where
  "setupkvm_loop s pgd [] = Ret (pgd, s)"
| "setupkvm_loop s pgd ((virt, phys_start, phys_end, perm) # ks) =
     rbind (mappages s pgd virt (phys_end - phys_start) phys_start perm) (\<lambda>(r, s).
       if r < 0 then rbind (freevm s pgd) (\<lambda>s. Ret (0, s))
       else setupkvm_loop s pgd ks)"

definition setupkvm :: "'z vmach_scheme \<Rightarrow> (u32 \<times> 'z vmach_scheme) res" where
  "setupkvm s =
     rbind (kalloc s) (\<lambda>(pgd, s).
       if pgd = 0 then Ret (0, s)
       else
         let s = s\<lparr>phys := mem_set (phys s) (V2P pgd) 0 PGSIZE\<rparr>
         in if P2V PHYSTOP > DEVSPACE then Panic ''PHYSTOP too high''
            else setupkvm_loop s pgd (kmap (kdata s)))"

definition inituvm :: "'z vmach_scheme \<Rightarrow> u32 \<Rightarrow> u8 list \<Rightarrow> 'z vmach_scheme res" where
  "inituvm s pgd init =
     (if length init \<ge> unat PGSIZE then Panic ''inituvm: more than a page''
      else rbind (kalloc s) (\<lambda>(mem, s).
        if mem = 0 then Fault
        else
        let s = s\<lparr>phys := mem_set (phys s) (V2P mem) 0 PGSIZE\<rparr>
        in rbind (mappages s pgd 0 PGSIZE (V2P mem) (PTE_W OR PTE_U)) (\<lambda>(_, s).
          Ret (s\<lparr>phys := mem_put (phys s) (V2P mem) init\<rparr>))))"

definition clearpteu :: "'z vmach_scheme \<Rightarrow> u32 \<Rightarrow> u32 \<Rightarrow> 'z vmach_scheme res" where
  "clearpteu s pgd uva =
     rbind (walkpgdir s pgd uva False) (\<lambda>(pte, s).
       if pte = 0 then Panic ''clearpteu''
       else Ret (kstore s pte (kload s pte AND NOT PTE_U)))"

text \<open>\<^verbatim>\<open>copyuvm\<close>: one page of the loop; \<open>Inl\<close> is the jump to \<^verbatim>\<open>bad\<close>.\<close>

definition copyuvm_step ::
    "u32 \<Rightarrow> u32 \<Rightarrow> u32 \<Rightarrow> 'z vmach_scheme \<Rightarrow> ('z vmach_scheme + 'z vmach_scheme) res" where
  "copyuvm_step pgd d i s =
     rbind (walkpgdir s pgd i False) (\<lambda>(pte, s).
       if pte = 0 then Ret (Inr s)
       else if \<not> flag (kload s pte) PTE_P then Ret (Inr s)
       else
         let pa = PTE_ADDR (kload s pte);
             flags = PTE_FLAGS (kload s pte);
             cow = (flag flags PTE_W \<or> flag flags PTE_COW);
             flags = (if cow then (flags AND NOT PTE_W) OR PTE_COW else flags);
             s = (if cow then kstore s pte (pa OR flags) else s)
         in rbind (mappages s d i PGSIZE pa flags) (\<lambda>(r, s).
           if r < 0 then Ret (Inl s)
           else rbind (kref_inc s pa) (\<lambda>s. Ret (Inr s))))"

definition copyuvm :: "'z vmach_scheme \<Rightarrow> u32 \<Rightarrow> u32 \<Rightarrow> (u32 \<times> 'z vmach_scheme) res" where
  "copyuvm s pgd sz =
     rbind (setupkvm s) (\<lambda>(d, s).
       if d = 0 then Ret (0, s)
       else rbind (page_loop (copyuvm_step pgd d) 0 sz s) (\<lambda>r. case r of
         Inl s \<Rightarrow> rbind (freevm s d) (\<lambda>s. Ret (0, lcr3 s (V2P pgd)))
       | Inr s \<Rightarrow> Ret (d, lcr3 s (V2P pgd))))"

section \<open>Diagnostics\<close>

definition vm_numvp :: "'z vmach_scheme \<Rightarrow> 'y proc_scheme option \<Rightarrow> int res" where
  "vm_numvp s p = (case p of None \<Rightarrow> Ret 0 | Some p \<Rightarrow>
     if pgdir p = 0 then Ret 0
     else rbind (page_loop (\<lambda>a count.
         if vma_find (vmas p) a \<noteq> None then Ret (Inr (count + 1))
         else rbind (walkpgdir s (pgdir p) a False) (\<lambda>(pte, _).
           if pte \<noteq> 0 \<and> flag (kload s pte) PTE_P then Ret (Inr (count + 1))
           else Ret (Inr count)))
       0 (PGROUNDUP (psz p)) 0) (\<lambda>r. case r of Inl n \<Rightarrow> Ret n | Inr n \<Rightarrow> Ret n))"

definition vm_numpp :: "'z vmach_scheme \<Rightarrow> 'y proc_scheme option \<Rightarrow> int res" where
  "vm_numpp s p = (case p of None \<Rightarrow> Ret 0 | Some p \<Rightarrow>
     if pgdir p = 0 then Ret 0
     else rbind (page_loop (\<lambda>a count.
         rbind (walkpgdir s (pgdir p) a False) (\<lambda>(pte, _).
           if pte \<noteq> 0 \<and> flag (kload s pte) PTE_P then Ret (Inr (count + 1))
           else Ret (Inr count)))
       0 (PGROUNDUP (psz p)) 0) (\<lambda>r. case r of Inl n \<Rightarrow> Ret n | Inr n \<Rightarrow> Ret n))"

definition vm_getptsize :: "'z vmach_scheme \<Rightarrow> 'y proc_scheme option \<Rightarrow> int" where
  "vm_getptsize s p = (case p of None \<Rightarrow> 0 | Some p \<Rightarrow>
     if pgdir p = 0 then 0
     else fold (\<lambda>i pages. if flag (kload s (pgdir p + 4 * of_nat i)) PTE_P then pages + 1 else pages)
       [0..<unat (PDX KERNBASE)] 1)"

definition vm_pageref :: "'z vmach_scheme \<Rightarrow> u32 \<Rightarrow> u32 \<Rightarrow> int res" where
  "vm_pageref s pgd va =
     (let va = PGROUNDDOWN va
      in rbind (walkpgdir s pgd va False) (\<lambda>(pte, s).
        if pte = 0 then Ret (-1)
        else if \<not> flag (kload s pte) PTE_P then Ret (-1)
        else if \<not> flag (kload s pte) PTE_U then Ret (-1)
        else kref_get s (PTE_ADDR (kload s pte))))"

section \<open>The kernel's own page table\<close>

definition switchkvm :: "'z vmach_scheme \<Rightarrow> 'z vmach_scheme" where
  "switchkvm s = lcr3 s (V2P (kpgdir s))"

definition kvmalloc :: "'z vmach_scheme \<Rightarrow> 'z vmach_scheme res" where
  "kvmalloc s = rbind (setupkvm s) (\<lambda>(d, s). Ret (switchkvm (s\<lparr>kpgdir := d\<rparr>)))"

section \<open>Copying out to user memory\<close>

definition uva2ka :: "'z vmach_scheme \<Rightarrow> u32 \<Rightarrow> u32 \<Rightarrow> u32 res" where
  "uva2ka s pgd uva =
     rbind (walkpgdir s pgd uva False) (\<lambda>(pte, s).
       if pte = 0 then Fault
       else if \<not> flag (kload s pte) PTE_P then Ret 0
       else if \<not> flag (kload s pte) PTE_U then Ret 0
       else Ret (P2V (PTE_ADDR (kload s pte))))"

text \<open>
  \<^verbatim>\<open>copyout\<close>: \<open>cur\<close> is the result of \<^verbatim>\<open>myproc()\<close>, \<open>buf\<close> the \<^verbatim>\<open>len\<close> bytes at the source
  pointer. \<open>copyout_fault_in\<close> is the part that makes the page resident; it returns
  false where the routine returns -1.
\<close>

definition copyout_fault_in ::
    "'z vmach_scheme \<Rightarrow> u32 \<Rightarrow> u32 \<Rightarrow> vma option \<Rightarrow> (bool \<times> 'z vmach_scheme) res" where
  "copyout_fault_in s pgd va0 v =
     rbind (walkpgdir s pgd va0 False) (\<lambda>(pte, s).
       if pte = 0 \<or> \<not> flag (kload s pte) PTE_P then
         (case v of None \<Rightarrow> Ret (False, s)
          | Some v \<Rightarrow>
              if \<not> flag (vprot v) PROT_WRITE then Ret (False, s)
              else rbind (vm_alloc_mmap_page s pgd va0 (vprot v)) (\<lambda>(r, s).
                if r < 0 then Ret (False, s)
                else rbind (walkpgdir s pgd va0 False) (\<lambda>(pte, s).
                  Ret (\<not> (pte = 0 \<or> \<not> flag (kload s pte) PTE_P), s))))
       else Ret (True, s))"

definition copyout_page ::
    "'z vmach_scheme \<Rightarrow> 'y proc_scheme option \<Rightarrow> u32 \<Rightarrow> u32 \<Rightarrow> (u32 \<times> 'z vmach_scheme) res" where
  "copyout_page s cur pgd va0 =
     (let v = (case cur of None \<Rightarrow> None
               | Some p \<Rightarrow> if pgdir p = pgd then map_option ((!) (vmas p)) (vma_find (vmas p) va0) else None)
      in rbind (copyout_fault_in s pgd va0 v) (\<lambda>(ok, s).
        if \<not> ok then Ret (0, s)
        else if (case v of None \<Rightarrow> False | Some v \<Rightarrow> \<not> flag (vprot v) PROT_WRITE) then Ret (0, s)
        else rbind (walkpgdir s pgd va0 False) (\<lambda>(pte, s).
          rbind (if flag (kload s pte) PTE_COW then
                   rbind (cow_fault s pgd va0) (\<lambda>(result, s).
                     if result \<le> 0 then Ret (False, s) else Ret (True, s))
                 else Ret (True, s)) (\<lambda>(ok, s).
            if \<not> ok then Ret (0, s)
            else rbind (walkpgdir s pgd va0 False) (\<lambda>(pte, s).
              if pte = 0 \<or> \<not> flag (kload s pte) PTE_P \<or> \<not> flag (kload s pte) PTE_U \<or>
                 \<not> flag (kload s pte) PTE_W then Ret (0, s)
              else rbind (uva2ka s pgd va0) (\<lambda>pa0. Ret (pa0, s)))))))"

lemma page_rest_pos: "0 < unat (PGSIZE - (va - PGROUNDDOWN va))"
proof -
  have "va - PGROUNDDOWN va = va AND 0xFFF"
    using word_page_split [of va] by (simp add: PGROUNDDOWN_def PGSIZE_def algebra_simps)
  moreover have "unat (va AND 0xFFF) < 4096" by (simp add: unat_and_FFF)
  ultimately show ?thesis by (simp add: PGSIZE_def unat_sub_if_size word_size)
qed

function copyout ::
    "'z vmach_scheme \<Rightarrow> 'y proc_scheme option \<Rightarrow> u32 \<Rightarrow> u32 \<Rightarrow> u8 list \<Rightarrow> (int \<times> 'z vmach_scheme) res" where
  "copyout s cur pgd va buf =
     (if buf \<noteq> [] then
        let va0 = PGROUNDDOWN va
        in rbind (copyout_page s cur pgd va0) (\<lambda>(pa0, s).
          if pa0 = 0 then Ret (-1, s)
          else
            let n = min (unat (PGSIZE - (va - va0))) (length buf);
                s = s\<lparr>phys := mem_put (phys s) (V2P (pa0 + (va - va0))) (take n buf)\<rparr>
            in copyout s cur pgd (va0 + PGSIZE) (drop n buf))
      else Ret (0, s))"
  by pat_completeness auto
termination
  by (relation "measure (\<lambda>(s, cur, d, va, buf). length buf)") (use page_rest_pos in auto)

declare copyout.simps [simp del]

end
