(* ===== verification/Vm_Inv.thy ===== *)
theory Vm_Inv
  imports Vm
begin

text \<open>
  The global invariant of user memory. \<open>umaps m D f\<close> is the set of user page table entries, over
  all directories \<open>D\<close> of the machine, that map the frame \<open>f\<close>. The invariant says that the count
  kept for a mapped frame is exactly the number of these entries, that a mapped frame is never
  a page table, and that an entry which allows writing is the only entry of its frame. It is
  proved here for a change of one entry, which is what every loop of \<^verbatim>\<open>vm.c\<close> repeats.
\<close>

section \<open>User mappings and the invariant\<close>

definition umaps :: "pmem \<Rightarrow> u32 set \<Rightarrow> u32 \<Rightarrow> (u32 \<times> u32) set" where
  "umaps m D f =
     {(d, p). d \<in> D \<and> aligned p \<and> p < KERNBASE \<and> present m d p \<and> PTE_ADDR (lookup m d p) = f}"

definition refs :: "'z kmem_scheme \<Rightarrow> u32 \<Rightarrow> int" where
  "refs s f = refcnt s (pidx (P2V f))"

definition writable :: "pmem \<Rightarrow> u32 \<Rightarrow> u32 \<Rightarrow> bool" where
  "writable m d va \<longleftrightarrow> present m d va \<and> flag (lookup m d va) PTE_W"

definition vm_inv :: "'z kmem_scheme \<Rightarrow> u32 set \<Rightarrow> bool" where
  "vm_inv s D \<longleftrightarrow>
     kmem_inv s \<and> tables_ok s D \<and> KERNBASE < kend s \<and>
     (\<forall>f. umaps (phys s) D f \<noteq> {} \<longrightarrow>
        kpage s (P2V f) \<and> f \<notin> all_tabs s D \<and> refs s f = int (card (umaps (phys s) D f))) \<and>
     (\<forall>d \<in> D. \<forall>va < KERNBASE. writable (phys s) d va \<longrightarrow> refs s (PTE_ADDR (lookup (phys s) d va)) = 1)"

lemma vm_invD:
  assumes "vm_inv s D"
  shows "kmem_inv s" "tables_ok s D" "KERNBASE < kend s"
    "umaps (phys s) D f \<noteq> {} \<Longrightarrow> kpage s (P2V f)"
    "umaps (phys s) D f \<noteq> {} \<Longrightarrow> f \<notin> all_tabs s D"
    "umaps (phys s) D f \<noteq> {} \<Longrightarrow> refs s f = int (card (umaps (phys s) D f))"
    "d \<in> D \<Longrightarrow> va < KERNBASE \<Longrightarrow> writable (phys s) d va \<Longrightarrow>
      refs s (PTE_ADDR (lookup (phys s) d va)) = 1"
  using assms unfolding vm_inv_def by blast+

lemma finite_umaps [simp]: "finite (umaps m D f)"
  by (rule finite)

lemma umaps_aligned: "umaps m D f \<noteq> {} \<Longrightarrow> aligned f"
  by (auto simp: umaps_def)

lemma PGROUNDDOWN_le: "PGROUNDDOWN a \<le> a"
  by (simp add: word_le_nat_alt unat_PGROUNDDOWN)

lemma lookup_page: "lookup m d (PGROUNDDOWN va) = lookup m d va"
  by (rule same_page_lookup) simp

lemma user_page: "va < KERNBASE \<Longrightarrow> PGROUNDDOWN va < KERNBASE"
  using PGROUNDDOWN_le [of va] by simp

lemma umapsI:
  assumes "d \<in> D" "va < KERNBASE" "present m d va"
  shows "(d, PGROUNDDOWN va) \<in> umaps m D (PTE_ADDR (lookup m d va))"
  using assms user_page [OF assms(2)] by (simp add: umaps_def present_def lookup_page)

lemma umaps_refs_pos:
  assumes "vm_inv s D" "(d, p) \<in> umaps (phys s) D f"
  shows "0 < refs s f" "owned s f"
proof -
  have ne: "umaps (phys s) D f \<noteq> {}" using assms(2) by auto
  then have "0 < card (umaps (phys s) D f)" by (simp add: card_gt_0_iff)
  then show "0 < refs s f" using vm_invD(6) [OF assms(1) ne] by simp
  then show "owned s f" using vm_invD(4) [OF assms(1) ne] by (simp add: owned_def refs_def)
qed

text \<open>A writable entry is the only entry of its frame.\<close>

lemma writable_unique:
  assumes inv: "vm_inv s D" and d: "d \<in> D" "va < KERNBASE" "writable (phys s) d va"
  shows "umaps (phys s) D (PTE_ADDR (lookup (phys s) d va)) = {(d, PGROUNDDOWN va)}"
proof -
  let ?U = "umaps (phys s) D (PTE_ADDR (lookup (phys s) d va))"
  have i: "(d, PGROUNDDOWN va) \<in> ?U" using d by (intro umapsI) (simp_all add: writable_def)
  then have "?U \<noteq> {}" by blast
  then have "int (card ?U) = 1" using vm_invD(6) [OF inv] vm_invD(7) [OF inv d] by simp
  then obtain x where "?U = {x}" by (metis card_1_singletonE of_nat_eq_1_iff)
  with i show ?thesis by auto
qed

section \<open>Changing one entry\<close>

definition pte_upd :: "pmem \<Rightarrow> pmem \<Rightarrow> u32 set \<Rightarrow> u32 \<Rightarrow> u32 \<Rightarrow> u32 \<Rightarrow> bool" where
  "pte_upd m m' D d p e \<longleftrightarrow>
     (\<forall>d' \<in> D. \<forall>va. lookup m' d' va = (if d' = d \<and> PGROUNDDOWN va = p then e else lookup m d' va))"

lemma pte_updD:
  "pte_upd m m' D d p e \<Longrightarrow> d' \<in> D \<Longrightarrow>
     lookup m' d' va = (if d' = d \<and> PGROUNDDOWN va = p then e else lookup m d' va)"
  by (simp add: pte_upd_def)

lemma umaps_upd:
  assumes "pte_upd m m' D d p e" "d \<in> D" "aligned p" "p < KERNBASE"
  shows "umaps m' D f = umaps m D f - {(d, p)} \<union> (if flag e PTE_P \<and> PTE_ADDR e = f then {(d, p)} else {})"
proof -
  have eq: "lookup m' d' q = (if d' = d \<and> q = p then e else lookup m d' q)" if "d' \<in> D" "aligned q" for d' q
    using pte_updD [OF assms(1) that(1)] that(2) by (simp add: PGROUNDDOWN_aligned)
  have "(d', q) \<in> umaps m' D f \<longleftrightarrow> (d', q) \<in> umaps m D f - {(d, p)} \<union>
      (if flag e PTE_P \<and> PTE_ADDR e = f then {(d, p)} else {})" for d' q
  proof (cases "d' \<in> D \<and> aligned q \<and> q < KERNBASE")
    case True
    then show ?thesis using eq [of d' q] by (cases "d' = d \<and> q = p") (auto simp: umaps_def present_def)
  next
    case False
    then show ?thesis using assms(2-4) by (auto simp: umaps_def)
  qed
  then show ?thesis by auto
qed

definition hit :: "bool \<Rightarrow> int" where
  "hit b = (if b then 1 else 0)"

lemma hit_simps [simp]: "hit True = 1" "hit False = 0"
  by (simp_all add: hit_def)

lemma card_umaps_upd:
  assumes "pte_upd m m' D d p e" "d \<in> D" "aligned p" "p < KERNBASE"
  shows "int (card (umaps m' D f)) =
    int (card (umaps m D f)) - hit ((d, p) \<in> umaps m D f) + hit (flag e PTE_P \<and> PTE_ADDR e = f)"
proof -
  let ?U = "umaps m D f"
  have c: "int (card (?U - {(d, p)})) = int (card ?U) - hit ((d, p) \<in> ?U)"
  proof (cases "(d, p) \<in> ?U")
    case True
    then have "0 < card ?U" by (auto simp: card_gt_0_iff)
    with True show ?thesis by (simp add: card_Diff_singleton)
  next
    case False
    then show ?thesis by simp
  qed
  show ?thesis
  proof (cases "flag e PTE_P \<and> PTE_ADDR e = f")
    case True
    then show ?thesis unfolding umaps_upd [OF assms] by (simp add: hit_def card_insert_if)
  next
    case False
    then show ?thesis
      unfolding umaps_upd [OF assms] using c by (simp only: if_False Un_empty_right hit_simps add_0_right)
  qed
qed

lemma vm_inv_upd:
  assumes inv: "vm_inv s D" and d: "d \<in> D" "aligned p" "p < KERNBASE"
    and upd: "pte_upd (phys s) (phys s') D d p e"
    and s': "kmem_inv s'" "tables_ok s' D" "kend s' = kend s"
    and tab: "\<And>f. owned s f \<Longrightarrow> f \<in> all_tabs s' D \<Longrightarrow> f \<in> all_tabs s D"
    and new: "flag e PTE_P \<Longrightarrow> kpage s (P2V (PTE_ADDR e)) \<and> PTE_ADDR e \<notin> all_tabs s' D \<and>
      (umaps (phys s) D (PTE_ADDR e) = {} \<longrightarrow> refs s (PTE_ADDR e) = 0)"
    and refs: "\<And>f. umaps (phys s') D f \<noteq> {} \<Longrightarrow>
      refs s' f = refs s f - hit ((d, p) \<in> umaps (phys s) D f) + hit (flag e PTE_P \<and> PTE_ADDR e = f)"
    and wr: "flag e PTE_P \<Longrightarrow> flag e PTE_W \<Longrightarrow> refs s' (PTE_ADDR e) = 1"
    and sh: "\<And>d' va. flag e PTE_P \<Longrightarrow> (d, p) \<notin> umaps (phys s) D (PTE_ADDR e) \<Longrightarrow> d' \<in> D \<Longrightarrow>
      va < KERNBASE \<Longrightarrow> PTE_ADDR (lookup (phys s) d' va) = PTE_ADDR e \<Longrightarrow> \<not> writable (phys s) d' va"
  shows "vm_inv s' D"
  unfolding vm_inv_def
proof (intro conjI allI ballI impI)
  show "kmem_inv s'" "tables_ok s' D" by (rule s')+
  show "KERNBASE < kend s'" using s'(3) vm_invD(3) [OF inv] by simp
next
  fix f assume ne: "umaps (phys s') D f \<noteq> {}"
  then have c: "umaps (phys s) D f \<noteq> {} \<or> flag e PTE_P \<and> PTE_ADDR e = f"
    by (auto simp: umaps_upd [OF upd d] split: if_splits)
  show "kpage s' (P2V f)"
    using c new vm_invD(4) [OF inv] kpage_cong [OF s'(3)] by auto
  show "f \<notin> all_tabs s' D"
  proof (cases "umaps (phys s) D f = {}")
    case True
    then show ?thesis using c new by auto
  next
    case False
    then obtain x where "x \<in> umaps (phys s) D f" by blast
    then have "owned s f" using umaps_refs_pos(2) [OF inv, of "fst x" "snd x"] by simp
    then show ?thesis using tab vm_invD(5) [OF inv False] by blast
  qed
  have "refs s f = int (card (umaps (phys s) D f))"
    using c new vm_invD(6) [OF inv] by (cases "umaps (phys s) D f = {}") auto
  then show "refs s' f = int (card (umaps (phys s') D f))"
    using refs [OF ne] card_umaps_upd [OF upd d, of f] by simp
next
  fix d' va assume d': "d' \<in> D" and va: "va < KERNBASE" and w: "writable (phys s') d' va"
  let ?f = "PTE_ADDR (lookup (phys s') d' va)"
  show "refs s' ?f = 1"
  proof (cases "d' = d \<and> PGROUNDDOWN va = p")
    case True
    then show ?thesis using wr w pte_updD [OF upd d', of va] by (simp add: writable_def present_def)
  next
    case False
    then have l: "lookup (phys s') d' va = lookup (phys s) d' va" using pte_updD [OF upd d', of va] by auto
    then have w0: "writable (phys s) d' va" using w by (simp add: writable_def present_def)
    have "umaps (phys s) D ?f = {(d', PGROUNDDOWN va)}" using writable_unique [OF inv d' va w0] l by simp
    then have n: "(d, p) \<notin> umaps (phys s) D ?f" using False by auto
    have "\<not> (flag e PTE_P \<and> PTE_ADDR e = ?f)"
      using sh [OF _ _ d' va] n w0 l by metis
    moreover have "umaps (phys s') D ?f \<noteq> {}"
      using umapsI [OF d' va] w by (auto simp: writable_def)
    ultimately show ?thesis
      using refs [of ?f] n vm_invD(7) [OF inv d' va w0] l by (simp add: hit_def)
  qed
qed

section \<open>What a routine leaves alone\<close>

text \<open>
  \<open>ubyte m d va\<close> is the byte the hardware finds at the user address \<open>va\<close>; \<open>kframe s D f\<close> holds
  for the frames the kernel keeps for itself (stacks, pipes). \<open>vm_frame s D s' D' C F\<close>: outside
  the pages \<open>C\<close> no entry and no byte of a directory that is live in both states has changed,
  and the kernel's frames other than \<open>F\<close> are untouched; no frame other than \<open>F\<close> is held by
  the kernel afterwards that was not before, that is, none has leaked.
\<close>

definition ubyte :: "pmem \<Rightarrow> u32 \<Rightarrow> u32 \<Rightarrow> u8" where
  "ubyte m d va = m (PTE_ADDR (lookup m d va) + (va AND 0xFFF))"

definition kframe :: "'z kmem_scheme \<Rightarrow> u32 set \<Rightarrow> u32 \<Rightarrow> bool" where
  "kframe s D f \<longleftrightarrow> owned s f \<and> f \<notin> all_tabs s D \<and> umaps (phys s) D f = {}"

definition vm_frame :: "'z vmach_scheme \<Rightarrow> u32 set \<Rightarrow> 'z vmach_scheme \<Rightarrow> u32 set \<Rightarrow>
    (u32 \<times> u32) set \<Rightarrow> u32 set \<Rightarrow> bool" where
  "vm_frame s D s' D' C F \<longleftrightarrow>
     kend s' = kend s \<and> kdata s' = kdata s \<and> kpgdir s' = kpgdir s \<and> vmach.more s' = vmach.more s \<and>
     (\<forall>d \<in> D \<inter> D'. \<forall>va. (d, PGROUNDDOWN va) \<notin> C \<longrightarrow> lookup (phys s') d va = lookup (phys s) d va) \<and>
     (\<forall>d \<in> D \<inter> D'. \<forall>va < KERNBASE. (d, PGROUNDDOWN va) \<notin> C \<longrightarrow> present (phys s) d va \<longrightarrow>
        ubyte (phys s') d va = ubyte (phys s) d va) \<and>
     (\<forall>f. kframe s D f \<longrightarrow> f \<notin> F \<longrightarrow> kframe s' D' f \<and> refs s' f = refs s f \<and>
        (\<forall>a. PGROUNDDOWN a = f \<longrightarrow> phys s' a = phys s a)) \<and>
     (\<forall>f. kframe s' D' f \<longrightarrow> f \<notin> F \<longrightarrow> kframe s D f)"

lemma vm_frameD:
  assumes "vm_frame s D s' D' C F"
  shows "kend s' = kend s" "kdata s' = kdata s" "kpgdir s' = kpgdir s" "vmach.more s' = vmach.more s"
    "\<And>d va. d \<in> D \<Longrightarrow> d \<in> D' \<Longrightarrow> (d, PGROUNDDOWN va) \<notin> C \<Longrightarrow> lookup (phys s') d va = lookup (phys s) d va"
    "\<And>d va. d \<in> D \<Longrightarrow> d \<in> D' \<Longrightarrow> va < KERNBASE \<Longrightarrow> (d, PGROUNDDOWN va) \<notin> C \<Longrightarrow>
      present (phys s) d va \<Longrightarrow> ubyte (phys s') d va = ubyte (phys s) d va"
    "\<And>f. kframe s D f \<Longrightarrow> f \<notin> F \<Longrightarrow> kframe s' D' f"
    "\<And>f. kframe s D f \<Longrightarrow> f \<notin> F \<Longrightarrow> refs s' f = refs s f"
    "\<And>a. kframe s D (PGROUNDDOWN a) \<Longrightarrow> PGROUNDDOWN a \<notin> F \<Longrightarrow> phys s' a = phys s a"
    "\<And>f. kframe s' D' f \<Longrightarrow> f \<notin> F \<Longrightarrow> kframe s D f"
  using assms unfolding vm_frame_def by blast+

lemma vm_frame_refl [simp]: "vm_frame s D s D C F"
  by (simp add: vm_frame_def)

lemma lcr3_simps [simp]:
  "phys (lcr3 s v) = phys s" "refcnt (lcr3 s v) = refcnt s" "kend (lcr3 s v) = kend s"
  "freelist (lcr3 s v) = freelist s" "kdata (lcr3 s v) = kdata s" "kpgdir (lcr3 s v) = kpgdir s"
  "vmach.more (lcr3 s v) = vmach.more s" "cr3 (lcr3 s v) = v"
  by (simp_all add: lcr3_def)

lemma lcr3_views [simp]:
  "kpage (lcr3 s v) = kpage s" "owned (lcr3 s v) = owned s" "all_tabs (lcr3 s v) D = all_tabs s D"
  "refs (lcr3 s v) = refs s" "kframe (lcr3 s v) D = kframe s D" "sole (lcr3 s v) = sole s"
proof -
  show "sole (lcr3 s v) = sole s" by (rule sole_cong) simp_all
  show "kpage (lcr3 s v) = kpage s" by (rule kpage_cong) simp
  show o: "owned (lcr3 s v) = owned s" by (rule owned_cong) simp_all
  show r: "refs (lcr3 s v) = refs s" by (rule ext) (simp add: refs_def)
  show t: "all_tabs (lcr3 s v) D = all_tabs s D" by (simp add: all_tabs_def)
  show "kframe (lcr3 s v) D = kframe s D" by (rule ext) (simp add: kframe_def o t)
qed

lemma vm_frame_lcr3 [simp]: "vm_frame s D (lcr3 s' v) D' C F = vm_frame s D s' D' C F"
  by (simp only: vm_frame_def lcr3_simps lcr3_views)

lemma vm_frame_trans:
  assumes 1: "vm_frame s D s' D' C F" and 2: "vm_frame s' D' s'' D'' C' F'"
    and D: "D \<inter> D'' \<subseteq> D'" and F: "\<And>f. f \<in> F \<union> F' \<Longrightarrow> kframe s D f \<or> kframe s'' D'' f \<Longrightarrow> f \<in> F''"
  shows "vm_frame s D s'' D'' (C \<union> C') F''"
  unfolding vm_frame_def
proof (intro conjI ballI allI impI)
  show "kend s'' = kend s" "kdata s'' = kdata s" "kpgdir s'' = kpgdir s" "vmach.more s'' = vmach.more s"
    using vm_frameD(1-4) [OF 1] vm_frameD(1-4) [OF 2] by simp_all
next
  fix d va assume d: "d \<in> D \<inter> D''" and c: "(d, PGROUNDDOWN va) \<notin> C \<union> C'"
  then have d': "d \<in> D" "d \<in> D'" "d \<in> D''" using D by auto
  show l: "lookup (phys s'') d va = lookup (phys s) d va"
    using vm_frameD(5) [OF 1 d'(1,2)] vm_frameD(5) [OF 2 d'(2,3)] c by auto
  assume va: "va < KERNBASE" and p: "present (phys s) d va"
  have "present (phys s') d va"
    using p vm_frameD(5) [OF 1 d'(1,2), of va] c by (simp add: present_def)
  then show "ubyte (phys s'') d va = ubyte (phys s) d va"
    using vm_frameD(6) [OF 1 d'(1,2) va] vm_frameD(6) [OF 2 d'(2,3) va] c p by auto
next
  fix f assume f: "kframe s D f" "f \<notin> F''"
  then have n: "f \<notin> F" "f \<notin> F'" using F by auto
  show "kframe s'' D'' f" "refs s'' f = refs s f"
    using vm_frameD(7,8) [OF 1 f(1) n(1)] vm_frameD(7,8) [OF 2 _ n(2)] by auto
  show "phys s'' a = phys s a" if "PGROUNDDOWN a = f" for a
    using vm_frameD(9) [OF 1, of a] vm_frameD(9) [OF 2, of a] vm_frameD(7) [OF 1 f(1) n(1)] n f that by auto
next
  fix f assume f: "kframe s'' D'' f" "f \<notin> F''"
  then have "f \<notin> F" "f \<notin> F'" using F by auto
  then show "kframe s D f" using vm_frameD(10) [OF 2 f(1)] vm_frameD(10) [OF 1] by blast
qed

lemma vm_frame_mono:
  assumes "vm_frame s D s' D' C F" "C \<subseteq> C'" "F \<subseteq> F'"
  shows "vm_frame s D s' D' C' F'"
proof -
  have "vm_frame s D s' D' (C \<union> C') F'"
    by (rule vm_frame_trans [OF assms(1) vm_frame_refl [of s' D' C' F']]) (use assms(3) in auto)
  then show ?thesis using assms(2) by (simp add: Un_absorb1)
qed

lemma vm_inv_lcr3 [simp]: "vm_inv (lcr3 s v) D = vm_inv s D"
  by (simp only: vm_inv_def kmem_inv_def kmem_rel_def tables_ok_def lcr3_simps lcr3_views)

lemma ubyte_frame [simp]: "PGROUNDDOWN (PTE_ADDR e + (va AND 0xFFF)) = PTE_ADDR e"
  by (rule frame_offset) (simp_all add: unat_and_FFF)

lemma tabs_owned: "tables_ok s D \<Longrightarrow> f \<in> all_tabs s D \<Longrightarrow> owned s f"
  using tables_ok_D(1,4) [of s D] by (auto simp: all_tabs_def tabs_def)

lemma mapped_owned: "vm_inv s D \<Longrightarrow> d \<in> D \<Longrightarrow> va < KERNBASE \<Longrightarrow> present (phys s) d va \<Longrightarrow>
    owned s (PTE_ADDR (lookup (phys s) d va)) \<and> PTE_ADDR (lookup (phys s) d va) \<notin> all_tabs s D"
  using umapsI [of d D va "phys s"] umaps_refs_pos(2) [of s D d "PGROUNDDOWN va"] vm_invD(5) [of s D] by blast

text \<open>A change that spares every owned frame is invisible.\<close>

lemma same_tabs:
  assumes ok: "tables_ok s D" and mem: "\<And>a. PGROUNDDOWN a \<in> all_tabs s D \<Longrightarrow> phys s' a = phys s a"
    and d: "d \<in> D"
  shows "pde_of (phys s') d va = pde_of (phys s) d va" "lookup (phys s') d va = lookup (phys s) d va"
proof -
  have t: "V2P d \<in> all_tabs s D"
      "has_table (phys s) d va \<Longrightarrow> PTE_ADDR (pde_of (phys s) d va) \<in> all_tabs s D" for va
    using d by (auto simp: all_tabs_def tabs_def)
  show pde: "pde_of (phys s') d va = pde_of (phys s) d va"
    unfolding pde_of_def
    by (rule load32_frame_cong) (use tables_ok_D(3) [OF ok d] mem t(1) in auto)
  have "load32 (phys s') (pte_addr (phys s) d va) = load32 (phys s) (pte_addr (phys s) d va)"
    if "has_table (phys s) d va"
    by (rule load32_frame_cong) (use t(2) [OF that] mem in auto)
  then show "lookup (phys s') d va = lookup (phys s) d va"
    using pde by (simp add: lookup_def has_table_def pte_addr_def)
qed

lemma umaps_cong:
  assumes "\<And>d va. d \<in> D \<Longrightarrow> lookup m' d va = lookup m d va"
  shows "umaps m' D f = umaps m D f"
  using assms by (auto simp: umaps_def present_def)

lemma vm_inv_same_owned:
  assumes inv: "vm_inv s D" and mem: "\<And>a. owned s (PGROUNDDOWN a) \<Longrightarrow> phys s' a = phys s a"
    and refs: "\<And>f. owned s f \<Longrightarrow> refs s' f = refs s f"
    and s': "kmem_inv s'" "kend s' = kend s"
  shows "vm_inv s' D"
proof -
  note ok = vm_invD(2) [OF inv]
  have lk: "lookup (phys s') d va = lookup (phys s) d va"
      and pde: "pde_of (phys s') d va = pde_of (phys s) d va" if "d \<in> D" for d va
    using same_tabs [OF ok _ that, of s'] mem tabs_owned [OF ok] by blast+
  note um = umaps_cong [of D "phys s'" "phys s", OF lk] and at = all_tabs_cong [of D s' s, OF pde]
  have own: "owned s' f" if "owned s f" for f
    using that refs [OF that] kpage_cong [OF s'(2)] by (simp add: owned_def refs_def)
  have "sole s' f" if "sole s f" for f
    using that refs [OF sole_owned [OF that]] kpage_cong [OF s'(2)] by (simp add: sole_def refs_def)
  then have t: "tables_ok s' D" by (intro tables_ok_cong [OF ok pde])
  show ?thesis
    unfolding vm_inv_def
  proof (intro conjI allI ballI impI)
    show "kmem_inv s'" "tables_ok s' D" by (rule s' t)+
    show "KERNBASE < kend s'" using s' vm_invD(3) [OF inv] by simp
  next
    fix f assume "umaps (phys s') D f \<noteq> {}"
    then have ne: "umaps (phys s) D f \<noteq> {}" by (simp add: um)
    then obtain x where "x \<in> umaps (phys s) D f" by blast
    then have o: "owned s f" using umaps_refs_pos(2) [OF inv, of "fst x" "snd x"] by simp
    show "kpage s' (P2V f)" "f \<notin> all_tabs s' D" "refs s' f = int (card (umaps (phys s') D f))"
      using vm_invD(4,5,6) [OF inv ne] refs [OF o] kpage_cong [OF s'(2)] by (simp_all add: um at)
  next
    fix d va assume d: "d \<in> D" and va: "va < KERNBASE" and w: "writable (phys s') d va"
    then have "writable (phys s) d va" by (simp add: writable_def present_def lk)
    then show "refs s' (PTE_ADDR (lookup (phys s') d va)) = 1"
      using vm_invD(7) [OF inv d va] mapped_owned [OF inv d va] refs d by (simp add: writable_def lk)
  qed
qed

text \<open>The frame condition for a change of one entry.\<close>

lemma vm_frame_upd:
  assumes inv: "vm_inv s D" and d: "d \<in> D" "aligned p" "p < KERNBASE"
    and upd: "pte_upd (phys s) (phys s') D d p e"
    and eq: "kend s' = kend s" "kdata s' = kdata s" "kpgdir s' = kpgdir s" "vmach.more s' = vmach.more s"
    and tab: "\<And>f. owned s f \<Longrightarrow> f \<in> all_tabs s' D \<Longrightarrow> f \<in> all_tabs s D"
    and new: "flag e PTE_P \<Longrightarrow> \<not> kframe s D (PTE_ADDR e)"
    and refs: "\<And>f. kframe s D f \<Longrightarrow> refs s' f = refs s f"
    and mem: "\<And>a. owned s (PGROUNDDOWN a) \<Longrightarrow> PGROUNDDOWN a \<notin> all_tabs s D \<Longrightarrow>
      umaps (phys s) D (PGROUNDDOWN a) \<noteq> {(d, p)} \<Longrightarrow> phys s' a = phys s a"
    and tab': "all_tabs s D \<subseteq> all_tabs s' D"
    and own': "\<And>f. owned s' f \<Longrightarrow> owned s f \<or> f \<in> all_tabs s' D \<or> umaps (phys s') D f \<noteq> {}"
    and gone: "\<And>f. umaps (phys s) D f = {(d, p)} \<Longrightarrow> umaps (phys s') D f = {} \<Longrightarrow> \<not> owned s' f"
  shows "vm_frame s D s' D {(d, p)} {}"
  unfolding vm_frame_def
proof (intro conjI ballI allI impI)
  show "kend s' = kend s" "kdata s' = kdata s" "kpgdir s' = kpgdir s" "vmach.more s' = vmach.more s"
    by (rule eq)+
next
  fix d' va assume d': "d' \<in> D \<inter> D" and n: "(d', PGROUNDDOWN va) \<notin> {(d, p)}"
  show l: "lookup (phys s') d' va = lookup (phys s) d' va" using pte_updD [OF upd, of d' va] d' n by auto
  assume va: "va < KERNBASE" and p: "present (phys s) d' va"
  have d'': "d' \<in> D" using d' by simp
  have "umaps (phys s) D (PTE_ADDR (lookup (phys s) d' va)) \<noteq> {(d, p)}"
    using umapsI [OF d'' va p] n by auto
  then show "ubyte (phys s') d' va = ubyte (phys s) d' va"
    using mapped_owned [OF inv d'' va p] unfolding ubyte_def l by (intro mem) auto
next
  fix f assume f: "kframe s D f"
  then have o: "owned s f" "f \<notin> all_tabs s D" "umaps (phys s) D f = {}" by (auto simp: kframe_def)
  show r: "refs s' f = refs s f" by (rule refs [OF f])
  have "owned s' f" using o(1) r kpage_cong [OF eq(1)] by (simp add: owned_def refs_def)
  moreover have "f \<notin> all_tabs s' D" using tab o by blast
  moreover have "umaps (phys s') D f = {}"
    using o(3) new f by (auto simp: umaps_upd [OF upd d])
  ultimately show "kframe s' D f" by (simp add: kframe_def)
  show "phys s' a = phys s a" if "PGROUNDDOWN a = f" for a
    using that o by (intro mem) auto
next
  fix f assume "kframe s' D f"
  then have f: "owned s' f" "f \<notin> all_tabs s' D" "umaps (phys s') D f = {}" by (auto simp: kframe_def)
  then have "owned s f" "f \<notin> all_tabs s D" using own' tab' by blast+
  moreover have "umaps (phys s) D f \<subseteq> {(d, p)}" using f(3) by (auto simp: umaps_upd [OF upd d])
  then have "umaps (phys s) D f = {}" using gone [OF _ f(3)] f(1) by blast
  ultimately show "kframe s D f" by (simp add: kframe_def)
qed

section \<open>Changing the permissions of a mapped page\<close>

lemma pte_upd_store:
  assumes "tables_ok s D" "d \<in> D" "has_table (phys s) d va"
  shows "pte_upd (phys s) (store32 (phys s) (pte_addr (phys s) d va) e) D d (PGROUNDDOWN va) e"
  using store_pte(2) [OF assms refl] by (auto simp: pte_upd_def)

lemma present_has_table: "present m d va \<Longrightarrow> has_table m d va"
  by (auto simp: present_def lookup_def split: if_splits)

lemma refs_upd_phys [simp]: "refs (s\<lparr>phys := m\<rparr>) = refs s"
  by (rule ext) (simp add: refs_def)

lemma set_flags:
  assumes inv: "vm_inv s D" and d: "d \<in> D" and va: "va < KERNBASE" and p: "present (phys s) d va"
    and e: "PTE_ADDR e = PTE_ADDR (lookup (phys s) d va)" "flag e PTE_P"
      "flag e PTE_W \<longrightarrow> refs s (PTE_ADDR e) = 1"
    and s': "s' = s\<lparr>phys := store32 (phys s) (pte_addr (phys s) d va) e\<rparr>"
  shows "vm_inv s' D" "vm_frame s D s' D {(d, PGROUNDDOWN va)} {}"
    "pte_upd (phys s) (phys s') D d (PGROUNDDOWN va) e" "refs s' = refs s"
    "\<And>d' va'. d' \<in> D \<Longrightarrow> va' < KERNBASE \<Longrightarrow> present (phys s) d' va' \<Longrightarrow>
      ubyte (phys s') d' va' = ubyte (phys s) d' va'"
proof -
  note ok = vm_invD(2) [OF inv] and t = present_has_table [OF p]
  have upd: "pte_upd (phys s) (phys s') D d (PGROUNDDOWN va) e"
    unfolding s' using pte_upd_store [OF ok d t] by simp
  show "pte_upd (phys s) (phys s') D d (PGROUNDDOWN va) e" by (rule upd)
  note u = umapsI [OF d va p, folded e(1)]
  note own = mapped_owned [OF inv d va p, folded e(1)]
  have at: "all_tabs s' D = all_tabs s D"
    by (rule all_tabs_cong) (simp add: s' store_pte(1) [OF ok d t refl])
  have mem: "phys s' a = phys s a" if "PGROUNDDOWN a \<notin> all_tabs s D" for a
  proof -
    have "PTE_ADDR (pde_of (phys s) d va) \<in> all_tabs s D"
      using d t by (auto simp: all_tabs_def tabs_def)
    then have "PGROUNDDOWN a \<noteq> PTE_ADDR (pde_of (phys s) d va)" using that by auto
    then show ?thesis unfolding s' by (simp add: store32_frame)
  qed
  show r: "refs s' = refs s" by (simp add: s')
  have eq: "kend s' = kend s" "kdata s' = kdata s" "kpgdir s' = kpgdir s" "vmach.more s' = vmach.more s"
    by (simp_all add: s')
  have kp: "kpage s (P2V (PTE_ADDR e))" using own by (simp add: owned_def)
  show "vm_inv s' D"
  proof (rule vm_inv_upd [OF inv d _ user_page [OF va] upd])
    show "kmem_inv s'" "tables_ok s' D"
      unfolding s' using store_pte(3) [OF ok d t refl] store_pte_inv [OF ok vm_invD(1) [OF inv] d t] by auto
    show "refs s' f = refs s f - hit ((d, PGROUNDDOWN va) \<in> umaps (phys s) D f) +
        hit (flag e PTE_P \<and> PTE_ADDR e = f)" for f
    proof (cases "PTE_ADDR e = f")
      case True
      then show ?thesis using u e by (simp add: r)
    next
      case False
      then have "(d, PGROUNDDOWN va) \<notin> umaps (phys s) D f"
        using e(1) by (auto simp: umaps_def lookup_page)
      then show ?thesis using False by (simp add: r hit_def)
    qed
  qed (use u own e kp eq in \<open>auto simp: at r\<close>)
  have os: "owned s' = owned s" unfolding s' by simp
  have um: "umaps (phys s') D f \<noteq> {}" if "umaps (phys s) D f = {(d, PGROUNDDOWN va)}" for f
  proof -
    have "(d, PGROUNDDOWN va) \<in> umaps (phys s) D f" using that by simp
    then have "PTE_ADDR e = f" using e(1) by (simp add: umaps_def lookup_page)
    then show ?thesis using e(2) umaps_upd [OF upd d _ user_page [OF va], of f] by simp
  qed
  show "vm_frame s D s' D {(d, PGROUNDDOWN va)} {}"
    by (rule vm_frame_upd [OF inv d _ user_page [OF va] upd])
       (use u mem eq um in \<open>auto simp: at r os kframe_def\<close>)
  fix d' va' assume d': "d' \<in> D" "va' < KERNBASE" "present (phys s) d' va'"
  have "PTE_ADDR (lookup (phys s') d' va') = PTE_ADDR (lookup (phys s) d' va')"
    using pte_updD [OF upd d'(1), of va'] e(1) same_page_lookup [of va' va "phys s" d] by auto
  then show "ubyte (phys s') d' va' = ubyte (phys s) d' va'"
    using mapped_owned [OF inv d'] by (simp add: ubyte_def mem)
qed

lemma more_fields:
  fixes s s' :: "'z vmach_scheme"
  assumes "kmem.more s' = kmem.more s"
  shows "cr3 s' = cr3 s" "kdata s' = kdata s" "kpgdir s' = kpgdir s" "vmach.more s' = vmach.more s"
  using assms by (cases s; cases s'; simp)+

section \<open>Unmapping a page\<close>

lemma refs_fun_upd:
  assumes "refcnt s' = (refcnt s)(pidx (P2V f) := n)" "aligned f" "aligned g"
  shows "refs s' g = (if g = f then n else refs s g)"
  using assms by (simp add: refs_def pidx_inj)

lemma mapped_shared:
  assumes "vm_inv s D" "x \<in> umaps (phys s) D f" "umaps (phys s) D f \<noteq> {x}"
  shows "1 < refs s f"
proof -
  have "card (umaps (phys s) D f) \<noteq> 0" "card (umaps (phys s) D f) \<noteq> 1"
    using assms(2,3) by (auto simp: card_1_singleton_iff)
  then have "1 < card (umaps (phys s) D f)" by linarith
  moreover have "umaps (phys s) D f \<noteq> {}" using assms(2) by blast
  ultimately show ?thesis using vm_invD(6) [OF assms(1)] by simp
qed

lemma kframe_aligned: "kframe s D f \<Longrightarrow> aligned f"
  unfolding kframe_def using owned_aligned by blast

lemma frame_nonzero:
  assumes "vm_inv s D" "owned s f"
  shows "f \<noteq> 0"
proof
  assume "f = 0"
  then have "kend s \<le> KERNBASE" using assms(2) unfolding owned_def kpage_def P2V_def by simp
  then show False using vm_invD(3) [OF assms(1)] by (simp add: not_less [symmetric])
qed

lemma unmap_page:
  assumes inv: "vm_inv s D" and d: "d \<in> D" and va: "va < KERNBASE" and p: "present (phys s) d va"
    and f: "f = PTE_ADDR (lookup (phys s) d va)"
  shows "\<exists>s1 s'. kfree s (P2V f) = Ret s1 \<and> s' = s1\<lparr>phys := store32 (phys s1) (pte_addr (phys s) d va) 0\<rparr> \<and>
    vm_inv s' D \<and> vm_frame s D s' D {(d, PGROUNDDOWN va)} {} \<and>
    pte_upd (phys s) (phys s') D d (PGROUNDDOWN va) 0 \<and>
    refcnt s' = (refcnt s)(pidx (P2V f) := refs s f - 1)"
proof -
  note ok = vm_invD(2) [OF inv] and t = present_has_table [OF p] and ki = vm_invD(1) [OF inv]
  note u = umapsI [OF d va p, folded f] and own = mapped_owned [OF inv d va p, folded f]
  have kp: "kpage s (P2V f)" "0 < refcnt s (pidx (P2V f))" using own by (auto simp: owned_def)
  obtain s1 where s1: "kfree s (P2V f) = Ret s1" "kmem_inv s1"
      "refcnt s1 = (refcnt s)(pidx (P2V f) := refs s f - 1)"
      "\<And>a. PGROUNDDOWN a \<noteq> f \<or> 1 < refs s f \<Longrightarrow> phys s1 a = phys s a"
    using ka.drop_law [OF ki kp] unfolding refs_def by auto
  note fr = kfree_frame [OF s1(1)]
  have af: "aligned f" by (simp add: f)
  have rf: "refs s1 g = (if g = f then refs s f - 1 else refs s g)" if "aligned g" for g
    by (rule refs_fun_upd [OF s1(3) af that])
  have mt: "phys s1 a = phys s a" if "PGROUNDDOWN a \<in> all_tabs s D" for a
    using that own by (intro s1(4)) auto
  have pde: "pde_of (phys s1) d' va' = pde_of (phys s) d' va'"
      and lk: "lookup (phys s1) d' va' = lookup (phys s) d' va'" if "d' \<in> D" for d' va'
    using same_tabs [OF ok _ that, of s1] mt by blast+
  have o1: "sole s1 g" if "sole s g" "g \<noteq> f" for g
    using that rf [OF owned_aligned [OF sole_owned [OF that(1)]]] kpage_cong [of s1 s] fr
    by (simp add: sole_def refs_def)
  have ok1: "tables_ok s1 D"
    by (rule tables_ok_cong [OF ok pde]) (use own o1 in \<open>auto simp: all_tabs_def\<close>)
  have pa: "pte_addr (phys s1) d va = pte_addr (phys s) d va" and t1: "has_table (phys s1) d va"
    using pde [OF d] t by (simp_all add: pte_addr_def has_table_def)
  define s' where "s' = s1\<lparr>phys := store32 (phys s1) (pte_addr (phys s) d va) 0\<rparr>"
  have eq: "kend s' = kend s" "kdata s' = kdata s" "kpgdir s' = kpgdir s" "vmach.more s' = vmach.more s"
      "refcnt s' = refcnt s1"
    using fr more_fields [of s1 s] by (simp_all add: s'_def)
  have upd: "pte_upd (phys s) (phys s') D d (PGROUNDDOWN va) 0"
    using pte_upd_store [OF ok1 d t1, of 0] lk unfolding pa pte_upd_def s'_def by auto
  have at1: "all_tabs s1 D = all_tabs s D" by (rule all_tabs_cong) (rule pde)
  have at: "all_tabs s' D = all_tabs s D"
    unfolding at1 [symmetric] using store_pte(1) [OF ok1 d t1 refl]
    by (intro all_tabs_cong) (simp add: s'_def pa)
  have rs: "refs s' = refs s1" by (simp add: s'_def)
  have "vm_inv s' D"
  proof (rule vm_inv_upd [OF inv d _ user_page [OF va] upd])
    show "kmem_inv s'" "tables_ok s' D"
      unfolding s'_def using store_pte(3) [OF ok1 d t1 refl, of 0] store_pte_inv [OF ok1 s1(2) d t1, of 0]
      by (simp_all add: pa)
    fix g assume "umaps (phys s') D g \<noteq> {}"
    then have "aligned g" by (rule umaps_aligned)
    moreover have "(d, PGROUNDDOWN va) \<in> umaps (phys s) D g \<longleftrightarrow> g = f"
      using u by (auto simp: umaps_def)
    ultimately show "refs s' g = refs s g - hit ((d, PGROUNDDOWN va) \<in> umaps (phys s) D g) +
        hit (flag 0 PTE_P \<and> PTE_ADDR 0 = g)"
      using rf by (simp add: rs)
  qed (simp_all add: at eq)
  moreover have "vm_frame s D s' D {(d, PGROUNDDOWN va)} {}"
  proof (rule vm_frame_upd [OF inv d _ user_page [OF va] upd])
    show "refs s' g = refs s g" if "kframe s D g" for g
      using that u rf [OF kframe_aligned [OF that]] by (auto simp: rs kframe_def)
    fix a assume a: "owned s (PGROUNDDOWN a)" "PGROUNDDOWN a \<notin> all_tabs s D"
      "umaps (phys s) D (PGROUNDDOWN a) \<noteq> {(d, PGROUNDDOWN va)}"
    have "PTE_ADDR (pde_of (phys s) d va) \<in> all_tabs s D"
      using d t by (auto simp: all_tabs_def tabs_def)
    then have "PGROUNDDOWN a \<noteq> PTE_ADDR (pde_of (phys s) d va)" using a by auto
    then have "phys s' a = phys s1 a" by (simp add: s'_def store32_frame)
    also have "\<dots> = phys s a"
      using a(3) mapped_shared [OF inv u] by (intro s1(4)) auto
    finally show "phys s' a = phys s a" .
  next
    fix g assume g: "owned s' g"
    then have "aligned g" by (rule owned_aligned)
    with g rf [of g] own show "owned s g \<or> g \<in> all_tabs s' D \<or> umaps (phys s') D g \<noteq> {}"
      using kpage_cong [OF eq(1)] rs by (auto simp: owned_def refs_def fun_eq_iff split: if_splits)
  next
    fix g assume "umaps (phys s) D g = {(d, PGROUNDDOWN va)}"
    then have "g = f" "refs s g = 1" using u vm_invD(6) [OF inv, of g] by (auto simp: umaps_def)
    then show "\<not> owned s' g" using rf [OF af] by (simp add: owned_def rs [symmetric] refs_def [symmetric])
  qed (simp_all add: at eq)
  ultimately show ?thesis using s1(1,3) upd eq by (intro exI [of _ s1] exI [of _ s']) (simp add: s'_def)
qed

section \<open>Taking and giving back a frame\<close>

lemma vm_frame_same_owned:
  assumes inv: "vm_inv s D" and mem: "\<And>a. owned s (PGROUNDDOWN a) \<Longrightarrow> phys s' a = phys s a"
    and refs: "\<And>f. owned s f \<Longrightarrow> refs s' f = refs s f"
    and eq: "kend s' = kend s" "kdata s' = kdata s" "kpgdir s' = kpgdir s" "vmach.more s' = vmach.more s"
    and new: "\<And>f. owned s' f \<Longrightarrow> owned s f \<or> f \<in> F"
  shows "vm_frame s D s' D {} F" "all_tabs s' D = all_tabs s D"
proof -
  note ok = vm_invD(2) [OF inv]
  have lk: "lookup (phys s') d va = lookup (phys s) d va"
      and pde: "pde_of (phys s') d va = pde_of (phys s) d va" if "d \<in> D" for d va
    using same_tabs [OF ok _ that, of s'] mem tabs_owned [OF ok] by blast+
  note um = umaps_cong [of D "phys s'" "phys s", OF lk]
  show at: "all_tabs s' D = all_tabs s D" by (rule all_tabs_cong [OF pde])
  have "owned s' f" if "owned s f" for f
    using that refs [OF that] kpage_cong [OF eq(1)] by (simp add: owned_def refs_def)
  then have "kframe s' D f" if "kframe s D f" for f
    using that by (simp add: kframe_def um at)
  moreover have "ubyte (phys s') d va = ubyte (phys s) d va"
    if "d \<in> D" "va < KERNBASE" "present (phys s) d va" for d va
    using mapped_owned [OF inv that] unfolding ubyte_def lk [OF that(1)] by (intro mem) simp
  moreover have "kframe s D f" if "kframe s' D f" "f \<notin> F" for f
    using that new by (auto simp: kframe_def um at)
  moreover have "refs s' f = refs s f \<and> (\<forall>a. PGROUNDDOWN a = f \<longrightarrow> phys s' a = phys s a)" if "kframe s D f" for f
    using that refs mem by (simp add: kframe_def)
  ultimately show "vm_frame s D s' D {} F"
    unfolding vm_frame_def using eq lk by simp
qed

lemma kalloc_page:
  assumes inv: "kmem_inv s" and al: "kalloc s = Ret (mem, s1)" "mem \<noteq> 0"
    and m: "\<forall>a. PGROUNDDOWN a \<noteq> V2P mem \<longrightarrow> m a = phys s a"
    and s2: "s2 = s1\<lparr>phys := m\<rparr>"
  shows "kmem_inv s2" "kpage s mem" "\<not> owned s (V2P mem)" "owned s2 (V2P mem)"
    "\<And>a. owned s (PGROUNDDOWN a) \<Longrightarrow> phys s2 a = phys s a"
    "\<And>g. aligned g \<Longrightarrow> refs s2 g = (if g = V2P mem then 1 else refs s g)"
    "refs s (V2P mem) = 0" "kend s2 = kend s" "kmem.more s2 = kmem.more s"
    "refcnt s2 = (refcnt s)(pidx mem := 1)" "\<And>g. owned s2 g \<Longrightarrow> owned s g \<or> g \<in> {V2P mem}"
proof -
  have new: "kpage s mem" "refcnt s (pidx mem) = 0" "refcnt s1 = (refcnt s)(pidx mem := 1)"
    using ka.alloc_new [OF inv al] by auto
  have fr: "kend s1 = kend s" "phys s1 = phys s" "kmem.more s1 = kmem.more s"
    using kalloc_frame [OF al(1)] by auto
  show kp: "kpage s mem" by (rule new)
  show "kend s2 = kend s" "kmem.more s2 = kmem.more s" "refcnt s2 = (refcnt s)(pidx mem := 1)"
    using fr new(3) by (simp_all add: s2)
  show no: "\<not> owned s (V2P mem)" "refs s (V2P mem) = 0" using new(2) by (simp_all add: owned_def refs_def)
  have k1: "kpage s1 mem" using kp kpage_cong [OF fr(1)] by simp
  show o: "owned s2 (V2P mem)" using k1 new(3) by (simp add: s2 owned_def)
  show "phys s2 a = phys s a" if "owned s (PGROUNDDOWN a)" for a
  proof -
    have "PGROUNDDOWN a \<noteq> V2P mem" using that no(1) by metis
    then show ?thesis using m by (simp add: s2)
  qed
  show r: "refs s2 g = (if g = V2P mem then 1 else refs s g)" if "aligned g" for g
    using refs_fun_upd [of s2 s "V2P mem" 1 g] new(3) that kp by (simp add: s2)
  show "owned s g \<or> g \<in> {V2P mem}" if "owned s2 g" for g
    using that r [OF owned_aligned [OF that]] kpage_cong [of s1 s] fr by (auto simp: s2 owned_def refs_def)
  show "kmem_inv s2"
    unfolding s2
  proof (rule kmem_inv_owned_write)
    show "kmem_inv s1" using ka.alloc_inv [OF inv al(1)] by simp
    fix a assume "\<not> owned s1 (PGROUNDDOWN a)"
    then have "PGROUNDDOWN a \<noteq> V2P mem" using o by (auto simp: s2)
    then show "m a = phys s1 a" using m fr by simp
  qed
qed

lemma alloc_page:
  assumes inv: "vm_inv s D" and al: "kalloc s = Ret (mem, s1)" "mem \<noteq> 0"
    and m: "\<forall>a. PGROUNDDOWN a \<noteq> V2P mem \<longrightarrow> m a = phys s a"
    and s2: "s2 = s1\<lparr>phys := m\<rparr>"
  shows "vm_inv s2 D" "vm_frame s D s2 D {} {V2P mem}" "kframe s2 D (V2P mem)" "refs s2 (V2P mem) = 1"
    "all_tabs s2 D = all_tabs s D"
proof -
  note kp = kalloc_page [OF vm_invD(1) [OF inv] al m s2] and eq = more_fields [of s2 s]
  have r: "refs s2 f = refs s f" if "owned s f" for f
    using kp(6) [of f] kp(3) owned_aligned [OF that] that by auto
  show i: "vm_inv s2 D" by (rule vm_inv_same_owned [OF inv kp(5) r kp(1,8)])
  note fs = vm_frame_same_owned [OF inv kp(5) r kp(8) eq(2-4) kp(11), simplified kp(9), simplified]
  show v: "vm_frame s D s2 D {} {V2P mem}" by (rule fs(1))
  show t: "all_tabs s2 D = all_tabs s D" by (rule fs(2))
  show "refs s2 (V2P mem) = 1" using kp(6) [of "V2P mem"] kpage_aligned [OF kp(2)] by simp
  have "umaps (phys s2) D (V2P mem) = umaps (phys s) D (V2P mem)"
    by (rule umaps_cong) (use vm_frameD(5) [OF v] in auto)
  also have "\<dots> = {}" using umaps_refs_pos(2) [OF inv] kp(3) by auto
  finally show "kframe s2 D (V2P mem)"
    using kp(3,4) tabs_owned [OF vm_invD(2) [OF inv]] by (auto simp: kframe_def t)
qed

lemma free_kframe:
  assumes inv: "vm_inv s D" and f: "kframe s D f" "refs s f = 1"
  shows "\<exists>s'. kfree s (P2V f) = Ret s' \<and> vm_inv s' D \<and> vm_frame s D s' D {} {f} \<and>
    refcnt s' = (refcnt s)(pidx (P2V f) := 0)"
proof -
  have o: "owned s f" "f \<notin> all_tabs s D" "umaps (phys s) D f = {}" using f by (auto simp: kframe_def)
  have kp: "kpage s (P2V f)" "0 < refcnt s (pidx (P2V f))" using o(1) by (auto simp: owned_def)
  obtain s' where s': "kfree s (P2V f) = Ret s'" "kmem_inv s'"
      "refcnt s' = (refcnt s)(pidx (P2V f) := 0)"
      "\<And>a. PGROUNDDOWN a \<noteq> f \<Longrightarrow> phys s' a = phys s a"
    using ka.drop_law [OF vm_invD(1) [OF inv] kp] f(2) unfolding refs_def by auto
  have eq: "kend s' = kend s" "kmem.more s' = kmem.more s" using kfree_frame [OF s'(1)] by auto
  have rf: "refs s' g = (if g = f then 0 else refs s g)" if "aligned g" for g
    by (rule refs_fun_upd [OF s'(3) owned_aligned [OF o(1)] that])
  note ok = vm_invD(2) [OF inv]
  have lk: "lookup (phys s') d va = lookup (phys s) d va"
      and pde: "pde_of (phys s') d va = pde_of (phys s) d va" if "d \<in> D" for d va
    using same_tabs [OF ok _ that, of s'] s'(4) o(2) by metis+
  note um = umaps_cong [of D "phys s'" "phys s", OF lk] and at = all_tabs_cong [of D s' s, OF pde]
  have own: "owned s' g" if "owned s g" "g \<noteq> f" for g
    using that rf [OF owned_aligned [OF that(1)]] kpage_cong [OF eq(1)] by (simp add: owned_def refs_def)
  have "vm_inv s' D"
    unfolding vm_inv_def
  proof (intro conjI allI ballI impI)
    show "kmem_inv s'" by (rule s')
    have "sole s' g" if "sole s g" "g \<noteq> f" for g
      using that rf [OF owned_aligned [OF sole_owned [OF that(1)]]] kpage_cong [OF eq(1)]
      by (simp add: sole_def refs_def)
    then show "tables_ok s' D"
      by (intro tables_ok_cong [OF ok pde]) (use o(2) in \<open>auto simp: all_tabs_def\<close>)
    show "KERNBASE < kend s'" using vm_invD(3) [OF inv] eq by simp
  next
    fix g assume "umaps (phys s') D g \<noteq> {}"
    then have g: "umaps (phys s) D g \<noteq> {}" "g \<noteq> f" "aligned g"
      using o(3) umaps_aligned by (auto simp: um)
    then show "kpage s' (P2V g)" "g \<notin> all_tabs s' D" "refs s' g = int (card (umaps (phys s') D g))"
      using vm_invD(4,5,6) [OF inv g(1)] rf [OF g(3)] kpage_cong [OF eq(1)] by (simp_all add: um at)
  next
    fix d va assume d: "d \<in> D" and va: "va < KERNBASE" and w: "writable (phys s') d va"
    then have w': "writable (phys s) d va" by (simp add: writable_def present_def lk)
    then have "PTE_ADDR (lookup (phys s) d va) \<noteq> f"
      using umapsI [OF d va, of "phys s"] o(3) by (auto simp: writable_def)
    then show "refs s' (PTE_ADDR (lookup (phys s') d va)) = 1"
      using vm_invD(7) [OF inv d va w'] rf [of "PTE_ADDR (lookup (phys s) d va)"] d by (simp add: lk)
  qed
  moreover have "vm_frame s D s' D {} {f}"
    unfolding vm_frame_def
  proof (intro conjI ballI allI impI)
    fix d va assume "d \<in> D \<inter> D" "va < KERNBASE" "present (phys s) d va"
    then have d: "d \<in> D" "va < KERNBASE" "present (phys s) d va" by auto
    then have "PTE_ADDR (lookup (phys s) d va) \<noteq> f" using umapsI [OF d] o(3) by auto
    then show "ubyte (phys s') d va = ubyte (phys s) d va"
      unfolding ubyte_def lk [OF d(1)] by (intro s'(4)) simp
  next
    fix g assume g: "kframe s D g" "g \<notin> {f}"
    then show "kframe s' D g" "refs s' g = refs s g"
      using own rf [OF kframe_aligned [OF g(1)]] by (auto simp: kframe_def um at)
    show "phys s' a = phys s a" if "PGROUNDDOWN a = g" for a using that g by (intro s'(4)) auto
  next
    fix g assume g: "kframe s' D g" "g \<notin> {f}"
    then show "kframe s D g"
      using rf [OF kframe_aligned [OF g(1)]] kpage_cong [OF eq(1)]
      by (simp add: kframe_def um at owned_def refs_def)
  qed (use eq more_fields [of s' s] lk in auto)
  ultimately show ?thesis using s' by blast
qed

section \<open>Mapping a page\<close>

lemma aligned_no_flag: "aligned f \<Longrightarrow> b AND NOT 0xFFF = 0 \<Longrightarrow> \<not> flag f b"
proof -
  assume a: "aligned f" and b: "b AND NOT 0xFFF = 0"
  have "b = b AND 0xFFF" using word_page_split [of b] b by simp
  then have "f AND b = (f AND 0xFFF) AND b" by (metis and.assoc and.commute)
  then show ?thesis using a by (simp add: flag_def aligned_def)
qed

lemma low_bits:
  "PTE_P AND NOT 0xFFF = 0" "PTE_W AND NOT 0xFFF = 0" "PTE_U AND NOT 0xFFF = 0" "PTE_COW AND NOT 0xFFF = 0"
  by (simp_all add: pte_bits)

lemma low_or: "a AND NOT 0xFFF = 0 \<Longrightarrow> b AND NOT 0xFFF = 0 \<Longrightarrow> (a OR b :: u32) AND NOT 0xFFF = 0"
  by (simp add: or_and_distrib)

lemma pte_make:
  assumes "aligned f" "perm AND NOT 0xFFF = 0"
  shows "PTE_ADDR (f OR perm OR PTE_P) = f" "flag (f OR perm OR PTE_P) PTE_P"
    "flag (f OR perm OR PTE_P) PTE_W \<longleftrightarrow> flag perm PTE_W"
    "flag (f OR perm OR PTE_P) PTE_U \<longleftrightarrow> flag perm PTE_U"
    "flag (f OR perm OR PTE_P) PTE_COW \<longleftrightarrow> flag perm PTE_COW"
proof -
  show "PTE_ADDR (f OR perm OR PTE_P) = f"
    by (rule PTE_ADDR_or [OF assms(1) low_or [OF assms(2) low_bits(1)]])
  have P: "flag PTE_P PTE_P" "\<not> flag PTE_P PTE_W" "\<not> flag PTE_P PTE_U" "\<not> flag PTE_P PTE_COW"
    by (simp_all add: flag_def pte_bits)
  show "flag (f OR perm OR PTE_P) PTE_P"
    "flag (f OR perm OR PTE_P) PTE_W \<longleftrightarrow> flag perm PTE_W"
    "flag (f OR perm OR PTE_P) PTE_U \<longleftrightarrow> flag perm PTE_U"
    "flag (f OR perm OR PTE_P) PTE_COW \<longleftrightarrow> flag perm PTE_COW"
    using aligned_no_flag [OF assms(1) low_bits(1)] aligned_no_flag [OF assms(1) low_bits(2)]
      aligned_no_flag [OF assms(1) low_bits(3)] aligned_no_flag [OF assms(1) low_bits(4)] P
    by (simp_all add: flag_or)
qed

text \<open>
  Mapping a page that was just taken from the allocator and filled, at a page of the address
  space that is not present. \<open>s\<close> is the state before the allocation.
\<close>

lemma map_fresh:
  assumes inv: "vm_inv s D" and d: "d \<in> D" and va: "aligned va" "va < KERNBASE"
    and np: "\<not> present (phys s) d va"
    and al: "kalloc s = Ret (mem, s1)" "mem \<noteq> 0"
    and m: "\<forall>a. PGROUNDDOWN a \<noteq> V2P mem \<longrightarrow> m a = phys s a"
    and s2: "s2 = s1\<lparr>phys := m\<rparr>" and perm: "perm AND NOT 0xFFF = 0"
  shows "\<exists>r s3. mappages s2 d va PGSIZE (V2P mem) perm = Ret (r, s3) \<and>
    (r = -1 \<and> s3 = s2 \<or>
     r = 0 \<and> vm_inv s3 D \<and> vm_frame s D s3 D {(d, va)} {} \<and>
       pte_upd (phys s) (phys s3) D d va (V2P mem OR perm OR PTE_P) \<and> refs s3 (V2P mem) = 1 \<and>
       (\<forall>a. PGROUNDDOWN a = V2P mem \<longrightarrow> phys s3 a = m a))"
proof -
  note kp = kalloc_page [OF vm_invD(1) [OF inv] al m s2] and ap = alloc_page [OF inv al m s2]
  have lk: "lookup (phys s2) d' va' = lookup (phys s) d' va'" if "d' \<in> D" for d' va'
    using vm_frameD(5) [OF ap(2) that that] by simp
  have np2: "\<not> present (phys s2) d va" using np d by (simp add: present_def lk)
  have af: "aligned (V2P mem)" using kpage_aligned [OF kp(2)] by simp
  note pm = pte_make [OF af perm]
  obtain r s3 where r: "mappages s2 d va PGSIZE (V2P mem) perm = Ret (r, s3)"
      "tables_ok s3 D" "kmem_inv s3" "vm_ext s2 s3 D"
      "r = -1 \<and> s3 = s2 \<or> r = 0 \<and> (\<forall>d' \<in> D. \<forall>va'. lookup (phys s3) d' va' =
           (if d' = d \<and> PGROUNDDOWN va' = va then V2P mem OR perm OR PTE_P else lookup (phys s2) d' va'))"
    using mappages_page(2) [OF vm_invD(2,1) [OF ap(1)] d va(1) np2, of "V2P mem" perm] by blast
  show ?thesis
  proof (cases "r = 0")
    case False
    then show ?thesis using r by auto
  next
    case True
    have upd: "pte_upd (phys s) (phys s3) D d va (V2P mem OR perm OR PTE_P)"
      using r(5) True lk by (simp add: pte_upd_def)
    note ext = vm_ext_D [OF r(4)]
    have own2: "owned s2 g" if "owned s g" for g
      using that kp(6) [OF owned_aligned [OF that]] kpage_cong [OF kp(8)] by (simp add: owned_def refs_def)
    have r3: "refs s3 g = refs s2 g" if "owned s2 g" for g
      using that ext(3) unfolding owned_def refs_def by blast
    have r3': "refs s3 g = refs s g" if "owned s g" for g
      using r3 [OF own2 [OF that]] kp(6) [OF owned_aligned [OF that]] that kp(3) by auto
    have m1: "refs s3 (V2P mem) = 1" using r3 [OF kp(4)] ap(4) by simp
    have ntab: "V2P mem \<notin> all_tabs s D" using kp(3) tabs_owned [OF vm_invD(2) [OF inv]] by blast
    have tab: "g \<in> all_tabs s D" if "owned s2 g" "g \<in> all_tabs s3 D" for g
      using ext(5) [OF that] ap(5) by simp
    have um: "umaps (phys s) D (V2P mem) = {}" using umaps_refs_pos(2) [OF inv] kp(3) by auto
    have eq: "kend s3 = kend s" "kmem.more s3 = kmem.more s" using ext(1,2) kp(8,9) by auto
    have mem3: "phys s3 a = phys s2 a" if "owned s2 (PGROUNDDOWN a)" "PGROUNDDOWN a \<notin> all_tabs s D" for a
      using ext(4) [OF that(1)] that(2) ap(5) by simp
    have "vm_inv s3 D"
    proof (rule vm_inv_upd [OF inv d va upd r(3,2) eq(1)])
      show "g \<in> all_tabs s D" if "owned s g" "g \<in> all_tabs s3 D" for g
        using tab own2 that by blast
      fix g assume g: "umaps (phys s3) D g \<noteq> {}"
      have npu: "(d, va) \<notin> umaps (phys s) D g" using np by (simp add: umaps_def)
      show "refs s3 g = refs s g - hit ((d, va) \<in> umaps (phys s) D g) +
          hit (flag (V2P mem OR perm OR PTE_P) PTE_P \<and> PTE_ADDR (V2P mem OR perm OR PTE_P) = g)"
      proof (cases "g = V2P mem")
        case True
        then show ?thesis using npu pm m1 kp(7) by simp
      next
        case False
        then have "umaps (phys s) D g \<noteq> {}" using g pm by (auto simp: umaps_upd [OF upd d va] split: if_splits)
        then have "owned s g" using umaps_refs_pos(2) [OF inv] by fast
        then show ?thesis using False npu pm r3' by simp
      qed
    next
      show "kpage s (P2V (PTE_ADDR (V2P mem OR perm OR PTE_P))) \<and>
          PTE_ADDR (V2P mem OR perm OR PTE_P) \<notin> all_tabs s3 D \<and>
          (umaps (phys s) D (PTE_ADDR (V2P mem OR perm OR PTE_P)) = {} \<longrightarrow>
            refs s (PTE_ADDR (V2P mem OR perm OR PTE_P)) = 0)"
        using pm(1) kp(2,7) tab [OF kp(4)] ntab by auto
      show "refs s3 (PTE_ADDR (V2P mem OR perm OR PTE_P)) = 1" using m1 pm(1) by simp
      fix d' va' assume d': "d' \<in> D" "va' < KERNBASE"
        "PTE_ADDR (lookup (phys s) d' va') = PTE_ADDR (V2P mem OR perm OR PTE_P)"
      then show "\<not> writable (phys s) d' va'"
        using umapsI [OF d'(1,2), of "phys s"] um pm(1) by (auto simp: writable_def)
    qed
    moreover have "vm_frame s D s3 D {(d, va)} {}"
    proof (rule vm_frame_upd [OF inv d va upd])
      show "g \<in> all_tabs s D" if "owned s g" "g \<in> all_tabs s3 D" for g
        using tab own2 that by blast
      show "\<not> kframe s D (PTE_ADDR (V2P mem OR perm OR PTE_P))" using kp(3) pm(1) by (simp add: kframe_def)
      show "refs s3 g = refs s g" if "kframe s D g" for g
        using that r3' by (simp add: kframe_def)
      show "phys s3 a = phys s a" if "owned s (PGROUNDDOWN a)" "PGROUNDDOWN a \<notin> all_tabs s D" for a
        using mem3 [OF own2 [OF that(1)] that(2)] kp(5) [OF that(1)] by simp
      show "all_tabs s D \<subseteq> all_tabs s3 D" using ext(7) ap(5) by simp
      have "umaps (phys s3) D (V2P mem) \<noteq> {}" using umaps_upd [OF upd d va, of "V2P mem"] pm by simp
      then show "owned s g \<or> g \<in> all_tabs s3 D \<or> umaps (phys s3) D g \<noteq> {}" if "owned s3 g" for g
        using ext(6) [OF that] kp(11) [of g] by blast
      show "\<not> owned s3 g" if "umaps (phys s) D g = {(d, va)}" for g
        using that np by (auto simp: umaps_def)
    qed (use eq more_fields [of s3 s] in auto)
    moreover have "phys s3 a = m a" if "PGROUNDDOWN a = V2P mem" for a
      using mem3 [of a] kp(4) ntab that by (simp add: s2)
    ultimately show ?thesis using r(1) True upd m1 by blast
  qed
qed

text \<open>Mapping a frame a second time and counting the new reference.\<close>

lemma map_shared:
  assumes inv: "vm_inv s D" and d: "d \<in> D" and va: "aligned va" "va < KERNBASE"
    and np: "\<not> present (phys s) d va"
    and f: "umaps (phys s) D f \<noteq> {}"
    and nw: "\<And>d' va'. d' \<in> D \<Longrightarrow> va' < KERNBASE \<Longrightarrow> PTE_ADDR (lookup (phys s) d' va') = f \<Longrightarrow>
      \<not> writable (phys s) d' va'"
    and perm: "perm AND NOT 0xFFF = 0" "\<not> flag perm PTE_W"
  shows "\<exists>r s3. mappages s d va PGSIZE f perm = Ret (r, s3) \<and>
    (r = -1 \<and> s3 = s \<or>
     r = 0 \<and> (\<exists>s4. kref_inc s3 f = Ret s4 \<and> vm_inv s4 D \<and> vm_frame s D s4 D {(d, va)} {} \<and>
       pte_upd (phys s) (phys s4) D d va (f OR perm OR PTE_P) \<and> refs s4 f = refs s f + 1 \<and>
       (\<forall>a. owned s (PGROUNDDOWN a) \<longrightarrow> PGROUNDDOWN a \<notin> all_tabs s D \<longrightarrow> phys s4 a = phys s a)))"
proof -
  have af: "aligned f" by (rule umaps_aligned [OF f])
  note pm = pte_make [OF af perm(1)]
  have own: "owned s f" using umaps_refs_pos(2) [OF inv] f by fast
  have nt: "f \<notin> all_tabs s D" by (rule vm_invD(5) [OF inv f])
  obtain r s3 where r: "mappages s d va PGSIZE f perm = Ret (r, s3)"
      "tables_ok s3 D" "kmem_inv s3" "vm_ext s s3 D"
      "r = -1 \<and> s3 = s \<or> r = 0 \<and> (\<forall>d' \<in> D. \<forall>va'. lookup (phys s3) d' va' =
           (if d' = d \<and> PGROUNDDOWN va' = va then f OR perm OR PTE_P else lookup (phys s) d' va'))"
    using mappages_page(2) [OF vm_invD(2,1) [OF inv] d va(1) np, of f perm] by blast
  show ?thesis
  proof (cases "r = 0")
    case False
    then show ?thesis using r by auto
  next
    case True
    note ext = vm_ext_D [OF r(4)]
    have kp3: "kpage s3 (P2V f)" "0 < refcnt s3 (pidx (P2V f))"
      using vm_ext_owned [OF r(4) own] by (auto simp: owned_def)
    have r3: "refs s3 g = refs s g" if "owned s g" for g
      using that ext(3) by (auto simp: owned_def refs_def)
    obtain s4 where s4: "kref_inc s3 f = Ret s4" "kmem_inv s4" "phys s4 = phys s3"
        "refcnt s4 = (refcnt s3)(pidx (P2V f) := refs s f + 1)"
      using ka.dup_law [OF r(3) kp3] r3 [OF own] unfolding refs_def by auto
    note fr = kref_inc_frame [OF s4(1)]
    have eq: "kend s4 = kend s" "kmem.more s4 = kmem.more s" using fr ext(1,2) by auto
    have r4: "refs s4 g = (if g = f then refs s f + 1 else refs s g)" if "owned s g" for g
      using refs_fun_upd [OF s4(4) af owned_aligned [OF that]] r3 [OF that] by simp
    have upd: "pte_upd (phys s) (phys s4) D d va (f OR perm OR PTE_P)"
      using r(5) True s4(3) by (simp add: pte_upd_def)
    have nt3: "f \<notin> all_tabs s3 D" using ext(5) [OF own] nt by blast
    have own4: "sole s4 g" if "sole s3 g" "g \<noteq> f" for g
      using that refs_fun_upd [OF s4(4) af owned_aligned [OF sole_owned [OF that(1)]]]
        kpage_cong [of s4 s3] fr by (simp add: sole_def refs_def)
    have at: "all_tabs s4 D = all_tabs s3 D" by (rule all_tabs_cong) (simp add: s4(3))
    have ok4: "tables_ok s4 D"
      by (rule tables_ok_cong [OF r(2)]) (use nt3 own4 in \<open>auto simp: s4(3) all_tabs_def\<close>)
    have tab: "g \<in> all_tabs s D" if "owned s g" "g \<in> all_tabs s4 D" for g
      using ext(5) that at by simp
    have npu: "(d, va) \<notin> umaps (phys s) D g" for g using np by (simp add: umaps_def)
    have "vm_inv s4 D"
    proof (rule vm_inv_upd [OF inv d va upd s4(2) ok4 eq(1) tab])
      fix g assume g: "umaps (phys s4) D g \<noteq> {}"
      have "umaps (phys s) D g \<noteq> {}"
        using g f pm by (auto simp: umaps_upd [OF upd d va] split: if_splits)
      then have "owned s g" using umaps_refs_pos(2) [OF inv] by fast
      then show "refs s4 g = refs s g - hit ((d, va) \<in> umaps (phys s) D g) +
          hit (flag (f OR perm OR PTE_P) PTE_P \<and> PTE_ADDR (f OR perm OR PTE_P) = g)"
        using npu pm r4 by (simp add: hit_def)
    next
      show "kpage s (P2V (PTE_ADDR (f OR perm OR PTE_P))) \<and>
          PTE_ADDR (f OR perm OR PTE_P) \<notin> all_tabs s4 D \<and>
          (umaps (phys s) D (PTE_ADDR (f OR perm OR PTE_P)) = {} \<longrightarrow>
            refs s (PTE_ADDR (f OR perm OR PTE_P)) = 0)"
        using pm(1) own nt tab [OF own] f by (auto simp: owned_def)
    qed (use pm perm(2) nw in auto)
    moreover have "phys s4 a = phys s a" if "owned s (PGROUNDDOWN a)" "PGROUNDDOWN a \<notin> all_tabs s D" for a
      using ext(4) [OF that] s4(3) by simp
    moreover have "vm_frame s D s4 D {(d, va)} {}"
    proof (rule vm_frame_upd [OF inv d va upd eq(1) more_fields(2-4) [OF eq(2)] tab])
      show "all_tabs s D \<subseteq> all_tabs s4 D" using ext(7) at by simp
      show "owned s g \<or> g \<in> all_tabs s4 D \<or> umaps (phys s4) D g \<noteq> {}" if "owned s4 g" for g
      proof -
        have "owned s3 g \<or> g = f"
          using that refs_fun_upd [OF s4(4) af owned_aligned [OF that]] kpage_cong [of s4 s3] fr
          by (auto simp: owned_def refs_def)
        then show ?thesis using own ext(6) at by auto
      qed
      show "\<not> owned s4 g" if "umaps (phys s) D g = {(d, va)}" for g
        using that npu [of g] by auto
    qed (use pm(1) f r4 calculation(2) in \<open>auto simp: kframe_def\<close>)
    ultimately show ?thesis using r(1) True upd s4(1) r4 [OF own] by auto
  qed
qed

text \<open>Replacing a shared frame by a private copy of it.\<close>

lemma cow_copy:
  assumes inv: "vm_inv s D" and d: "d \<in> D" and va: "va < KERNBASE" and p: "present (phys s) d va"
    and f: "f = PTE_ADDR (lookup (phys s) d va)" "1 < refs s f"
    and al: "kalloc s = Ret (mem, s1)" "mem \<noteq> 0"
    and s2: "s2 = s1\<lparr>phys := mem_move (phys s1) (V2P mem) f PGSIZE\<rparr>"
    and e: "PTE_ADDR e = V2P mem" "flag e PTE_P"
    and s3: "s3 = s2\<lparr>phys := store32 (phys s2) (pte_addr (phys s2) d va) e\<rparr>"
  shows "\<exists>s4. kfree s3 (P2V f) = Ret s4 \<and> vm_inv s4 D \<and> vm_frame s D s4 D {(d, PGROUNDDOWN va)} {} \<and>
    pte_upd (phys s) (phys s4) D d (PGROUNDDOWN va) e \<and>
    refs s4 (V2P mem) = 1 \<and> refs s4 f = refs s f - 1 \<and>
    (\<forall>va'. PGROUNDDOWN va' = PGROUNDDOWN va \<longrightarrow> ubyte (phys s4) d va' = ubyte (phys s) d va')"
proof -
  note u = umapsI [OF d va p, folded f(1)] and own = mapped_owned [OF inv d va p, folded f(1)]
  have kmem: "kpage s mem" using ka.alloc_new [OF vm_invD(1) [OF inv] al] by simp
  have p1: "phys s1 = phys s" using kalloc_frame [OF al(1)] by simp
  have am: "aligned (V2P mem)" and af: "aligned f" using kpage_aligned [OF kmem] by (simp_all add: f)
  have m: "\<forall>a. PGROUNDDOWN a \<noteq> V2P mem \<longrightarrow> mem_move (phys s1) (V2P mem) f PGSIZE a = phys s a"
    using am by (simp add: mem_move_page p1)
  note kp = kalloc_page [OF vm_invD(1) [OF inv] al m s2] and ap = alloc_page [OF inv al m s2]
  note ok2 = vm_invD(2) [OF ap(1)]
  have lk: "lookup (phys s2) d' va' = lookup (phys s) d' va'" if "d' \<in> D" for d' va'
    using vm_frameD(5) [OF ap(2) that that] by simp
  have t2: "has_table (phys s2) d va" using p d by (intro present_has_table) (simp add: present_def lk)
  have fm: "f \<noteq> V2P mem" using own kp(3) by auto
  have r3: "refs s3 g = (if g = V2P mem then 1 else refs s g)" if "aligned g" for g
    using kp(6) [OF that] by (simp add: s3)
  have kp3: "kpage s3 (P2V f)" using own kpage_cong [of s3 s] kp(8) by (simp add: s3 owned_def)
  define s4 where "s4 = s3\<lparr>refcnt := (refcnt s3)(pidx (P2V f) := refs s3 f - 1)\<rparr>"
  have free: "kfree s3 (P2V f) = Ret s4"
    using kfree_shared [OF kp3] r3 [OF af] fm f(2) by (simp add: s4_def refs_def)
  have r4: "refs s4 g = (if g = V2P mem then 1 else if g = f then refs s f - 1 else refs s g)"
    if "aligned g" for g
    using refs_fun_upd [of s4 s3 f "refs s3 f - 1" g] that af r3 [OF that] r3 [OF af] fm
    by (auto simp: s4_def)
  have eq: "kend s4 = kend s" "kmem.more s4 = kmem.more s"
    using kp(8,9) by (simp_all add: s4_def s3 kmem.defs)
  have ph: "phys s4 = store32 (phys s2) (pte_addr (phys s2) d va) e" by (simp add: s4_def s3)
  have upd: "pte_upd (phys s) (phys s4) D d (PGROUNDDOWN va) e"
    using pte_upd_store [OF ok2 d t2, of e] lk unfolding ph pte_upd_def by auto
  have at: "all_tabs s4 D = all_tabs s D"
    unfolding ap(5) [symmetric] using store_pte(1) [OF ok2 d t2 refl] by (intro all_tabs_cong) (simp add: ph)
  have mem: "phys s4 a = phys s2 a" if "PGROUNDDOWN a \<notin> all_tabs s D" for a
  proof -
    have "PTE_ADDR (pde_of (phys s2) d va) \<in> all_tabs s2 D" using d t2 by (auto simp: all_tabs_def tabs_def)
    then have "PGROUNDDOWN a \<noteq> PTE_ADDR (pde_of (phys s2) d va)" using that ap(5) by auto
    then show ?thesis unfolding ph by (simp add: store32_frame)
  qed
  have ki3: "kmem_inv s3" unfolding s3 by (rule store_pte_inv [OF ok2 vm_invD(1) [OF ap(1)] d t2])
  have ki4: "kmem_inv s4"
    using ka.drop_law [OF ki3 kp3] free r3 [OF af] fm f(2) by (auto simp: refs_def)
  have own4: "sole s4 g" if "sole s3 g" "g \<noteq> f" for g
    using that r4 [OF owned_aligned [OF sole_owned [OF that(1)]]]
      r3 [OF owned_aligned [OF sole_owned [OF that(1)]]] kpage_cong [of s4 s3]
    by (auto simp: s4_def sole_def refs_def split: if_splits)
  have ok4: "tables_ok s4 D"
  proof (rule tables_ok_cong)
    show "tables_ok s3 D" unfolding s3 by (rule store_pte(3) [OF ok2 d t2 refl])
    show "sole s4 g" if "g \<in> (\<Union>d \<in> D. tabs (phys s3) d)" "sole s3 g" for g
    proof (rule own4 [OF that(2)])
      have "phys s3 = phys s4" by (simp add: s4_def)
      then have "g \<in> all_tabs s4 D" using that(1) by (simp add: all_tabs_def)
      then have "g \<in> all_tabs s D" unfolding at .
      then show "g \<noteq> f" using own by auto
    qed
  qed (simp add: s4_def)
  have nt: "V2P mem \<notin> all_tabs s D" using kp(3) tabs_owned [OF vm_invD(2) [OF inv]] by blast
  have um: "umaps (phys s) D (V2P mem) = {}" using umaps_refs_pos(2) [OF inv] kp(3) by auto
  have "vm_inv s4 D"
  proof (rule vm_inv_upd [OF inv d _ user_page [OF va] upd ki4 ok4 eq(1)])
    fix g assume g: "umaps (phys s4) D g \<noteq> {}"
    have "(d, PGROUNDDOWN va) \<in> umaps (phys s) D g \<longleftrightarrow> g = f" using u by (auto simp: umaps_def)
    then show "refs s4 g = refs s g - hit ((d, PGROUNDDOWN va) \<in> umaps (phys s) D g) +
        hit (flag e PTE_P \<and> PTE_ADDR e = g)"
      using r4 [OF umaps_aligned [OF g]] fm e kp(7) by (auto simp: hit_def)
  next
    fix d' va' assume d': "d' \<in> D" "va' < KERNBASE" "PTE_ADDR (lookup (phys s) d' va') = PTE_ADDR e"
    then show "\<not> writable (phys s) d' va'"
      using umapsI [OF d'(1,2), of "phys s"] um e(1) by (auto simp: writable_def)
  qed (use at kp(2,7) e nt um r4 [OF am] in auto)
  moreover have "vm_frame s D s4 D {(d, PGROUNDDOWN va)} {}"
  proof (rule vm_frame_upd [OF inv d _ user_page [OF va] upd eq(1)])
    show "refs s4 g = refs s g" if "kframe s D g" for g
      using that r4 [OF kframe_aligned [OF that]] u kp(3) by (auto simp: kframe_def)
    show "phys s4 a = phys s a" if "owned s (PGROUNDDOWN a)" "PGROUNDDOWN a \<notin> all_tabs s D" for a
      using mem [OF that(2)] kp(5) [OF that(1)] by simp
    have "umaps (phys s4) D (V2P mem) \<noteq> {}"
      using umaps_upd [OF upd d _ user_page [OF va], of "V2P mem"] e by simp
    moreover have "owned s g \<or> g = V2P mem" if "owned s4 g" for g
      using that r4 [OF owned_aligned [OF that]] kpage_cong [OF eq(1)] own
      by (auto simp: owned_def refs_def split: if_splits)
    ultimately show "owned s g \<or> g \<in> all_tabs s4 D \<or> umaps (phys s4) D g \<noteq> {}" if "owned s4 g" for g
      using that by blast
    show "\<not> owned s4 g" if "umaps (phys s) D g = {(d, PGROUNDDOWN va)}" for g
    proof -
      have "g = f" using that u by (auto simp: umaps_def)
      moreover have "refs s g = 1" using that vm_invD(6) [OF inv, of g] by simp
      ultimately show ?thesis using f(2) by simp
    qed
  qed (use at eq more_fields [of s4 s] e kp(3) in \<open>auto simp: kframe_def\<close>)
  moreover have "ubyte (phys s4) d va' = ubyte (phys s) d va'" if "PGROUNDDOWN va' = PGROUNDDOWN va" for va'
  proof -
    have l4: "lookup (phys s4) d va' = e" using pte_updD [OF upd d, of va'] that by simp
    have l: "PTE_ADDR (lookup (phys s) d va') = f" using same_page_lookup [OF that] by (simp add: f)
    have fr: "PGROUNDDOWN (V2P mem + (va' AND 0xFFF)) = V2P mem"
      using am by (intro frame_offset) (simp_all add: unat_and_FFF)
    have "ubyte (phys s4) d va' = phys s2 (V2P mem + (va' AND 0xFFF))"
      using mem [of "V2P mem + (va' AND 0xFFF)"] nt fr by (simp add: ubyte_def l4 e)
    also have "\<dots> = phys s (f + (va' AND 0xFFF))"
      using fr am by (simp add: s2 mem_move_page p1)
    finally show ?thesis by (simp add: ubyte_def l)
  qed
  ultimately show ?thesis using free upd r4 [OF am] r4 [OF af] fm by auto
qed

end
