(* ===== verification/Vm_Space.thy ===== *)
theory Vm_Space
  imports Vm_Spec
begin

text \<open>
  Whole address spaces: shrinking and growing (\<^verbatim>\<open>deallocuvm\<close>, \<^verbatim>\<open>allocuvm\<close>), the kernel mappings
  that every directory starts with (\<^verbatim>\<open>setupkvm\<close>), releasing a directory (\<^verbatim>\<open>freevm\<close>) and the
  copy that \<^verbatim>\<open>fork\<close> makes (\<^verbatim>\<open>copyuvm\<close>).
\<close>

section \<open>Shrinking\<close>

lemma has_table_PDX: "PDX a = PDX b \<Longrightarrow> has_table m d a = has_table m d b"
  by (simp add: has_table_def pde_of_def pde_addr_def)

lemma no_table_not_present: "\<not> has_table m d a \<Longrightarrow> PDX b = PDX a \<Longrightarrow> \<not> present m d b"
  using has_table_PDX [of b a m d] by (auto simp: present_def lookup_def)

text \<open>The next address with another directory index.\<close>

lemma next_table:
  assumes "a < KERNBASE"
  defines "a' \<equiv> PGADDR (PDX a + 1) 0 0 - PGSIZE + PGSIZE"
  shows "unat a' = (unat a div 4194304 + 1) * 4194304" "aligned a'" "a < a'"
    "\<And>p. a \<le> p \<Longrightarrow> p < a' \<Longrightarrow> PDX p = PDX a"
proof -
  have k: "unat a div 4194304 < 512"
    using assms(1) by (simp add: word_less_nat_alt KERNBASE_def less_mult_imp_div_less)
  have "unat (PDX a + 1) = unat a div 4194304 + 1"
    using k by (simp add: unat_word_ariths unat_PDX)
  then show u: "unat a' = (unat a div 4194304 + 1) * 4194304"
    using k by (simp add: a'_def PGADDR_def push_bit_eq_mult unat_word_ariths unat_PDX)
  show "aligned a'" by (simp add: aligned_iff_mod u)
  show "a < a'" by (simp add: word_less_nat_alt u)
  fix p assume p: "a \<le> p" "p < a'"
  then have "unat a div 4194304 \<le> unat p div 4194304" "unat p div 4194304 < unat a div 4194304 + 1"
    by (simp_all add: word_le_nat_alt word_less_nat_alt u div_le_mono less_mult_imp_div_less)
  then show "PDX p = PDX a" by (simp add: word_unat_eq_iff unat_PDX)
qed

lemma pages_split:
  assumes "aligned a" "aligned b" "a \<le> b"
  shows "pages d a hi \<supseteq> pages d b hi"
  using assms by (auto simp: pages_def)

lemma deallocuvm_loop_spec:
  assumes "vm_inv s D" "d \<in> D" "aligned a" "lim \<le> KERNBASE"
  shows "\<exists>s'. deallocuvm_loop s d a lim = Ret s' \<and> vm_inv s' D \<and> vm_frame s D s' D (pages d a lim) {} \<and>
    (\<forall>p. aligned p \<longrightarrow> a \<le> p \<longrightarrow> p < lim \<longrightarrow> \<not> present (phys s') d p)"
  using assms
proof (induction "4294967296 - unat a" arbitrary: a s rule: less_induct)
  case less
  note inv = less.prems(1) and d = less.prems(2) and al = less.prems(3)
  show ?case
  proof (cases "a < lim")
    case False
    then have "deallocuvm_loop s d a lim = Ret s" by (simp add: deallocuvm_loop.simps [of s])
    then show ?thesis using inv False by auto
  next
    case True
    then have ak: "a < KERNBASE" using less.prems(4) by simp
    have ub: "unat a < 2147483648" using ak by (simp add: word_less_nat_alt KERNBASE_def)
    have down: "4294967296 - unat b < 4294967296 - unat a" if "a < b" for b
      using that ub by (simp add: word_less_nat_alt unat_less_2p32 diff_less_mono2)
    have u: "unat (a + PGSIZE) = unat a + 4096"
      using ub unat_add_no_wrap [of a PGSIZE] by (simp add: PGSIZE_def)
    then have lt: "a < a + PGSIZE" by (simp add: word_less_nat_alt)
    show ?thesis
    proof (cases "has_table (phys s) d a")
      case t: False
      let ?b = "PGADDR (PDX a + 1) 0 0 - PGSIZE + PGSIZE"
      note nt = next_table [OF ak]
      have eq: "deallocuvm_loop s d a lim = deallocuvm_loop s d ?b lim"
        using True t iffD2 [OF not_le nt(3)] by (simp add: deallocuvm_loop.simps [of s d a] walkpgdir_find Let_def)
      obtain s' where s': "deallocuvm_loop s d ?b lim = Ret s'" "vm_inv s' D"
          "vm_frame s D s' D (pages d ?b lim) {}"
          "\<And>p. aligned p \<Longrightarrow> ?b \<le> p \<Longrightarrow> p < lim \<Longrightarrow> \<not> present (phys s') d p"
        using less.hyps [OF down [OF nt(3)] inv d nt(2) less.prems(4)] by blast
      have "\<not> present (phys s') d p" if p: "aligned p" "a \<le> p" "p < lim" for p
      proof (cases "?b \<le> p")
        case True
        then show ?thesis using s'(4) p by blast
      next
        case False
        then have "\<not> present (phys s) d p"
          using nt(4) [OF p(2)] no_table_not_present [OF t] by (simp add: not_le)
        moreover have "(d, PGROUNDDOWN p) \<notin> pages d ?b lim"
          using False p by (auto simp: pages_def PGROUNDDOWN_aligned)
        ultimately show ?thesis using vm_frameD(5) [OF s'(3) d d, of p] by (simp add: present_def)
      qed
      moreover have "vm_frame s D s' D (pages d a lim) {}"
        by (rule vm_frame_mono [OF s'(3) pages_split]) (use al nt(2,3) in auto)
      ultimately show ?thesis using eq s' by auto
    next
      case t: True
      obtain s1 where s1: "vm_unmap_step d a s = Ret (Inr s1)" "vm_inv s1 D"
          "vm_frame s D s1 D {(d, a)} {}" "\<not> present (phys s1) d a"
        using vm_unmap_step_spec [OF inv d al ak] by blast
      have w: "walkpgdir s d a False = Ret (P2V (pte_addr (phys s) d a), s)" "P2V (pte_addr (phys s) d a) \<noteq> 0"
        using t pte_ptr_nonzero [OF vm_invD(2) [OF inv] d t] by (simp_all add: walkpgdir_find)
      have eq: "deallocuvm_loop s d a lim = deallocuvm_loop s1 d (a + PGSIZE) lim"
        using True s1(1) w iffD2 [OF not_le lt]
        by (auto simp: deallocuvm_loop.simps [of s d a] vm_unmap_step_def Let_def res_simps split: if_splits)
      obtain s' where s': "deallocuvm_loop s1 d (a + PGSIZE) lim = Ret s'" "vm_inv s' D"
          "vm_frame s1 D s' D (pages d (a + PGSIZE) lim) {}"
          "\<And>p. aligned p \<Longrightarrow> a + PGSIZE \<le> p \<Longrightarrow> p < lim \<Longrightarrow> \<not> present (phys s') d p"
        using less.hyps [OF down [OF lt] s1(2) d _ less.prems(4)] al by auto
      have "\<not> present (phys s') d p" if p: "aligned p" "a \<le> p" "p < lim" for p
      proof (cases "p = a")
        case True
        have "(d, PGROUNDDOWN a) \<notin> pages d (a + PGSIZE) lim"
          using lt al by (auto simp: pages_def PGROUNDDOWN_aligned)
        then show ?thesis using True s1(4) vm_frameD(5) [OF s'(3) d d, of a] by (simp add: present_def)
      next
        case False
        then show ?thesis
          using s'(4) p aligned_less_step [OF p(1) al] ub by (auto simp: not_less [symmetric])
      qed
      moreover have "vm_frame s D s' D (pages d a lim) {}"
      proof (rule vm_frame_mono)
        show "vm_frame s D s' D ({(d, a)} \<union> pages d (a + PGSIZE) lim) {}"
          by (rule vm_frame_trans [OF s1(3) s'(3)]) auto
        show "{(d, a)} \<union> pages d (a + PGSIZE) lim \<subseteq> pages d a lim"
          using True al lt by (auto simp: pages_def)
      qed simp
      ultimately show ?thesis using eq s' by auto
    qed
  qed
qed

lemma roundup_user:
  assumes "sz \<le> KERNBASE"
  shows "aligned (PGROUNDUP sz)" "sz \<le> PGROUNDUP sz" "unat (PGROUNDUP sz) < unat sz + 4096"
proof -
  have "unat sz \<le> 4294963200" using assms by (simp add: word_le_nat_alt KERNBASE_def)
  from PGROUNDUP_bounds [OF this]
  show "aligned (PGROUNDUP sz)" "sz \<le> PGROUNDUP sz" "unat (PGROUNDUP sz) < unat sz + 4096" by auto
qed

lemma deallocuvm_spec:
  assumes "vm_inv s D" "d \<in> D" "oldsz \<le> KERNBASE"
  shows "\<exists>s'. deallocuvm s d oldsz newsz = Ret (min oldsz newsz, s') \<and> vm_inv s' D \<and>
    vm_frame s D s' D (pages d (PGROUNDUP newsz) oldsz) {} \<and>
    (newsz < oldsz \<longrightarrow> (\<forall>p. aligned p \<longrightarrow> PGROUNDUP newsz \<le> p \<longrightarrow> p < oldsz \<longrightarrow> \<not> present (phys s') d p))"
proof (cases "newsz < oldsz")
  case True
  then have "newsz \<le> KERNBASE" using assms(3) by simp
  then obtain s' where "deallocuvm_loop s d (PGROUNDUP newsz) oldsz = Ret s'" "vm_inv s' D"
      "vm_frame s D s' D (pages d (PGROUNDUP newsz) oldsz) {}"
      "\<forall>p. aligned p \<longrightarrow> PGROUNDUP newsz \<le> p \<longrightarrow> p < oldsz \<longrightarrow> \<not> present (phys s') d p"
    using deallocuvm_loop_spec [OF assms(1,2) roundup_user(1) assms(3)] by blast
  then show ?thesis using True iffD2 [OF not_le True] by (simp add: deallocuvm_def min_def)
next
  case False
  then have "oldsz \<le> newsz" by simp
  then show ?thesis using False assms by (simp add: deallocuvm_def min_def)
qed

section \<open>Growing\<close>

text \<open>A page as \<^verbatim>\<open>allocuvm\<close> leaves it: zero-filled, writable by the user, not shared.\<close>

definition new_page :: "'z kmem_scheme \<Rightarrow> u32 \<Rightarrow> u32 \<Rightarrow> bool" where
  "new_page s d p \<longleftrightarrow> writable (phys s) d p \<and> flag (lookup (phys s) d p) PTE_U \<and>
     \<not> flag (lookup (phys s) d p) PTE_COW \<and> zero_page (phys s) d p \<and>
     refs s (PTE_ADDR (lookup (phys s) d p)) = 1"

lemma new_page_frame:
  assumes "vm_inv s D" "vm_inv s' D" "vm_frame s D s' D C {}" "d \<in> D" "aligned p" "p < KERNBASE" "(d, p) \<notin> C"
    "new_page s d p"
  shows "new_page s' d p"
proof -
  have l: "lookup (phys s') d va = lookup (phys s) d va" if "PGROUNDDOWN va = p" for va
    using vm_frameD(5) [OF assms(3,4,4), of va] assms(7) that by simp
  have lp: "lookup (phys s') d p = lookup (phys s) d p" using l [of p] assms(5) by (simp add: PGROUNDDOWN_aligned)
  have w: "writable (phys s') d p" using assms(8) lp by (simp add: new_page_def writable_def present_def)
  have "zero_page (phys s') d p"
    unfolding zero_page_def
  proof (intro allI impI)
    fix va assume va: "PGROUNDDOWN va = p"
    have "va < KERNBASE"
    proof (rule ccontr)
      assume "\<not> va < KERNBASE"
      then have "KERNBASE \<le> PGROUNDDOWN va" by (intro PGROUNDDOWN_mono) (simp_all add: aligned_def KERNBASE_def not_less)
      then show False using va assms(6) by (simp add: not_less [symmetric])
    qed
    moreover have "present (phys s) d va"
      using assms(8) va present_aligned [of "phys s" d va] by (simp add: new_page_def writable_def)
    ultimately have "ubyte (phys s') d va = ubyte (phys s) d va"
      using vm_frameD(6) [OF assms(3,4,4), of va] va assms(7) by simp
    then show "ubyte (phys s') d va = 0" using assms(8) va by (simp add: new_page_def zero_page_def)
  qed
  then show ?thesis
    using assms(8) w lp vm_invD(7) [OF assms(2,4,6) w] by (simp add: new_page_def)
qed

lemma allocuvm_step_spec:
  assumes inv: "vm_inv s D" and d: "d \<in> D" and a: "aligned a" "a < KERNBASE" and np: "\<not> present (phys s) d a"
    and sz: "oldsz \<le> newsz" "newsz < KERNBASE"
  shows "(\<exists>s'. allocuvm_step d oldsz newsz a s = Ret (Inr s') \<and> vm_inv s' D \<and>
      vm_frame s D s' D {(d, a)} {} \<and> new_page s' d a) \<or>
    (\<exists>s'. allocuvm_step d oldsz newsz a s = Ret (Inl (0, s')) \<and> vm_inv s' D \<and>
      vm_frame s D s' D (pages d (PGROUNDUP oldsz) newsz) {} \<and>
      (oldsz < newsz \<longrightarrow> (\<forall>p. aligned p \<longrightarrow> PGROUNDUP oldsz \<le> p \<longrightarrow> p < newsz \<longrightarrow> \<not> present (phys s') d p)))"
proof (rule kalloc_cases [OF inv])
  have k: "newsz \<le> KERNBASE" using sz by simp
  note de = deallocuvm_spec [OF _ d k, of _ oldsz]
  {
    assume "kalloc s = Ret (0, s)"
    then show ?thesis using de [OF inv] by (fastforce simp: allocuvm_step_def)
  next
    fix mem s1 assume al: "kalloc s = Ret (mem, s1)" "mem \<noteq> 0"
    let ?s2 = "s1\<lparr>phys := mem_set (phys s1) (V2P mem) 0 PGSIZE\<rparr>"
    have am: "aligned (V2P mem)"
      using ka.alloc_new [OF vm_invD(1) [OF inv] al] kpage_aligned [of s mem] by simp
    have m: "\<forall>a. PGROUNDDOWN a \<noteq> V2P mem \<longrightarrow> mem_set (phys s1) (V2P mem) 0 PGSIZE a = phys s a"
      using mem_set_mmap [OF am] kalloc_frame [OF al(1)] by simp
    note low = low_or [OF low_bits(2,3)]
    obtain r s3 where r: "mappages ?s2 d a PGSIZE (V2P mem) (PTE_W OR PTE_U) = Ret (r, s3)"
      "r = -1 \<and> s3 = ?s2 \<or>
       r = 0 \<and> vm_inv s3 D \<and> vm_frame s D s3 D {(d, a)} {} \<and>
         pte_upd (phys s) (phys s3) D d a (V2P mem OR (PTE_W OR PTE_U) OR PTE_P) \<and> refs s3 (V2P mem) = 1 \<and>
         zero_page (phys s3) d a"
      using map_zero [OF inv d a np al refl low] by blast
    show ?thesis
    proof (cases "r = 0")
      case True
      then have "lookup (phys s3) d a = V2P mem OR (PTE_W OR PTE_U) OR PTE_P"
        using r(2) pte_updD [of "phys s" "phys s3" D d a _ d a] d a by (auto simp: PGROUNDDOWN_aligned)
      then have "new_page s3 d a"
        using r(2) True pte_make [OF am low]
        by (simp add: new_page_def writable_def present_def) (simp add: bit_flag)
      then show ?thesis using r True al by (auto simp: allocuvm_step_def Let_def)
    next
      case False
      note ap = alloc_page [OF inv al m refl]
      obtain s4 where s4: "deallocuvm ?s2 d newsz oldsz = Ret (min newsz oldsz, s4)" "vm_inv s4 D"
          "vm_frame ?s2 D s4 D (pages d (PGROUNDUP oldsz) newsz) {}"
          "oldsz < newsz \<longrightarrow> (\<forall>p. aligned p \<longrightarrow> PGROUNDUP oldsz \<le> p \<longrightarrow> p < newsz \<longrightarrow> \<not> present (phys s4) d p)"
        using de [OF ap(1)] by blast
      have k4: "kframe s4 D (V2P mem)" "refs s4 (V2P mem) = 1"
        using vm_frameD(7,8) [OF s4(3) ap(3)] ap(4) by auto
      obtain s5 where s5: "kfree s4 mem = Ret s5" "vm_inv s5 D" "vm_frame s4 D s5 D {} {V2P mem}"
          "refcnt s5 = (refcnt s4)(pidx mem := 0)"
        using free_kframe [OF s4(2) k4] by auto
      have "vm_frame s D s4 D ({} \<union> pages d (PGROUNDUP oldsz) newsz) {V2P mem}"
        by (rule vm_frame_trans [OF ap(2) s4(3)]) auto
      then have "vm_frame s D s5 D ({} \<union> pages d (PGROUNDUP oldsz) newsz \<union> {}) {}"
        by (rule vm_frame_trans [OF _ s5(3)])
           (use kalloc_page(3) [OF vm_invD(1) [OF inv] al m refl] s5(4) in \<open>auto simp: kframe_def owned_def\<close>)
      moreover have "lookup (phys s5) d va = lookup (phys s4) d va" for va
        using vm_frameD(5) [OF s5(3) d d, of va] by simp
      ultimately show ?thesis
        using r False al s4 s5 by (auto simp: allocuvm_step_def Let_def present_def)
    qed
  }
qed

text \<open>
  Growing from \<open>oldsz\<close> to \<open>newsz\<close>: all new pages are mapped and zero, or nothing is, and the
  call returns 0. Pages that are present beyond the old size make it panic.
\<close>

lemma allocuvm_spec:
  assumes inv: "vm_inv s D" and d: "d \<in> D" and sz: "oldsz \<le> newsz" "newsz < KERNBASE"
    and np: "\<And>p. aligned p \<Longrightarrow> PGROUNDUP oldsz \<le> p \<Longrightarrow> p < newsz \<Longrightarrow> \<not> present (phys s) d p"
  shows "\<exists>r s'. allocuvm s d oldsz newsz = Ret (r, s') \<and> vm_inv s' D \<and>
    vm_frame s D s' D (pages d (PGROUNDUP oldsz) newsz) {} \<and>
    (r = newsz \<and> (\<forall>p. aligned p \<longrightarrow> PGROUNDUP oldsz \<le> p \<longrightarrow> p < newsz \<longrightarrow> new_page s' d p) \<or>
     r = 0 \<and> (\<forall>p. aligned p \<longrightarrow> PGROUNDUP oldsz \<le> p \<longrightarrow> p < newsz \<longrightarrow> \<not> present (phys s') d p))"
proof -
  let ?lo = "PGROUNDUP oldsz"
  let ?Q = "\<lambda>(r, s'). r = 0 \<and> vm_inv s' D \<and> vm_frame s D s' D (pages d ?lo newsz) {} \<and>
    (\<forall>p. aligned p \<longrightarrow> ?lo \<le> p \<longrightarrow> p < newsz \<longrightarrow> \<not> present (phys s') d p)"
  let ?I = "loop_inv s D d ?lo newsz (\<lambda>p s'. new_page s' d p)"
  have k: "newsz \<le> KERNBASE" "unat newsz + 4096 \<le> 4294967296" "oldsz \<le> KERNBASE"
    using sz by (simp_all add: word_less_nat_alt word_le_nat_alt KERNBASE_def)
  note lo = roundup_user [OF k(3)]
  have step: "(\<exists>s2. allocuvm_step d oldsz newsz a s1 = Ret (Inr s2) \<and> ?I (a + PGSIZE) s2) \<or>
      (\<exists>b. allocuvm_step d oldsz newsz a s1 = Ret (Inl b) \<and> ?Q b)" if I: "?I a s1" and a: "a < newsz" for a s1
  proof -
    have s1: "vm_inv s1 D" "aligned a" "?lo \<le> a" "vm_frame s D s1 D (pages d ?lo a) {}"
      using I by (auto simp: loop_inv_def)
    have ak: "a < KERNBASE" using a sz(2) by simp
    have na: "(d, PGROUNDDOWN a) \<notin> pages d ?lo a" using s1(2) by (simp add: pages_def PGROUNDDOWN_aligned)
    have np1: "\<not> present (phys s1) d a"
      using np [OF s1(2,3) a] vm_frameD(5) [OF s1(4) d d na] by (simp add: present_def)
    have lt: "oldsz < newsz" using lo(2) s1(3) a by simp
    from allocuvm_step_spec [OF s1(1) d s1(2) ak np1 sz] show ?thesis
    proof (elim disjE exE conjE)
      fix s2 assume s2: "allocuvm_step d oldsz newsz a s1 = Ret (Inr s2)" "vm_inv s2 D"
        "vm_frame s1 D s2 D {(d, a)} {}" "new_page s2 d a"
      have "new_page s2 d p" if "aligned p" "p < a" "new_page s1 d p" for p
        by (rule new_page_frame [OF s1(1) s2(2,3) d that(1) _ _ that(3)]) (use that(2) ak in auto)
      then have "?I (a + PGSIZE) s2"
        using loop_inv_step [OF I a k(1) s2(2,3)] s2(4) by blast
      then show ?thesis using s2(1) by blast
    next
      fix s2 assume s2: "allocuvm_step d oldsz newsz a s1 = Ret (Inl (0, s2))" "vm_inv s2 D"
        "vm_frame s1 D s2 D (pages d ?lo newsz) {}"
        "oldsz < newsz \<longrightarrow> (\<forall>p. aligned p \<longrightarrow> ?lo \<le> p \<longrightarrow> p < newsz \<longrightarrow> \<not> present (phys s2) d p)"
      have "vm_frame s D s2 D (pages d ?lo a \<union> pages d ?lo newsz) {}"
        by (rule vm_frame_trans [OF s1(4) s2(3)]) auto
      moreover have "pages d ?lo a \<subseteq> pages d ?lo newsz" using a by (auto simp: pages_def)
      ultimately have "vm_frame s D s2 D (pages d ?lo newsz) {}" by (simp add: Un_absorb1)
      then show ?thesis using s2 lt by auto
    qed
  qed
  have "\<not> newsz \<ge> KERNBASE" "\<not> newsz < oldsz" using sz by (auto simp: not_le not_less)
  then show ?thesis
    using page_loop_rule [of ?I newsz "allocuvm_step d oldsz newsz" ?Q, OF step k(2) loop_inv_start [OF inv lo(1)]]
      loop_inv_done [of s D d ?lo newsz "\<lambda>p s'. new_page s' d p"]
    unfolding allocuvm_def by fastforce
qed

text \<open>
  Without the assumption that the range is empty: the call may panic at a page that is present;
  where it returns, only the range has changed.
\<close>

lemma allocuvm_step_present:
  assumes inv: "vm_inv s D" and d: "d \<in> D" and a: "aligned a" "a < KERNBASE" and p: "present (phys s) d a"
    and sz: "oldsz \<le> newsz" "newsz < KERNBASE"
  shows "allocuvm_step d oldsz newsz a s = Panic ''remap'' \<or>
    kalloc s = Ret (0, s) \<and> (\<exists>s'. allocuvm_step d oldsz newsz a s = Ret (Inl (0, s')) \<and> vm_inv s' D \<and>
      vm_frame s D s' D (pages d (PGROUNDUP oldsz) newsz) {})"
proof (rule kalloc_cases [OF inv])
  assume "kalloc s = Ret (0, s)"
  then show ?thesis using deallocuvm_spec [OF inv d, of newsz oldsz] sz by (fastforce simp: allocuvm_step_def)
next
  fix mem s1 assume al: "kalloc s = Ret (mem, s1)" "mem \<noteq> 0"
  let ?s2 = "s1\<lparr>phys := mem_set (phys s1) (V2P mem) 0 PGSIZE\<rparr>"
  have am: "aligned (V2P mem)" using ka.alloc_new [OF vm_invD(1) [OF inv] al] kpage_aligned [of s mem] by simp
  have m: "\<forall>a. PGROUNDDOWN a \<noteq> V2P mem \<longrightarrow> mem_set (phys s1) (V2P mem) 0 PGSIZE a = phys s a"
    using mem_set_mmap [OF am] kalloc_frame [OF al(1)] by simp
  note ap = alloc_page [OF inv al m refl]
  have "present (phys ?s2) d a" using p vm_frameD(5) [OF ap(2) d d, of a] by (simp add: present_def)
  then have "mappages ?s2 d a PGSIZE (V2P mem) (PTE_W OR PTE_U) = Panic ''remap''"
    by (rule mappages_page(1) [OF vm_invD(2,1) [OF ap(1)] d a(1)])
  then show ?thesis using al by (simp add: allocuvm_step_def Let_def)
qed

lemma allocuvm_ret:
  assumes inv: "vm_inv s D" and d: "d \<in> D" and sz: "oldsz \<le> newsz" "newsz < KERNBASE"
    and r: "allocuvm s d oldsz newsz = Ret (r, s')"
  shows "vm_inv s' D \<and> vm_frame s D s' D (pages d (PGROUNDUP oldsz) newsz) {} \<and> (r = newsz \<or> r = 0)"
proof -
  let ?lo = "PGROUNDUP oldsz"
  let ?Q = "\<lambda>(r, s'). r = 0 \<and> vm_inv s' D \<and> vm_frame s D s' D (pages d ?lo newsz) {}"
  let ?I = "loop_inv s D d ?lo newsz (\<lambda>p s'. True)"
  have k: "newsz \<le> KERNBASE" "oldsz \<le> KERNBASE" using sz by simp_all
  note lo = roundup_user [OF k(2)]
  have step: "case x of Inr s2 \<Rightarrow> ?I (a + PGSIZE) s2 | Inl b \<Rightarrow> ?Q b"
    if I: "?I a s1" and a: "a < newsz" and x: "allocuvm_step d oldsz newsz a s1 = Ret x" for a s1 x
  proof -
    have s1: "vm_inv s1 D" "aligned a" "?lo \<le> a" "vm_frame s D s1 D (pages d ?lo a) {}"
      using I by (auto simp: loop_inv_def)
    have ak: "a < KERNBASE" using a sz(2) by simp
    have u: "vm_frame s D s2 D (pages d ?lo newsz) {}" if "vm_frame s1 D s2 D (pages d ?lo newsz) {}" for s2
    proof -
      have "vm_frame s D s2 D (pages d ?lo a \<union> pages d ?lo newsz) {}" by (rule vm_frame_trans [OF s1(4) that]) auto
      moreover have "pages d ?lo a \<subseteq> pages d ?lo newsz" using a by (auto simp: pages_def)
      ultimately show ?thesis by (simp add: Un_absorb1)
    qed
    show ?thesis
    proof (cases "present (phys s1) d a")
      case True
      then show ?thesis using allocuvm_step_present [OF s1(1) d s1(2) ak True sz] x u by auto
    next
      case False
      from allocuvm_step_spec [OF s1(1) d s1(2) ak False sz] show ?thesis
      proof (elim disjE exE conjE)
        fix s2 assume s2: "allocuvm_step d oldsz newsz a s1 = Ret (Inr s2)" "vm_inv s2 D" "vm_frame s1 D s2 D {(d, a)} {}"
        then show ?thesis using x loop_inv_step [OF I a k(1) s2(2,3)] by simp
      next
        fix s2 assume "allocuvm_step d oldsz newsz a s1 = Ret (Inl (0, s2))" "vm_inv s2 D" "vm_frame s1 D s2 D (pages d ?lo newsz) {}"
        then show ?thesis using x u by simp
      qed
    qed
  qed
  have c: "\<not> newsz \<ge> KERNBASE" "\<not> newsz < oldsz" using sz by (auto simp: not_le not_less)
  then obtain x where x: "page_loop (allocuvm_step d oldsz newsz) ?lo newsz s = Ret x"
      "(case x of Inl out \<Rightarrow> Ret out | Inr s \<Rightarrow> Ret (newsz, s)) = Ret (r, s')"
    using r by (auto simp: allocuvm_def rbind_eq_Ret)
  have l: "case x of Inr s' \<Rightarrow> \<exists>a'. ?I a' s' \<and> newsz \<le> a' | Inl b \<Rightarrow> ?Q b"
  proof (rule page_loop_ret [where I = ?I and Q = ?Q])
    show "page_loop (allocuvm_step d oldsz newsz) ?lo newsz s = Ret x" by (rule x(1))
    show "?I ?lo s" by (rule loop_inv_start [OF inv lo(1)])
    fix a s1 y assume "?I a s1" "a < newsz" "allocuvm_step d oldsz newsz a s1 = Ret y"
    then show "case y of Inr s2 \<Rightarrow> ?I (a + PGSIZE) s2 | Inl b \<Rightarrow> ?Q b" by (rule step)
  qed
  show ?thesis
  proof (cases x)
    case (Inl out)
    obtain a b where out: "out = (a, b)" by (cases out)
    have "a = r" "b = s'" using x(2) unfolding Inl out by simp_all
    then show ?thesis using l unfolding Inl out by simp
  next
    case (Inr t)
    have e: "t = s'" "r = newsz" using x(2) unfolding Inr by simp_all
    obtain a' where a': "?I a' s'" "newsz \<le> a'" using l unfolding Inr e(1) sum.case by blast
    show ?thesis using loop_inv_done(1,2) [OF a'] e(2) by simp
  qed
qed

section \<open>Releasing an address space\<close>

text \<open>A directory without user pages leaves the machine: its frames are now the kernel's.\<close>

lemma drop_dir:
  assumes inv: "vm_inv s D" and d: "d \<in> D" and empty: "\<forall>va < KERNBASE. \<not> present (phys s) d va"
  shows "vm_inv s (D - {d})" "vm_frame s D s (D - {d}) {} (tabs (phys s) d)"
    "\<And>f. f \<in> tabs (phys s) d \<Longrightarrow> kframe s (D - {d}) f \<and> refs s f = 1"
proof -
  note ok = vm_invD(2) [OF inv]
  have um: "umaps (phys s) (D - {d}) f = umaps (phys s) D f" for f
    using empty by (auto simp: umaps_def)
  have at: "all_tabs s D = all_tabs s (D - {d}) \<union> tabs (phys s) d" using d by (auto simp: all_tabs_def)
  have disj: "f \<notin> all_tabs s (D - {d})" if f: "f \<in> tabs (phys s) d" for f
  proof
    assume "f \<in> all_tabs s (D - {d})"
    then obtain d' where d': "d' \<in> D" "d' \<noteq> d" "f \<in> tabs (phys s) d'" by (auto simp: all_tabs_def)
    from f d'(3) show False
      using tables_ok_D(5,6) [OF ok d] tables_ok_D(5) [OF ok d'(1) _ d] d'(1,2) unfolding tabs_def
      by (auto simp: V2P_inj, metis)
  qed
  have ok': "tables_ok s (D - {d})" using ok unfolding tables_ok_def by blast
  show "vm_inv s (D - {d})"
    using inv ok' unfolding vm_inv_def um at by auto
  show kf: "kframe s (D - {d}) f \<and> refs s f = 1" if f: "f \<in> tabs (phys s) d" for f
  proof -
    have t: "f \<in> all_tabs s D" using f at by blast
    have "umaps (phys s) D f = {}" using vm_invD(5) [OF inv, of f] t by blast
    moreover have "sole s f" using f tables_ok_D(7,8) [OF ok d] by (auto simp: tabs_def)
    ultimately show ?thesis
      using disj [OF f] sole_owned [of s f] by (simp add: kframe_def um sole_def refs_def)
  qed
  show "vm_frame s D s (D - {d}) {} (tabs (phys s) d)"
    unfolding vm_frame_def using at disj by (auto simp: kframe_def um)
qed

lemma pgd_entry_frame:
  assumes "aligned d" "i < 1024"
  shows "PGROUNDDOWN (V2P d + 4 * of_nat i) = V2P d" "aligned4 (V2P d + 4 * of_nat i)"
proof -
  have "unat (of_nat i :: u32) < 1024" using assms(2) by (simp add: unat_of_nat)
  then show "PGROUNDDOWN (V2P d + 4 * of_nat i) = V2P d" using assms(1) by simp
  show "aligned4 (V2P d + 4 * of_nat i)" using assms(1) by simp
qed

lemma kload_kframe:
  assumes "vm_frame s D s' D' C F" "kframe s D (V2P d)" "V2P d \<notin> F" "aligned d" "i < 1024"
  shows "kload s' (d + 4 * of_nat i) = kload s (d + 4 * of_nat i)"
  unfolding kload_def V2P_add
  by (rule load32_frame_cong) (use assms vm_frameD(9) [OF assms(1)] pgd_entry_frame [OF assms(4,5)] in auto)

definition table_frames :: "'z kmem_scheme \<Rightarrow> u32 \<Rightarrow> nat set \<Rightarrow> u32 set" where
  "table_frames s d I =
     (\<lambda>i. PTE_ADDR (kload s (d + 4 * of_nat i))) ` {i \<in> I. flag (kload s (d + 4 * of_nat i)) PTE_P}"

lemma table_frames_cong:
  "(\<And>i. i \<in> I \<Longrightarrow> kload s' (d + 4 * of_nat i) = kload s (d + 4 * of_nat i)) \<Longrightarrow> table_frames s' d I = table_frames s d I"
  unfolding table_frames_def by (rule image_cong) auto

lemma table_frames_insert:
  "table_frames s d (insert i I) =
     (if flag (kload s (d + 4 * of_nat i)) PTE_P then insert (PTE_ADDR (kload s (d + 4 * of_nat i))) (table_frames s d I)
      else table_frames s d I)"
  by (auto simp: table_frames_def)

lemma freevm_tables_spec:
  assumes "vm_inv s D" "kframe s D (V2P d)" "distinct is" "set is \<subseteq> {..<1024}"
    "\<forall>f \<in> table_frames s d (set is). kframe s D f \<and> refs s f = 1 \<and> f \<noteq> V2P d"
    "\<forall>i \<in> set is. \<forall>I. i \<notin> I \<longrightarrow> I \<subseteq> set is \<longrightarrow> flag (kload s (d + 4 * of_nat i)) PTE_P \<longrightarrow>
       PTE_ADDR (kload s (d + 4 * of_nat i)) \<notin> table_frames s d I"
    and d: "aligned d"
  shows "\<exists>s'. freevm_tables s d is = Ret s' \<and> vm_inv s' D \<and> vm_frame s D s' D {} (table_frames s d (set is)) \<and>
    (\<forall>g. aligned g \<longrightarrow> refs s' g = (if g \<in> table_frames s d (set is) then 0 else refs s g))"
  using assms(1-6)
proof (induction "is" arbitrary: s)
  case Nil
  then show ?case by (simp add: table_frames_def)
next
  case (Cons i "is")
  let ?e = "kload s (d + 4 * of_nat i)"
  show ?case
  proof (cases "flag ?e PTE_P")
    case False
    then have t: "table_frames s d (set (i # is)) = table_frames s d (set is)" by (simp add: table_frames_insert)
    have "I \<subseteq> set is \<Longrightarrow> I \<subseteq> set (i # is)" for I by auto
    then have "\<forall>i \<in> set is. \<forall>I. i \<notin> I \<longrightarrow> I \<subseteq> set is \<longrightarrow> flag (kload s (d + 4 * of_nat i)) PTE_P \<longrightarrow>
       PTE_ADDR (kload s (d + 4 * of_nat i)) \<notin> table_frames s d I"
      using Cons.prems(6) by (meson list.set_intros(2))
    moreover have "distinct is" "set is \<subseteq> {..<1024}" using Cons.prems(3,4) by auto
    ultimately show ?thesis
      using False Cons.IH [OF Cons.prems(1,2) _ _ Cons.prems(5) [unfolded t]] unfolding t by simp
  next
    case True
    let ?f = "PTE_ADDR ?e"
    have f: "kframe s D ?f" "refs s ?f = 1" "?f \<noteq> V2P d"
      using Cons.prems(5) True by (auto simp: table_frames_insert)
    have nf: "?f \<notin> table_frames s d (set is)" using Cons.prems(3,6) True by auto
    obtain s1 where s1: "kfree s (P2V ?f) = Ret s1" "vm_inv s1 D" "vm_frame s D s1 D {} {?f}"
        "refcnt s1 = (refcnt s)(pidx (P2V ?f) := 0)"
      using free_kframe [OF Cons.prems(1) f(1,2)] by blast
    have r1: "refs s1 g = (if g = ?f then 0 else refs s g)" if "aligned g" for g
      by (rule refs_fun_upd [OF s1(4) _ that]) simp
    have k1: "kframe s1 D g" "refs s1 g = refs s g" if "kframe s D g" "g \<noteq> ?f" for g
      using vm_frameD(7,8) [OF s1(3)] that by auto
    have ld: "kload s1 (d + 4 * of_nat j) = kload s (d + 4 * of_nat j)" if "j < 1024" for j
      by (rule kload_kframe [OF s1(3) Cons.prems(2) _ d that]) (use f(3) in auto)
    have tf: "table_frames s1 d I = table_frames s d I" if "I \<subseteq> {..<1024}" for I
      by (rule table_frames_cong) (use that ld in auto)
    have tfi: "table_frames s1 d (set is) = table_frames s d (set is)" using tf Cons.prems(4) by auto
    have "\<exists>s'. freevm_tables s1 d is = Ret s' \<and> vm_inv s' D \<and>
        vm_frame s1 D s' D {} (table_frames s1 d (set is)) \<and>
        (\<forall>g. aligned g \<longrightarrow> refs s' g = (if g \<in> table_frames s1 d (set is) then 0 else refs s1 g))"
    proof (rule Cons.IH [OF s1(2)])
      show "kframe s1 D (V2P d)" using k1(1) [OF Cons.prems(2)] f(3) by simp
      show "\<forall>f \<in> table_frames s1 d (set is). kframe s1 D f \<and> refs s1 f = 1 \<and> f \<noteq> V2P d"
        unfolding tfi
      proof
        fix g assume g: "g \<in> table_frames s d (set is)"
        then have "g \<noteq> ?f" "kframe s D g \<and> refs s g = 1 \<and> g \<noteq> V2P d"
          using nf Cons.prems(5) by (auto simp: table_frames_insert True)
        then show "kframe s1 D g \<and> refs s1 g = 1 \<and> g \<noteq> V2P d" using k1 [of g] by simp
      qed
      show "\<forall>i \<in> set is. \<forall>I. i \<notin> I \<longrightarrow> I \<subseteq> set is \<longrightarrow> flag (kload s1 (d + 4 * of_nat i)) PTE_P \<longrightarrow>
          PTE_ADDR (kload s1 (d + 4 * of_nat i)) \<notin> table_frames s1 d I"
      proof (intro ballI allI impI)
        fix j I assume j: "j \<in> set is" "j \<notin> I" "I \<subseteq> set is" "flag (kload s1 (d + 4 * of_nat j)) PTE_P"
        have "j < 1024" "I \<subseteq> {..<1024}" "I \<subseteq> set (i # is)" using j Cons.prems(4) by auto
        then show "PTE_ADDR (kload s1 (d + 4 * of_nat j)) \<notin> table_frames s1 d I"
          using Cons.prems(6) j by (simp add: ld tf)
      qed
    qed (use Cons.prems(3,4) in auto)
    then obtain s' where s': "freevm_tables s1 d is = Ret s'" "vm_inv s' D"
        "vm_frame s1 D s' D {} (table_frames s d (set is))"
        "\<And>g. aligned g \<Longrightarrow> refs s' g = (if g \<in> table_frames s d (set is) then 0 else refs s1 g)"
      unfolding tfi by blast
    have "vm_frame s D s' D ({} \<union> {}) (table_frames s d (set (i # is)))"
      by (rule vm_frame_trans [OF s1(3) s'(3)]) (auto simp: table_frames_insert True)
    moreover have "refs s' g = (if g \<in> table_frames s d (set (i # is)) then 0 else refs s g)" if "aligned g" for g
      using s'(4) [OF that] r1 [OF that] nf by (auto simp: table_frames_insert True)
    ultimately show ?thesis using True s1(1) s'(1,2) by simp
  qed
qed

lemma kload_entry: "PDX va = of_nat i \<Longrightarrow> kload s (d + 4 * of_nat i) = pde_of (phys s) d va"
  using kload_pde [of s d va] by simp

lemma PDX_exists: "i < 1024 \<Longrightarrow> \<exists>va. PDX va = of_nat i"
proof (intro exI [of _ "of_nat (i * 4194304)"])
  assume "i < 1024"
  then have "unat (of_nat (i * 4194304) :: u32) = i * 4194304" "unat (of_nat i :: u32) = i"
    by (simp_all only: unat_of_nat) simp_all
  then show "PDX (of_nat (i * 4194304)) = of_nat i" by (simp only: word_unat_eq_iff unat_PDX)
qed

lemma table_frames_tabs:
  "tabs (phys s) d = insert (V2P d) (table_frames s d {..<1024})"
proof -
  have "{PTE_ADDR (pde_of (phys s) d va) |va. has_table (phys s) d va} = table_frames s d {..<1024}" (is "?A = ?B")
  proof
    show "?A \<subseteq> ?B"
    proof
      fix f assume "f \<in> ?A"
      then obtain va where va: "has_table (phys s) d va" "f = PTE_ADDR (pde_of (phys s) d va)" by blast
      have k: "kload s (d + 4 * of_nat (unat (PDX va))) = pde_of (phys s) d va" by simp
      have "f = PTE_ADDR (kload s (d + 4 * of_nat (unat (PDX va))))"
          "flag (kload s (d + 4 * of_nat (unat (PDX va)))) PTE_P"
        using va k by (simp_all add: has_table_def)
      then show "f \<in> ?B" unfolding table_frames_def using PDX_bound [of va] by blast
    qed
    show "?B \<subseteq> ?A"
    proof
      fix f assume "f \<in> ?B"
      then obtain i where i: "i < 1024" "flag (kload s (d + 4 * of_nat i)) PTE_P"
          "f = PTE_ADDR (kload s (d + 4 * of_nat i))"
        by (auto simp: table_frames_def)
      obtain va where "PDX va = of_nat i" using PDX_exists [OF i(1)] by blast
      then show "f \<in> ?A" using i(2,3) kload_entry [of va i s d] by (auto simp: has_table_def)
    qed
  qed
  then show ?thesis by (simp add: tabs_def)
qed

lemma table_frames_distinct:
  assumes ok: "tables_ok s D" "d \<in> D" and i: "i < 1024" "i \<notin> I" "I \<subseteq> {..<1024}" "flag (kload s (d + 4 * of_nat i)) PTE_P"
  shows "PTE_ADDR (kload s (d + 4 * of_nat i)) \<notin> table_frames s d I"
proof
  assume "PTE_ADDR (kload s (d + 4 * of_nat i)) \<in> table_frames s d I"
  then obtain j where j: "j \<in> I" "flag (kload s (d + 4 * of_nat j)) PTE_P"
      "PTE_ADDR (kload s (d + 4 * of_nat i)) = PTE_ADDR (kload s (d + 4 * of_nat j))"
    by (auto simp: table_frames_def)
  then have j': "j < 1024" "j \<noteq> i" using i by auto
  obtain va vb where v: "PDX va = of_nat i" "PDX vb = of_nat j" using PDX_exists i(1) j'(1) by blast
  have "PDX va = PDX vb"
    using tables_ok_D(6) [OF ok, of va d vb] ok(2) i(4) j(2,3) kload_entry [OF v(1), of s d] kload_entry [OF v(2), of s d]
    by (simp add: has_table_def)
  then have "(of_nat i :: u32) = of_nat j" using v by simp
  then have "unat (of_nat i :: u32) = unat (of_nat j :: u32)" by simp
  then show False using i(1) j' by (simp add: unat_of_nat)
qed

lemma vm_frame_drop: "vm_frame s D s' D' C F \<Longrightarrow> (\<And>d p. (d, p) \<in> C \<Longrightarrow> d \<notin> D') \<Longrightarrow> vm_frame s D s' D' {} F"
  unfolding vm_frame_def by blast

text \<open>
  \<^verbatim>\<open>freevm\<close>: the directory is gone, every other address space is as before, and no frame is left
  that neither a remaining directory nor the kernel uses.
\<close>

lemma freevm_spec:
  assumes inv: "vm_inv s D" and d: "d \<in> D"
  shows "\<exists>s'. freevm s d = Ret s' \<and> vm_inv s' (D - {d}) \<and> vm_frame s D s' (D - {d}) {} {}"
proof -
  let ?D = "D - {d}"
  have ad: "aligned d" and d0: "d \<noteq> 0"
    using tables_ok_D(2,3) [OF vm_invD(2) [OF inv] d] kpage_nonzero by auto
  have r0: "PGROUNDUP 0 = 0" by (simp add: PGROUNDUP_def PGSIZE_def)
  obtain s1 where s1: "deallocuvm s d KERNBASE 0 = Ret (0, s1)" "vm_inv s1 D"
      "vm_frame s D s1 D (pages d 0 KERNBASE) {}"
      "\<And>p. aligned p \<Longrightarrow> p < KERNBASE \<Longrightarrow> \<not> present (phys s1) d p"
    using deallocuvm_spec [OF inv d order_refl, of 0] by (auto simp: r0 KERNBASE_def min_def)
  have empty: "\<forall>va < KERNBASE. \<not> present (phys s1) d va"
    using s1(4) [of "PGROUNDDOWN va" for va] user_page by (simp add: present_aligned)
  let ?T = "tabs (phys s1) d"
  note dd = drop_dir [OF s1(2) d empty]
  note ok1 = vm_invD(2) [OF s1(2)]
  have vd: "kframe s1 ?D (V2P d)" "refs s1 (V2P d) = 1" using dd(3) [of "V2P d"] by (auto simp: tabs_def)
  have ne: "f \<noteq> V2P d" if f: "f \<in> table_frames s1 d {..<1024}" for f
  proof -
    obtain i where i: "i < 1024" "flag (kload s1 (d + 4 * of_nat i)) PTE_P" "f = PTE_ADDR (kload s1 (d + 4 * of_nat i))"
      using f by (auto simp: table_frames_def)
    obtain va where "PDX va = of_nat i" using PDX_exists [OF i(1)] by blast
    then show ?thesis
      using tables_ok_D(5) [OF ok1 d, of va d] d i(2,3) kload_entry [of va i s1 d] by (simp add: has_table_def)
  qed
  have "\<exists>s2. freevm_tables s1 d [0..<1024] = Ret s2 \<and> vm_inv s2 ?D \<and>
      vm_frame s1 ?D s2 ?D {} (table_frames s1 d (set [0..<1024])) \<and>
      (\<forall>g. aligned g \<longrightarrow> refs s2 g = (if g \<in> table_frames s1 d (set [0..<1024]) then 0 else refs s1 g))"
  proof (rule freevm_tables_spec [OF dd(1) vd(1) _ _ _ _ ad])
    show "\<forall>f \<in> table_frames s1 d (set [0..<1024]). kframe s1 ?D f \<and> refs s1 f = 1 \<and> f \<noteq> V2P d"
      using dd(3) ne by (auto simp: table_frames_tabs atLeast0LessThan)
    show "\<forall>i \<in> set [0..<1024]. \<forall>I. i \<notin> I \<longrightarrow> I \<subseteq> set [0..<1024] \<longrightarrow>
        flag (kload s1 (d + 4 * of_nat i)) PTE_P \<longrightarrow> PTE_ADDR (kload s1 (d + 4 * of_nat i)) \<notin> table_frames s1 d I"
      using table_frames_distinct [OF ok1 d] by (auto simp: atLeast0LessThan)
  qed auto
  then obtain s2 where s2: "freevm_tables s1 d [0..<1024] = Ret s2" "vm_inv s2 ?D"
      "vm_frame s1 ?D s2 ?D {} (table_frames s1 d {..<1024})"
      "\<And>g. aligned g \<Longrightarrow> refs s2 g = (if g \<in> table_frames s1 d {..<1024} then 0 else refs s1 g)"
    by (auto simp: atLeast0LessThan)
  have nd: "V2P d \<notin> table_frames s1 d {..<1024}" using ne by blast
  have vd2: "kframe s2 ?D (V2P d)" "refs s2 (V2P d) = 1"
    using vm_frameD(7,8) [OF s2(3) vd(1) nd] vd(2) by auto
  obtain s3 where s3: "kfree s2 d = Ret s3" "vm_inv s3 ?D" "vm_frame s2 ?D s3 ?D {} {V2P d}"
      "refcnt s3 = (refcnt s2)(pidx d := 0)"
    using free_kframe [OF s2(2) vd2] by auto
  have r3: "refs s3 f = 0" if "f \<in> ?T" for f
  proof -
    have "aligned f" using kframe_aligned dd(3) [OF that] by blast
    then show ?thesis
      using refs_fun_upd [of s3 s2 "V2P d" 0 f] s3(4) s2(4) that ad by (auto simp: table_frames_tabs)
  qed
  have "vm_frame s D s1 ?D (pages d 0 KERNBASE \<union> {}) ?T"
    by (rule vm_frame_trans [OF s1(3) dd(2)]) auto
  then have "vm_frame s D s2 ?D (pages d 0 KERNBASE \<union> {} \<union> {}) ?T"
    by (rule vm_frame_trans [OF _ s2(3)]) (auto simp: table_frames_tabs)
  then have "vm_frame s D s3 ?D (pages d 0 KERNBASE \<union> {} \<union> {} \<union> {}) {}"
  proof (rule vm_frame_trans [OF _ s3(3)])
    fix f assume f: "f \<in> ?T \<union> {V2P d}" "kframe s D f \<or> kframe s3 ?D f"
    then have t: "f \<in> ?T" by (auto simp: table_frames_tabs)
    then have "f \<in> all_tabs s1 D" using d by (auto simp: all_tabs_def)
    then have "\<not> kframe s D f" using vm_frameD(7) [OF s1(3), of f] by (auto simp: kframe_def)
    moreover have "\<not> kframe s3 ?D f" using r3 [OF t] by (auto simp: kframe_def owned_def refs_def)
    ultimately show "f \<in> {}" using f(2) by blast
  qed auto
  then have "vm_frame s D s3 ?D {} {}" by (rule vm_frame_drop) (auto simp: pages_def)
  then show ?thesis using s1(1) s2(1) s3(1,2) d0 by (auto simp: freevm_def)
qed

end
