(* ===== verification/Vm_Fork.thy ===== *)
theory Vm_Fork
  imports Vm_Space
begin

text \<open>
  New address spaces: \<^verbatim>\<open>setupkvm\<close> gives every directory the same kernel half, and \<^verbatim>\<open>copyuvm\<close>
  shares the user half of a parent with its child, copy-on-write.
\<close>

section \<open>Mapping a range\<close>

lemma mappages_loop_unfold:
  "mappages_loop s d a l pa perm =
     rbind (mappages_loop s d a a pa perm) (\<lambda>(r, s).
       if r < 0 then Ret (r, s) else if a = l then Ret (0, s)
       else if a + PGSIZE \<le> a then Wrapped else mappages_loop s d (a + PGSIZE) l (pa + PGSIZE) perm)"
  by (cases "walkpgdir s d a True")
     (auto simp: mappages_loop.simps [of s d a] Let_def split: prod.splits)

lemma mappages_single:
  assumes "aligned a"
  shows "mappages s d a PGSIZE pa perm = mappages_loop s d a a pa perm"
proof -
  have "a + PGSIZE - 1 = a + 4095" unfolding PGSIZE_def by simp
  then have "PGROUNDDOWN (a + PGSIZE - 1) = a" using frame_offset [OF assms, of 4095] by (simp only:) simp
  then show ?thesis by (simp add: mappages_def PGROUNDDOWN_aligned [OF assms])
qed

definition kpages :: "u32 \<Rightarrow> u32 \<Rightarrow> u32 \<Rightarrow> (u32 \<times> u32) set" where
  "kpages d lo hi = {(d, p) |p. aligned p \<and> lo \<le> p \<and> p \<le> hi}"

lemma aligned_next:
  assumes "aligned a" "aligned l" "a < l"
  shows "\<not> a + PGSIZE \<le> a" "a + PGSIZE \<le> l" "unat (a + PGSIZE) = unat a + 4096"
proof -
  have "unat a + 4096 \<le> unat l"
    using aligned_dvd [of a] aligned_dvd [of l] assms by (auto simp: word_less_nat_alt elim!: dvdE)
  moreover from this have u: "unat (a + PGSIZE) = unat a + 4096"
    using unat_add_no_wrap [of a PGSIZE] unat_less_2p32 [of l] by (simp add: PGSIZE_def)
  ultimately show "a + PGSIZE \<le> l" "\<not> a + PGSIZE \<le> a" "unat (a + PGSIZE) = unat a + 4096"
    by (simp_all add: word_le_nat_alt)
qed

lemma mappages_loop_spec:
  assumes "tables_ok s D" "kmem_inv s" "d \<in> D" "aligned a" "aligned l" "a \<le> l"
    "\<forall>p. aligned p \<longrightarrow> a \<le> p \<longrightarrow> p \<le> l \<longrightarrow> \<not> present (phys s) d p"
  shows "\<exists>r s'. mappages_loop s d a l pa perm = Ret (r, s') \<and> tables_ok s' D \<and> kmem_inv s' \<and> vm_ext s s' D \<and>
    (r = 0 \<or> r = -1) \<and>
    (\<forall>d' \<in> D. \<forall>va. (d', PGROUNDDOWN va) \<notin> kpages d a l \<longrightarrow> lookup (phys s') d' va = lookup (phys s) d' va) \<and>
    (r = 0 \<longrightarrow> (\<forall>p. aligned p \<longrightarrow> a \<le> p \<longrightarrow> p \<le> l \<longrightarrow> lookup (phys s') d p = (pa + (p - a)) OR perm OR PTE_P))"
  using assms
proof (induction "unat l - unat a" arbitrary: a pa s rule: less_induct)
  case less
  note ok = less.prems(1) and ki = less.prems(2) and d = less.prems(3) and al = less.prems(4,5) and le = less.prems(6)
  have np: "\<not> present (phys s) d a" using less.prems(7) al le by simp
  obtain r s1 where s1: "mappages_loop s d a a pa perm = Ret (r, s1)" "tables_ok s1 D" "kmem_inv s1" "vm_ext s s1 D"
      "r = -1 \<and> s1 = s \<or> r = 0 \<and> (\<forall>d' \<in> D. \<forall>va'. lookup (phys s1) d' va' =
           (if d' = d \<and> PGROUNDDOWN va' = a then pa OR perm OR PTE_P else lookup (phys s) d' va'))"
    using mappages_page(2) [OF ok ki d al(1) np, of pa perm] unfolding mappages_single [OF al(1)] by blast
  note unf = mappages_loop_unfold [of s d a l pa perm]
  show ?case
  proof (cases "r = 0")
    case False
    then have "r = -1" "s1 = s" using s1(5) by auto
    then have "mappages_loop s d a l pa perm = Ret (-1, s)" using s1(1) unf by simp
    then show ?thesis using ok ki by auto
  next
    case True
    then have lk: "lookup (phys s1) d' va' =
        (if d' = d \<and> PGROUNDDOWN va' = a then pa OR perm OR PTE_P else lookup (phys s) d' va')" if "d' \<in> D" for d' va'
      using s1(5) that by auto
    show ?thesis
    proof (cases "a = l")
      case eq: True
      then have "mappages_loop s d a l pa perm = Ret (0, s1)" using s1(1) unf True by simp
      moreover have "p = a" if "a \<le> p" "p \<le> a" for p using that by simp
      ultimately show ?thesis
        using s1(2-4) lk d eq by (auto simp: kpages_def PGROUNDDOWN_aligned)
    next
      case False
      then have lt: "a < l" using le by simp
      note nx = aligned_next [OF al lt]
      have eq: "mappages_loop s d a l pa perm = mappages_loop s1 d (a + PGSIZE) l (pa + PGSIZE) perm"
        using s1(1) unf True False nx(1) by simp
      have pg: "p < a + PGSIZE \<longleftrightarrow> p \<le> a" if "aligned p" for p
        using aligned_less_step [OF that al(1)] nx(3) unat_less_2p32 [of "a + PGSIZE"] by simp
      have ge: "a \<le> p \<and> p \<noteq> a" if "aligned p" "a + PGSIZE \<le> p" for p
        using pg [OF that(1)] that(2) by (auto simp: not_less [symmetric])
      have "\<exists>r s'. mappages_loop s1 d (a + PGSIZE) l (pa + PGSIZE) perm = Ret (r, s') \<and> tables_ok s' D \<and>
          kmem_inv s' \<and> vm_ext s1 s' D \<and> (r = 0 \<or> r = -1) \<and>
          (\<forall>d' \<in> D. \<forall>va. (d', PGROUNDDOWN va) \<notin> kpages d (a + PGSIZE) l \<longrightarrow>
             lookup (phys s') d' va = lookup (phys s1) d' va) \<and>
          (r = 0 \<longrightarrow> (\<forall>p. aligned p \<longrightarrow> a + PGSIZE \<le> p \<longrightarrow> p \<le> l \<longrightarrow>
             lookup (phys s') d p = (pa + PGSIZE + (p - (a + PGSIZE))) OR perm OR PTE_P))"
      proof (rule less.hyps)
        show "unat l - unat (a + PGSIZE) < unat l - unat a"
          using lt nx(3) by (simp add: word_less_nat_alt)
        show "\<forall>p. aligned p \<longrightarrow> a + PGSIZE \<le> p \<longrightarrow> p \<le> l \<longrightarrow> \<not> present (phys s1) d p"
          using ge less.prems(7) lk [OF d] by (auto simp: present_def PGROUNDDOWN_aligned)
      qed (use s1 d al nx in auto)
      then obtain r' s' where s': "mappages_loop s1 d (a + PGSIZE) l (pa + PGSIZE) perm = Ret (r', s')"
          "tables_ok s' D" "kmem_inv s'" "vm_ext s1 s' D" "r' = 0 \<or> r' = -1"
          "\<And>d' va. d' \<in> D \<Longrightarrow> (d', PGROUNDDOWN va) \<notin> kpages d (a + PGSIZE) l \<Longrightarrow>
             lookup (phys s') d' va = lookup (phys s1) d' va"
          "\<And>p. r' = 0 \<Longrightarrow> aligned p \<Longrightarrow> a + PGSIZE \<le> p \<Longrightarrow> p \<le> l \<Longrightarrow>
             lookup (phys s') d p = (pa + PGSIZE + (p - (a + PGSIZE))) OR perm OR PTE_P"
        by blast
      have sub: "kpages d (a + PGSIZE) l \<subseteq> kpages d a l" "(d, a) \<in> kpages d a l" "(d, a) \<notin> kpages d (a + PGSIZE) l"
        using ge al le nx(1) by (auto simp: kpages_def)
      have "lookup (phys s') d' va = lookup (phys s) d' va"
        if "d' \<in> D" "(d', PGROUNDDOWN va) \<notin> kpages d a l" for d' va
      proof -
        have "(d', PGROUNDDOWN va) \<notin> kpages d (a + PGSIZE) l" "\<not> (d' = d \<and> PGROUNDDOWN va = a)"
          using that(2) sub(1,2) by auto
        then show ?thesis using s'(6) [OF that(1), of va] lk [OF that(1), of va] by auto
      qed
      moreover have "lookup (phys s') d p = (pa + (p - a)) OR perm OR PTE_P"
        if "r' = 0" "aligned p" "a \<le> p" "p \<le> l" for p
      proof (cases "p = a")
        case True
        then show ?thesis using s'(6) [OF d, of a] lk [OF d, of a] sub(3) al by (simp add: PGROUNDDOWN_aligned)
      next
        case False
        then have "a + PGSIZE \<le> p" using pg [OF that(2)] that(3) by (auto simp: not_less [symmetric])
        then show ?thesis using s'(7) that by simp
      qed
      ultimately show ?thesis using eq s' vm_ext_trans [OF s1(4) s'(4)] by auto
    qed
  qed
qed

section \<open>The kernel half\<close>

lemma umaps_cong_user:
  assumes "\<And>d p. d \<in> D \<Longrightarrow> p < KERNBASE \<Longrightarrow> lookup m' d p = lookup m d p"
  shows "umaps m' D f = umaps m D f"
  using assms by (auto simp: umaps_def present_def)

lemma vm_inv_kernel:
  assumes inv: "vm_inv s D" and s': "tables_ok s' D" "kmem_inv s'" "vm_ext s s' D"
    and lk: "\<And>d va. d \<in> D \<Longrightarrow> (d, PGROUNDDOWN va) \<notin> C \<Longrightarrow> lookup (phys s') d va = lookup (phys s) d va"
    and C: "\<And>d p. (d, p) \<in> C \<Longrightarrow> KERNBASE \<le> p"
  shows "vm_inv s' D" "vm_frame s D s' D C {}"
proof -
  note ext = vm_ext_D [OF s'(3)]
  have lu: "lookup (phys s') d va = lookup (phys s) d va" if "d \<in> D" "va < KERNBASE" for d va
    using lk [OF that(1), of va] C [of d "PGROUNDDOWN va"] user_page [OF that(2)] by (auto simp: not_less [symmetric])
  note um = umaps_cong_user [of D "phys s'" "phys s", OF lu]
  have r: "refs s' f = refs s f" if "owned s f" for f
    using that ext(3) by (auto simp: owned_def refs_def)
  have tab: "f \<notin> all_tabs s' D" if "owned s f" "f \<notin> all_tabs s D" for f using ext(5) that by blast
  show "vm_inv s' D"
    unfolding vm_inv_def
  proof (intro conjI allI ballI impI)
    show "tables_ok s' D" "kmem_inv s'" by (rule s')+
    show "KERNBASE < kend s'" using vm_invD(3) [OF inv] ext(1) by simp
  next
    fix f assume "umaps (phys s') D f \<noteq> {}"
    then have ne: "umaps (phys s) D f \<noteq> {}" by (simp add: um)
    then have o: "owned s f" using umaps_refs_pos(2) [OF inv] by fast
    show "kpage s' (P2V f)" "f \<notin> all_tabs s' D" "refs s' f = int (card (umaps (phys s') D f))"
      using vm_invD(4,5,6) [OF inv ne] r [OF o] tab [OF o] kpage_cong [OF ext(1)] by (simp_all add: um)
  next
    fix d va assume d: "d \<in> D" "va < KERNBASE" "writable (phys s') d va"
    then have w: "writable (phys s) d va" by (simp add: writable_def present_def lu)
    then have "owned s (PTE_ADDR (lookup (phys s) d va))"
      using mapped_owned [OF inv d(1,2)] by (simp add: writable_def)
    then show "refs s' (PTE_ADDR (lookup (phys s') d va)) = 1"
      using vm_invD(7) [OF inv d(1,2) w] r d by (simp add: lu)
  qed
  show "vm_frame s D s' D C {}"
    unfolding vm_frame_def
  proof (intro conjI ballI allI impI)
    show "kend s' = kend s" "kdata s' = kdata s" "kpgdir s' = kpgdir s" "vmach.more s' = vmach.more s"
      using ext(1) more_fields [OF ext(2)] by simp_all
    show "lookup (phys s') d va = lookup (phys s) d va" if "d \<in> D \<inter> D" "(d, PGROUNDDOWN va) \<notin> C" for d va
      using that lk by simp
    show "ubyte (phys s') d va = ubyte (phys s) d va"
      if "d \<in> D \<inter> D" "va < KERNBASE" "present (phys s) d va" for d va
      using that mapped_owned [OF inv, of d va] unfolding ubyte_def by (simp add: lu ext(4))
  next
    fix f assume f: "kframe s D f"
    show "kframe s' D f" using f vm_ext_owned [OF s'(3)] tab by (simp add: kframe_def um)
    show "refs s' f = refs s f" using f r by (simp add: kframe_def)
    show "phys s' a = phys s a" if "PGROUNDDOWN a = f" for a using that f ext(4) by (simp add: kframe_def)
  next
    fix f assume "kframe s' D f"
    then show "kframe s D f" using ext(6,7) by (auto simp: kframe_def um)
  qed
qed

text \<open>A zeroed page is a directory that maps nothing.\<close>

lemma add_dir:
  assumes inv: "vm_inv s D" and al: "kalloc s = Ret (d, s1)" "d \<noteq> 0"
    and s2: "s2 = s1\<lparr>phys := mem_set (phys s1) (V2P d) 0 PGSIZE\<rparr>"
  shows "d \<notin> D" "vm_inv s2 (insert d D)" "vm_frame s D s2 (insert d D) {} {}" "\<And>va. \<not> has_table (phys s2) d va"
proof -
  have kd: "kpage s d" using ka.alloc_new [OF vm_invD(1) [OF inv] al] by simp
  have ad: "aligned d" "aligned (V2P d)" using kpage_aligned [OF kd] by simp_all
  have m: "\<forall>a. PGROUNDDOWN a \<noteq> V2P d \<longrightarrow> mem_set (phys s1) (V2P d) 0 PGSIZE a = phys s a"
    using mem_set_mmap [OF ad(2)] kalloc_frame [OF al(1)] by simp
  note kp = kalloc_page [OF vm_invD(1) [OF inv] al m s2] and ap = alloc_page [OF inv al m s2]
  note ok2 = vm_invD(2) [OF ap(1)]
  show nd: "d \<notin> D" using tables_ok_D(1) [OF vm_invD(2) [OF inv]] kp(3) by blast
  have z: "pde_of (phys s2) d va = 0" for va
    unfolding pde_of_def s2 using ad by (simp add: load32_mem_set_page)
  show nt: "\<not> has_table (phys s2) d va" for va by (simp add: has_table_def z)
  have nl: "lookup (phys s2) d va = 0" for va using nt by (simp add: lookup_def)
  have tb: "tabs (phys s2) d = {V2P d}" using nt by (auto simp: tabs_def)
  have at: "all_tabs s2 (insert d D) = insert (V2P d) (all_tabs s2 D)" by (simp add: all_tabs_def tb)
  have um: "umaps (phys s2) (insert d D) f = umaps (phys s2) D f" for f
    using nl by (auto simp: umaps_def present_def)
  have so: "sole s2 (V2P d)"
    using kp(10,2) kpage_cong [OF kp(8)] by (simp add: sole_def)
  have nk: "V2P d \<notin> all_tabs s2 D" "umaps (phys s2) D (V2P d) = {}" using ap(3) by (auto simp: kframe_def)
  have "tables_ok s2 (insert d D)"
  proof (rule tables_ok_I)
    fix d' d'' va assume d: "d' \<in> insert d D" "d'' \<in> insert d D" "has_table (phys s2) d' va"
    then have d': "d' \<in> D" using nt by auto
    have "PTE_ADDR (pde_of (phys s2) d' va) \<in> all_tabs s2 D" using d' d(3) by (auto simp: all_tabs_def tabs_def)
    then show "PTE_ADDR (pde_of (phys s2) d' va) \<noteq> V2P d''"
      using nk(1) tables_ok_D(5) [OF ok2 d' d(3)] d(2) by auto
  qed (use so nt tables_ok_D(6,7,8) [OF ok2] in auto)
  then show "vm_inv s2 (insert d D)"
    unfolding vm_inv_def um at
    using vm_invD [OF ap(1)] nk nl by (auto simp: writable_def present_def)
  have kf: "kframe s2 (insert d D) f \<longleftrightarrow> kframe s2 D f \<and> f \<noteq> V2P d" for f
    by (auto simp: kframe_def um at)
  have "\<not> kframe s D (V2P d)" using kp(3) by (simp add: kframe_def)
  then show "vm_frame s D s2 (insert d D) {} {}"
    using ap(2) nd unfolding vm_frame_def kf by auto
qed

section \<open>setupkvm\<close>

type_synonym kmap_entry = "u32 \<times> u32 \<times> u32 \<times> u32"

definition klast :: "kmap_entry \<Rightarrow> u32" where
  "klast e = (case e of (virt, ps, pe, perm) \<Rightarrow> PGROUNDDOWN (virt + (pe - ps) - 1))"

definition kmapped :: "pmem \<Rightarrow> u32 \<Rightarrow> kmap_entry \<Rightarrow> bool" where
  "kmapped m d e = (case e of (virt, ps, pe, perm) \<Rightarrow>
     \<forall>p. aligned p \<longrightarrow> virt \<le> p \<longrightarrow> p \<le> klast e \<longrightarrow> lookup m d p = (ps + (p - virt)) OR perm OR PTE_P)"

definition kunmapped :: "pmem \<Rightarrow> u32 \<Rightarrow> kmap_entry \<Rightarrow> bool" where
  "kunmapped m d e \<longleftrightarrow> (\<forall>p. aligned p \<longrightarrow> fst e \<le> p \<longrightarrow> p \<le> klast e \<longrightarrow> \<not> present m d p)"

fun kmap_ok :: "kmap_entry list \<Rightarrow> bool" where
  "kmap_ok [] \<longleftrightarrow> True"
| "kmap_ok (e # es) \<longleftrightarrow> aligned (fst e) \<and> KERNBASE \<le> fst e \<and> fst e \<le> klast e \<and>
     (\<forall>e' \<in> set es. klast e < fst e') \<and> kmap_ok es"

definition khalf :: "u32 \<Rightarrow> (u32 \<times> u32) set" where
  "khalf d = {(d, p) |p. KERNBASE \<le> p}"

lemma kmap_ok_mem: "kmap_ok es \<Longrightarrow> e \<in> set es \<Longrightarrow> aligned (fst e) \<and> KERNBASE \<le> fst e \<and> fst e \<le> klast e"
  by (induction es) auto

lemma lookup_other_range:
  assumes "\<forall>d' \<in> D. \<forall>va. (d', PGROUNDDOWN va) \<notin> kpages d lo hi \<longrightarrow> lookup m' d' va = lookup m d' va"
    and "d \<in> D" "aligned p" "p < lo \<or> hi < p"
  shows "lookup m' d p = lookup m d p"
proof -
  have "(d, PGROUNDDOWN p) \<notin> kpages d lo hi"
    using assms(3,4) by (auto simp: kpages_def PGROUNDDOWN_aligned not_less [symmetric])
  then show ?thesis using assms(1,2) by blast
qed

lemma setupkvm_loop_spec:
  assumes "vm_inv s (insert d D)" "d \<notin> D" "kmap_ok ks" "\<forall>e \<in> set ks. kunmapped (phys s) d e"
  shows "\<exists>r s'. setupkvm_loop s d ks = Ret (r, s') \<and>
    (r = 0 \<and> vm_inv s' D \<and> vm_frame s (insert d D) s' D {} {} \<or>
     r = d \<and> r \<noteq> 0 \<and> vm_inv s' (insert d D) \<and> vm_frame s (insert d D) s' (insert d D) (khalf d) {} \<and>
       (\<forall>e \<in> set ks. kmapped (phys s') d e) \<and>
       (\<forall>p. aligned p \<longrightarrow> (\<forall>e \<in> set ks. p < fst e \<or> klast e < p) \<longrightarrow> lookup (phys s') d p = lookup (phys s) d p))"
  using assms(1,3,4)
proof (induction ks arbitrary: s)
  case Nil
  then have "d \<noteq> 0" using tables_ok_D(2) [OF vm_invD(2) [OF Nil.prems(1)], of d] kpage_nonzero by auto
  then show ?case using Nil by simp
next
  case (Cons e ks)
  obtain virt ps pe perm where e: "e = (virt, ps, pe, perm)" by (cases e)
  let ?D = "insert d D"
  note inv = Cons.prems(1)
  have k: "aligned virt" "KERNBASE \<le> virt" "virt \<le> klast e" "\<forall>e' \<in> set ks. klast e < fst e'" "kmap_ok ks"
    using Cons.prems(2) by (auto simp: e)
  have al: "aligned (klast e)" by (simp add: klast_def e)
  have np: "\<forall>p. aligned p \<longrightarrow> virt \<le> p \<longrightarrow> p \<le> klast e \<longrightarrow> \<not> present (phys s) d p"
    using Cons.prems(3) by (simp add: kunmapped_def e)
  obtain r s1 where s1: "mappages s d virt (pe - ps) ps perm = Ret (r, s1)" "tables_ok s1 ?D" "kmem_inv s1"
      "vm_ext s s1 ?D" "r = 0 \<or> r = -1"
      "\<forall>d' \<in> ?D. \<forall>va. (d', PGROUNDDOWN va) \<notin> kpages d virt (klast e) \<longrightarrow> lookup (phys s1) d' va = lookup (phys s) d' va"
      "r = 0 \<longrightarrow> (\<forall>p. aligned p \<longrightarrow> virt \<le> p \<longrightarrow> p \<le> klast e \<longrightarrow>
         lookup (phys s1) d p = (ps + (p - virt)) OR perm OR PTE_P)"
    using mappages_loop_spec [OF vm_invD(2,1) [OF inv] insertI1 k(1) al k(3) np, of ps perm]
    by (auto simp: mappages_def PGROUNDDOWN_aligned [OF k(1)] klast_def e)
  have ker: "KERNBASE \<le> p" if "(d', p) \<in> kpages d virt (klast e)" for d' p
    using that k(2) by (auto simp: kpages_def)
  note vk = vm_inv_kernel [OF inv s1(2-4), of "kpages d virt (klast e)"]
  have i1: "vm_inv s1 ?D" and f1: "vm_frame s ?D s1 ?D (kpages d virt (klast e)) {}"
    using vk s1(6) ker by blast+
  have sub: "kpages d virt (klast e) \<subseteq> khalf d" using ker by (auto simp: khalf_def kpages_def)
  show ?case
  proof (cases "r = 0")
    case False
    then have "r = -1" using s1(5) by simp
    obtain s2 where s2: "freevm s1 d = Ret s2" "vm_inv s2 (?D - {d})" "vm_frame s1 ?D s2 (?D - {d}) {} {}"
      using freevm_spec [OF i1] by blast
    have D: "?D - {d} = D" using assms(2) by simp
    have "vm_frame s ?D s2 D (kpages d virt (klast e) \<union> {}) {}"
      by (rule vm_frame_trans [OF f1 s2(3) [unfolded D]]) auto
    then have "vm_frame s ?D s2 D {} {}" by (rule vm_frame_drop) (use assms(2) in \<open>auto simp: kpages_def\<close>)
    then show ?thesis using s1(1) \<open>r = -1\<close> s2 D by (simp add: e)
  next
    case True
    have un: "\<forall>e' \<in> set ks. kunmapped (phys s1) d e'"
      unfolding kunmapped_def
    proof (intro ballI allI impI)
      fix e' p assume e': "e' \<in> set ks" "aligned p" "fst e' \<le> p" "p \<le> klast e'"
      then have "klast e < p" using k(4) by (meson less_le_trans)
      then have "lookup (phys s1) d p = lookup (phys s) d p" using lookup_other_range [OF s1(6) _ e'(2)] by blast
      then show "\<not> present (phys s1) d p" using Cons.prems(3) e' by (simp add: kunmapped_def present_def)
    qed
    obtain r' s' where s': "setupkvm_loop s1 d ks = Ret (r', s')"
      "r' = 0 \<and> vm_inv s' D \<and> vm_frame s1 ?D s' D {} {} \<or>
       r' = d \<and> r' \<noteq> 0 \<and> vm_inv s' ?D \<and> vm_frame s1 ?D s' ?D (khalf d) {} \<and>
       (\<forall>e \<in> set ks. kmapped (phys s') d e) \<and>
       (\<forall>p. aligned p \<longrightarrow> (\<forall>e \<in> set ks. p < fst e \<or> klast e < p) \<longrightarrow> lookup (phys s') d p = lookup (phys s1) d p)"
      using Cons.IH [OF i1 k(5) un] by blast
    have eq: "setupkvm_loop s d (e # ks) = setupkvm_loop s1 d ks" using s1(1) True by (simp add: e)
    from s'(2) show ?thesis
    proof (elim disjE conjE)
      assume "r' = 0" "vm_inv s' D" and f2: "vm_frame s1 ?D s' D {} {}"
      have "vm_frame s ?D s' D (kpages d virt (klast e) \<union> {}) {}"
        by (rule vm_frame_trans [OF f1 f2]) auto
      then have "vm_frame s ?D s' D {} {}" by (rule vm_frame_drop) (use assms(2) in \<open>auto simp: kpages_def\<close>)
      then show ?thesis using eq s'(1) \<open>r' = 0\<close> \<open>vm_inv s' D\<close> by auto
    next
      assume r': "r' = d" "r' \<noteq> 0" "vm_inv s' ?D" and f2: "vm_frame s1 ?D s' ?D (khalf d) {}"
        and km: "\<forall>e \<in> set ks. kmapped (phys s') d e"
        and ot: "\<forall>p. aligned p \<longrightarrow> (\<forall>e \<in> set ks. p < fst e \<or> klast e < p) \<longrightarrow> lookup (phys s') d p = lookup (phys s1) d p"
      have "vm_frame s ?D s' ?D (kpages d virt (klast e) \<union> khalf d) {}"
        by (rule vm_frame_trans [OF f1 f2]) auto
      then have f3: "vm_frame s ?D s' ?D (khalf d) {}" using sub by (simp add: Un_absorb1)
      have "kmapped (phys s') d e"
        unfolding kmapped_def e
      proof (clarify)
        fix p assume p: "aligned p" "virt \<le> p" "p \<le> klast (virt, ps, pe, perm)"
        then have "\<forall>e' \<in> set ks. p < fst e' \<or> klast e' < p" using k(4) by (auto simp: e dest: le_less_trans)
        then show "lookup (phys s') d p = (ps + (p - virt)) OR perm OR PTE_P"
          using ot p s1(7) True by (simp add: e)
      qed
      moreover have "lookup (phys s') d p = lookup (phys s) d p"
        if p: "aligned p" "\<forall>e' \<in> set (e # ks). p < fst e' \<or> klast e' < p" for p
      proof -
        have "p < virt \<or> klast e < p" using p(2) by (auto simp: e)
        then show ?thesis using ot p lookup_other_range [OF s1(6) _ p(1)] by auto
      qed
      ultimately show ?thesis using eq s'(1) r' f3 km by auto
    qed
  qed
qed

text \<open>What the linker script promises of the symbol \<^verbatim>\<open>data\<close>: page aligned, inside the kernel.\<close>

definition kdata_ok :: "u32 \<Rightarrow> bool" where
  "kdata_ok dat \<longleftrightarrow> aligned dat \<and> KERNLINK < dat \<and> dat < P2V PHYSTOP"

lemma klast_kmap:
  assumes "aligned dat" "KERNLINK < dat"
  shows "map klast (kmap dat) = [0x800FF000, dat - PGSIZE, 0x8DFFF000, 0xFFFFF000]"
proof -
  have "PGROUNDDOWN (dat - 1) = dat - PGSIZE"
  proof -
    have e: "dat - 1 = (dat - PGSIZE) + 4095" by (simp add: PGSIZE_def)
    have "aligned (dat - PGSIZE)" using assms(1) by (intro aligned_diff) (simp_all add: aligned_def PGSIZE_def)
    then have "PGROUNDDOWN ((dat - PGSIZE) + 4095) = dat - PGSIZE" by (rule frame_offset) simp
    then show ?thesis by (simp only: e)
  qed
  moreover have "KERNLINK + (V2P dat - V2P KERNLINK) - 1 = dat - 1" by (simp add: V2P_def)
  moreover have "dat + (PHYSTOP - V2P dat) - 1 = 0x8DFFFFFF" by (simp add: V2P_def PHYSTOP_def KERNBASE_def)
  ultimately show ?thesis
    by (simp add: kmap_def klast_def) (simp add: PGROUNDDOWN_def PGSIZE_def KERNBASE_def EXTMEM_def DEVSPACE_def)
qed

lemma kmap_ok_kmap:
  assumes "kdata_ok dat"
  shows "kmap_ok (kmap dat)"
proof -
  have a: "aligned dat" "KERNLINK < dat" "dat < P2V PHYSTOP" using assms by (auto simp: kdata_ok_def)
  have kl: "klast (KERNBASE, 0, EXTMEM, PTE_W) = 0x800FF000"
      "klast (KERNLINK, V2P KERNLINK, V2P dat, 0) = dat - PGSIZE"
      "klast (dat, V2P dat, PHYSTOP, PTE_W) = 0x8DFFF000" "klast (DEVSPACE, DEVSPACE, 0, PTE_W) = 0xFFFFF000"
    using klast_kmap [OF a(1,2)] by (simp_all add: kmap_def)
  obtain j where j: "unat dat = 4096 * j" by (rule alignedE [OF a(1)])
  have b: "2148532224 < unat dat" "unat dat < 2382364672"
    using a(2,3) by (simp_all add: word_less_nat_alt KERNLINK_def KERNBASE_def EXTMEM_def P2V_def PHYSTOP_def)
  then have u: "unat (dat - PGSIZE) = unat dat - 4096" by (simp add: unat_sub PGSIZE_def word_le_nat_alt)
  have "524544 < j" "j < 581632" using b j by simp_all
  then have "2148532224 + 4096 \<le> unat dat" "unat dat \<le> 2382360576" using j by simp_all
  then show ?thesis
    using a u b unfolding kmap_def
    by (simp add: kl word_less_nat_alt word_le_nat_alt aligned_def)
       (simp add: KERNLINK_def KERNBASE_def EXTMEM_def DEVSPACE_def, linarith)
qed

text \<open>
  \<^verbatim>\<open>setupkvm\<close>: a new directory with exactly the kernel mappings of the table \<^verbatim>\<open>kmap\<close> and no user
  page, or 0 with every page given back.
\<close>

lemma setupkvm_spec:
  assumes inv: "vm_inv s D" and kd: "kdata_ok (kdata s)"
  shows "\<exists>d s'. setupkvm s = Ret (d, s') \<and>
    (d = 0 \<and> vm_inv s' D \<and> vm_frame s D s' D {} {} \<or>
     d \<noteq> 0 \<and> d \<notin> D \<and> vm_inv s' (insert d D) \<and> vm_frame s D s' (insert d D) {} {} \<and>
       (\<forall>va < KERNBASE. \<not> present (phys s') d va) \<and> (\<forall>e \<in> set (kmap (kdata s)). kmapped (phys s') d e))"
proof (rule kalloc_cases [OF inv])
  assume "kalloc s = Ret (0, s)"
  then show ?thesis using inv by (simp add: setupkvm_def)
next
  fix d s1 assume al: "kalloc s = Ret (d, s1)" "d \<noteq> 0"
  define s2 where "s2 = s1\<lparr>phys := mem_set (phys s1) (V2P d) 0 PGSIZE\<rparr>"
  note ad = add_dir [OF inv al s2_def]
  have k2: "kdata s2 = kdata s" by (rule vm_frameD(2) [OF ad(3)])
  have un: "\<forall>e \<in> set (kmap (kdata s)). kunmapped (phys s2) d e"
    using ad(4) by (auto simp: kunmapped_def present_def lookup_def)
  have eq: "setupkvm s = setupkvm_loop s2 d (kmap (kdata s))"
    using al k2 by (simp add: setupkvm_def Let_def s2_def) (simp add: P2V_def PHYSTOP_def KERNBASE_def DEVSPACE_def)
  obtain r s' where s': "setupkvm_loop s2 d (kmap (kdata s)) = Ret (r, s')"
    "r = 0 \<and> vm_inv s' D \<and> vm_frame s2 (insert d D) s' D {} {} \<or>
     r = d \<and> r \<noteq> 0 \<and> vm_inv s' (insert d D) \<and> vm_frame s2 (insert d D) s' (insert d D) (khalf d) {} \<and>
       (\<forall>e \<in> set (kmap (kdata s)). kmapped (phys s') d e)"
    using setupkvm_loop_spec [OF ad(2,1) kmap_ok_kmap [OF kd] un] by blast
  from s'(2) show ?thesis
  proof (elim disjE conjE)
    assume r: "r = 0" "vm_inv s' D" and f: "vm_frame s2 (insert d D) s' D {} {}"
    have "vm_frame s D s' D ({} \<union> {}) {}" by (rule vm_frame_trans [OF ad(3) f]) auto
    then show ?thesis using eq s'(1) r by auto
  next
    assume r: "r = d" "r \<noteq> 0" "vm_inv s' (insert d D)" and f: "vm_frame s2 (insert d D) s' (insert d D) (khalf d) {}"
      and km: "\<forall>e \<in> set (kmap (kdata s)). kmapped (phys s') d e"
    have "vm_frame s D s' (insert d D) ({} \<union> khalf d) {}" by (rule vm_frame_trans [OF ad(3) f]) auto
    then have "vm_frame s D s' (insert d D) {} {}"
      unfolding vm_frame_def using ad(1) by (auto simp: khalf_def)
    moreover have "\<not> present (phys s') d va" if va: "va < KERNBASE" for va
    proof -
      have "(d, PGROUNDDOWN va) \<notin> khalf d" using user_page [OF va] by (simp add: khalf_def not_less [symmetric])
      then have "lookup (phys s') d va = lookup (phys s2) d va" using vm_frameD(5) [OF f] by simp
      then show ?thesis using ad(4) by (simp add: present_def lookup_def)
    qed
    ultimately show ?thesis using eq s'(1) r ad(1) km by auto
  qed
qed

section \<open>copyuvm\<close>

text \<open>
  \<open>forked m m' pd d va\<close>: the parent \<open>pd\<close> sees at \<open>va\<close> what it saw before, the child \<open>d\<close> has the
  very entry of the parent, that entry allows no writing, and it is marked copy-on-write
  exactly when the page was writable or already marked.
\<close>

definition forked :: "pmem \<Rightarrow> pmem \<Rightarrow> u32 \<Rightarrow> u32 \<Rightarrow> u32 \<Rightarrow> bool" where
  "forked m m' pd d va \<longleftrightarrow>
     (present m' pd va \<longleftrightarrow> present m pd va) \<and> (present m' d va \<longleftrightarrow> present m pd va) \<and>
     (flag (lookup m' pd va) PTE_U \<longleftrightarrow> flag (lookup m pd va) PTE_U) \<and>
     (present m pd va \<longrightarrow>
        ubyte m' pd va = ubyte m pd va \<and> lookup m' d va = lookup m' pd va \<and>
        \<not> flag (lookup m' pd va) PTE_W \<and>
        (flag (lookup m' pd va) PTE_COW \<longleftrightarrow> flag (lookup m pd va) PTE_W \<or> flag (lookup m pd va) PTE_COW))"

definition share_flags :: "u32 \<Rightarrow> u32" where
  "share_flags e = (if flag e PTE_W \<or> flag e PTE_COW then PTE_FLAGS e AND NOT PTE_W OR PTE_COW else PTE_FLAGS e)"

lemma share_flags:
  assumes "flag e PTE_P"
  defines "e' \<equiv> PTE_ADDR e OR share_flags e"
  shows "PTE_ADDR e' = PTE_ADDR e" "flag e' PTE_P" "\<not> flag e' PTE_W" "flag e' PTE_U \<longleftrightarrow> flag e PTE_U"
    "flag e' PTE_COW \<longleftrightarrow> flag e PTE_W \<or> flag e PTE_COW" "share_flags e AND NOT 0xFFF = 0"
    "\<not> flag (share_flags e) PTE_W" "e' OR PTE_P = e'" "flag e PTE_W \<or> flag e PTE_COW \<or> e' = e"
    "PTE_ADDR e OR share_flags e OR PTE_P = e'"
proof -
  have P: "bit e 0" using assms(1) by (simp add: bit_flag)
  show "PTE_ADDR e' = PTE_ADDR e"
    by (rule bit_word_eqI) (auto simp: e'_def share_flags_def bit_flag)
  show "flag e' PTE_P" "\<not> flag e' PTE_W" "flag e' PTE_U \<longleftrightarrow> flag e PTE_U"
      "flag e' PTE_COW \<longleftrightarrow> flag e PTE_W \<or> flag e PTE_COW" "\<not> flag (share_flags e) PTE_W"
    using P by (auto simp: e'_def share_flags_def bit_flag)
  show "share_flags e AND NOT 0xFFF = 0"
  proof (rule bit_word_eqI)
    fix n show "bit (share_flags e AND NOT 0xFFF) n = bit (0 :: u32) n"
      unfolding bit_and_iff bit_not_iff bit_FFF by (auto simp: share_flags_def bit_flag)
  qed
  show "e' OR PTE_P = e'"
    by (rule bit_word_eqI) (use P in \<open>auto simp: e'_def share_flags_def bit_flag\<close>)
  show "flag e PTE_W \<or> flag e PTE_COW \<or> e' = e"
  proof -
    have "e' = e" if "\<not> flag e PTE_W" "\<not> flag e PTE_COW"
      by (rule bit_word_eqI) (use that in \<open>auto simp: e'_def share_flags_def bit_flag\<close>)
    then show ?thesis by blast
  qed
  show "PTE_ADDR e OR share_flags e OR PTE_P = e'"
    by (rule bit_word_eqI) (use P in \<open>auto simp: e'_def share_flags_def bit_flag\<close>)
qed

lemma vm_frame_lookup2:
  assumes "vm_frame s D s' D C F" "d \<in> D" "(d, PGROUNDDOWN va) \<notin> C" "va < KERNBASE" "present (phys s) d va"
  shows "ubyte (phys s') d va = ubyte (phys s) d va"
  using vm_frameD(6) [OF assms(1,2,2,4,3,5)] .

lemma copyuvm_step_spec:
  assumes inv: "vm_inv s D" and d: "pd \<in> D" "d \<in> D" "pd \<noteq> d" and i: "aligned i" "i < KERNBASE"
    and np: "\<not> present (phys s) d i"
  shows "\<exists>s'. (copyuvm_step pd d i s = Ret (Inr s') \<and> vm_frame s D s' D {(pd, i), (d, i)} {} \<and>
        (\<forall>va < KERNBASE. PGROUNDDOWN va = i \<longrightarrow> forked (phys s) (phys s') pd d va) \<or>
      copyuvm_step pd d i s = Ret (Inl s') \<and> vm_frame s D s' D {(pd, i)} {}) \<and>
    vm_inv s' D \<and> (\<forall>va < KERNBASE. PGROUNDDOWN va = i \<longrightarrow>
      (present (phys s') pd va \<longleftrightarrow> present (phys s) pd va) \<and>
      (flag (lookup (phys s') pd va) PTE_U \<longleftrightarrow> flag (lookup (phys s) pd va) PTE_U) \<and>
      (present (phys s) pd va \<longrightarrow> ubyte (phys s') pd va = ubyte (phys s) pd va))"
proof (cases "present (phys s) pd i")
  case False
  have eq: "copyuvm_step pd d i s = Ret (Inr s)"
    by (rule walk_find [OF inv d(1), of i]) (use False in \<open>auto simp: copyuvm_step_def present_def\<close>)
  have "\<not> present (phys s) pd va" "\<not> present (phys s) d va" if "PGROUNDDOWN va = i" for va
    using False np that by (metis present_aligned)+
  then show ?thesis using eq inv by (auto simp: forked_def)
next
  case True
  let ?e = "lookup (phys s) pd i" let ?f = "PTE_ADDR ?e" and ?fl = "share_flags ?e"
  let ?e' = "?f OR ?fl"
  have P: "flag ?e PTE_P" using True by (simp add: present_def)
  note w = walk_present [OF inv d(1) True] and sf = share_flags [OF P]
  define s1 where "s1 = (if flag ?e PTE_W \<or> flag ?e PTE_COW
    then s\<lparr>phys := store32 (phys s) (pte_addr (phys s) pd i) ?e'\<rparr> else s)"
  have W: "flag (PTE_FLAGS ?e) PTE_W = flag ?e PTE_W" "flag (PTE_FLAGS ?e) PTE_COW = flag ?e PTE_COW"
    by (simp_all add: bit_flag)
  have eq: "copyuvm_step pd d i s = rbind (mappages s1 d i PGSIZE ?f ?fl)
      (\<lambda>(r, s). if r < 0 then Ret (Inl s) else rbind (kref_inc s ?f) (\<lambda>s. Ret (Inr s)))"
    using w P by (simp add: copyuvm_step_def Let_def s1_def share_flags_def W)
  have c: "flag ?e' PTE_W \<longrightarrow> refs s (PTE_ADDR ?e') = 1" using sf(3) by simp
  note nf = set_flags [OF inv d(1) i(2) True sf(1,2) c refl, unfolded PGROUNDDOWN_aligned [OF i(1)]]
  have same: "lookup (phys s) pd va = ?e" if "PGROUNDDOWN va = i" for va
    using that lookup_page [of "phys s" pd va] by simp
  have s1: "vm_inv s1 D \<and> vm_frame s D s1 D {(pd, i)} {} \<and> pte_upd (phys s) (phys s1) D pd i ?e' \<and>
      (\<forall>va' < KERNBASE. present (phys s) pd va' \<longrightarrow> ubyte (phys s1) pd va' = ubyte (phys s) pd va')"
  proof (cases "flag ?e PTE_W \<or> flag ?e PTE_COW")
    case True
    then show ?thesis using nf(1-3) nf(5) [OF d(1)] by (simp add: s1_def)
  next
    case False
    then have "?e' = ?e" "s1 = s" using sf(9) by (auto simp: s1_def)
    then show ?thesis using inv same by (simp add: pte_upd_def)
  qed
  then have i1: "vm_inv s1 D" and f1: "vm_frame s D s1 D {(pd, i)} {}"
      and u1: "pte_upd (phys s) (phys s1) D pd i ?e'"
      and b1: "\<And>va'. va' < KERNBASE \<Longrightarrow> present (phys s) pd va' \<Longrightarrow> ubyte (phys s1) pd va' = ubyte (phys s) pd va'"
    by blast+
  have l1: "lookup (phys s1) pd va = ?e'" if "PGROUNDDOWN va = i" for va
    using pte_updD [OF u1 d(1), of va] that by simp
  have np1: "\<not> present (phys s1) d i"
    using np pte_updD [OF u1 d(2), of i] d(3) by (simp add: present_def)
  have li: "lookup (phys s1) pd i = ?e'" using l1 i(1) by (simp add: PGROUNDDOWN_aligned)
  have um: "(pd, i) \<in> umaps (phys s1) D ?f"
    using umapsI [OF d(1) i(2), of "phys s1"] sf(1,2) i(1) by (simp add: present_def li PGROUNDDOWN_aligned)
  then have ne: "umaps (phys s1) D ?f \<noteq> {}" by blast
  have nw: "\<not> writable (phys s1) d' va'"
    if v: "d' \<in> D" "va' < KERNBASE" "PTE_ADDR (lookup (phys s1) d' va') = ?f" for d' va'
  proof
    assume "writable (phys s1) d' va'"
    then have "umaps (phys s1) D ?f = {(d', PGROUNDDOWN va')}" "flag (lookup (phys s1) d' va') PTE_W"
      using writable_unique [OF i1 v(1,2)] v(3) by (auto simp: writable_def)
    then have "d' = pd" "PGROUNDDOWN va' = i" using um by auto
    then show False using l1 sf(3) \<open>flag (lookup (phys s1) d' va') PTE_W\<close> by simp
  qed
  obtain r s3 where r: "mappages s1 d i PGSIZE ?f ?fl = Ret (r, s3)"
    "r = -1 \<and> s3 = s1 \<or>
     r = 0 \<and> (\<exists>s4. kref_inc s3 ?f = Ret s4 \<and> vm_inv s4 D \<and> vm_frame s1 D s4 D {(d, i)} {} \<and>
       pte_upd (phys s1) (phys s4) D d i (?f OR ?fl OR PTE_P))"
    using map_shared [OF i1 d(2) i np1 ne nw sf(6,7)] by blast
  have pv: "present (phys s) pd va" if "PGROUNDDOWN va = i" for va using same [OF that] P by (simp add: present_def)
  from r(2) show ?thesis
  proof (elim disjE conjE exE)
    assume "r = -1" "s3 = s1"
    then have "copyuvm_step pd d i s = Ret (Inl s1)" using eq r(1) by simp
    moreover have "(present (phys s1) pd va \<longleftrightarrow> present (phys s) pd va) \<and>
        (flag (lookup (phys s1) pd va) PTE_U \<longleftrightarrow> flag (lookup (phys s) pd va) PTE_U)" if "PGROUNDDOWN va = i" for va
      using l1 [OF that] same [OF that] sf(2,4) P by (simp add: present_def)
    ultimately show ?thesis using i1 f1 b1 by blast
  next
    fix s4 assume s4: "r = 0" "kref_inc s3 ?f = Ret s4" "vm_inv s4 D" "vm_frame s1 D s4 D {(d, i)} {}"
      "pte_upd (phys s1) (phys s4) D d i (?f OR ?fl OR PTE_P)"
    have "vm_frame s D s4 D ({(pd, i)} \<union> {(d, i)}) {}"
      by (rule vm_frame_trans [OF f1 s4(4)]) auto
    then have fr: "vm_frame s D s4 D {(pd, i), (d, i)} {}" by (simp add: insert_commute)
    have "forked (phys s) (phys s4) pd d va" if va: "va < KERNBASE" "PGROUNDDOWN va = i" for va
    proof -
      have l4: "lookup (phys s4) pd va = ?e'" "lookup (phys s4) d va = ?e'"
        using pte_updD [OF s4(5) d(1), of va] pte_updD [OF s4(5) d(2), of va] d(3) l1 va(2) sf(10) by simp_all
      have "present (phys s1) pd va" using l1 [OF va(2)] sf(2) by (simp add: present_def)
      then have "ubyte (phys s4) pd va = ubyte (phys s1) pd va"
        using vm_frameD(6) [OF s4(4) d(1,1) va(1)] d(3) by simp
      then show ?thesis
        using l4 b1 [OF va(1) pv [OF va(2)]] same [OF va(2)] sf P by (simp add: forked_def present_def)
    qed
    moreover have "copyuvm_step pd d i s = Ret (Inr s4)" using eq r(1) s4(1,2) by simp
    ultimately show ?thesis using s4(3) fr unfolding forked_def by (intro exI [of _ s4]) auto
  qed
qed

definition same_page_view :: "pmem \<Rightarrow> pmem \<Rightarrow> u32 \<Rightarrow> u32 \<Rightarrow> bool" where
  "same_page_view m m' d va \<longleftrightarrow> (present m' d va \<longleftrightarrow> present m d va) \<and>
     (flag (lookup m' d va) PTE_U \<longleftrightarrow> flag (lookup m d va) PTE_U) \<and>
     (present m d va \<longrightarrow> ubyte m' d va = ubyte m d va)"

lemma same_view_pages: "same_view s s' D \<longleftrightarrow> (\<forall>d \<in> D. \<forall>va < KERNBASE. same_page_view (phys s) (phys s') d va)"
  by (simp add: same_view_def same_page_view_def)

lemma same_page_view_trans: "same_page_view m m' d va \<Longrightarrow> same_page_view m' m'' d va \<Longrightarrow> same_page_view m m'' d va"
  by (auto simp: same_page_view_def)

lemma same_page_view_frame:
  "vm_frame s D s' D' C F \<Longrightarrow> d \<in> D \<Longrightarrow> d \<in> D' \<Longrightarrow> va < KERNBASE \<Longrightarrow> (d, PGROUNDDOWN va) \<notin> C \<Longrightarrow>
     same_page_view (phys s) (phys s') d va"
  using vm_frameD(5,6) [of s D s' D' C F d va] by (simp add: same_page_view_def present_def)

lemma forked_frame:
  assumes "vm_frame s1 D s2 D C F" "pd \<in> D" "d \<in> D" "(pd, PGROUNDDOWN va) \<notin> C" "(d, PGROUNDDOWN va) \<notin> C"
    "va < KERNBASE" "forked m (phys s1) pd d va"
  shows "forked m (phys s2) pd d va"
  using assms(7) vm_frameD(5) [OF assms(1,2,2,4)] vm_frameD(5) [OF assms(1,3,3,5)] vm_frameD(6) [OF assms(1,2,2,6,4)]
  by (auto simp: forked_def present_def)

text \<open>The loop of \<^verbatim>\<open>copyuvm\<close>, from the state in which the child is an empty directory.\<close>

lemma copyuvm_loop_spec:
  assumes inv: "vm_inv s D" and d: "pd \<in> D" "d \<in> D" "pd \<noteq> d" and sz: "sz \<le> KERNBASE"
    and np: "\<forall>va < KERNBASE. \<not> present (phys s) d va"
  defines "C \<equiv> pages pd 0 sz \<union> pages d 0 sz"
  shows "\<exists>s'. (page_loop (copyuvm_step pd d) 0 sz s = Ret (Inr s') \<and> (\<forall>va < sz. forked (phys s) (phys s') pd d va) \<or>
      page_loop (copyuvm_step pd d) 0 sz s = Ret (Inl s')) \<and>
    vm_inv s' D \<and> vm_frame s D s' D C {} \<and> (\<forall>va < KERNBASE. same_page_view (phys s) (phys s') pd va)"
proof -
  let ?I = "\<lambda>i s'. aligned i \<and> (\<forall>p. aligned p \<longrightarrow> p < i \<longrightarrow> p < sz) \<and> vm_inv s' D \<and>
    vm_frame s D s' D (pages pd 0 i \<union> pages d 0 i) {} \<and>
    (\<forall>va < KERNBASE. PGROUNDDOWN va < i \<longrightarrow> forked (phys s) (phys s') pd d va) \<and>
    (\<forall>va < KERNBASE. same_page_view (phys s) (phys s') pd va)"
  let ?Q = "\<lambda>s'. vm_inv s' D \<and> vm_frame s D s' D C {} \<and>
    (\<forall>va < KERNBASE. same_page_view (phys s) (phys s') pd va)"
  have lim: "unat sz + 4096 \<le> 4294967296" using sz by (simp add: word_le_nat_alt KERNBASE_def)
  have step: "(\<exists>s2. copyuvm_step pd d i s1 = Ret (Inr s2) \<and> ?I (i + PGSIZE) s2) \<or>
      (\<exists>s2. copyuvm_step pd d i s1 = Ret (Inl s2) \<and> ?Q s2)" if I: "?I i s1" and lt: "i < sz" for i s1
  proof -
    have i: "aligned i" "i < KERNBASE" "unat i + 4096 \<le> 4294967295"
      using I lt sz by (auto simp: word_less_nat_alt word_le_nat_alt KERNBASE_def)
    have i1: "vm_inv s1 D" and f1: "vm_frame s D s1 D (pages pd 0 i \<union> pages d 0 i) {}" using I by auto
    have nd: "(d, PGROUNDDOWN i) \<notin> pages pd 0 i \<union> pages d 0 i"
      using i(1) by (auto simp: pages_def PGROUNDDOWN_aligned)
    have np1: "\<not> present (phys s1) d i"
      using vm_frameD(5) [OF f1 d(2,2) nd] np i(2) by (simp add: present_def)
    obtain s2 where s2: "copyuvm_step pd d i s1 = Ret (Inr s2) \<and> vm_frame s1 D s2 D {(pd, i), (d, i)} {} \<and>
          (\<forall>va < KERNBASE. PGROUNDDOWN va = i \<longrightarrow> forked (phys s1) (phys s2) pd d va) \<or>
        copyuvm_step pd d i s1 = Ret (Inl s2) \<and> vm_frame s1 D s2 D {(pd, i)} {}" "vm_inv s2 D"
        "\<forall>va < KERNBASE. PGROUNDDOWN va = i \<longrightarrow> same_page_view (phys s1) (phys s2) pd va"
      using copyuvm_step_spec [OF i1 d i(1,2) np1] unfolding same_page_view_def by blast
    have f2: "vm_frame s1 D s2 D {(pd, i), (d, i)} {}" using s2(1) vm_frame_mono by fastforce
    have v2: "same_page_view (phys s) (phys s2) pd va" if "va < KERNBASE" for va
    proof (rule same_page_view_trans)
      show "same_page_view (phys s) (phys s1) pd va" using I that by blast
      show "same_page_view (phys s1) (phys s2) pd va"
        using s2(3) that same_page_view_frame [OF f2 d(1,1) that] d(3) by (cases "PGROUNDDOWN va = i") auto
    qed
    have st: "pages d' 0 (i + PGSIZE) = insert (d', i) (pages d' 0 i)" for d'
      by (rule pages_step [OF i(1) _ i(3)]) simp
    have "vm_frame s D s2 D (pages pd 0 i \<union> pages d 0 i \<union> {(pd, i), (d, i)}) {}"
      by (rule vm_frame_trans [OF f1 f2]) auto
    moreover have un: "pages pd 0 i \<union> pages d 0 i \<union> {(pd, i), (d, i)} = pages pd 0 (i + PGSIZE) \<union> pages d 0 (i + PGSIZE)"
      by (auto simp: st)
    ultimately have f3: "vm_frame s D s2 D (pages pd 0 (i + PGSIZE) \<union> pages d 0 (i + PGSIZE)) {}" by simp
    have c: "p < i + PGSIZE \<longleftrightarrow> p < i \<or> p = i" if "aligned p" for p
      using aligned_less_step [OF that i(1,3)] by auto
    from s2(1) show ?thesis
    proof (elim disjE conjE)
      assume e: "copyuvm_step pd d i s1 = Ret (Inr s2)"
        and fk: "\<forall>va < KERNBASE. PGROUNDDOWN va = i \<longrightarrow> forked (phys s1) (phys s2) pd d va"
      have "forked (phys s) (phys s2) pd d va" if va: "va < KERNBASE" "PGROUNDDOWN va < i + PGSIZE" for va
      proof (cases "PGROUNDDOWN va = i")
        case True
        then have "(pd, PGROUNDDOWN va) \<notin> pages pd 0 i \<union> pages d 0 i" by (auto simp: pages_def)
        then have "lookup (phys s1) pd va = lookup (phys s) pd va"
            "present (phys s) pd va \<Longrightarrow> ubyte (phys s1) pd va = ubyte (phys s) pd va"
          using vm_frameD(5) [OF f1 d(1,1)] vm_frameD(6) [OF f1 d(1,1) va(1)] by auto
        then show ?thesis using fk va(1) True by (auto simp: forked_def present_def)
      next
        case False
        then have "PGROUNDDOWN va < i" using c [of "PGROUNDDOWN va"] va(2) by simp
        then show ?thesis using I va(1) by (intro forked_frame [OF f2 d(1,2)]) auto
      qed
      moreover have "\<forall>p. aligned p \<longrightarrow> p < i + PGSIZE \<longrightarrow> p < sz" using I lt c by auto
      ultimately show ?thesis using e s2(2) f3 v2 i(1) by auto
    next
      assume e: "copyuvm_step pd d i s1 = Ret (Inl s2)"
      have "\<forall>p. aligned p \<longrightarrow> p < i + PGSIZE \<longrightarrow> p < sz" using I lt c by auto
      then have "pages d' 0 (i + PGSIZE) \<subseteq> pages d' 0 sz" for d' by (auto simp: pages_def)
      then have "vm_frame s D s2 D C {}" unfolding C_def by (intro vm_frame_mono [OF f3]) auto
      then show ?thesis using e s2(2) v2 by blast
    qed
  qed
  have i0: "?I 0 s" using inv by (auto simp: same_page_view_def aligned_def)
  have "(\<exists>i s'. page_loop (copyuvm_step pd d) 0 sz s = Ret (Inr s') \<and> ?I i s' \<and> sz \<le> i) \<or>
      (\<exists>s'. page_loop (copyuvm_step pd d) 0 sz s = Ret (Inl s') \<and> ?Q s')"
    by (rule page_loop_rule [where I = ?I and Q = ?Q]) (erule (1) step, rule lim, rule i0)
  then show ?thesis
  proof (elim disjE exE conjE)
    fix i s' assume r: "page_loop (copyuvm_step pd d) 0 sz s = Ret (Inr s')" "sz \<le> i" "vm_inv s' D"
      and l: "\<forall>p. aligned p \<longrightarrow> p < i \<longrightarrow> p < sz" and f: "vm_frame s D s' D (pages pd 0 i \<union> pages d 0 i) {}"
      and fk: "\<forall>va < KERNBASE. PGROUNDDOWN va < i \<longrightarrow> forked (phys s) (phys s') pd d va"
      and v: "\<forall>va < KERNBASE. same_page_view (phys s) (phys s') pd va"
    have "vm_frame s D s' D C {}"
      unfolding C_def by (rule vm_frame_mono [OF f]) (use l in \<open>auto simp: pages_def\<close>)
    moreover have "forked (phys s) (phys s') pd d va" if "va < sz" for va
      using fk that r(2) sz PGROUNDDOWN_le [of va] by auto
    ultimately show ?thesis using r v by blast
  qed blast
qed

text \<open>
  \<^verbatim>\<open>copyuvm\<close>: on success the child has exactly the parent's resident pages, with the same contents,
  and neither can write to them without a fault; on failure everything is given back. In both
  cases no address space sees any change.
\<close>

lemma copyuvm_spec:
  assumes inv: "vm_inv s D" and pd: "pd \<in> D" and kd: "kdata_ok (kdata s)" and sz: "sz \<le> KERNBASE"
  shows "\<exists>d s'. copyuvm s pd sz = Ret (d, s') \<and> same_view s s' D \<and>
    (d = 0 \<and> vm_inv s' D \<and> vm_frame s D s' D (pages pd 0 sz) {} \<or>
     d \<noteq> 0 \<and> d \<notin> D \<and> vm_inv s' (insert d D) \<and> vm_frame s D s' (insert d D) (pages pd 0 sz) {} \<and> cr3 s' = V2P pd \<and>
       (\<forall>va < sz. forked (phys s) (phys s') pd d va) \<and>
       (\<forall>va < KERNBASE. sz \<le> PGROUNDDOWN va \<longrightarrow> \<not> present (phys s') d va))"
proof -
  obtain d s1 where s1: "setupkvm s = Ret (d, s1)"
    "d = 0 \<and> vm_inv s1 D \<and> vm_frame s D s1 D {} {} \<or>
     d \<noteq> 0 \<and> d \<notin> D \<and> vm_inv s1 (insert d D) \<and> vm_frame s D s1 (insert d D) {} {} \<and>
       (\<forall>va < KERNBASE. \<not> present (phys s1) d va)"
    using setupkvm_spec [OF inv kd] by blast
  have e1: "lookup (phys s1) d' va = lookup (phys s) d' va"
      "va < KERNBASE \<Longrightarrow> same_page_view (phys s) (phys s1) d' va" if "d' \<in> D" for d' va
    using s1(2) that vm_frameD(5) [of s D s1 _ "{}" "{}" d' va] same_page_view_frame [of s D s1 _ "{}" "{}" d' va]
    by auto
  show ?thesis
  proof (cases "d = 0")
    case True
    then have "copyuvm s pd sz = Ret (0, s1)" using s1(1) by (simp add: copyuvm_def)
    moreover have "vm_frame s D s1 D (pages pd 0 sz) {}"
      using s1(2) True vm_frame_mono [of s D s1 D "{}" "{}" "pages pd 0 sz" "{}"] by auto
    ultimately show ?thesis using s1(2) True e1(2) by (auto simp: same_view_pages)
  next
    case False
    let ?D = "insert d D" and ?C = "pages pd 0 sz \<union> pages d 0 sz"
    have nd: "d \<notin> D" and i1: "vm_inv s1 ?D" and f1: "vm_frame s D s1 ?D {} {}"
        and np: "\<forall>va < KERNBASE. \<not> present (phys s1) d va" using s1(2) False by auto
    have d: "pd \<in> ?D" "d \<in> ?D" "pd \<noteq> d" using pd nd by auto
    obtain s2 where s2: "page_loop (copyuvm_step pd d) 0 sz s1 = Ret (Inr s2) \<and>
          (\<forall>va < sz. forked (phys s1) (phys s2) pd d va) \<or>
        page_loop (copyuvm_step pd d) 0 sz s1 = Ret (Inl s2)" "vm_inv s2 ?D" "vm_frame s1 ?D s2 ?D ?C {}"
        "\<forall>va < KERNBASE. same_page_view (phys s1) (phys s2) pd va"
      using copyuvm_loop_spec [OF i1 d sz np] by blast
    have "vm_frame s D s2 ?D ({} \<union> ?C) {}" by (rule vm_frame_trans [OF f1 s2(3)]) auto
    then have f2: "vm_frame s D s2 ?D (pages pd 0 sz) {}"
      unfolding vm_frame_def using nd by (auto simp: pages_def)
    have v2: "same_page_view (phys s) (phys s2) d' va" if "d' \<in> D" "va < KERNBASE" for d' va
    proof (cases "d' = pd")
      case True
      then show ?thesis using s2(4) that e1(2) same_page_view_trans by blast
    next
      case False
      then show ?thesis using that by (intro same_page_view_frame [OF f2]) (auto simp: pages_def)
    qed
    from s2(1) show ?thesis
    proof (elim disjE conjE)
      assume l: "page_loop (copyuvm_step pd d) 0 sz s1 = Ret (Inr s2)"
        and fk: "\<forall>va < sz. forked (phys s1) (phys s2) pd d va"
      have eq: "copyuvm s pd sz = Ret (d, lcr3 s2 (V2P pd))" using s1(1) False l by (simp add: copyuvm_def)
      have "forked (phys s) (phys s2) pd d va" if "va < sz" for va
      proof -
        have "va < KERNBASE" using that sz by simp
        then show ?thesis
          using fk that e1 [OF pd, of va] by (auto simp: forked_def present_def same_page_view_def)
      qed
      moreover have "\<not> present (phys s2) d va" if "va < KERNBASE" "sz \<le> PGROUNDDOWN va" for va
      proof -
        have "(d, PGROUNDDOWN va) \<notin> ?C" using that(2) d(3) by (auto simp: pages_def not_less [symmetric])
        then show ?thesis using vm_frameD(5) [OF s2(3) d(2,2)] np that(1) by (simp add: present_def)
      qed
      ultimately show ?thesis using eq False nd s2(2) f2 v2 by (auto simp: same_view_pages)
    next
      assume l: "page_loop (copyuvm_step pd d) 0 sz s1 = Ret (Inl s2)"
      obtain s3 where s3: "freevm s2 d = Ret s3" "vm_inv s3 (?D - {d})" "vm_frame s2 ?D s3 (?D - {d}) {} {}"
        using freevm_spec [OF s2(2) d(2)] by blast
      have D: "?D - {d} = D" using nd by simp
      have eq: "copyuvm s pd sz = Ret (0, lcr3 s3 (V2P pd))" using s1(1) False l s3(1) by (simp add: copyuvm_def)
      have "vm_frame s D s3 D (pages pd 0 sz \<union> {}) {}" by (rule vm_frame_trans [OF f2 s3(3) [unfolded D]]) auto
      moreover have "same_page_view (phys s) (phys s3) d' va" if "d' \<in> D" "va < KERNBASE" for d' va
        using v2 [OF that] same_page_view_frame [OF s3(3) [unfolded D], of d' va] that same_page_view_trans by blast
      ultimately show ?thesis using eq s3(2) D by (simp add: same_view_pages)
    qed
  qed
qed

end
