(* ===== verification/Vm_System.thy ===== *)
theory Vm_System
  imports Vm_Fork
begin

text \<open>
  User memory as a machine: the processor's loads and stores through a page directory, and every
  routine of \<^verbatim>\<open>vm.c\<close> that the rest of the kernel calls on one, as steps of an inductive
  relation. The invariant of \<open>Vm_Inv\<close> holds in every state that is reachable from boot, so the
  isolation of address spaces is a theorem about sequences of system calls and faults.
\<close>

section \<open>Loads and stores of a user program\<close>

text \<open>
  The two-level walk and the permission bits as the processor checks them in user mode: a load
  needs a present user page, a store also the write bit.
\<close>

definition user_load :: "pmem \<Rightarrow> u32 \<Rightarrow> u32 \<Rightarrow> u8 option" where
  "user_load m d va =
     (if va < KERNBASE \<and> present m d va \<and> flag (lookup m d va) PTE_U then Some (ubyte m d va) else None)"

definition user_store :: "pmem \<Rightarrow> u32 \<Rightarrow> u32 \<Rightarrow> u8 \<Rightarrow> pmem option" where
  "user_store m d va b =
     (if va < KERNBASE \<and> writable m d va \<and> flag (lookup m d va) PTE_U
      then Some (m(PTE_ADDR (lookup m d va) + (va AND 0xFFF) := b)) else None)"

lemma same_view_load:
  assumes "same_view s s' D" "d \<in> D"
  shows "user_load (phys s') d va = user_load (phys s) d va"
  using assms unfolding same_view_def user_load_def by auto

lemma page_offset_inj:
  assumes "PGROUNDDOWN va = PGROUNDDOWN va'" "(va AND 0xFFF) = (va' AND 0xFFF :: u32)"
  shows "va = va'"
proof -
  have "x = PGROUNDDOWN x + (x AND 0xFFF)" for x :: u32
    using word_page_split [of x] by (simp only: PTE_ADDR_PGROUNDDOWN [symmetric] PTE_ADDR_def)
  then show ?thesis using assms by metis
qed

text \<open>
  A store changes the byte it names, in its own address space, and nothing else. The first lemma
  is for a store through a writable entry, as kernel code does it; the second for a user store.
\<close>

lemma writable_store:
  assumes inv: "vm_inv s D" and d: "d \<in> D" and va: "va < KERNBASE" and w: "writable (phys s) d va"
    and m: "m = (phys s)(PTE_ADDR (lookup (phys s) d va) + (va AND 0xFFF) := b)"
  shows "vm_inv (s\<lparr>phys := m\<rparr>) D"
    "\<And>d' va'. d' \<in> D \<Longrightarrow> lookup m d' va' = lookup (phys s) d' va'"
    "\<And>d' va'. d' \<in> D \<Longrightarrow> va' < KERNBASE \<Longrightarrow> present (phys s) d' va' \<Longrightarrow>
      ubyte m d' va' = (if d' = d \<and> va' = va then b else ubyte (phys s) d' va')"
    "\<And>a. kframe s D (PGROUNDDOWN a) \<Longrightarrow> m a = phys s a"
    "\<And>f. kframe (s\<lparr>phys := m\<rparr>) D f = kframe s D f"
proof -
  let ?f = "PTE_ADDR (lookup (phys s) d va)"
  have p: "present (phys s) d va" using w by (simp add: writable_def)
  note own = mapped_owned [OF inv d va p] and un = writable_unique [OF inv d va w] and ok = vm_invD(2) [OF inv]
  have out: "m a = phys s a" if "PGROUNDDOWN a \<noteq> ?f" for a using that by (auto simp: m)
  have mt: "m a = phys s a" if "PGROUNDDOWN a \<in> all_tabs s D" for a using that own by (intro out) auto
  have lk: "lookup m d' va' = lookup (phys s) d' va'" and pde: "pde_of m d' va' = pde_of (phys s) d' va'"
    if "d' \<in> D" for d' va'
    using same_tabs [OF ok _ that, of "s\<lparr>phys := m\<rparr>"] mt by simp_all
  show "\<And>d' va'. d' \<in> D \<Longrightarrow> lookup m d' va' = lookup (phys s) d' va'" by (rule lk)
  have ki: "kmem_inv (s\<lparr>phys := m\<rparr>)"
    by (rule kmem_inv_owned_write [OF vm_invD(1) [OF inv]]) (rule out, use own in auto)
  have ok': "tables_ok (s\<lparr>phys := m\<rparr>) D" by (rule tables_ok_cong [OF ok]) (simp_all add: pde)
  have at: "all_tabs (s\<lparr>phys := m\<rparr>) D = all_tabs s D" by (rule all_tabs_cong) (simp add: pde)
  have um: "umaps m D f = umaps (phys s) D f" for f by (rule umaps_cong) (simp add: lk)
  have kp: "kpage (s\<lparr>phys := m\<rparr>) = kpage s" by (rule kpage_cong) simp
  have "owned (s\<lparr>phys := m\<rparr>) = owned s" by (rule owned_cong) simp_all
  then show "\<And>f. kframe (s\<lparr>phys := m\<rparr>) D f = kframe s D f" by (simp add: kframe_def at um)
  show "vm_inv (s\<lparr>phys := m\<rparr>) D"
    using inv ki ok' unfolding vm_inv_def by (simp add: um at kp writable_def present_def lk)
  show "\<And>a. kframe s D (PGROUNDDOWN a) \<Longrightarrow> m a = phys s a"
    by (rule out) (use un in \<open>auto simp: kframe_def\<close>)
  fix d' va' assume d': "d' \<in> D" "va' < KERNBASE" "present (phys s) d' va'"
  show "ubyte m d' va' = (if d' = d \<and> va' = va then b else ubyte (phys s) d' va')"
  proof (cases "PTE_ADDR (lookup (phys s) d' va') = ?f")
    case True
    then have s: "d' = d" "PGROUNDDOWN va' = PGROUNDDOWN va" using umapsI [OF d'] un by auto
    have "(va' AND 0xFFF) = (va AND 0xFFF) \<longleftrightarrow> va' = va" using page_offset_inj [OF s(2)] by auto
    with True s show ?thesis using lk [OF d'(1)] by (simp add: ubyte_def m)
  next
    case False
    then have "\<not> (d' = d \<and> va' = va)" by auto
    moreover have "m (PTE_ADDR (lookup (phys s) d' va') + (va' AND 0xFFF)) =
        phys s (PTE_ADDR (lookup (phys s) d' va') + (va' AND 0xFFF))"
      using False by (intro out) simp
    ultimately show ?thesis using lk [OF d'(1)] by (auto simp: ubyte_def)
  qed
qed

lemma store_frame:
  assumes "vm_inv s D" "d \<in> D" "va < KERNBASE" "writable (phys s) d va"
    "m = (phys s)(PTE_ADDR (lookup (phys s) d va) + (va AND 0xFFF) := b)"
  shows "vm_frame s D (s\<lparr>phys := m\<rparr>) D {(d, PGROUNDDOWN va)} {}"
  unfolding vm_frame_def using writable_store [OF assms] by (auto simp: refs_def)

lemma user_storeD:
  assumes "user_store m0 d va b = Some m"
  shows "va < KERNBASE" "writable m0 d va" "m = m0(PTE_ADDR (lookup m0 d va) + (va AND 0xFFF) := b)"
    "flag (lookup m0 d va) PTE_U"
  using assms by (auto simp: user_store_def split: if_splits)

lemma user_store_step:
  assumes inv: "vm_inv s D" and d: "d \<in> D" and st: "user_store (phys s) d va b = Some m"
  shows "vm_inv (s\<lparr>phys := m\<rparr>) D"
    "\<And>d' va'. d' \<in> D \<Longrightarrow> lookup m d' va' = lookup (phys s) d' va'"
    "\<And>d' va'. d' \<in> D \<Longrightarrow> va' < KERNBASE \<Longrightarrow> present (phys s) d' va' \<Longrightarrow>
      ubyte m d' va' = (if d' = d \<and> va' = va then b else ubyte (phys s) d' va')"
    "\<And>a. kframe s D (PGROUNDDOWN a) \<Longrightarrow> m a = phys s a"
  using writable_store [OF inv d user_storeD(1-3) [OF st]] by blast+

section \<open>The machine\<close>

definition vmach_bss :: "pmem \<Rightarrow> u32 \<Rightarrow> u32 \<Rightarrow> vmach" where
  "vmach_bss m e dat = \<lparr>phys = m, freelist = 0, refcnt = (\<lambda>_. 0), use_lock = False, kend = e,
     cr3 = 0, kdata = dat, kpgdir = 0\<rparr>"

text \<open>
  The live directories \<open>D\<close> are those that some process (or \<^verbatim>\<open>exec\<close>, while it builds one) owns.
  A step is a user store, a fault, or a call of a routine of \<^verbatim>\<open>vm.c\<close> that returns. The guards
  are what the callers check: the range arguments of \<^verbatim>\<open>munmap\<close> and \<^verbatim>\<open>mprotect\<close> are page
  aligned and below the process size, and sizes stay below \<^const>\<open>KERNBASE\<close>.
\<close>

inductive vm_step :: "vmach \<times> u32 set \<Rightarrow> vmach \<times> u32 set \<Rightarrow> bool" where
  store: "d \<in> D \<Longrightarrow> user_store (phys s) d va b = Some m \<Longrightarrow> vm_step (s, D) (s\<lparr>phys := m\<rparr>, D)"
| cow: "d \<in> D \<Longrightarrow> va < KERNBASE \<Longrightarrow> cow_fault s d va = Ret (r, s') \<Longrightarrow> vm_step (s, D) (s', D)"
| demand: "d \<in> D \<Longrightarrow> va < KERNBASE \<Longrightarrow> \<not> present (phys s) d va \<Longrightarrow>
    vm_alloc_mmap_page s d va prot = Ret (r, s') \<Longrightarrow> vm_step (s, D) (s', D)"
| unmap: "d \<in> D \<Longrightarrow> aligned start \<Longrightarrow> unat start + unat len \<le> unat KERNBASE \<Longrightarrow>
    vm_unmap_range s d start len = Ret (r, s') \<Longrightarrow> vm_step (s, D) (s', D)"
| protect: "d \<in> D \<Longrightarrow> aligned start \<Longrightarrow> unat start + unat len \<le> unat KERNBASE \<Longrightarrow>
    vm_protect_range s d start len prot = Ret (r, s') \<Longrightarrow> vm_step (s, D) (s', D)"
| grow: "d \<in> D \<Longrightarrow> oldsz \<le> newsz \<Longrightarrow> newsz < KERNBASE \<Longrightarrow>
    (\<forall>p. aligned p \<longrightarrow> PGROUNDUP oldsz \<le> p \<longrightarrow> p < newsz \<longrightarrow> \<not> present (phys s) d p) \<Longrightarrow>
    allocuvm s d oldsz newsz = Ret (n, s') \<Longrightarrow> vm_step (s, D) (s', D)"
| shrink: "d \<in> D \<Longrightarrow> oldsz \<le> KERNBASE \<Longrightarrow> deallocuvm s d oldsz newsz = Ret (n, s') \<Longrightarrow> vm_step (s, D) (s', D)"
| new: "setupkvm s = Ret (d, s') \<Longrightarrow> vm_step (s, D) (s', if d = 0 then D else insert d D)"
| fork: "pd \<in> D \<Longrightarrow> sz \<le> KERNBASE \<Longrightarrow> copyuvm s pd sz = Ret (d, s') \<Longrightarrow>
    vm_step (s, D) (s', if d = 0 then D else insert d D)"
| free: "d \<in> D \<Longrightarrow> freevm s d = Ret s' \<Longrightarrow> vm_step (s, D) (s', D - {d})"

inductive vm_reach :: "vmach \<times> u32 set \<Rightarrow> bool" where
  boot: "KERNBASE < e \<Longrightarrow> e \<le> entry_top \<Longrightarrow> kdata_ok dat \<Longrightarrow> kboot (vmach_bss m e dat) = Ret s \<Longrightarrow> vm_reach (s, {})"
| step: "vm_reach c \<Longrightarrow> vm_step c c' \<Longrightarrow> vm_reach c'"

inductive_cases vm_stepE: "vm_step (s, D) c"

lemma vm_inv_empty: "kmem_inv s \<Longrightarrow> KERNBASE < kend s \<Longrightarrow> vm_inv s {}"
  by (simp add: vm_inv_def tables_ok_def umaps_def)

lemma boot_vm:
  assumes "KERNBASE < e" "e \<le> entry_top"
  shows "\<exists>s. kboot (vmach_bss m e dat) = Ret s \<and> vm_inv s {} \<and> kdata s = dat"
proof -
  have "KERNBASE \<le> e" using assms(1) by simp
  then obtain s ys where s: "kboot (vmach_bss m e dat) = Ret s" "kmem_rel s ys"
    using kboot_gen [of "vmach_bss m e dat"] assms(2) by (auto simp: vmach_bss_def)
  have fr: "kend s = e" "kmem.more s = kmem.more (vmach_bss m e dat)"
    using kboot_frame [OF s(1)] by (simp_all add: vmach_bss_def)
  have "vm_inv s {}" using s(2) fr(1) assms(1) by (intro vm_inv_empty) (auto simp: kmem_inv_def)
  moreover have "kdata s = dat" using more_fields(2) [OF fr(2)] by (simp add: vmach_bss_def)
  ultimately show ?thesis using s(1) by blast
qed

lemma ret_frame:
  assumes "\<exists>r s'. f = Ret (r, s') \<and> P r s'" "f = Ret (r, s')"
  shows "P r s'"
  using assms by auto

lemma vm_step_inv:
  assumes st: "vm_step (s, D) (s', D')" and inv: "vm_inv s D" and kd: "kdata_ok (kdata s)"
  shows "vm_inv s' D' \<and> (\<exists>C. vm_frame s D s' D' C {}) \<or>
    (\<exists>d \<in> D. \<exists>va b m. user_store (phys s) d va b = Some m \<and> s' = s\<lparr>phys := m\<rparr> \<and> D' = D)"
  using st
proof cases
  case (store d va b m)
  then show ?thesis by blast
next
  case (cow d va r)
  show ?thesis using ret_frame [OF cow_fault_spec [OF inv cow(2,3)] cow(4)] cow(1) by blast
next
  case (demand d va prot r)
  show ?thesis using ret_frame [OF vm_alloc_mmap_page_spec [OF inv demand(2,3,4)] demand(5)] demand(1) by blast
next
  case (unmap d start len r)
  show ?thesis using vm_unmap_range_spec [OF inv unmap(2,3,4)] unmap(1,5) by auto
next
  case (protect d start len prot r)
  show ?thesis using vm_protect_range_spec [OF inv protect(2,3,4), of prot] protect(1,5) by auto
next
  case (grow d oldsz newsz n)
  have np: "\<And>p. aligned p \<Longrightarrow> PGROUNDUP oldsz \<le> p \<Longrightarrow> p < newsz \<Longrightarrow> \<not> present (phys s) d p"
    using grow(5) by blast
  show ?thesis using ret_frame [OF allocuvm_spec [OF inv grow(2,3,4) np] grow(6)] grow(1) by blast
next
  case (shrink d oldsz newsz n)
  show ?thesis using deallocuvm_spec [OF inv shrink(2,3), of newsz] shrink(1,4) by auto
next
  case (new d)
  show ?thesis using ret_frame [OF setupkvm_spec [OF inv kd] new(2)] new(1) by (auto split: if_splits)
next
  case (fork pd sz d)
  show ?thesis using ret_frame [OF copyuvm_spec [OF inv fork(2) kd fork(3)] fork(4)] fork(1) by (auto split: if_splits)
next
  case (free d)
  show ?thesis using freevm_spec [OF inv free(2)] free(1,3) by auto
qed

lemma vm_step_keeps:
  assumes st: "vm_step (s, D) (s', D')" and inv: "vm_inv s D" and kd: "kdata_ok (kdata s)"
  shows "vm_inv s' D' \<and> kdata s' = kdata s"
  using vm_step_inv [OF assms] user_store_step(1) [OF inv] vm_frameD(2) by fastforce

lemma vm_reach_inv: "vm_reach (s, D) \<Longrightarrow> vm_inv s D \<and> kdata_ok (kdata s)"
proof (induction "(s, D)" arbitrary: s D rule: vm_reach.induct)
  case (boot e dat m s)
  then show ?case using boot_vm [of e m dat] by auto
next
  case (step c s D)
  obtain s0 D0 where c: "c = (s0, D0)" by (cases c)
  then show ?case using step(2) [OF c] step(3) vm_step_keeps [of s0 D0 s D] by simp
qed

end
