(* ===== verification/Vm_Live.thy ===== *)
theory Vm_Live
  imports Vm_System
begin

text \<open>
  When memory suffices, the routines of \<^verbatim>\<open>vm.c\<close> that can run out of it do not: a page directory
  may need one page for every table it lacks, so \<open>missing\<close> tables plus the data pages bound the
  demand. The last section uses this to reach a state with two processes from boot.
\<close>

section \<open>Free pages against missing tables\<close>

definition missing :: "pmem \<Rightarrow> u32 \<Rightarrow> u32 set" where
  "missing m d = {PDX va |va. \<not> has_table m d va}"

definition room :: "'z kmem_scheme \<Rightarrow> u32 \<Rightarrow> nat \<Rightarrow> bool" where
  "room s d k \<longleftrightarrow> (\<exists>xs. kmem_rel s xs \<and> card (missing (phys s) d) + k \<le> length xs)"

lemma finite_missing [simp]: "finite (missing m d)"
  by simp

lemma card_missing: "card (missing m d) \<le> 1024"
proof -
  have "missing m d \<subseteq> of_nat ` {..<1024}"
  proof
    fix i assume "i \<in> missing m d"
    then have "unat i < 1024" using PDX_bound by (auto simp: missing_def)
    then show "i \<in> of_nat ` {..<1024}" by (intro image_eqI [of _ _ "unat i"]) auto
  qed
  then have "card (missing m d) \<le> card (of_nat ` {..<1024 :: nat} :: u32 set)" by (intro card_mono) simp
  also have "\<dots> \<le> card {..<1024 :: nat}" by (rule card_image_le) simp
  finally show ?thesis by simp
qed

lemma missing_cong: "(\<And>va. pde_of m' d va = pde_of m d va) \<Longrightarrow> missing m' d = missing m d"
  by (simp add: missing_def has_table_def)

lemma kmem_rel_owned_write:
  assumes rel: "kmem_rel s xs" and m: "\<And>a. \<not> owned s (PGROUNDDOWN a) \<Longrightarrow> m a = phys s a"
  shows "kmem_rel (s\<lparr>phys := m\<rparr>) xs"
proof -
  have "load32 m (V2P x) = load32 (phys s) (V2P x)" if "x \<in> set xs" for x
  proof (rule load32_V2P_frame_cong)
    show "aligned x" using kmem_rel_D(3) [OF rel that] by simp
    have "\<not> owned s (V2P x)" using kmem_rel_D(4) [OF rel that] by (simp add: owned_def)
    then show "m a = phys s a" if "PGROUNDDOWN a = V2P x" for a using that by (intro m) auto
  qed
  then have "free_list_at m (freelist s) xs" using free_list_at_cong [OF kmem_rel_D(1) [OF rel]] by blast
  then show ?thesis using rel by (simp add: kmem_rel_def kpage_def)
qed

lemma room_write:
  assumes "room s d k" "\<And>a. \<not> owned s (PGROUNDDOWN a) \<Longrightarrow> m a = phys s a"
    "\<And>va. pde_of m d va = pde_of (phys s) d va"
  shows "room (s\<lparr>phys := m\<rparr>) d k"
  using assms kmem_rel_owned_write [of s _ m] missing_cong [of m d "phys s"] unfolding room_def by fastforce

lemma room_kalloc:
  assumes "room s d (Suc k)"
  shows "\<exists>p s'. kalloc s = Ret (p, s') \<and> p \<noteq> 0 \<and> room s' d k"
proof -
  obtain x xs where rel: "kmem_rel s (x # xs)" "card (missing (phys s) d) + k \<le> length xs"
    using assms by (auto simp: room_def Suc_le_length_iff add.commute)
  have "x \<noteq> 0" using kmem_rel_D(1) [OF rel(1)] by simp
  with rel(2) kalloc_Cons [OF rel(1)] show ?thesis by (fastforce simp: room_def)
qed

lemma room_kref_inc:
  assumes "room s d k" "kref_inc s pa = Ret s'"
  shows "room s' d k"
proof -
  obtain i where "0 < refcnt s i" "s' = s\<lparr>refcnt := (refcnt s)(i := refcnt s i + 1)\<rparr>"
    using assms(2) by (auto simp: kref_inc_def res_simps not_le split: if_splits)
  then show ?thesis using assms(1) kmem_rel_set_ref [of s _ "refcnt s i + 1" i] by (auto simp: room_def)
qed

lemma walkpgdir_room:
  assumes ok: "tables_ok s D" and d: "d \<in> D" and r: "room s d k" and w: "walkpgdir s d va True = Ret (p, s')"
  shows "p \<noteq> 0 \<and> room s' d k"
proof (cases "has_table (phys s) d va")
  case True
  then show ?thesis
    using w r pte_ptr_nonzero [OF ok d True]
    by (auto simp: walkpgdir_def Let_def has_table_def pte_addr_def P2V_add)
next
  case False
  have inv: "kmem_inv s" using r by (auto simp: room_def kmem_inv_def)
  have "PDX va \<in> missing (phys s) d" using False by (auto simp: missing_def)
  then have "card (missing (phys s) d) \<noteq> 0" by auto
  then obtain x xs where rel: "kmem_rel s (x # xs)" "card (missing (phys s) d) + k \<le> Suc (length xs)"
    using r by (cases "card (missing (phys s) d)") (auto simp: room_def Suc_le_length_iff)
  obtain r where al: "kalloc s = Ret (x, s\<lparr>freelist := r, refcnt := (refcnt s)(pidx x := 1)\<rparr>)"
      "kmem_rel (s\<lparr>freelist := r, refcnt := (refcnt s)(pidx x := 1)\<rparr>) xs"
    using kalloc_Cons [OF rel(1)] by blast
  let ?s1 = "s\<lparr>freelist := r, refcnt := (refcnt s)(pidx x := 1)\<rparr>"
  let ?m = "store32 (mem_set (phys s) (V2P x) 0 PGSIZE) (pde_addr d va) (V2P x OR PTE_P OR PTE_W OR PTE_U)"
  have x: "x \<noteq> 0" "kpage s x" "refcnt s (pidx x) = 0" using kmem_rel_D [OF rel(1)] by auto
  have s': "s' = ?s1\<lparr>phys := ?m\<rparr>" "p = x + 4 * PTX va"
    using w False al(1) x(1) by (auto simp: walkpgdir_def Let_def has_table_def kstore_def V2P_add pde_addr_def)
  have "refcnt s' (pidx x) = 1" by (simp add: s'(1))
  then have "s' \<noteq> s" using x(3) by auto
  then have nz: "p \<noteq> 0" using walkpgdir_alloc [OF ok inv d, of va] w by (auto split: if_splits)
  have ad: "aligned d" by (rule tables_ok_D(3) [OF ok d])
  have own: "owned s (V2P d)" by (rule tables_ok_D(1) [OF ok d])
  have dx: "V2P d \<noteq> V2P x" using own x(3) by (auto simp: owned_def)
  have "kpage ?s1 = kpage s" by (rule kpage_cong) simp
  then have o1: "owned ?s1 (V2P x)" "owned ?s1 (V2P d)" using own x by (auto simp: owned_def)
  have "kmem_rel s' xs"
    unfolding s'(1)
  proof (rule kmem_rel_owned_write [OF al(2)])
    fix a assume "\<not> owned ?s1 (PGROUNDDOWN a)"
    then have "PGROUNDDOWN a \<noteq> V2P x" "PGROUNDDOWN a \<noteq> V2P d" using o1 by auto
    then show "?m a = phys ?s1 a" using x(2) ad by (simp add: mem_set_page)
  qed
  moreover have pde: "pde_of ?m d va' = (if PDX va' = PDX va then V2P x OR PTE_P OR PTE_W OR PTE_U else pde_of (phys s) d va')" for va'
    using ad x(2) dx pde_addr_inj [OF ad ad, of va va']
    by (auto simp: pde_of_def load32_store32_if load32_mem_set_page)
  have "missing ?m d = missing (phys s) d - {PDX va}"
    unfolding missing_def has_table_def pde by (auto simp: flag_or) (simp_all add: flag_def PTE_P_def)
  then have "card (missing ?m d) + k \<le> length xs"
    using rel(2) \<open>PDX va \<in> _\<close> \<open>card _ \<noteq> 0\<close> by (cases "card (missing (phys s) d)") simp_all
  ultimately show ?thesis using nz by (auto simp: room_def s'(1))
qed

lemma store_pte_room:
  assumes "tables_ok s D" "d \<in> D" "d' \<in> D" "has_table (phys s) d' va" "room s d k"
  shows "room (s\<lparr>phys := store32 (phys s) (pte_addr (phys s) d' va) v\<rparr>) d k"
proof (rule room_write [OF assms(5)])
  fix a assume "\<not> owned s (PGROUNDDOWN a)"
  then have "PGROUNDDOWN a \<noteq> PTE_ADDR (pde_of (phys s) d' va)" using tables_ok_D(4) [OF assms(1,3,4)] by auto
  then show "store32 (phys s) (pte_addr (phys s) d' va) v a = phys s a" by (intro store32_frame) auto
qed (rule store_pte(1) [OF assms(1,3,4) refl assms(2)])

lemma mappages_loop_room:
  "tables_ok s D \<Longrightarrow> d \<in> D \<Longrightarrow> room s d k \<Longrightarrow> mappages_loop s d a l pa perm = Ret (r, s') \<Longrightarrow> r = 0 \<and> tables_ok s' D \<and> room s' d k"
proof (induction s d a l pa perm arbitrary: r s' rule: mappages_loop.induct)
  case (1 s d a l pa perm)
  have inv: "kmem_inv s" using 1(4) by (auto simp: room_def kmem_inv_def)
  obtain p s1 where w: "walkpgdir s d a True = Ret (p, s1)" "tables_ok s1 D"
      "if p = 0 then s1 = s \<and> \<not> has_table (phys s) d a else has_table (phys s1) d a \<and> p = P2V (pte_addr (phys s1) d a)"
    using walkpgdir_alloc [OF 1(2) inv 1(3), of a] by blast
  have r1: "p \<noteq> 0" "room s1 d k" using walkpgdir_room [OF 1(2,3,4) w(1)] by auto
  then have t: "has_table (phys s1) d a" "p = P2V (pte_addr (phys s1) d a)" using w(3) by auto
  define s2 where "s2 = kstore s1 p (pa OR perm OR PTE_P)"
  have s2: "s2 = s1\<lparr>phys := store32 (phys s1) (pte_addr (phys s1) d a) (pa OR perm OR PTE_P)\<rparr>"
    by (simp add: s2_def kstore_def t)
  have ok2: "tables_ok s2 D" "room s2 d k"
    using store_pte(3) [OF w(2) 1(3) t(1) refl] store_pte_room [OF w(2) 1(3,3) t(1) r1(2)] by (simp_all add: s2)
  have eq: "mappages_loop s d a l pa perm =
      (if flag (kload s1 p) PTE_P then Panic ''remap'' else if a = l then Ret (0, s2)
       else if a + PGSIZE \<le> a then Wrapped else mappages_loop s2 d (a + PGSIZE) l (pa + PGSIZE) perm)"
    using w(1) r1(1) by (simp add: mappages_loop.simps [of s d a] s2_def Let_def)
  show ?case
  proof (cases "a = l")
    case True
    then show ?thesis using 1(5) eq ok2 by (auto split: if_splits)
  next
    case False
    then have "\<not> flag (kload s1 p) PTE_P" "\<not> a + PGSIZE \<le> a" "mappages_loop s2 d (a + PGSIZE) l (pa + PGSIZE) perm = Ret (r, s')"
      using 1(5) eq by (auto split: if_splits)
    then show ?thesis using 1(1) [OF w(1) refl r1(1) _ s2_def False _ ok2(1) 1(3) ok2(2)] by blast
  qed
qed

lemma setupkvm_loop_room:
  "tables_ok s D \<Longrightarrow> d \<in> D \<Longrightarrow> room s d k \<Longrightarrow> setupkvm_loop s d ks = Ret (r, s') \<Longrightarrow> r = d \<and> room s' d k"
proof (induction s d ks arbitrary: r s' rule: setupkvm_loop.induct)
  case (2 s d virt ps pe perm ks)
  obtain r1 s1 where m: "mappages s d virt (pe - ps) ps perm = Ret (r1, s1)"
    using 2(5) by (auto simp: res_simps)
  have "r1 = 0" "tables_ok s1 D" "room s1 d k"
    using mappages_loop_room [OF 2(2,3,4), of _ _ ps perm r1 s1] m by (auto simp: mappages_def)
  then show ?case using 2(5) 2(1) [OF m refl _ _ 2(3)] m by simp
qed auto

section \<open>New directories, fork and growth succeed\<close>

definition free_pages :: "'z kmem_scheme \<Rightarrow> nat \<Rightarrow> bool" where
  "free_pages s n \<longleftrightarrow> (\<exists>xs. kmem_rel s xs \<and> n \<le> length xs)"

lemma new_page_room:
  assumes rel: "kmem_rel s (x # xs)" and al: "kalloc s = Ret (p, s1)"
    and m: "\<forall>a. PGROUNDDOWN a \<noteq> V2P p \<longrightarrow> m a = phys s1 a"
  shows "p \<noteq> 0 \<and> kmem_rel (s1\<lparr>phys := m\<rparr>) xs"
proof -
  obtain r where r: "p = x" "s1 = s\<lparr>freelist := r, refcnt := (refcnt s)(pidx x := 1)\<rparr>"
      "kmem_rel (s\<lparr>freelist := r, refcnt := (refcnt s)(pidx x := 1)\<rparr>) xs"
    using kalloc_Cons [OF rel] al by auto
  have x: "x \<noteq> 0" "kpage s x" using kmem_rel_D [OF rel] by auto
  have "kpage s1 = kpage s" by (rule kpage_cong) (simp add: r)
  then have "owned s1 (V2P p)" using x by (simp add: owned_def r)
  then show ?thesis
    using kmem_rel_owned_write [OF r(3), folded r(2), of m] m x r(1) by metis
qed

lemma setupkvm_room:
  assumes inv: "vm_inv s D" and kd: "kdata_ok (kdata s)" and fp: "free_pages s (1025 + k)"
  shows "\<exists>d s'. setupkvm s = Ret (d, s') \<and> d \<noteq> 0 \<and> room s' d k"
proof -
  obtain zs where zs: "kmem_rel s zs" "1025 + k \<le> length zs" using fp by (auto simp: free_pages_def)
  then obtain x xs where rel: "kmem_rel s (x # xs)" "1024 + k \<le> length xs" by (cases zs) auto
  obtain d s1 where al: "kalloc s = Ret (d, s1)" using kalloc_Cons [OF rel(1)] by blast
  define s2 where "s2 = s1\<lparr>phys := mem_set (phys s1) (V2P d) 0 PGSIZE\<rparr>"
  have d: "d \<noteq> 0" using new_page_room [OF rel(1) al, of "phys s1"] by simp
  note ad = add_dir [OF inv al d s2_def]
  have al_d: "aligned (V2P d)" using tables_ok_D(3) [OF vm_invD(2) [OF ad(2)]] by simp
  have "kmem_rel s2 xs"
    using new_page_room [OF rel(1) al, of "mem_set (phys s1) (V2P d) 0 PGSIZE"] al_d by (simp add: s2_def mem_set_page)
  then have r2: "room s2 d k" using rel(2) card_missing [of "phys s2" d] by (fastforce simp: room_def)
  have k2: "kdata s2 = kdata s" by (rule vm_frameD(2) [OF ad(3)])
  have eq: "setupkvm s = setupkvm_loop s2 d (kmap (kdata s))"
    using al d k2 by (simp add: setupkvm_def Let_def s2_def) (simp add: P2V_def PHYSTOP_def KERNBASE_def DEVSPACE_def)
  obtain r s' where s': "setupkvm s = Ret (r, s')" using setupkvm_spec [OF inv kd] by blast
  have "r = d \<and> room s' d k"
    by (rule setupkvm_loop_room [OF vm_invD(2) [OF ad(2)] _ r2]) (use s' eq in auto)
  then show ?thesis using s' d by auto
qed

lemma copyuvm_step_room:
  assumes inv: "vm_inv s D" and d: "pd \<in> D" "d \<in> D" and r: "room s d k" and st: "copyuvm_step pd d i s = Ret x"
  shows "\<exists>s'. x = Inr s' \<and> room s' d k"
proof (rule walk_find [OF inv d(1), of i])
  fix p assume "walkpgdir s pd i False = Ret (p, s)" "p = 0"
  then show ?thesis using st r by (auto simp: copyuvm_step_def)
next
  fix p assume w: "walkpgdir s pd i False = Ret (p, s)" "p \<noteq> 0" "has_table (phys s) pd i" "p = P2V (pte_addr (phys s) pd i)"
  note ok = vm_invD(2) [OF inv]
  have st1: "tables_ok (kstore s p v) D" "room (kstore s p v) d k" for v
    using store_pte(3) [OF ok d(1) w(3) refl] store_pte_room [OF ok d(2,1) w(3) r] by (simp_all add: kstore_def w(4))
  have map: "r1 = 0 \<and> room s2 d k"
    if "tables_ok s1 D" "room s1 d k" "mappages s1 d i PGSIZE pa fl = Ret (r1, s2)" for s1 pa fl r1 s2
    using mappages_loop_room [OF that(1) d(2) that(2)] that(3) by (auto simp: mappages_def)
  show ?thesis
    using st w(1,2) r ok st1
    by (auto simp: copyuvm_step_def Let_def res_simps split: if_splits dest!: map [rotated 2] intro: room_kref_inc)
qed

text \<open>A new zeroed page leaves the tables and the room for the missing ones as they are.\<close>

lemma zeroed_room:
  fixes s :: "'z vmach_scheme"
  assumes inv: "vm_inv s D" and d: "d \<in> D" and r: "room s d (Suc k)"
  obtains mem s1 where "kalloc s = Ret (mem, s1)" "mem \<noteq> 0"
    "tables_ok (s1\<lparr>phys := mem_set (phys s1) (V2P mem) 0 PGSIZE\<rparr>) D"
    "room (s1\<lparr>phys := mem_set (phys s1) (V2P mem) 0 PGSIZE\<rparr>) d k"
proof -
  obtain y ys where rel: "kmem_rel s (y # ys)" "card (missing (phys s) d) + k \<le> length ys"
    using r by (auto simp: room_def Suc_le_length_iff add.commute)
  obtain mem s1 where al: "kalloc s = Ret (mem, s1)" using kalloc_Cons [OF rel(1)] by blast
  have nz: "mem \<noteq> 0" using new_page_room [OF rel(1) al, of "phys s1"] by simp
  have kp: "kpage s mem" using ka.alloc_new [OF vm_invD(1) [OF inv] al nz] by simp
  define s2 where "s2 = s1\<lparr>phys := mem_set (phys s1) (V2P mem) 0 PGSIZE\<rparr>"
  have m: "\<forall>a. PGROUNDDOWN a \<noteq> V2P mem \<longrightarrow> mem_set (phys s1) (V2P mem) 0 PGSIZE a = phys s a"
    using kp kalloc_frame [OF al] by (simp add: mem_set_page)
  note ap = alloc_page [OF inv al nz m s2_def]
  have rel2: "kmem_rel s2 ys"
    using new_page_room [OF rel(1) al, of "mem_set (phys s1) (V2P mem) 0 PGSIZE"] kp by (simp add: s2_def mem_set_page)
  have "pde_of (phys s2) d va = pde_of (phys s) d va" for va
  proof (rule same_tabs(1) [OF vm_invD(2) [OF inv] _ d])
    fix b assume "PGROUNDDOWN b \<in> all_tabs s D"
    then have "owned s (PGROUNDDOWN b)" by (rule tabs_owned [OF vm_invD(2) [OF inv]])
    then have "PGROUNDDOWN b \<noteq> V2P mem"
      using ka.alloc_new [OF vm_invD(1) [OF inv] al nz] by (auto simp: owned_def)
    then show "phys s2 b = phys s b" using m by (simp add: s2_def)
  qed
  then have "missing (phys s2) d = missing (phys s) d" by (rule missing_cong)
  then have "room s2 d k" using rel2 rel(2) by (auto simp: room_def)
  then show ?thesis using that [OF al nz] vm_invD(2) [OF ap(1)] by (simp add: s2_def)
qed

lemma allocuvm_step_room:
  assumes inv: "vm_inv s D" and d: "d \<in> D" and r: "room s d (Suc k)" and st: "allocuvm_step d oldsz newsz a s = Ret x"
  shows "\<exists>s'. x = Inr s' \<and> room s' d k"
proof -
  obtain mem s1 where al: "kalloc s = Ret (mem, s1)" and nz: "mem \<noteq> 0"
    and z: "tables_ok (s1\<lparr>phys := mem_set (phys s1) (V2P mem) 0 PGSIZE\<rparr>) D"
      "room (s1\<lparr>phys := mem_set (phys s1) (V2P mem) 0 PGSIZE\<rparr>) d k"
    by (rule zeroed_room [OF inv d r])
  obtain r1 s3 where mp: "mappages (s1\<lparr>phys := mem_set (phys s1) (V2P mem) 0 PGSIZE\<rparr>) d a PGSIZE (V2P mem) (PTE_W OR PTE_U) = Ret (r1, s3)"
    using st al nz by (auto simp: allocuvm_step_def Let_def res_simps)
  then have "r1 = 0" "room s3 d k"
    using mappages_loop_room [OF z(1) d z(2)] by (auto simp: mappages_def)
  then show ?thesis using st al nz mp by (auto simp: allocuvm_step_def Let_def)
qed

lemma room_lcr3 [simp]: "room (lcr3 s v) d k \<longleftrightarrow> room s d k"
  by (simp only: room_def kmem_rel_def lcr3_simps lcr3_views)

lemma demand_room:
  assumes inv: "vm_inv s D" and d: "d \<in> D" and r: "room s d (Suc k)" and st: "vm_alloc_mmap_page s d va prot = Ret (x, s')"
  shows "x = 0 \<and> room s' d k"
proof -
  obtain mem s1 where al: "kalloc s = Ret (mem, s1)" and nz: "mem \<noteq> 0"
    and z: "tables_ok (s1\<lparr>phys := mem_set (phys s1) (V2P mem) 0 PGSIZE\<rparr>) D"
      "room (s1\<lparr>phys := mem_set (phys s1) (V2P mem) 0 PGSIZE\<rparr>) d k"
    by (rule zeroed_room [OF inv d r])
  let ?perm = "if flag prot PROT_WRITE then PTE_U OR PTE_W else PTE_U"
  obtain r1 s3 where mp: "mappages (s1\<lparr>phys := mem_set (phys s1) (V2P mem) 0 PGSIZE\<rparr>) d (PGROUNDDOWN va) PGSIZE (V2P mem) ?perm = Ret (r1, s3)"
    using st al nz by (auto simp: vm_alloc_mmap_page_def Let_def res_simps split: if_splits)
  then have "r1 = 0 \<and> room s3 d k"
    using mappages_loop_room [OF z(1) d z(2)] by (auto simp: mappages_def)
  then show ?thesis using st al nz mp by (auto simp: vm_alloc_mmap_page_def Let_def)
qed

text \<open>\<^verbatim>\<open>copyuvm\<close> needs the new directory and its tables, and no page for the memory it shares.\<close>

lemma copyuvm_room:
  assumes inv: "vm_inv s D" and pd: "pd \<in> D" and kd: "kdata_ok (kdata s)" and sz: "sz \<le> KERNBASE"
    and fp: "free_pages s (1025 + k)"
  shows "\<exists>d s'. copyuvm s pd sz = Ret (d, s') \<and> d \<noteq> 0 \<and> room s' d k"
proof -
  obtain d s1 where s1: "setupkvm s = Ret (d, s1)" "d \<noteq> 0" "room s1 d k" using setupkvm_room [OF inv kd fp] by blast
  then have i1: "d \<notin> D" "vm_inv s1 (insert d D)" "\<forall>va < KERNBASE. \<not> present (phys s1) d va"
    using setupkvm_spec [OF inv kd] by auto
  let ?D = "insert d D"
  let ?I = "\<lambda>i s'. aligned i \<and> vm_inv s' ?D \<and> room s' d k \<and>
    (\<forall>p. aligned p \<longrightarrow> i \<le> p \<longrightarrow> p < KERNBASE \<longrightarrow> \<not> present (phys s') d p)"
  have d: "pd \<in> ?D" "d \<in> ?D" "pd \<noteq> d" using pd i1(1) by auto
  have lim: "unat sz + 4096 \<le> 4294967296" using sz by (simp add: word_le_nat_alt KERNBASE_def)
  have "(\<exists>s3. copyuvm_step pd d i s2 = Ret (Inr s3) \<and> ?I (i + PGSIZE) s3) \<or>
      (\<exists>b. copyuvm_step pd d i s2 = Ret (Inl b) \<and> False)" if I: "?I i s2" and lt: "i < sz" for i s2
  proof -
    have i: "aligned i" "i < KERNBASE" "unat i + 4096 \<le> 4294967295"
      using I lt sz by (auto simp: word_less_nat_alt word_le_nat_alt KERNBASE_def)
    have np: "\<not> present (phys s2) d i" using I i by blast
    obtain s3 where s3: "copyuvm_step pd d i s2 = Ret (Inr s3) \<and> vm_frame s2 ?D s3 ?D {(pd, i), (d, i)} {} \<or>
        copyuvm_step pd d i s2 = Ret (Inl s3)" "vm_inv s3 ?D"
      using copyuvm_step_spec [OF _ d i(1,2) np] I by blast
    then have e: "copyuvm_step pd d i s2 = Ret (Inr s3)" "room s3 d k" "vm_frame s2 ?D s3 ?D {(pd, i), (d, i)} {}"
      using copyuvm_step_room [OF _ d(1,2), of s2 k i] I by fastforce+
    have "\<not> present (phys s3) d p" if p: "aligned p" "i + PGSIZE \<le> p" "p < KERNBASE" for p
    proof -
      have "i < p" using aligned_less_step [OF p(1) i(1,3)] p(2) by (auto simp: not_less [symmetric])
      then have "lookup (phys s3) d p = lookup (phys s2) d p"
        using p(1) d(3) by (intro vm_frameD(5) [OF e(3) d(2,2)]) (auto simp: PGROUNDDOWN_aligned)
      then show ?thesis using I p \<open>i < p\<close> by (simp add: present_def)
    qed
    then show ?thesis using e s3(2) i(1) by (auto simp del: not_less)
  qed
  from page_loop_rule [of ?I sz "copyuvm_step pd d" "\<lambda>_. False", OF this lim, of 0 s1]
  obtain s2 where "page_loop (copyuvm_step pd d) 0 sz s1 = Ret (Inr s2)" "room s2 d k"
    using i1 s1(3) by (auto simp: aligned_def)
  then show ?thesis using s1 by (auto simp: copyuvm_def room_def lcr3_def kmem_rel_def kpage_def)
qed

text \<open>Growing by \<open>n\<close> pages succeeds with \<open>n\<close> pages beyond the missing tables.\<close>

lemma allocuvm_room:
  assumes inv: "vm_inv s D" and d: "d \<in> D" and sz: "oldsz \<le> newsz" "newsz < KERNBASE"
    and np: "\<forall>p. aligned p \<longrightarrow> PGROUNDUP oldsz \<le> p \<longrightarrow> p < newsz \<longrightarrow> \<not> present (phys s) d p"
    and r: "room s d (k + (unat newsz + 4095 - unat (PGROUNDUP oldsz)) div 4096)"
  shows "\<exists>s'. allocuvm s d oldsz newsz = Ret (newsz, s') \<and> room s' d k"
proof -
  let ?n = "\<lambda>a :: u32. (unat newsz + 4095 - unat a) div 4096"
  let ?I = "\<lambda>a s'. aligned a \<and> vm_inv s' D \<and> room s' d (k + ?n a) \<and>
    (\<forall>p. aligned p \<longrightarrow> a \<le> p \<longrightarrow> p < newsz \<longrightarrow> \<not> present (phys s') d p)"
  have lim: "unat newsz + 4096 \<le> 4294967296" using sz by (simp add: word_less_nat_alt KERNBASE_def)
  have lo: "aligned (PGROUNDUP oldsz)" using sz by (intro roundup_user) simp
  have "(\<exists>s3. allocuvm_step d oldsz newsz a s2 = Ret (Inr s3) \<and> ?I (a + PGSIZE) s3) \<or>
      (\<exists>b. allocuvm_step d oldsz newsz a s2 = Ret (Inl b) \<and> False)" if I: "?I a s2" and lt: "a < newsz" for a s2
  proof -
    have a: "aligned a" "a < KERNBASE" "unat a + 4096 \<le> 4294967295"
      using I lt sz by (auto simp: word_less_nat_alt KERNBASE_def)
    have ua: "unat (a + PGSIZE) = unat a + 4096"
      using a(3) unat_add_no_wrap [of a PGSIZE] by (simp add: PGSIZE_def)
    have "?n a = Suc (?n (a + PGSIZE))"
      using lt ua div_add_self2 [of 4096 "unat newsz + 4095 - unat (a + PGSIZE)"] by (simp add: word_less_nat_alt)
    then have r2: "room s2 d (Suc (k + ?n (a + PGSIZE)))" using I by simp
    have np: "\<not> present (phys s2) d a" using I a lt by blast
    have "vm_inv s2 D" using I by blast
    from allocuvm_step_spec [OF this d a(1,2) np sz] allocuvm_step_room [OF this d r2, of oldsz newsz a]
    obtain s3 where e: "allocuvm_step d oldsz newsz a s2 = Ret (Inr s3)" "vm_inv s3 D" "vm_frame s2 D s3 D {(d, a)} {}"
        "room s3 d (k + ?n (a + PGSIZE))" by fastforce
    have "\<not> present (phys s3) d p" if p: "aligned p" "a + PGSIZE \<le> p" "p < newsz" for p
    proof -
      have "a < p" using aligned_less_step [OF p(1) a(1,3)] p(2) by (auto simp: not_less [symmetric])
      then have "lookup (phys s3) d p = lookup (phys s2) d p"
        using p(1) by (intro vm_frameD(5) [OF e(3) d d]) (auto simp: PGROUNDDOWN_aligned)
      then show ?thesis using I p \<open>a < p\<close> by (simp add: present_def)
    qed
    then show ?thesis using e a(1) by auto
  qed
  from page_loop_rule [of ?I newsz "allocuvm_step d oldsz newsz" "\<lambda>_. False", OF this lim, of "PGROUNDUP oldsz" s]
  obtain a s2 where "page_loop (allocuvm_step d oldsz newsz) (PGROUNDUP oldsz) newsz s = Ret (Inr s2)" "room s2 d (k + ?n a)"
    using inv lo r np by blast
  moreover from this(2) have "room s2 d k" by (auto simp: room_def)
  ultimately show ?thesis using sz by (auto simp: allocuvm_def not_le not_less)
qed

section \<open>Reachable states with processes\<close>

lemma boot_kpages:
  assumes fr: "kend s = 0x80200000" and ys: "set ys = Collect (kpage s)"
  shows "4096 \<le> length ys"
proof -
  let ?f = "\<lambda>i :: nat. 0x80400000 + 4096 * of_nat i :: u32"
  have u: "unat (?f i) = 2151677952 + 4096 * i" if "i < 4096" for i
    using that by (simp add: unat_word_ariths unat_of_nat)
  have "kpage s (?f i)" if i: "i < 4096" for i
  proof -
    have "4096 dvd unat (?f i)" unfolding u [OF i] by (rule dvdI [of _ _ "525312 + i"]) simp
    moreover have "unat (?f i - KERNBASE) = 4194304 + 4096 * i"
      using i by (simp add: KERNBASE_def unat_word_ariths unat_of_nat)
    ultimately show ?thesis
      using u [OF i] i by (simp add: kpage_def aligned_dvd fr word_le_nat_alt word_less_nat_alt V2P_def PHYSTOP_def)
  qed
  then have "?f ` {..<4096} \<subseteq> set ys" using ys by auto
  then have "card (?f ` {..<4096}) \<le> card (set ys)" by (intro card_mono) simp
  moreover have "inj_on ?f {..<4096}"
  proof (rule inj_onI)
    fix i j assume ij: "i \<in> {..<4096}" "j \<in> {..<4096}" and eq: "?f i = ?f j"
    have "unat (?f i) = unat (?f j)" by (simp only: eq)
    then have "2151677952 + 4096 * i = 2151677952 + 4096 * j" using ij by (simp only: u lessThan_iff)
    then show "i = j" by simp
  qed
  ultimately show ?thesis using card_image [of ?f "{..<4096}"] card_length [of ys] by simp
qed

text \<open>A kernel image that ends at 2 MB of physical memory, with its data segment at 1 MB + 32 KB.\<close>

lemma boot_image:
  "KERNBASE < (0x80200000 :: u32)" "0x80200000 \<le> entry_top" "KERNBASE \<le> (0x80200000 :: u32)" "kdata_ok 0x80108000"
  by (simp_all add: KERNBASE_def entry_top_def P2V_def kdata_ok_def aligned_def KERNLINK_def EXTMEM_def PHYSTOP_def)

lemma boot_free_pages:
  "\<exists>s. vm_reach (s, {}) \<and> kdata s = 0x80108000 \<and> free_pages s 4096"
proof -
  let ?b = "vmach_bss (\<lambda>_. 0) 0x80200000 0x80108000"
  obtain s ys where s: "kboot ?b = Ret s" "kmem_rel s ys" "set ys = Collect (kpage s)"
    using kboot_gen [of ?b] boot_image by (auto simp: vmach_bss_def)
  have fr: "kend s = 0x80200000" "kdata s = 0x80108000"
    using kboot_frame [OF s(1)] more_fields(2) [of s ?b] by (simp_all add: vmach_bss_def)
  then show ?thesis
    using vm_reach.boot [OF boot_image(1,2,4) s(1)] s(2) boot_kpages [OF fr(1) s(3)] by (auto simp: free_pages_def)
qed

lemma one_process:
  "\<exists>s p. vm_reach (s, {p}) \<and> (\<forall>q. aligned q \<longrightarrow> q < 0x2000 \<longrightarrow> new_page s p q) \<and> free_pages s 3000"
proof -
  obtain s0 where s0: "vm_reach (s0, {})" "free_pages s0 (1025 + 3071)" using boot_free_pages by auto
  note i0 = vm_reach_inv [OF s0(1)]
  obtain p s1 where s1: "setupkvm s0 = Ret (p, s1)" "p \<noteq> 0" "room s1 p 3071"
    using setupkvm_room [OF _ _ s0(2)] i0 by blast
  have r1: "vm_reach (s1, {p})" using vm_reach.step [OF s0(1) vm_step.new [OF s1(1)]] s1(2) by simp
  note i1 = vm_reach_inv [OF r1]
  have "\<forall>va < KERNBASE. \<not> present (phys s1) p va" using setupkvm_spec [of s0 "{}"] i0 s1 by auto
  then have np: "\<forall>q. aligned q \<longrightarrow> PGROUNDUP 0 \<le> q \<longrightarrow> q < 0x2000 \<longrightarrow> \<not> present (phys s1) p q"
    by (auto simp: KERNBASE_def word_less_nat_alt)
  have r0: "PGROUNDUP 0 = 0" by (simp add: PGROUNDUP_def PGSIZE_def)
  have sz: "(0 :: u32) \<le> 0x2000" "(0x2000 :: u32) < KERNBASE" by (simp_all add: KERNBASE_def)
  have "room s1 p (3069 + (unat (0x2000 :: u32) + 4095 - unat (PGROUNDUP 0)) div 4096)"
    using s1(3) by (simp add: r0)
  then obtain s2 where s2: "allocuvm s1 p 0 0x2000 = Ret (0x2000, s2)" "room s2 p 3069"
    using allocuvm_room [OF conjunct1 [OF i1] _ sz np] by blast
  have "vm_reach (s2, {p})" by (rule vm_reach.step [OF r1 vm_step.grow [OF _ sz np s2(1)]]) simp
  moreover have "\<forall>q. aligned q \<longrightarrow> q < 0x2000 \<longrightarrow> new_page s2 p q"
    using allocuvm_spec [OF conjunct1 [OF i1] _ sz] np s2(1) by (auto simp: r0)
  moreover have "free_pages s2 3000" using s2(2) by (auto simp: room_def free_pages_def)
  ultimately show ?thesis by blast
qed

lemma two_processes:
  "\<exists>s p c. vm_reach (s, {p, c}) \<and> p \<noteq> c \<and> free_pages s 100 \<and>
    (\<forall>va < 0x2000. present (phys s) p va \<and> lookup (phys s) c va = lookup (phys s) p va \<and>
       flag (lookup (phys s) p va) PTE_U \<and> flag (lookup (phys s) p va) PTE_COW)"
proof -
  obtain s p where s: "vm_reach (s, {p})" "\<forall>q. aligned q \<longrightarrow> q < 0x2000 \<longrightarrow> new_page s p q" "free_pages s 3000"
    using one_process by blast
  note i = vm_reach_inv [OF s(1)]
  have sz: "(0x2000 :: u32) \<le> KERNBASE" by (simp add: KERNBASE_def)
  have "free_pages s (1025 + 100)" using s(3) by (auto simp: free_pages_def)
  then obtain c s' where c: "copyuvm s p 0x2000 = Ret (c, s')" "c \<noteq> 0" and r: "room s' c 100"
    using copyuvm_room [of s "{p}" p "0x2000" 100] i sz by blast
  have fp: "free_pages s' 100" using r by (auto simp: room_def free_pages_def)
  have fk: "c \<noteq> p" "\<forall>va < 0x2000. forked (phys s) (phys s') p c va"
    using copyuvm_spec [of s "{p}" p "0x2000"] i sz c by auto
  have "vm_reach (s', {p, c})"
    using vm_reach.step [OF s(1) vm_step.fork [OF _ sz c(1)]] c(2) by (simp add: insert_commute)
  moreover have "present (phys s) p va \<and> flag (lookup (phys s) p va) PTE_U \<and> flag (lookup (phys s) p va) PTE_W"
    if "va < 0x2000" for va
  proof -
    have "PGROUNDDOWN va \<le> va" by (simp add: word_le_nat_alt unat_PGROUNDDOWN)
    then have "PGROUNDDOWN va < 0x2000" using that by (rule le_less_trans)
    then have "new_page s p (PGROUNDDOWN va)" using s(2) by simp
    then show ?thesis by (simp add: new_page_def writable_def present_def lookup_page)
  qed
  ultimately show ?thesis using fk fp unfolding forked_def by (metis)
qed

end
