(* ===== verification/Vm_Props.thy ===== *)
theory Vm_Props
  imports Vm_Live
begin

text \<open>
  What the memory system promises to user programs, in terms of their loads and stores: the
  properties of copy-on-write, demand paging, protection, growth and release, each about a
  routine of \<^verbatim>\<open>vm.c\<close> called in a state that is reachable from boot.
\<close>

section \<open>Loads across a step\<close>

lemma frame_load:
  assumes "vm_frame s D s' D' C F" "d \<in> D" "d \<in> D'" "(d, PGROUNDDOWN va) \<notin> C"
  shows "user_load (phys s') d va = user_load (phys s) d va"
  using vm_frameD(5) [OF assms(1-4)] vm_frameD(6) [OF assms(1-3) _ assms(4)]
  by (simp add: user_load_def present_def)

lemma load_None: "\<not> present m d va \<Longrightarrow> user_load m d va = None"
  by (simp add: user_load_def)

lemma store_None: "\<not> flag (lookup m d va) PTE_W \<Longrightarrow> user_store m d va b = None"
  by (simp add: user_store_def writable_def)

lemma store_Some: "(\<exists>m'. user_store m d va b = Some m') \<longleftrightarrow> va < KERNBASE \<and> writable m d va \<and> flag (lookup m d va) PTE_U"
  by (simp add: user_store_def)

lemma reach_step: "vm_reach (s, D) \<Longrightarrow> vm_step (s, D) (s', D') \<Longrightarrow> vm_reach (s', D')"
  by (rule vm_reach.step)

lemma store_load:
  assumes inv: "vm_inv s D" and d: "d \<in> D" and st: "user_store (phys s) d va b = Some m" and d': "d' \<in> D"
  shows "user_load m d' va' = (if d' = d \<and> va' = va then Some b else user_load (phys s) d' va')"
proof -
  note u = user_store_step [OF inv d st]
  have "va < KERNBASE" "present (phys s) d va" "flag (lookup (phys s) d va) PTE_U"
    using st by (auto simp: user_store_def writable_def split: if_splits)
  then show ?thesis using u(2) [OF d'] u(3) [OF d'] by (auto simp: user_load_def present_def)
qed

section \<open>Properties\<close>

text \<open>C1. In every state that the machine reaches from boot by any sequence of user stores, page
  faults and memory system calls, the reference count of a user frame is the number of page table
  entries that map it, a frame that some process can write is mapped exactly once, and no page
  table is mapped into user memory.\<close>

theorem vm_reach_counts:
  assumes "vm_reach (s, D)"
  shows "(\<forall>f. umaps (phys s) D f \<noteq> {} \<longrightarrow> refs s f = int (card (umaps (phys s) D f))) \<and>
    (\<forall>d \<in> D. \<forall>va < KERNBASE. writable (phys s) d va \<longrightarrow>
       umaps (phys s) D (PTE_ADDR (lookup (phys s) d va)) = {(d, PGROUNDDOWN va)}) \<and>
    (\<forall>f \<in> all_tabs s D. umaps (phys s) D f = {})"
proof -
  have inv: "vm_inv s D" using vm_reach_inv [OF assms] by simp
  show ?thesis using vm_invD(5,6) [OF inv] writable_unique [OF inv] by blast
qed

theorem vm_reach_counts_witness:
  "\<exists>s p c f. vm_reach (s, {p, c}) \<and> p \<noteq> c \<and> {(p, 0), (c, 0)} \<subseteq> umaps (phys s) {p, c} f \<and>
     refs s f = int (card (umaps (phys s) {p, c} f))"
proof -
  obtain s p c where s: "vm_reach (s, {p, c})" "p \<noteq> c" "present (phys s) p 0"
      "lookup (phys s) c 0 = lookup (phys s) p 0"
    using two_processes by auto
  have k: "(0 :: u32) < KERNBASE" "PGROUNDDOWN 0 = 0" by (simp_all add: KERNBASE_def PGROUNDDOWN_def)
  have "present (phys s) c 0" using s(3,4) by (simp add: present_def)
  then have "{(p, 0), (c, 0)} \<subseteq> umaps (phys s) {p, c} (PTE_ADDR (lookup (phys s) p 0))"
    using umapsI [of p "{p, c}" 0 "phys s"] umapsI [of c "{p, c}" 0 "phys s"] s k by simp
  then show ?thesis using vm_reach_counts [OF s(1)] s(1,2) by blast
qed

text \<open>C3. Address spaces are isolated: a store that a user program performs through its own page
  directory is seen at that address of that process, and at no other address of any process.\<close>

theorem user_store_isolated:
  assumes "vm_reach (s, D)" "d \<in> D" "user_store (phys s) d va b = Some m"
  shows "\<forall>d' \<in> D. \<forall>va'. user_load m d' va' =
    (if d' = d \<and> va' = va then Some b else user_load (phys s) d' va')"
  using store_load [OF conjunct1 [OF vm_reach_inv [OF assms(1)]] assms(2,3)] by blast

theorem user_store_isolated_witness:
  "\<exists>s p m. vm_reach (s, {p}) \<and> user_store (phys s) p 5 77 = Some m \<and> user_load m p 5 = Some 77"
proof -
  obtain s p where s: "vm_reach (s, {p})" "new_page s p 0" using one_process by (auto simp: aligned_def)
  have k: "(5 :: u32) < KERNBASE" by (simp add: KERNBASE_def)
  have "lookup (phys s) p 5 = lookup (phys s) p 0" by (rule same_page_lookup) (simp add: PGROUNDDOWN_def PGSIZE_def)
  then obtain m where m: "user_store (phys s) p 5 77 = Some m"
    using s(2) k store_Some [of "phys s" p 5 77] by (auto simp: new_page_def writable_def present_def)
  have "user_load m p 5 = Some 77" using user_store_isolated [OF s(1) _ m] by simp
  then show ?thesis using s(1) m by blast
qed

text \<open>C4. Copy-on-write: when a process stores to a page it shares, the page fault handler gives it
  a private page first. After fault and store the process sees its byte, and every other byte of
  every process, the sharers included, is what it was before the fault.\<close>

theorem cow_write_private:
  assumes "vm_reach (s, D)" "d \<in> D" "va < KERNBASE" "cow_fault s d va = Ret (1, s1)"
    and "user_store (phys s1) d va b = Some m"
  shows "vm_reach (s1, D) \<and> (\<forall>d' \<in> D. \<forall>va'. user_load m d' va' =
    (if d' = d \<and> va' = va then Some b else user_load (phys s) d' va'))"
proof -
  have r1: "vm_reach (s1, D)" by (rule reach_step [OF assms(1) vm_step.cow [OF assms(2-4)]])
  have "same_view s s1 D"
    using cow_fault_spec [OF conjunct1 [OF vm_reach_inv [OF assms(1)]] assms(2,3)] assms(4) by auto
  then show ?thesis
    using r1 same_view_load [of s s1 D] store_load [OF conjunct1 [OF vm_reach_inv [OF r1]] assms(2,5)] by simp
qed

text \<open>C7. The outcome of the copy-on-write fault handler in a reachable state: it never panics; it
  refuses (0) exactly the pages that are not present and marked; it fails (-1) only when no page is
  free and then changes nothing; otherwise the page becomes writable, and in every case no process
  sees any byte change.\<close>

theorem cow_fault_outcome:
  assumes "vm_reach (s, D)" "d \<in> D" "va < KERNBASE"
  shows "\<exists>r s'. cow_fault s d va = Ret (r, s') \<and> r \<in> {0, 1, -1} \<and>
    (r = 0 \<longleftrightarrow> \<not> (present (phys s) d va \<and> flag (lookup (phys s) d va) PTE_COW)) \<and>
    (r \<noteq> 1 \<longrightarrow> s' = s) \<and> (r = -1 \<longrightarrow> kalloc s = Ret (0, s)) \<and>
    (r = 1 \<longrightarrow> writable (phys s') d va \<and> \<not> flag (lookup (phys s') d va) PTE_COW) \<and>
    (\<forall>d' \<in> D. \<forall>va'. user_load (phys s') d' va' = user_load (phys s) d' va')"
proof -
  obtain r s' where c: "cow_fault s d va = Ret (r, s')" "same_view s s' D"
      "r = 0 \<and> s' = s \<and> \<not> (present (phys s) d va \<and> flag (lookup (phys s) d va) PTE_COW) \<or>
       r = -1 \<and> s' = s \<and> kalloc s = Ret (0, s) \<and> present (phys s) d va \<and> flag (lookup (phys s) d va) PTE_COW \<or>
       r = 1 \<and> present (phys s) d va \<and> flag (lookup (phys s) d va) PTE_COW \<and>
         writable (phys s') d va \<and> \<not> flag (lookup (phys s') d va) PTE_COW"
    using cow_fault_spec [OF conjunct1 [OF vm_reach_inv [OF assms(1)]] assms(2,3)] by blast
  then show ?thesis using same_view_load [OF c(2)] by auto
qed

lemma cow_example:
  "\<exists>s p c s1. vm_reach (s, {p, c}) \<and> p \<noteq> c \<and> cow_fault s p 8 = Ret (1, s1) \<and> user_load (phys s) c 8 \<noteq> None \<and>
     (\<exists>m. user_store (phys s1) p 8 77 = Some m)"
proof -
  obtain s p c where s: "vm_reach (s, {p, c})" "p \<noteq> c" "free_pages s 100" "present (phys s) p 8"
      "lookup (phys s) c 8 = lookup (phys s) p 8" "flag (lookup (phys s) p 8) PTE_U" "flag (lookup (phys s) p 8) PTE_COW"
    using two_processes by auto
  have k: "(8 :: u32) < KERNBASE" by (simp add: KERNBASE_def)
  obtain xs where xs: "kmem_rel s xs" "100 \<le> length xs" using s(3) by (auto simp: free_pages_def)
  then obtain x s2 where ne: "kalloc s = Ret (x, s2)" "x \<noteq> 0"
    using kalloc_Cons [of s "hd xs" "tl xs"] kmem_rel_D(1) [of s xs] by (cases xs) auto
  obtain s1 where s1: "cow_fault s p 8 = Ret (1, s1)" "writable (phys s1) p 8" "same_view s s1 {p, c}"
    using cow_fault_spec [OF conjunct1 [OF vm_reach_inv [OF s(1)]] _ k, of p] s(4,7) ne by auto
  then have "flag (lookup (phys s1) p 8) PTE_U" using s(6) k by (auto simp: same_view_def)
  then have "\<exists>m. user_store (phys s1) p 8 77 = Some m" using store_Some [of "phys s1" p 8 77] s1(2) k by simp
  moreover have "user_load (phys s) c 8 \<noteq> None" using s k by (simp add: user_load_def present_def)
  ultimately show ?thesis using s(1,2) s1(1) by blast
qed

theorem cow_write_private_witness:
  "\<exists>s p c s1 m. vm_reach (s, {p, c}) \<and> p \<noteq> c \<and> cow_fault s p 8 = Ret (1, s1) \<and>
     user_store (phys s1) p 8 77 = Some m \<and> user_load m p 8 = Some 77 \<and>
     user_load m c 8 = user_load (phys s) c 8 \<and> user_load (phys s) c 8 \<noteq> None"
proof -
  obtain s p c s1 m where s: "vm_reach (s, {p, c})" "p \<noteq> c" "cow_fault s p 8 = Ret (1, s1)"
      "user_store (phys s1) p 8 77 = Some m" "user_load (phys s) c 8 \<noteq> None"
    using cow_example by blast
  have "(8 :: u32) < KERNBASE" by (simp add: KERNBASE_def)
  then have "user_load m p 8 = Some 77 \<and> user_load m c 8 = user_load (phys s) c 8"
    using cow_write_private [OF s(1) _ _ s(3,4)] s(2) by simp
  then show ?thesis using s by blast
qed

theorem cow_fault_outcome_witness:
  "\<exists>s p c s1. vm_reach (s, {p, c}) \<and> cow_fault s p 8 = Ret (1, s1) \<and> writable (phys s1) p 8"
proof -
  obtain s p c s1 where s: "vm_reach (s, {p, c})" "cow_fault s p 8 = Ret (1, s1)" using cow_example by blast
  have "(8 :: u32) < KERNBASE" by (simp add: KERNBASE_def)
  then have "writable (phys s1) p 8" using cow_fault_outcome [OF s(1), of p 8] s(2) by simp
  then show ?thesis using s by blast
qed

text \<open>C6. \<^const>\<open>copyuvm\<close>, the heart of \<^verbatim>\<open>fork\<close>: the child is a new address space that reads exactly
  what the parent read below its size and nothing above it, no process sees its own memory change,
  and neither parent nor child can store below the size without a copy-on-write fault.\<close>

theorem copyuvm_shares_memory:
  assumes "vm_reach (s, D)" "pd \<in> D" "sz \<le> KERNBASE" "copyuvm s pd sz = Ret (d, s')" "d \<noteq> 0"
  shows "d \<notin> D \<and> vm_reach (s', insert d D) \<and>
    (\<forall>d' \<in> D. \<forall>va. user_load (phys s') d' va = user_load (phys s) d' va) \<and>
    (\<forall>va < sz. user_load (phys s') d va = user_load (phys s) pd va \<and>
       (\<forall>b. user_store (phys s') pd va b = None \<and> user_store (phys s') d va b = None)) \<and>
    (\<forall>va. sz \<le> PGROUNDDOWN va \<longrightarrow> user_load (phys s') d va = None)"
proof -
  have i: "vm_inv s D" "kdata_ok (kdata s)" using vm_reach_inv [OF assms(1)] by auto
  have c: "same_view s s' D" "d \<notin> D" "\<forall>va < sz. forked (phys s) (phys s') pd d va"
      "\<forall>va < KERNBASE. sz \<le> PGROUNDDOWN va \<longrightarrow> \<not> present (phys s') d va" "vm_inv s' (insert d D)"
    using copyuvm_spec [OF i(1) assms(2) i(2) assms(3)] assms(4,5) by auto
  have "vm_reach (s', insert d D)"
    using reach_step [OF assms(1) vm_step.fork [OF assms(2-4)]] assms(5) by simp
  moreover have "user_load (phys s') d va = user_load (phys s) pd va \<and>
      user_store (phys s') pd va b = None \<and> user_store (phys s') d va b = None" if "va < sz" for va b
  proof -
    have f: "forked (phys s) (phys s') pd d va" using c(3) that by blast
    then have "present (phys s') pd va \<Longrightarrow> ubyte (phys s') d va = ubyte (phys s) pd va"
      by (simp add: forked_def ubyte_def)
    then show ?thesis using f by (auto simp: forked_def user_load_def user_store_def writable_def)
  qed
  moreover have "user_load (phys s') d va = None" if "sz \<le> PGROUNDDOWN va" for va
    using c(4) that by (cases "va < KERNBASE") (auto simp: user_load_def)
  ultimately show ?thesis using c(2) same_view_load [OF c(1)] by blast
qed

text \<open>C8. \<^const>\<open>copyuvm\<close> never panics, and it succeeds whenever 1025 pages are free, whatever the size
  of the parent: no page of memory is copied.\<close>

theorem copyuvm_succeeds:
  assumes "vm_reach (s, D)" "pd \<in> D" "sz \<le> KERNBASE"
  shows "\<exists>d s'. copyuvm s pd sz = Ret (d, s') \<and> (free_pages s 1025 \<longrightarrow> d \<noteq> 0) \<and>
    (d = 0 \<longrightarrow> vm_reach (s', D) \<and> (\<forall>d' \<in> D. \<forall>va. user_load (phys s') d' va = user_load (phys s) d' va))"
proof -
  have i: "vm_inv s D" "kdata_ok (kdata s)" using vm_reach_inv [OF assms(1)] by auto
  obtain d s' where c: "copyuvm s pd sz = Ret (d, s')" "same_view s s' D"
    using copyuvm_spec [OF i(1) assms(2) i(2) assms(3)] by blast
  have "free_pages s 1025 \<longrightarrow> d \<noteq> 0"
    using copyuvm_room [OF i(1) assms(2) i(2) assms(3), of 0] c(1) by auto
  moreover have "d = 0 \<longrightarrow> vm_reach (s', D)"
    using reach_step [OF assms(1) vm_step.fork [OF assms(2,3) c(1)]] by auto
  ultimately show ?thesis using c same_view_load [OF c(2)] by blast
qed

lemma fork_example:
  "\<exists>s p. vm_reach (s, {p}) \<and> free_pages s 1025 \<and> user_load (phys s) p 8 \<noteq> None"
proof -
  obtain s p where s: "vm_reach (s, {p})" "new_page s p 0" "free_pages s 3000"
    using one_process by (auto simp: aligned_def)
  have "lookup (phys s) p 8 = lookup (phys s) p 0" by (rule same_page_lookup) (simp add: PGROUNDDOWN_def PGSIZE_def)
  moreover have "(8 :: u32) < KERNBASE" by (simp add: KERNBASE_def)
  ultimately have "user_load (phys s) p 8 \<noteq> None"
    using s(2) by (simp add: user_load_def new_page_def writable_def present_def)
  moreover have "free_pages s 1025" using s(3) by (auto simp: free_pages_def)
  ultimately show ?thesis using s(1) by blast
qed

theorem copyuvm_succeeds_witness:
  "\<exists>s p d s'. vm_reach (s, {p}) \<and> copyuvm s p 0x2000 = Ret (d, s') \<and> d \<noteq> 0"
proof -
  obtain s p where s: "vm_reach (s, {p})" "free_pages s 1025" using fork_example by blast
  have "(0x2000 :: u32) \<le> KERNBASE" by (simp add: KERNBASE_def)
  then show ?thesis using copyuvm_succeeds [OF s(1), of p "0x2000"] s by blast
qed

lemma fork_example2:
  "\<exists>s p d s'. vm_reach (s, {p}) \<and> user_load (phys s) p 8 \<noteq> None \<and> copyuvm s p 0x2000 = Ret (d, s') \<and> d \<noteq> 0"
proof -
  obtain s p where s: "vm_reach (s, {p})" "free_pages s (1025 + 0)" "user_load (phys s) p 8 \<noteq> None"
    using fork_example by auto
  have "(0x2000 :: u32) \<le> KERNBASE" by (simp add: KERNBASE_def)
  then show ?thesis using copyuvm_room [of s "{p}" p "0x2000" 0] vm_reach_inv [OF s(1)] s by blast
qed

theorem copyuvm_shares_memory_witness:
  "\<exists>s p d s'. vm_reach (s, {p}) \<and> copyuvm s p 0x2000 = Ret (d, s') \<and> d \<noteq> p \<and>
     user_load (phys s') d 8 = user_load (phys s) p 8 \<and> user_load (phys s) p 8 \<noteq> None"
proof -
  obtain s p d s' where s: "vm_reach (s, {p})" "user_load (phys s) p 8 \<noteq> None" "copyuvm s p 0x2000 = Ret (d, s')" "d \<noteq> 0"
    using fork_example2 by blast
  have "(0x2000 :: u32) \<le> KERNBASE" by (simp add: KERNBASE_def)
  then have "d \<noteq> p \<and> user_load (phys s') d 8 = user_load (phys s) p 8"
    using copyuvm_shares_memory [OF s(1) _ _ s(3,4)] by simp
  then show ?thesis using s by blast
qed

text \<open>Demand paging: \<^const>\<open>vm_alloc_mmap_page\<close> on an absent page never panics. It either gives the
  process a page that reads as zeros, writable exactly when the area allows writing, or fails with
  -1; no other byte of any process changes.\<close>

theorem demand_page_zeroed:
  assumes "vm_reach (s, D)" "d \<in> D" "va < KERNBASE" "\<not> present (phys s) d va"
  shows "\<exists>r s'. vm_alloc_mmap_page s d va prot = Ret (r, s') \<and> r \<in> {0, -1} \<and> vm_reach (s', D) \<and>
    (\<forall>d' \<in> D. \<forall>va' < KERNBASE. user_load (phys s') d' va' =
       (if r = 0 \<and> d' = d \<and> PGROUNDDOWN va' = PGROUNDDOWN va then Some 0 else user_load (phys s) d' va')) \<and>
    (r = 0 \<longrightarrow> (\<forall>b. user_store (phys s') d va b \<noteq> None \<longleftrightarrow> flag prot PROT_WRITE))"
proof -
  obtain r s' where c: "vm_alloc_mmap_page s d va prot = Ret (r, s')"
      "r = -1 \<and> vm_frame s D s' D {} {} \<or>
       r = 0 \<and> vm_frame s D s' D {(d, PGROUNDDOWN va)} {} \<and> present (phys s') d va \<and>
         flag (lookup (phys s') d va) PTE_U \<and> (flag (lookup (phys s') d va) PTE_W \<longleftrightarrow> flag prot PROT_WRITE) \<and>
         zero_page (phys s') d (PGROUNDDOWN va)"
    using vm_alloc_mmap_page_spec [OF conjunct1 [OF vm_reach_inv [OF assms(1)]] assms(2-4), of prot] by blast
  have r: "vm_reach (s', D)" by (rule reach_step [OF assms(1) vm_step.demand [OF assms(2-4) c(1)]])
  have ld: "user_load (phys s') d' va' =
      (if r = 0 \<and> d' = d \<and> PGROUNDDOWN va' = PGROUNDDOWN va then Some 0 else user_load (phys s) d' va')"
    if d': "d' \<in> D" "va' < KERNBASE" for d' va'
  proof (cases "r = 0 \<and> d' = d \<and> PGROUNDDOWN va' = PGROUNDDOWN va")
    case True
    then have "lookup (phys s') d va' = lookup (phys s') d va" by (intro same_page_lookup) simp
    then show ?thesis using True c(2) d'(2) by (simp add: user_load_def present_def zero_page_def)
  next
    case False
    then show ?thesis using c(2) frame_load [of s D s' D "{}" "{}" d' va'] frame_load [of s D s' D "{(d, PGROUNDDOWN va)}" "{}" d' va'] d' by auto
  qed
  have "r = 0 \<longrightarrow> (\<forall>b. user_store (phys s') d va b \<noteq> None \<longleftrightarrow> flag prot PROT_WRITE)"
    using c(2) assms(3) by (auto simp: user_store_def writable_def)
  then show ?thesis using c r ld by auto
qed

lemma hole_example: "\<exists>s p. vm_reach (s, {p}) \<and> \<not> present (phys s) p 0x5000"
proof -
  obtain s0 where s0: "vm_reach (s0, {})" "free_pages s0 (1025 + 3071)" using boot_free_pages by auto
  note i0 = vm_reach_inv [OF s0(1)]
  obtain p s1 where s1: "setupkvm s0 = Ret (p, s1)" "p \<noteq> 0" using setupkvm_room [OF _ _ s0(2)] i0 by blast
  have "vm_reach (s1, {p})" using reach_step [OF s0(1) vm_step.new [OF s1(1)]] s1(2) by simp
  moreover have "\<not> present (phys s1) p 0x5000" using setupkvm_spec [of s0 "{}"] i0 s1 by (auto simp: KERNBASE_def)
  ultimately show ?thesis by blast
qed

theorem demand_page_zeroed_witness:
  "\<exists>s p r s'. vm_reach (s, {p}) \<and> \<not> present (phys s) p 0x5000 \<and>
     vm_alloc_mmap_page s p 0x5000 PROT_READ = Ret (r, s') \<and> vm_reach (s', {p}) \<and> r \<in> {0, -1}"
proof -
  obtain s p where s: "vm_reach (s, {p})" "\<not> present (phys s) p 0x5000" using hole_example by blast
  have k: "(0x5000 :: u32) < KERNBASE" by (simp add: KERNBASE_def)
  show ?thesis using demand_page_zeroed [OF s(1) _ k s(2), of PROT_READ] s by blast
qed

lemma page_in_range:
  assumes "aligned start" "aligned len"
  shows "start \<le> PGROUNDDOWN va \<and> PGROUNDDOWN va < start + len \<longleftrightarrow> start \<le> va \<and> va < start + len"
proof -
  have "start \<le> PGROUNDDOWN va \<longleftrightarrow> start \<le> va"
    using PGROUNDDOWN_mono [OF assms(1)] PGROUNDDOWN_le [of va] by (auto intro: order_trans)
  moreover have "PGROUNDDOWN va < start + len \<longleftrightarrow> va < start + len"
    using PGROUNDDOWN_mono [of "start + len" va] PGROUNDDOWN_le [of va] aligned_add [OF assms]
    by (auto simp: not_le [symmetric] intro: order_trans)
  ultimately show ?thesis by simp
qed

text \<open>\<^const>\<open>vm_unmap_range\<close> never panics: afterwards no byte of the range is accessible, and every
  other byte of every process reads as before.\<close>

theorem unmap_range_exact:
  assumes "vm_reach (s, D)" "d \<in> D" "aligned start" "aligned len" "unat start + unat len \<le> unat KERNBASE"
  shows "\<exists>s'. vm_unmap_range s d start len = Ret (0, s') \<and> vm_reach (s', D) \<and>
    (\<forall>d' \<in> D. \<forall>va. user_load (phys s') d' va =
       (if d' = d \<and> start \<le> va \<and> va < start + len then None else user_load (phys s) d' va))"
proof -
  obtain s' where c: "vm_unmap_range s d start len = Ret (0, s')"
      "vm_frame s D s' D (pages d start (start + len)) {}"
      "\<forall>va. start \<le> va \<longrightarrow> va < start + len \<longrightarrow> \<not> present (phys s') d va"
    using vm_unmap_range_spec [OF conjunct1 [OF vm_reach_inv [OF assms(1)]] assms(2,3,5)] by blast
  have "user_load (phys s') d' va = (if d' = d \<and> start \<le> va \<and> va < start + len then None
      else user_load (phys s) d' va)" if "d' \<in> D" for d' va
  proof (cases "d' = d \<and> start \<le> va \<and> va < start + len")
    case False
    then have "(d', PGROUNDDOWN va) \<notin> pages d start (start + len)"
      using page_in_range [OF assms(3,4), of va] by (auto simp: pages_def)
    then show ?thesis using frame_load [OF c(2) that that] False by (simp only: if_False)
  qed (use c(3) in \<open>simp add: load_None\<close>)
  then show ?thesis
    using c(1) reach_step [OF assms(1) vm_step.unmap [OF assms(2,3,5) c(1)]] by blast
qed

theorem unmap_range_exact_witness:
  "\<exists>s p s'. vm_reach (s, {p}) \<and> user_load (phys s) p 8 \<noteq> None \<and>
     vm_unmap_range s p 0 0x1000 = Ret (0, s') \<and> user_load (phys s') p 8 = None"
proof -
  obtain s p where s: "vm_reach (s, {p})" "user_load (phys s) p 8 \<noteq> None" using fork_example by blast
  have a: "aligned 0" "aligned 0x1000" "unat 0 + unat (0x1000 :: u32) \<le> unat KERNBASE"
    by (simp_all add: aligned_def KERNBASE_def)
  obtain s' where "vm_unmap_range s p 0 0x1000 = Ret (0, s')" "user_load (phys s') p 8 = None"
    using unmap_range_exact [OF s(1) _ a, of p] by auto
  then show ?thesis using s by blast
qed

text \<open>C9. \<^const>\<open>vm_protect_range\<close> never panics and changes no byte that any process reads. Without
  write permission no store to the range succeeds, and the copy-on-write mark of a shared page
  stays; with it every present page of the range is either writable or will be after a fault. No
  entry outside the range changes.\<close>

theorem protect_range_exact:
  assumes "vm_reach (s, D)" "d \<in> D" "aligned start" "aligned len" "unat start + unat len \<le> unat KERNBASE"
  shows "\<exists>s'. vm_protect_range s d start len prot = Ret (0, s') \<and> vm_reach (s', D) \<and>
    (\<forall>d' \<in> D. \<forall>va. user_load (phys s') d' va = user_load (phys s) d' va) \<and>
    (\<forall>va. start \<le> va \<longrightarrow> va < start + len \<longrightarrow> present (phys s) d va \<longrightarrow>
       (if flag prot PROT_WRITE then writable (phys s') d va \<or> flag (lookup (phys s') d va) PTE_COW
        else \<not> writable (phys s') d va) \<and>
       (flag (lookup (phys s) d va) PTE_COW \<longrightarrow> flag (lookup (phys s') d va) PTE_COW)) \<and>
    (\<forall>d' \<in> D. \<forall>va. \<not> (d' = d \<and> start \<le> va \<and> va < start + len) \<longrightarrow> lookup (phys s') d' va = lookup (phys s) d' va)"
proof -
  obtain s' where c: "vm_protect_range s d start len prot = Ret (0, s')"
      "vm_frame s D s' D (pages d start (start + len)) {}"
      "\<forall>va. start \<le> va \<longrightarrow> va < start + len \<longrightarrow> protected (phys s) (phys s') d prot va"
    using vm_protect_range_spec [OF conjunct1 [OF vm_reach_inv [OF assms(1)]] assms(2,3,5)] by blast
  have ns: "(d', PGROUNDDOWN va) \<notin> pages d start (start + len)" if "\<not> (d' = d \<and> start \<le> va \<and> va < start + len)" for d' va
    using that page_in_range [OF assms(3,4), of va] by (auto simp: pages_def)
  have "user_load (phys s') d' va = user_load (phys s) d' va" if d': "d' \<in> D" for d' va
  proof (cases "d' = d \<and> start \<le> va \<and> va < start + len")
    case True
    then show ?thesis using c(3) by (auto simp: user_load_def protected_def)
  next
    case False
    then show ?thesis using frame_load [OF c(2) d' d'] ns by blast
  qed
  moreover have "lookup (phys s') d' va = lookup (phys s) d' va"
    if "d' \<in> D" "\<not> (d' = d \<and> start \<le> va \<and> va < start + len)" for d' va
    by (rule vm_frameD(5) [OF c(2) that(1,1) ns [OF that(2)]])
  moreover have "vm_reach (s', D)" by (rule reach_step [OF assms(1) vm_step.protect [OF assms(2,3,5) c(1)]])
  moreover have "(if flag prot PROT_WRITE then writable (phys s') d va \<or> flag (lookup (phys s') d va) PTE_COW
        else \<not> writable (phys s') d va) \<and>
       (flag (lookup (phys s) d va) PTE_COW \<longrightarrow> flag (lookup (phys s') d va) PTE_COW)"
    if "start \<le> va" "va < start + len" "present (phys s) d va" for va
    using c(3) that by (auto simp: protected_def writable_def)
  ultimately show ?thesis using c(1) by blast
qed

theorem protect_range_exact_witness:
  "\<exists>s p s'. vm_reach (s, {p}) \<and> user_load (phys s) p 8 \<noteq> None \<and>
     vm_protect_range s p 0 0x1000 PROT_READ = Ret (0, s') \<and> \<not> writable (phys s') p 8"
proof -
  obtain s p where s: "vm_reach (s, {p})" "user_load (phys s) p 8 \<noteq> None" using fork_example by blast
  have a: "aligned 0" "aligned 0x1000" "unat 0 + unat (0x1000 :: u32) \<le> unat KERNBASE"
    by (simp_all add: aligned_def KERNBASE_def)
  have "present (phys s) p 8" using s(2) by (auto simp: user_load_def split: if_splits)
  moreover have "\<not> flag PROT_READ PROT_WRITE" by (simp add: flag_def PROT_READ_def PROT_WRITE_def)
  ultimately obtain s' where "vm_protect_range s p 0 0x1000 PROT_READ = Ret (0, s')" "\<not> writable (phys s') p 8"
    using protect_range_exact [OF s(1) _ a, of p PROT_READ] by auto
  then show ?thesis using s by blast
qed

text \<open>C10. If no page of the new range is mapped yet, \<^const>\<open>allocuvm\<close> never panics. Its callers do not check this
  condition: \<^verbatim>\<open>sbrk_remap_panics\<close> is the other case. On success the new range reads
  as zeros and can be stored to; when memory runs out the pages it had mapped are gone again, so in
  both cases everything outside the new range reads as before.\<close>

theorem allocuvm_grows:
  assumes "vm_reach (s, D)" "d \<in> D" "oldsz \<le> newsz" "newsz < KERNBASE"
    and "\<forall>p. aligned p \<longrightarrow> PGROUNDUP oldsz \<le> p \<longrightarrow> p < newsz \<longrightarrow> \<not> present (phys s) d p"
  shows "\<exists>n s'. allocuvm s d oldsz newsz = Ret (n, s') \<and> (n = newsz \<or> n = 0) \<and> vm_reach (s', D) \<and>
    (\<forall>d' \<in> D. \<forall>va < KERNBASE. user_load (phys s') d' va =
       (if d' = d \<and> PGROUNDUP oldsz \<le> PGROUNDDOWN va \<and> PGROUNDDOWN va < newsz
        then if n = newsz then Some 0 else None else user_load (phys s) d' va)) \<and>
    (n = newsz \<longrightarrow> (\<forall>va b. PGROUNDUP oldsz \<le> PGROUNDDOWN va \<longrightarrow> va < newsz \<longrightarrow> user_store (phys s') d va b \<noteq> None))"
proof -
  have np: "\<And>p. aligned p \<Longrightarrow> PGROUNDUP oldsz \<le> p \<Longrightarrow> p < newsz \<Longrightarrow> \<not> present (phys s) d p"
    using assms(5) by blast
  obtain n s' where c: "allocuvm s d oldsz newsz = Ret (n, s')"
      "vm_frame s D s' D (pages d (PGROUNDUP oldsz) newsz) {}"
      "n = newsz \<and> (\<forall>p. aligned p \<longrightarrow> PGROUNDUP oldsz \<le> p \<longrightarrow> p < newsz \<longrightarrow> new_page s' d p) \<or>
       n = 0 \<and> (\<forall>p. aligned p \<longrightarrow> PGROUNDUP oldsz \<le> p \<longrightarrow> p < newsz \<longrightarrow> \<not> present (phys s') d p)"
    using allocuvm_spec [OF conjunct1 [OF vm_reach_inv [OF assms(1)]] assms(2-4) np] by blast
  let ?in = "\<lambda>va. PGROUNDUP oldsz \<le> PGROUNDDOWN va \<and> PGROUNDDOWN va < newsz"
  have new: "writable (phys s') d va \<and> flag (lookup (phys s') d va) PTE_U \<and> ubyte (phys s') d va = 0"
    if "n = newsz" "?in va" for va
  proof -
    have "newsz \<noteq> 0" using that(2) by auto
    then have "new_page s' d (PGROUNDDOWN va)" using c(3) that by auto
    then show ?thesis by (simp add: new_page_def writable_def present_def lookup_page zero_page_def)
  qed
  have "user_load (phys s') d' va =
      (if d' = d \<and> ?in va then if n = newsz then Some 0 else None else user_load (phys s) d' va)"
    if d': "d' \<in> D" "va < KERNBASE" for d' va
  proof (cases "d' = d \<and> ?in va")
    case True
    then show ?thesis
      using new [of va] c(3) d'(2) by (auto simp: user_load_def writable_def present_aligned [of _ _ va, symmetric])
  next
    case False
    then have "(d', PGROUNDDOWN va) \<notin> pages d (PGROUNDUP oldsz) newsz" by (auto simp: pages_def)
    then show ?thesis using frame_load [OF c(2) d'(1,1)] False by (simp only: if_False)
  qed
  moreover have "user_store (phys s') d va b \<noteq> None" if "n = newsz" "PGROUNDUP oldsz \<le> PGROUNDDOWN va" "va < newsz" for va b
  proof -
    have "PGROUNDDOWN va < newsz" using PGROUNDDOWN_le [of va] that(3) by (rule le_less_trans)
    moreover have "va < KERNBASE" using that(3) assms(4) by (rule less_trans)
    ultimately show ?thesis using new [OF that(1)] that(2) store_Some [of "phys s'" d va b] by auto
  qed
  moreover have "vm_reach (s', D)" by (rule reach_step [OF assms(1) vm_step.grow [OF assms(2-5) c(1)]])
  ultimately show ?thesis using c(1,3) by blast
qed

theorem allocuvm_grows_witness:
  "\<exists>s p n s'. vm_reach (s, {p}) \<and> allocuvm s p 0x5000 0x5800 = Ret (n, s') \<and>
     user_load (phys s') p 0x5008 = (if n = 0x5800 then Some 0 else None)"
proof -
  obtain s p where s: "vm_reach (s, {p})" "\<not> present (phys s) p 0x5000" using hole_example by blast
  have k: "(0x5000 :: u32) \<le> 0x5800" "(0x5800 :: u32) < KERNBASE" "(0x5008 :: u32) < KERNBASE" by (simp_all add: KERNBASE_def)
  have r: "PGROUNDUP 0x5000 = 0x5000" "PGROUNDDOWN 0x5008 = 0x5000" by (simp_all add: PGROUNDUP_def PGROUNDDOWN_def PGSIZE_def)
  have "q = 0x5000" if q: "aligned q" "0x5000 \<le> q" "q < 0x5800" for q
  proof -
    have "unat q - 0x5000 < 4096" "4096 dvd unat q" "0x5000 \<le> unat q"
      using q by (simp_all add: word_less_nat_alt word_le_nat_alt aligned_dvd)
    then obtain k where "unat q = 4096 * k" "5 \<le> k" "k < 6" by (auto elim!: dvdE)
    then have "unat q = unat (0x5000 :: u32)" by simp
    then show ?thesis by (simp only: word_unat_eq_iff)
  qed
  then have "\<forall>q. aligned q \<longrightarrow> PGROUNDUP 0x5000 \<le> q \<longrightarrow> q < 0x5800 \<longrightarrow> \<not> present (phys s) p q"
    using s(2) by (auto simp: r)
  from allocuvm_grows [OF s(1) _ k(1,2) this] obtain n s' where "allocuvm s p 0x5000 0x5800 = Ret (n, s')"
      "user_load (phys s') p 0x5008 = (if n = 0x5800 then Some 0 else None)"
    using k(3) by (auto simp: r)
  then show ?thesis using s(1) by blast
qed

text \<open>C11. \<^const>\<open>freevm\<close> never panics and leaks nothing: afterwards every page of kernel memory that still
  has an owner is a page table or a user page of a remaining address space, or was already a page
  of the kernel's own; the remaining processes read what they read before.\<close>

theorem freevm_releases:
  assumes "vm_reach (s, D)" "d \<in> D"
  shows "\<exists>s'. freevm s d = Ret s' \<and> vm_reach (s', D - {d}) \<and>
    (\<forall>f. owned s' f \<longrightarrow> f \<in> all_tabs s' (D - {d}) \<or> umaps (phys s') (D - {d}) f \<noteq> {} \<or> kframe s D f) \<and>
    (\<forall>d' \<in> D - {d}. \<forall>va. user_load (phys s') d' va = user_load (phys s) d' va)"
proof -
  obtain s' where c: "freevm s d = Ret s'" "vm_frame s D s' (D - {d}) {} {}"
    using freevm_spec [OF conjunct1 [OF vm_reach_inv [OF assms(1)]] assms(2)] by blast
  have "f \<in> all_tabs s' (D - {d}) \<or> umaps (phys s') (D - {d}) f \<noteq> {} \<or> kframe s D f" if "owned s' f" for f
    using vm_frameD(10) [OF c(2), of f] that by (auto simp: kframe_def)
  moreover have "user_load (phys s') d' va = user_load (phys s) d' va" if "d' \<in> D - {d}" for d' va
    using that by (intro frame_load [OF c(2)]) auto
  moreover have "vm_reach (s', D - {d})" by (rule reach_step [OF assms(1) vm_step.free [OF assms(2) c(1)]])
  ultimately show ?thesis using c(1) by blast
qed

theorem freevm_releases_witness:
  "\<exists>s p c s'. vm_reach (s, {p, c}) \<and> p \<noteq> c \<and> freevm s p = Ret s' \<and> vm_reach (s', {p, c} - {p}) \<and>
     user_load (phys s') c 8 = user_load (phys s) c 8"
proof -
  obtain s p c where s: "vm_reach (s, {p, c})" "p \<noteq> c" using two_processes by auto
  obtain s' where "freevm s p = Ret s'" "vm_reach (s', {p, c} - {p})" "user_load (phys s') c 8 = user_load (phys s) c 8"
    using freevm_releases [OF s(1), of p] s(2) by auto
  then show ?thesis using s by blast
qed

end
