(* ===== verification/Kern.thy ===== *)
theory Kern
  imports Vm_Props
begin

text \<open>
  The kernel state above the memory: the process table, the open file table, the inode cache and
  the pipes, with \<^verbatim>\<open>sleep\<close> and \<^verbatim>\<open>wakeup\<close> of \<^verbatim>\<open>proc.c\<close>, which every layer above uses. Processes,
  files and inodes are indices of their tables.
\<close>

section \<open>State\<close>

definition NFILE :: nat where "NFILE = 100"
definition NINODE :: nat where "NINODE = 50"
definition NDIRECT :: nat where "NDIRECT = 12"

datatype filetype = FD_NONE | FD_PIPE | FD_INODE

record file_t =
  ftype :: filetype
  fref :: int
  readable :: bool
  writeable :: bool
  fpipe :: u32
  fip :: nat
  foff :: u32

record inode =
  idev :: u32
  inum :: u32
  iref :: int
  ivalid :: bool
  itype :: u16
  imajor :: u16
  iminor :: u16
  inlink :: u16
  isize :: u32
  iaddrs :: "u32 list"

text \<open>A pipe is kept by the address of the page it was allocated in, \<^verbatim>\<open>struct pipe\<close> as a value.\<close>

record pipe =
  pdata :: "u8 list"
  nread :: u32
  nwrite :: u32
  readopen :: bool
  writeopen :: bool

record kern = vmach +
  procs :: "proc list"
  initproc :: "nat option"
  nextpid :: int
  ticks :: u32
  ftable :: "file_t list"
  icache :: "inode list"
  pipes :: "u32 \<Rightarrow> pipe option"

definition setproc :: "nat \<Rightarrow> (proc \<Rightarrow> proc) \<Rightarrow> 'z kern_scheme \<Rightarrow> 'z kern_scheme" where
  "setproc i f s = s\<lparr>procs := (procs s)[i := f (procs s ! i)]\<rparr>"

definition setfile :: "nat \<Rightarrow> (file_t \<Rightarrow> file_t) \<Rightarrow> 'z kern_scheme \<Rightarrow> 'z kern_scheme" where
  "setfile i f s = s\<lparr>ftable := (ftable s)[i := f (ftable s ! i)]\<rparr>"

text \<open>A search over a table: the first index from \<open>i\<close> on whose entry satisfies the condition.\<close>

fun first_from :: "('a \<Rightarrow> bool) \<Rightarrow> 'a list \<Rightarrow> nat \<Rightarrow> nat option" where
  "first_from P [] i = None"
| "first_from P (x # xs) i = (if P x then Some i else first_from P xs (Suc i))"

lemma first_from_Some:
  "first_from P xs i = Some j \<Longrightarrow> i \<le> j \<and> j < i + length xs \<and> P (xs ! (j - i)) \<and> (\<forall>k < j - i. \<not> P (xs ! k))"
proof (induction xs arbitrary: i)
  case (Cons x xs)
  show ?case
  proof (cases "P x")
    case True
    then show ?thesis using Cons.prems by simp
  next
    case False
    then have j: "Suc i \<le> j" "j < Suc i + length xs" "P (xs ! (j - Suc i))" "\<forall>k < j - Suc i. \<not> P (xs ! k)"
      using Cons.IH [of "Suc i"] Cons.prems by auto
    then have e: "j - i = Suc (j - Suc i)" by simp
    have "\<not> P ((x # xs) ! k)" if "k < j - i" for k
      using that j(4) False e by (cases k) auto
    then show ?thesis using j e by auto
  qed
qed simp

lemma first_from_None: "first_from P xs i = None \<longleftrightarrow> (\<forall>x \<in> set xs. \<not> P x)"
  by (induction xs arbitrary: i) auto

lemma first_SomeD:
  "first_from P xs 0 = Some j \<Longrightarrow> j < length xs \<and> P (xs ! j) \<and> (\<forall>k < j. \<not> P (xs ! k))"
  using first_from_Some [of P xs 0 j] by simp

section \<open>Sleeping and waking\<close>

text \<open>
  \<^verbatim>\<open>sleep\<close> in two halves: up to the call of \<^verbatim>\<open>sched\<close>, and after the wake-up. The process is
  marked asleep before the lock it holds is released, all under \<^verbatim>\<open>ptable.lock\<close>.
\<close>

definition sleep_on :: "nat \<Rightarrow> chan_addr \<Rightarrow> 'z kern_scheme \<Rightarrow> 'z kern_scheme" where
  "sleep_on cur ch s = setproc cur (\<lambda>p. p\<lparr>chan := ch, state := SLEEPING\<rparr>) s"

definition sleep_return :: "nat \<Rightarrow> 'z kern_scheme \<Rightarrow> 'z kern_scheme" where
  "sleep_return cur s = setproc cur (\<lambda>p. p\<lparr>chan := NullChan\<rparr>) s"

definition wakeup1 :: "chan_addr \<Rightarrow> 'z kern_scheme \<Rightarrow> 'z kern_scheme" where
  "wakeup1 ch s =
     s\<lparr>procs := map (\<lambda>p. if state p = SLEEPING \<and> chan p = ch then p\<lparr>state := RUNNABLE\<rparr> else p) (procs s)\<rparr>"

definition wakeup :: "chan_addr \<Rightarrow> 'z kern_scheme \<Rightarrow> 'z kern_scheme" where
  "wakeup ch s = wakeup1 ch s"

end
