(* ===== verification/File.thy ===== *)
theory File
  imports Kern
begin

text \<open>
  The open file table of \<^verbatim>\<open>file.c\<close>, as far as it counts references, and the pipes of
  \<^verbatim>\<open>pipe.c\<close>: a ring buffer of 512 bytes with two free-running 32-bit counters. The bytes that a
  reader or writer moves are lists; their copying to and from user memory is not part of this
  theory.
\<close>

section \<open>The open file table\<close>

definition filealloc :: "'z kern_scheme \<Rightarrow> nat option \<times> 'z kern_scheme" where
  "filealloc s =
     (case first_from (\<lambda>f. fref f = 0) (ftable s) 0 of
        None \<Rightarrow> (None, s)
      | Some i \<Rightarrow> (Some i, setfile i (\<lambda>f. f\<lparr>fref := 1\<rparr>) s))"

definition filedup :: "nat \<Rightarrow> 'z kern_scheme \<Rightarrow> 'z kern_scheme res" where
  "filedup f s =
     (if fref (ftable s ! f) < 1 then Panic ''filedup''
      else Ret (setfile f (\<lambda>x. x\<lparr>fref := fref x + 1\<rparr>) s))"

section \<open>Pipes\<close>

definition PIPESIZE :: nat where "PIPESIZE = 512"

definition pipeclose :: "u32 \<Rightarrow> bool \<Rightarrow> 'z kern_scheme \<Rightarrow> 'z kern_scheme res" where
  "pipeclose a wr s =
     (case pipes s a of None \<Rightarrow> Fault
      | Some p \<Rightarrow>
          let p = (if wr then p\<lparr>writeopen := False\<rparr> else p\<lparr>readopen := False\<rparr>);
              s = wakeup (if wr then PipeReadChan a else PipeWriteChan a) (s\<lparr>pipes := (pipes s)(a \<mapsto> p)\<rparr>)
          in if \<not> readopen p \<and> \<not> writeopen p then kfree (s\<lparr>pipes := (pipes s)(a := None)\<rparr>) a
             else Ret s)"

text \<open>
  \<^verbatim>\<open>fileclose\<close>; what the last close does to an inode is an argument: \<open>iput\<close> stands for
  \<^verbatim>\<open>begin_op(); iput(ip); end_op()\<close>.
\<close>

definition fileclose :: "(nat \<Rightarrow> 'z kern_scheme \<Rightarrow> 'z kern_scheme res) \<Rightarrow> nat \<Rightarrow> 'z kern_scheme \<Rightarrow> 'z kern_scheme res" where
  "fileclose iput f s =
     (if fref (ftable s ! f) < 1 then Panic ''fileclose''
      else
        let s = setfile f (\<lambda>x. x\<lparr>fref := fref x - 1\<rparr>) s
        in if fref (ftable s ! f) > 0 then Ret s
           else
             let ff = ftable s ! f;
                 s = setfile f (\<lambda>x. x\<lparr>fref := 0, ftype := FD_NONE\<rparr>) s
             in case ftype ff of
                  FD_PIPE \<Rightarrow> pipeclose (fpipe ff) (writeable ff) s
                | FD_INODE \<Rightarrow> iput (fip ff) s
                | FD_NONE \<Rightarrow> Ret s)"

definition idup :: "nat \<Rightarrow> 'z kern_scheme \<Rightarrow> 'z kern_scheme" where
  "idup ip s = s\<lparr>icache := (icache s)[ip := (icache s ! ip)\<lparr>iref := iref (icache s ! ip) + 1\<rparr>]\<rparr>"

definition pipe_new :: pipe where
  "pipe_new = \<lparr>pdata = replicate PIPESIZE 0, nread = 0, nwrite = 0, readopen = True, writeopen = True\<rparr>"

text \<open>
  \<^verbatim>\<open>pipealloc\<close>: the two files, or none with everything given back. The data bytes of a new pipe
  are whatever the page holds; they are read only after they were written, here they are 0.
\<close>

definition pipealloc_bad :: "(nat \<Rightarrow> 'z kern_scheme \<Rightarrow> 'z kern_scheme res) \<Rightarrow> nat option \<Rightarrow> nat option \<Rightarrow>
    'z kern_scheme \<Rightarrow> 'z kern_scheme res" where
  "pipealloc_bad iput f0 f1 s =
     rbind (case f0 of None \<Rightarrow> Ret s | Some f \<Rightarrow> fileclose iput f s) (\<lambda>s.
       case f1 of None \<Rightarrow> Ret s | Some f \<Rightarrow> fileclose iput f s)"

definition pipealloc :: "(nat \<Rightarrow> 'z kern_scheme \<Rightarrow> 'z kern_scheme res) \<Rightarrow> 'z kern_scheme \<Rightarrow>
    ((nat \<times> nat) option \<times> 'z kern_scheme) res" where
  "pipealloc iput s =
     (let (f0, s) = filealloc s
      in case f0 of None \<Rightarrow> rbind (pipealloc_bad iput None None s) (\<lambda>s. Ret (None, s))
      | Some i \<Rightarrow>
          let (f1, s) = filealloc s
          in case f1 of None \<Rightarrow> rbind (pipealloc_bad iput (Some i) None s) (\<lambda>s. Ret (None, s))
          | Some j \<Rightarrow>
              rbind (kalloc s) (\<lambda>(a, s).
                if a = 0 then rbind (pipealloc_bad iput (Some i) (Some j) s) (\<lambda>s. Ret (None, s))
                else
                  let s = s\<lparr>pipes := (pipes s)(a \<mapsto> pipe_new)\<rparr>;
                      s = setfile i (\<lambda>f. f\<lparr>ftype := FD_PIPE, readable := True, writeable := False, fpipe := a\<rparr>) s;
                      s = setfile j (\<lambda>f. f\<lparr>ftype := FD_PIPE, readable := False, writeable := True, fpipe := a\<rparr>) s
                  in Ret (Some (i, j), s)))"

text \<open>
  \<^verbatim>\<open>pipewrite\<close> from the byte it has reached on: it ends with the count, fails, or goes to sleep
  on a full pipe with the bytes still to be written. \<^verbatim>\<open>piperead\<close> sleeps on an empty pipe.
\<close>

datatype 'a io = Done int 'a | Asleep 'a

definition pipe_full :: "pipe \<Rightarrow> bool" where
  "pipe_full p \<longleftrightarrow> nwrite p = nread p + of_nat PIPESIZE"

definition pipe_put :: "pipe \<Rightarrow> u8 \<Rightarrow> pipe" where
  "pipe_put p b = p\<lparr>pdata := (pdata p)[unat (nwrite p mod of_nat PIPESIZE) := b], nwrite := nwrite p + 1\<rparr>"

definition pipe_get :: "pipe \<Rightarrow> u8 \<times> pipe" where
  "pipe_get p = (pdata p ! unat (nread p mod of_nat PIPESIZE), p\<lparr>nread := nread p + 1\<rparr>)"

fun pipewrite :: "nat \<Rightarrow> u32 \<Rightarrow> int \<Rightarrow> u8 list \<Rightarrow> 'z kern_scheme \<Rightarrow> (u8 list io \<times> 'z kern_scheme) res" where
  "pipewrite cur a n [] s = Ret (Done n [], wakeup (PipeReadChan a) s)"
| "pipewrite cur a n (b # bs) s =
     (case pipes s a of None \<Rightarrow> Fault
      | Some p \<Rightarrow>
          if pipe_full p then
            if \<not> readopen p \<or> killed (procs s ! cur) then Ret (Done (-1) (b # bs), s)
            else Ret (Asleep (b # bs), sleep_on cur (PipeWriteChan a) (wakeup (PipeReadChan a) s))
          else pipewrite cur a n bs (s\<lparr>pipes := (pipes s)(a \<mapsto> pipe_put p b)\<rparr>))"

fun pipe_take :: "nat \<Rightarrow> pipe \<Rightarrow> u8 list \<times> pipe" where
  "pipe_take 0 p = ([], p)"
| "pipe_take (Suc n) p =
     (if nread p = nwrite p then ([], p)
      else let (b, p) = pipe_get p; (bs, p) = pipe_take n p in (b # bs, p))"

definition piperead :: "nat \<Rightarrow> u32 \<Rightarrow> nat \<Rightarrow> 'z kern_scheme \<Rightarrow> (u8 list io \<times> 'z kern_scheme) res" where
  "piperead cur a n s =
     (case pipes s a of None \<Rightarrow> Fault
      | Some p \<Rightarrow>
          if nread p = nwrite p \<and> writeopen p then
            if killed (procs s ! cur) then Ret (Done (-1) [], s)
            else Ret (Asleep [], sleep_on cur (PipeReadChan a) s)
          else
            let (bs, p) = pipe_take n p
            in Ret (Done (int (length bs)) bs, wakeup (PipeWriteChan a) (s\<lparr>pipes := (pipes s)(a \<mapsto> p)\<rparr>)))"

end
