(* ===== verification/Proc.thy ===== *)
theory Proc
  imports File
begin

text \<open>
  The process table of \<^verbatim>\<open>proc.c\<close>: creation, exit, waiting, sleeping, killing and growing. The
  state extends the memory of \<open>Vm\<close> by the table. The current process is an index \<open>cur\<close> of the
  table, as \<^verbatim>\<open>myproc()\<close> finds it. What runs under \<^verbatim>\<open>ptable.lock\<close> is one step. A routine that
  blocks ends where it calls \<^verbatim>\<open>sched\<close>, with the process asleep: \<^verbatim>\<open>wait\<close> is one pass of its
  loop, which runs again after the wake-up. Trap frames are values of the table; the bytes of the
  kernel stacks are not modelled.

  \<^verbatim>\<open>exit\<close> closes files and releases the working directory; what that does to an inode is an
  argument of the model, as in \<open>File\<close>.
\<close>

section \<open>Creation\<close>

definition allocproc :: "'z kern_scheme \<Rightarrow> (nat option \<times> 'z kern_scheme) res" where
  "allocproc s =
     (case first_from (\<lambda>p. state p = UNUSED) (procs s) 0 of
        None \<Rightarrow> Ret (None, s)
      | Some i \<Rightarrow>
          let s = setproc i (\<lambda>p. p\<lparr>state := EMBRYO, pid := nextpid s, trace_enabled := False,
                    vmas := replicate MAX_VMAS vma_zero, priority := DEFAULT_PRIORITY\<rparr>) s;
              s = s\<lparr>nextpid := nextpid s + 1\<rparr>
          in rbind (kalloc s) (\<lambda>(k, s).
            let s = setproc i (\<lambda>p. p\<lparr>kstack := k\<rparr>) s
            in if k = 0 then Ret (None, setproc i (\<lambda>p. p\<lparr>state := UNUSED\<rparr>) s)
               else Ret (Some i, s)))"

definition tf_zero :: trapframe where
  "tf_zero = \<lparr>tf_eax = 0, tf_trapno = 0, tf_err = 0, tf_eip = 0, tf_cs = 0, tf_ds = 0, tf_es = 0,
     tf_ss = 0, tf_eflags = 0, tf_esp = 0\<rparr>"

definition userinit :: "u8 list \<Rightarrow> nat option \<Rightarrow> 'z kern_scheme \<Rightarrow> 'z kern_scheme res" where
  "userinit initcode root s =
     rbind (allocproc s) (\<lambda>(p, s).
       let s = s\<lparr>initproc := p\<rparr>
       in case p of None \<Rightarrow> Fault
       | Some i \<Rightarrow> rbind (setupkvm s) (\<lambda>(d, s).
           let s = setproc i (\<lambda>p. p\<lparr>pgdir := d\<rparr>) s
           in if d = 0 then Panic ''userinit: out of memory?''
           else rbind (inituvm s d initcode) (\<lambda>s.
             Ret (setproc i (\<lambda>p. p\<lparr>psz := PGSIZE,
               tf := tf_zero\<lparr>tf_cs := 0x1B, tf_ds := 0x23, tf_es := 0x23, tf_ss := 0x23,
                 tf_eflags := 0x200, tf_esp := PGSIZE, tf_eip := 0\<rparr>,
               pname := ''initcode'', cwd := root, state := RUNNABLE\<rparr>) s))))"

definition switchuvm :: "'z kern_scheme \<Rightarrow> nat \<Rightarrow> 'z kern_scheme res" where
  "switchuvm s i =
     (if kstack (procs s ! i) = 0 then Panic ''switchuvm: no kstack''
      else if pgdir (procs s ! i) = 0 then Panic ''switchuvm: no pgdir''
      else Ret (lcr3 s (V2P (pgdir (procs s ! i)))))"

definition growproc :: "'z kern_scheme \<Rightarrow> nat \<Rightarrow> int \<Rightarrow> (int \<times> 'z kern_scheme) res" where
  "growproc s cur n =
     (let sz = psz (procs s ! cur); d = pgdir (procs s ! cur)
      in rbind (if n > 0 then allocuvm s d sz (sz + word_of_int n)
                else if n < 0 then deallocuvm s d sz (sz + word_of_int n)
                else Ret (sz, s)) (\<lambda>(sz, s).
        if n \<noteq> 0 \<and> sz = 0 then Ret (-1, s)
        else rbind (switchuvm (setproc cur (\<lambda>p. p\<lparr>psz := sz\<rparr>) s) cur) (\<lambda>s. Ret (0, s))))"

fun fork_files :: "nat \<Rightarrow> nat \<Rightarrow> nat list \<Rightarrow> 'z kern_scheme \<Rightarrow> 'z kern_scheme res" where
  "fork_files cur np [] s = Ret s"
| "fork_files cur np (i # is) s =
     (case ofile (procs s ! cur) ! i of
        None \<Rightarrow> fork_files cur np is s
      | Some f \<Rightarrow> rbind (filedup f s) (\<lambda>s.
          fork_files cur np is (setproc np (\<lambda>p. p\<lparr>ofile := (ofile p)[i := Some f]\<rparr>) s)))"

definition fork :: "'z kern_scheme \<Rightarrow> nat \<Rightarrow> (int \<times> 'z kern_scheme) res" where
  "fork s cur =
     rbind (allocproc s) (\<lambda>(np, s). case np of
       None \<Rightarrow> Ret (-1, s)
     | Some np \<Rightarrow>
         rbind (copyuvm s (pgdir (procs s ! cur)) (psz (procs s ! cur))) (\<lambda>(d, s).
           let s = setproc np (\<lambda>p. p\<lparr>pgdir := d\<rparr>) s
           in if d = 0 then
                rbind (kfree s (kstack (procs s ! np))) (\<lambda>s.
                  Ret (-1, setproc np (\<lambda>p. p\<lparr>kstack := 0, state := UNUSED\<rparr>) s))
              else
                let c = procs s ! cur;
                    s = setproc np (\<lambda>p. p\<lparr>psz := psz c, vmas := vmas c, parent := Some cur,
                          tf := (tf c)\<lparr>tf_eax := 0\<rparr>, trace_enabled := trace_enabled c,
                          priority := priority c\<rparr>) s
                in rbind (fork_files cur np [0..<NOFILE] s) (\<lambda>s.
                  case cwd (procs s ! cur) of None \<Rightarrow> Fault
                  | Some ip \<Rightarrow>
                      let s = setproc np (\<lambda>p. p\<lparr>cwd := Some ip\<rparr>) (idup ip s);
                          s = setproc np (\<lambda>p. p\<lparr>pname := take 15 (pname (procs s ! cur))\<rparr>) s
                      in Ret (pid (procs s ! np), setproc np (\<lambda>p. p\<lparr>state := RUNNABLE\<rparr>) s))))"

section \<open>Yielding and killing\<close>

definition yield :: "'z kern_scheme \<Rightarrow> nat \<Rightarrow> 'z kern_scheme" where
  "yield s cur = setproc cur (\<lambda>p. p\<lparr>state := RUNNABLE\<rparr>) s"

definition proc_kill :: "'z kern_scheme \<Rightarrow> int \<Rightarrow> int \<times> 'z kern_scheme" where
  "proc_kill s n =
     (case first_from (\<lambda>p. pid p = n) (procs s) 0 of
        None \<Rightarrow> (-1, s)
      | Some i \<Rightarrow> (0, setproc i (\<lambda>p. p\<lparr>killed := True,
          state := (if state p = SLEEPING then RUNNABLE else state p)\<rparr>) s))"

section \<open>Exit and wait\<close>

fun exit_files :: "(nat \<Rightarrow> 'z kern_scheme \<Rightarrow> 'z kern_scheme res) \<Rightarrow> nat \<Rightarrow> nat list \<Rightarrow>
    'z kern_scheme \<Rightarrow> 'z kern_scheme res" where
  "exit_files iput cur [] s = Ret s"
| "exit_files iput cur (fd # fds) s =
     (case ofile (procs s ! cur) ! fd of
        None \<Rightarrow> exit_files iput cur fds s
      | Some f \<Rightarrow> rbind (fileclose iput f s) (\<lambda>s.
          exit_files iput cur fds (setproc cur (\<lambda>p. p\<lparr>ofile := (ofile p)[fd := None]\<rparr>) s)))"

definition chan_of :: "nat option \<Rightarrow> chan_addr" where
  "chan_of p = (case p of None \<Rightarrow> NullChan | Some i \<Rightarrow> ProcChan i)"

fun exit_reparent :: "nat \<Rightarrow> nat list \<Rightarrow> 'z kern_scheme \<Rightarrow> 'z kern_scheme" where
  "exit_reparent cur [] s = s"
| "exit_reparent cur (i # is) s =
     (if parent (procs s ! i) = Some cur then
        let s = setproc i (\<lambda>p. p\<lparr>parent := initproc s\<rparr>) s;
            s = (if state (procs s ! i) = ZOMBIE then wakeup1 (chan_of (initproc s)) s else s)
        in exit_reparent cur is s
      else exit_reparent cur is s)"

text \<open>\<open>iput\<close> stands for \<^verbatim>\<open>begin_op(); iput(ip); end_op()\<close>.\<close>

definition proc_exit :: "(nat \<Rightarrow> 'z kern_scheme \<Rightarrow> 'z kern_scheme res) \<Rightarrow> 'z kern_scheme \<Rightarrow> nat \<Rightarrow> 'z kern_scheme res" where
  "proc_exit iput s cur =
     (if initproc s = Some cur then Panic ''init exiting''
      else rbind (exit_files iput cur [0..<NOFILE] s) (\<lambda>s.
        case cwd (procs s ! cur) of None \<Rightarrow> Fault
        | Some ip \<Rightarrow> rbind (iput ip s) (\<lambda>s.
            let s = setproc cur (\<lambda>p. p\<lparr>cwd := None\<rparr>) s;
                s = wakeup1 (chan_of (parent (procs s ! cur))) s;
                s = exit_reparent cur [0..<NPROC] s
            in Ret (setproc cur (\<lambda>p. p\<lparr>state := ZOMBIE\<rparr>) s))))"

text \<open>The scan of \<^verbatim>\<open>wait\<close>: \<open>Inr pid\<close> where it reaps a child, \<open>Inl havekids\<close> at the end of the table.\<close>

fun wait_scan :: "nat \<Rightarrow> nat list \<Rightarrow> bool \<Rightarrow> 'z kern_scheme \<Rightarrow> ((bool + int) \<times> 'z kern_scheme) res" where
  "wait_scan cur [] havekids s = Ret (Inl havekids, s)"
| "wait_scan cur (i # is) havekids s =
     (if parent (procs s ! i) \<noteq> Some cur then wait_scan cur is havekids s
      else if state (procs s ! i) = ZOMBIE then
        let n = pid (procs s ! i)
        in rbind (kfree s (kstack (procs s ! i))) (\<lambda>s.
          rbind (freevm (setproc i (\<lambda>p. p\<lparr>kstack := 0\<rparr>) s) (pgdir (procs s ! i))) (\<lambda>s.
            Ret (Inr n, setproc i (\<lambda>p. p\<lparr>pid := 0, parent := None, pname := [], killed := False,
              state := UNUSED\<rparr>) s)))
      else wait_scan cur is True s)"

text \<open>One pass of the loop of \<^verbatim>\<open>wait\<close>: the result, or \<open>None\<close> where the process goes to sleep.\<close>

definition proc_wait :: "'z kern_scheme \<Rightarrow> nat \<Rightarrow> (int option \<times> 'z kern_scheme) res" where
  "proc_wait s cur =
     rbind (wait_scan cur [0..<NPROC] False s) (\<lambda>(r, s). case r of
       Inr n \<Rightarrow> Ret (Some n, s)
     | Inl havekids \<Rightarrow>
         if \<not> havekids \<or> killed (procs s ! cur) then Ret (Some (-1), s)
         else Ret (None, sleep_on cur (ProcChan cur) s))"

section \<open>Priorities\<close>

definition setprio :: "'z kern_scheme \<Rightarrow> nat \<Rightarrow> int \<Rightarrow> int \<times> 'z kern_scheme" where
  "setprio s cur prio =
     (if prio < 1 \<or> prio > MAX_PRIORITY then (-1, s)
      else (0, setproc cur (\<lambda>p. p\<lparr>priority := prio\<rparr>) s))"

definition getprio :: "'z kern_scheme \<Rightarrow> nat \<Rightarrow> int" where
  "getprio s cur = priority (procs s ! cur)"

end
