(* ===== verification/Proc_Inv.thy ===== *)
theory Proc_Inv
  imports Proc
begin

text \<open>
  The invariant of the process table over the memory below it: every process owns its page
  directory, its kernel stack and its pid alone, the directories of the table are exactly the live
  address spaces of the memory invariant, and the kernel's own pages are exactly the kernel stacks
  and the pipes. Every routine of \<^verbatim>\<open>proc.c\<close> keeps it.
\<close>

section \<open>Memory facts do not depend on the tables\<close>

definition mcore :: "'z kmem_scheme \<Rightarrow> pmem \<times> u32 \<times> (nat \<Rightarrow> int) \<times> u32" where
  "mcore s = (phys s, freelist s, refcnt s, kend s)"

lemma mcore_D:
  assumes "mcore s' = mcore s"
  shows "phys s' = phys s" "freelist s' = freelist s" "refcnt s' = refcnt s" "kend s' = kend s"
  using assms by (simp_all add: mcore_def)

lemma mcore_cong:
  assumes "mcore s' = mcore s"
  shows "vm_inv s' D = vm_inv s D" "kframe s' D f = kframe s D f" "refs s' f = refs s f"
    "free_pages s' n = free_pages s n"
proof -
  note e = mcore_D [OF assms]
  note c = kpage_cong [OF e(4)] owned_cong [OF e(4,3)] sole_cong [OF e(4,3)]
  have a: "all_tabs s' D = all_tabs s D" by (simp add: all_tabs_def e)
  have r: "kmem_rel s' xs = kmem_rel s xs" for xs by (simp only: kmem_rel_def e c)
  show "refs s' f = refs s f" by (simp only: refs_def e)
  then show "vm_inv s' D = vm_inv s D"
    by (simp only: vm_inv_def kmem_inv_def r tables_ok_def c e a refs_def)
  show "kframe s' D f = kframe s D f" by (simp only: kframe_def c a e)
  show "free_pages s' n = free_pages s n" by (simp only: free_pages_def r)
qed

lemma mcore_upd [simp]:
  "mcore (setproc i g s) = mcore s" "mcore (setfile i h s) = mcore s" "mcore (idup ip s) = mcore s"
  "mcore (wakeup1 ch s) = mcore s" "mcore (wakeup ch s) = mcore s" "mcore (sleep_on i ch s) = mcore s"
  "mcore (lcr3 s v) = mcore s" "mcore (s\<lparr>pipes := ps\<rparr>) = mcore s" "mcore (s\<lparr>nextpid := n\<rparr>) = mcore s"
  "mcore (s\<lparr>procs := qs\<rparr>) = mcore s" "mcore (s\<lparr>ticks := t\<rparr>) = mcore s" "mcore (s\<lparr>ftable := ft\<rparr>) = mcore s"
  "mcore (s\<lparr>initproc := ip'\<rparr>) = mcore s" "mcore (s\<lparr>kpgdir := d\<rparr>) = mcore s"
  by (simp_all add: mcore_def setproc_def setfile_def idup_def wakeup1_def wakeup_def sleep_on_def lcr3_def)

lemma setproc_sel [simp]:
  "kdata (setproc i g s) = kdata s" "kpgdir (setproc i g s) = kpgdir s" "initproc (setproc i g s) = initproc s"
  "nextpid (setproc i g s) = nextpid s" "ticks (setproc i g s) = ticks s" "ftable (setproc i g s) = ftable s"
  "icache (setproc i g s) = icache s" "pipes (setproc i g s) = pipes s"
  "procs (setproc i g s) = (procs s)[i := g (procs s ! i)]"
  "phys (setproc i g s) = phys s" "freelist (setproc i g s) = freelist s" "refcnt (setproc i g s) = refcnt s"
  "kend (setproc i g s) = kend s" "cr3 (setproc i g s) = cr3 s"
  by (simp_all add: setproc_def)

lemma kern_more:
  assumes "vmach.more s' = vmach.more s"
  shows "procs s' = procs s" "initproc s' = initproc s" "nextpid s' = nextpid s" "ticks s' = ticks s"
    "ftable s' = ftable s" "icache s' = icache s" "pipes s' = pipes s" "kern.more s' = kern.more s"
  using assms by (cases s, cases s', simp)+

lemma kmem_more:
  assumes "kmem.more s' = kmem.more s"
  shows "kdata s' = kdata s" "kpgdir s' = kpgdir s" "vmach.more s' = vmach.more s"
  using more_fields [OF assms] by simp_all

section \<open>The invariant\<close>

definition used :: "proc \<Rightarrow> bool" where
  "used p \<longleftrightarrow> state p \<noteq> UNUSED"

definition dirs :: "'z kern_scheme \<Rightarrow> u32 set" where
  "dirs s = insert (kpgdir s) (pgdir ` {p \<in> set (procs s). used p})"

definition kpages_of :: "'z kern_scheme \<Rightarrow> u32 set" where
  "kpages_of s = kstack ` {p \<in> set (procs s). used p} \<union> dom (pipes s)"

definition proc_ok :: "'z kern_scheme \<Rightarrow> proc \<Rightarrow> bool" where
  "proc_ok s p \<longleftrightarrow> length (ofile p) = NOFILE \<and> length (vmas p) = MAX_VMAS \<and>
     (used p \<longrightarrow> state p \<noteq> EMBRYO \<and> pgdir p \<noteq> kpgdir s \<and> kstack p \<notin> dom (pipes s) \<and> 0 < pid p \<and>
        pid p < nextpid s \<and> 1 \<le> priority p \<and> priority p \<le> MAX_PRIORITY \<and> psz p \<le> KERNBASE)"

definition key :: "proc \<Rightarrow> bool \<times> u32 \<times> u32 \<times> int" where
  "key p = (if used p then (True, pgdir p, kstack p, pid p) else (False, 0, 0, 0))"

definition proc_inv :: "'z kern_scheme \<Rightarrow> bool" where
  "proc_inv s \<longleftrightarrow>
     length (procs s) = NPROC \<and> 0 < nextpid s \<and> kdata_ok (kdata s) \<and> vm_inv s (dirs s) \<and>
     (\<forall>f. kframe s (dirs s) f \<longleftrightarrow> f \<in> V2P ` kpages_of s) \<and>
     (\<forall>a \<in> kpages_of s. refs s (V2P a) = 1) \<and>
     (\<forall>i < NPROC. proc_ok s (procs s ! i)) \<and>
     (\<forall>i < NPROC. \<forall>j < NPROC. i \<noteq> j \<longrightarrow> used (procs s ! i) \<longrightarrow> used (procs s ! j) \<longrightarrow>
        pgdir (procs s ! i) \<noteq> pgdir (procs s ! j) \<and> kstack (procs s ! i) \<noteq> kstack (procs s ! j) \<and>
        pid (procs s ! i) \<noteq> pid (procs s ! j))"

lemma proc_invD:
  assumes "proc_inv s"
  shows "length (procs s) = NPROC" "0 < nextpid s" "kdata_ok (kdata s)" "vm_inv s (dirs s)"
    "\<And>f. kframe s (dirs s) f \<longleftrightarrow> f \<in> V2P ` kpages_of s" "\<And>a. a \<in> kpages_of s \<Longrightarrow> refs s (V2P a) = 1"
    "\<And>i. i < NPROC \<Longrightarrow> proc_ok s (procs s ! i)"
    "\<And>i j. i < NPROC \<Longrightarrow> j < NPROC \<Longrightarrow> i \<noteq> j \<Longrightarrow> used (procs s ! i) \<Longrightarrow> used (procs s ! j) \<Longrightarrow>
       pgdir (procs s ! i) \<noteq> pgdir (procs s ! j) \<and> kstack (procs s ! i) \<noteq> kstack (procs s ! j) \<and>
       pid (procs s ! i) \<noteq> pid (procs s ! j)"
  using assms unfolding proc_inv_def by blast+

lemma key_D:
  assumes "key p = key q"
  shows "used p = used q" "used q \<Longrightarrow> pgdir p = pgdir q \<and> kstack p = kstack q \<and> pid p = pid q"
  using assms by (auto simp: key_def split: if_splits)

lemma key_images:
  assumes "map key ps = map key qs"
  shows "pgdir ` {p \<in> set ps. used p} = pgdir ` {p \<in> set qs. used p}"
    "kstack ` {p \<in> set ps. used p} = kstack ` {p \<in> set qs. used p}"
proof -
  have l: "length ps = length qs" using assms by (metis length_map)
  have k: "key (ps ! i) = key (qs ! i)" if "i < length qs" for i
    using that l arg_cong [OF assms, of "\<lambda>xs. xs ! i"] by simp
  have u: "{p \<in> set xs. used p} = (\<lambda>i. xs ! i) ` {i. i < length xs \<and> used (xs ! i)}" for xs :: "proc list"
    by (auto simp: set_conv_nth)
  have ix: "{i. i < length ps \<and> used (ps ! i)} = {i. i < length qs \<and> used (qs ! i)}"
    using l by (intro Collect_cong conj_cong key_D(1) k) auto
  have e: "pgdir (ps ! i) = pgdir (qs ! i)" "kstack (ps ! i) = kstack (qs ! i)"
    if "i \<in> {i. i < length qs \<and> used (qs ! i)}" for i
    using key_D(2) [OF k, of i] that by auto
  show "pgdir ` {p \<in> set ps. used p} = pgdir ` {p \<in> set qs. used p}"
      "kstack ` {p \<in> set ps. used p} = kstack ` {p \<in> set qs. used p}"
    unfolding u ix image_image by (auto intro!: image_cong e simp del: mem_Collect_eq)
qed

text \<open>Changes that keep who owns what.\<close>

lemma proc_inv_gen:
  assumes inv: "proc_inv s" and k: "map key (procs s') = map key (procs s)"
    and ok: "\<And>i. i < NPROC \<Longrightarrow> proc_ok s' (procs s' ! i)"
    and v: "vm_inv s' (dirs s)" and kf: "\<And>f. kframe s' (dirs s) f \<longleftrightarrow> kframe s (dirs s) f"
    and rf: "\<And>a. a \<in> kpages_of s \<Longrightarrow> refs s' (V2P a) = 1"
    and eq: "kdata s' = kdata s" "kpgdir s' = kpgdir s" "pipes s' = pipes s" "0 < nextpid s'"
  shows "proc_inv s'" "dirs s' = dirs s"
proof -
  note im = key_images [OF k]
  show d: "dirs s' = dirs s" by (simp add: dirs_def im eq)
  have kp: "kpages_of s' = kpages_of s" by (simp add: kpages_of_def im eq)
  have l: "length (procs s') = NPROC" using arg_cong [OF k, of length] proc_invD(1) [OF inv] by simp
  have kk: "key (procs s' ! i) = key (procs s ! i)" if "i < NPROC" for i
    using that l proc_invD(1) [OF inv] arg_cong [OF k, of "\<lambda>xs. xs ! i"] by simp
  have "pgdir (procs s' ! i) \<noteq> pgdir (procs s' ! j) \<and> kstack (procs s' ! i) \<noteq> kstack (procs s' ! j) \<and>
      pid (procs s' ! i) \<noteq> pid (procs s' ! j)"
    if "i < NPROC" "j < NPROC" "i \<noteq> j" "used (procs s' ! i)" "used (procs s' ! j)" for i j
    using proc_invD(8) [OF inv that(1-3)] that key_D [OF kk [OF that(1)]] key_D [OF kk [OF that(2)]] by simp
  then show "proc_inv s'"
    using proc_invD(3,5) [OF inv] l ok v rf unfolding proc_inv_def d kp kf eq(1) by (simp add: eq(4))
qed

lemma proc_inv_keys:
  assumes inv: "proc_inv s" and k: "map key (procs s') = map key (procs s)"
    and ok: "\<And>i. i < NPROC \<Longrightarrow> proc_ok s' (procs s' ! i)"
    and eq: "mcore s' = mcore s" "kdata s' = kdata s" "kpgdir s' = kpgdir s" "pipes s' = pipes s" "0 < nextpid s'"
  shows "proc_inv s'" "dirs s' = dirs s"
proof -
  have v: "vm_inv s' (dirs s)" using proc_invD(4) [OF inv] mcore_cong(1) [OF eq(1)] by simp
  have rf: "refs s' (V2P a) = 1" if "a \<in> kpages_of s" for a
    using proc_invD(6) [OF inv that] mcore_cong(3) [OF eq(1)] by simp
  note g = proc_inv_gen [OF inv k ok v mcore_cong(2) [OF eq(1)] rf eq(2-5)]
  show "proc_inv s'" "dirs s' = dirs s" by (rule g(1), simp_all) (rule g(2), simp_all)
qed

lemma key_map_upd: "key (g (ps ! i)) = key (ps ! i) \<Longrightarrow> map key (ps[i := g (ps ! i)]) = map key ps"
  by (cases "i < length ps") (auto intro!: nth_equalityI simp: nth_list_update)

lemma proc_inv_setproc:
  assumes inv: "proc_inv s" and k: "key (g (procs s ! i)) = key (procs s ! i)"
    and ok: "proc_ok s (procs s ! i) \<Longrightarrow> proc_ok s (g (procs s ! i))"
  shows "proc_inv (setproc i g s)"
proof (rule proc_inv_keys [OF inv])
  show "map key (procs (setproc i g s)) = map key (procs s)" by (simp add: key_map_upd k)
  fix j assume j: "j < NPROC"
  have e: "proc_ok (setproc i g s) = proc_ok s" by (simp add: proc_ok_def fun_eq_iff)
  show "proc_ok (setproc i g s) (procs (setproc i g s) ! j)"
    unfolding e using proc_invD(7) [OF inv j] ok j proc_invD(1) [OF inv]
    by (cases "i = j") simp_all
qed (use proc_invD(2) [OF inv] in simp_all)

lemma proc_ok_cong:
  "nextpid s \<le> nextpid s' \<Longrightarrow> kpgdir s' = kpgdir s \<Longrightarrow> pipes s' = pipes s \<Longrightarrow> proc_ok s p \<Longrightarrow> proc_ok s' p"
  by (auto simp: proc_ok_def)

text \<open>Changes of memory that keep the address spaces and the kernel's pages.\<close>

lemma proc_inv_mem:
  assumes inv: "proc_inv s" and v: "vm_inv s' (dirs s)" and f: "vm_frame s (dirs s) s' (dirs s) C {}"
  shows "proc_inv s'" "procs s' = procs s" "dirs s' = dirs s"
proof -
  note m = kern_more [OF vm_frameD(4) [OF f]]
  show p: "procs s' = procs s" by (rule m)
  have eq: "kdata s' = kdata s" "kpgdir s' = kpgdir s" using vm_frameD [OF f] by auto
  have k: "kframe s' (dirs s) g \<longleftrightarrow> kframe s (dirs s) g" for g using vm_frameD(7,10) [OF f] by blast
  have r: "refs s' (V2P a) = 1" if "a \<in> kpages_of s" for a
    using vm_frameD(8) [OF f, of "V2P a"] proc_invD(5,6) [OF inv] that by auto
  have ok: "proc_ok s' (procs s' ! i)" if "i < NPROC" for i
    using proc_invD(7) [OF inv that] by (simp add: proc_ok_def m eq)
  have "map key (procs s') = map key (procs s)" "0 < nextpid s'" using proc_invD(2) [OF inv] by (simp_all add: m)
  note g = proc_inv_gen [OF inv this(1) ok v k r eq m(7) this(2)]
  show "proc_inv s'" "dirs s' = dirs s" by (rule g(1), simp_all) (rule g(2), simp_all)
qed

section \<open>References to open files\<close>

definition fdrefs :: "'z kern_scheme \<Rightarrow> nat \<Rightarrow> (nat \<times> nat) set" where
  "fdrefs s f = {(i, fd). i < NPROC \<and> fd < NOFILE \<and> ofile (procs s ! i) ! fd = Some f}"

definition files_exact :: "'z kern_scheme \<Rightarrow> bool" where
  "files_exact s \<longleftrightarrow> length (ftable s) = NFILE \<and> length (procs s) = NPROC \<and>
     (\<forall>i < NPROC. length (ofile (procs s ! i)) = NOFILE) \<and>
     (\<forall>f < NFILE. fref (ftable s ! f) = int (card (fdrefs s f))) \<and>
     (\<forall>i < NPROC. \<forall>fd < NOFILE. \<forall>f. ofile (procs s ! i) ! fd = Some f \<longrightarrow> f < NFILE)"

definition active :: "proc \<Rightarrow> bool" where
  "active p \<longleftrightarrow> used p \<and> state p \<noteq> ZOMBIE"

definition files_inv :: "'z kern_scheme \<Rightarrow> bool" where
  "files_inv s \<longleftrightarrow> files_exact s \<and>
     (\<forall>i < NPROC. if active (procs s ! i) then cwd (procs s ! i) \<noteq> None
        else \<forall>fd < NOFILE. ofile (procs s ! i) ! fd = None)"

lemma files_exact_cong:
  assumes "files_exact s" "ftable s' = ftable s" "length (procs s') = NPROC"
    "\<And>i. i < NPROC \<Longrightarrow> ofile (procs s' ! i) = ofile (procs s ! i)"
  shows "files_exact s'"
proof -
  have "fdrefs s' f = fdrefs s f" for f using assms(4) by (auto simp: fdrefs_def)
  then show ?thesis using assms by (simp add: files_exact_def)
qed

lemma files_inv_cong:
  assumes "files_inv s" "ftable s' = ftable s" "length (procs s') = NPROC"
    "\<And>i. i < NPROC \<Longrightarrow> ofile (procs s' ! i) = ofile (procs s ! i) \<and> active (procs s' ! i) = active (procs s ! i) \<and>
       (active (procs s ! i) \<longrightarrow> cwd (procs s' ! i) = cwd (procs s ! i))"
  shows "files_inv s'"
proof -
  have "files_exact s'" using assms by (intro files_exact_cong [of s s']) (auto simp: files_inv_def)
  moreover have "if active (procs s' ! i) then cwd (procs s' ! i) \<noteq> None else \<forall>fd < NOFILE. ofile (procs s' ! i) ! fd = None"
    if "i < NPROC" for i
    using assms(4) [OF that] assms(1) that by (auto simp: files_inv_def)
  ultimately show ?thesis by (simp add: files_inv_def)
qed

lemma finite_fdrefs [simp]: "finite (fdrefs s f)"
  by (rule finite_subset [of _ "{..<NPROC} \<times> {..<NOFILE}"]) (auto simp: fdrefs_def)

lemma fdrefs_upd:
  assumes "length (procs s) = NPROC" "length (ofile (procs s ! i)) = NOFILE" "i < NPROC" "fd < NOFILE"
    "procs s' = (procs s)[i := (procs s ! i)\<lparr>ofile := (ofile (procs s ! i))[fd := v]\<rparr>]"
  shows "fdrefs s' g = (if v = Some g then insert (i, fd) (fdrefs s g) else fdrefs s g - {(i, fd)})"
  using assms by (auto simp: fdrefs_def nth_list_update split: if_splits)

text \<open>Reference counts may have grown; which files are open, and as what, has not changed.\<close>

definition same_file :: "file_t \<Rightarrow> file_t \<Rightarrow> bool" where
  "same_file x y \<longleftrightarrow> y = x\<lparr>fref := fref y\<rparr> \<and> (0 < fref y \<longleftrightarrow> 0 < fref x) \<and> (fref y = 0 \<longleftrightarrow> fref x = 0)"

abbreviation same_files :: "file_t list \<Rightarrow> file_t list \<Rightarrow> bool" where
  "same_files \<equiv> list_all2 same_file"

lemma same_file_refl [simp]: "same_file x x"
  by (simp add: same_file_def)

lemma same_files_refl [simp]: "same_files ft ft"
  by (simp add: list_all2_conv_all_nth)

lemma same_file_trans:
  assumes "same_file x y" "same_file y z"
  shows "same_file x z"
proof -
  have "z = (x\<lparr>fref := fref y\<rparr>)\<lparr>fref := fref z\<rparr>" using assms unfolding same_file_def by metis
  then show ?thesis using assms by (simp add: same_file_def)
qed

lemma same_files_trans: "same_files x y \<Longrightarrow> same_files y z \<Longrightarrow> same_files x z"
  using same_file_trans by (rule list_all2_trans)

lemma same_files_upd:
  assumes "0 < fref (ft ! f)"
  shows "same_files ft (ft[f := (ft ! f)\<lparr>fref := fref (ft ! f) + 1\<rparr>])"
proof -
  have "same_file (ft ! i) (ft[f := (ft ! f)\<lparr>fref := fref (ft ! f) + 1\<rparr>] ! i)" if "i < length ft" for i
    using that assms by (cases "i = f") (simp_all add: same_file_def)
  then show ?thesis by (simp add: list_all2_conv_all_nth)
qed

lemma fork_files_spec:
  assumes "files_exact s" "cur < NPROC" "np < NPROC" "np \<noteq> cur" "distinct is" "set is \<subseteq> {..<NOFILE}"
    "\<forall>fd \<in> set is. ofile (procs s ! np) ! fd = None"
  shows "\<exists>s' os. fork_files cur np is s = Ret s' \<and> files_exact s' \<and> same_files (ftable s) (ftable s') \<and> length os = NOFILE \<and>
    s' = s\<lparr>ftable := ftable s', procs := (procs s)[np := (procs s ! np)\<lparr>ofile := os\<rparr>]\<rparr> \<and>
    (\<forall>fd < NOFILE. os ! fd = (if fd \<in> set is then ofile (procs s ! cur) ! fd else ofile (procs s ! np) ! fd))"
  using assms
proof (induction "is" arbitrary: s)
  case Nil
  then show ?case
    by (intro exI [of _ s] exI [of _ "ofile (procs s ! np)"]) (simp add: files_exact_def)
next
  case (Cons i "is")
  have l: "length (procs s) = NPROC" "length (ofile (procs s ! np)) = NOFILE" "i < NOFILE"
    using Cons.prems by (auto simp: files_exact_def)
  show ?case
  proof (cases "ofile (procs s ! cur) ! i")
    case None
    have "\<exists>s' os. fork_files cur np is s = Ret s' \<and> files_exact s' \<and> same_files (ftable s) (ftable s') \<and> length os = NOFILE \<and>
        s' = s\<lparr>ftable := ftable s', procs := (procs s)[np := (procs s ! np)\<lparr>ofile := os\<rparr>]\<rparr> \<and>
        (\<forall>fd < NOFILE. os ! fd = (if fd \<in> set is then ofile (procs s ! cur) ! fd else ofile (procs s ! np) ! fd))"
      by (rule Cons.IH) (use Cons.prems in auto)
    moreover have "ofile (procs s ! np) ! i = ofile (procs s ! cur) ! i" using Cons.prems(7) None by simp
    then have "(if fd \<in> set is then ofile (procs s ! cur) ! fd else ofile (procs s ! np) ! fd) =
        (if fd \<in> set (i # is) then ofile (procs s ! cur) ! fd else ofile (procs s ! np) ! fd)" for fd by simp
    ultimately show ?thesis unfolding fork_files.simps None option.case by simp
  next
    case (Some f)
    let ?p = "(procs s ! np)\<lparr>ofile := (ofile (procs s ! np))[i := Some f]\<rparr>"
    define s1 where "s1 = setproc np (\<lambda>p. p\<lparr>ofile := (ofile p)[i := Some f]\<rparr>) (setfile f (\<lambda>x. x\<lparr>fref := fref x + 1\<rparr>) s)"
    have p1: "procs s1 = (procs s)[np := ?p]" and f1: "ftable s1 = (ftable s)[f := (ftable s ! f)\<lparr>fref := fref (ftable s ! f) + 1\<rparr>]"
      by (simp_all add: s1_def setfile_def)
    have f: "f < NFILE" using Cons.prems(1,2) Some l(3) by (auto simp: files_exact_def)
    have "(cur, i) \<in> fdrefs s f" using Some Cons.prems(2) l(3) by (simp add: fdrefs_def)
    then have "0 < card (fdrefs s f)" by (auto simp: card_gt_0_iff)
    then have pos: "\<not> fref (ftable s ! f) < 1" using Cons.prems(1) f by (auto simp: files_exact_def)
    note fd = fdrefs_upd [OF l(1,2) Cons.prems(3) l(3) p1]
    have nin: "(np, i) \<notin> fdrefs s g" for g using Cons.prems(7) by (simp add: fdrefs_def)
    have "files_exact s1"
      unfolding files_exact_def
    proof (intro conjI allI impI)
      fix g assume "g < NFILE"
      then show "fref (ftable s1 ! g) = int (card (fdrefs s1 g))"
        using Cons.prems(1) f nin unfolding fd f1 files_exact_def by (auto simp: nth_list_update)
    qed (use Cons.prems(1,3) l f p1 f1 in \<open>auto simp: files_exact_def nth_list_update split: if_splits\<close>)
    moreover have "\<forall>fd \<in> set is. ofile (procs s1 ! np) ! fd = None"
      using Cons.prems(3,5,7) l by (auto simp: p1 nth_list_update)
    ultimately obtain s' os where s': "fork_files cur np is s1 = Ret s'" "files_exact s'" "length os = NOFILE"
        "s' = s1\<lparr>ftable := ftable s', procs := (procs s1)[np := (procs s1 ! np)\<lparr>ofile := os\<rparr>]\<rparr>"
        "\<forall>fd < NOFILE. os ! fd = (if fd \<in> set is then ofile (procs s1 ! cur) ! fd else ofile (procs s1 ! np) ! fd)"
        "same_files (ftable s1) (ftable s')"
      using Cons.IH [of s1] Cons.prems by auto
    have "same_files (ftable s) (ftable s1)" unfolding f1 by (rule same_files_upd) (use pos in simp)
    note sf = same_files_trans [OF this s'(6)]
    have "fork_files cur np (i # is) s = Ret s'" using s'(1) Some pos by (simp add: filedup_def s1_def)
    moreover have "s' = s\<lparr>ftable := ftable s', procs := (procs s)[np := (procs s ! np)\<lparr>ofile := os\<rparr>]\<rparr>"
      using s'(4) l(1) Cons.prems(3) by (subst s'(4)) (simp add: s1_def setproc_def setfile_def)
    moreover have "\<forall>fd < NOFILE. os ! fd =
        (if fd \<in> set (i # is) then ofile (procs s ! cur) ! fd else ofile (procs s ! np) ! fd)"
      using s'(5) l Cons.prems(3,4) Some by (auto simp: p1 nth_list_update)
    ultimately show ?thesis using s'(2,3) sf by blast
  qed
qed

section \<open>Slots of the table\<close>

lemma used_set_upd:
  assumes "i < length ps" "\<not> used (ps ! i)"
  shows "{p \<in> set (ps[i := q]). used p} = (if used q then insert q {p \<in> set ps. used p} else {p \<in> set ps. used p})"
proof -
  have "{p \<in> set (ps[i := q]). used p} = {(ps[i := q]) ! j |j. j < length ps \<and> used ((ps[i := q]) ! j)}"
    by (auto simp: set_conv_nth)
  also have "\<dots> = (if used q then insert q {ps ! j |j. j < length ps \<and> used (ps ! j)}
      else {ps ! j |j. j < length ps \<and> used (ps ! j)})"
    using assms by (auto simp: nth_list_update split: if_splits)
  also have "{ps ! j |j. j < length ps \<and> used (ps ! j)} = {p \<in> set ps. used p}" by (auto simp: set_conv_nth)
  finally show ?thesis .
qed

lemma used_dir: "proc_inv s \<Longrightarrow> i < NPROC \<Longrightarrow> used (procs s ! i) \<Longrightarrow> pgdir (procs s ! i) \<in> dirs s"
  using proc_invD(1) by (force simp: dirs_def)

lemma used_stack:
  assumes "proc_inv s" "i < NPROC" "used (procs s ! i)"
  shows "kstack (procs s ! i) \<in> kpages_of s" "kframe s (dirs s) (V2P (kstack (procs s ! i)))"
    "refs s (V2P (kstack (procs s ! i))) = 1" "kstack (procs s ! i) \<noteq> 0"
proof -
  show k: "kstack (procs s ! i) \<in> kpages_of s" using assms proc_invD(1) [OF assms(1)] by (force simp: kpages_of_def)
  show f: "kframe s (dirs s) (V2P (kstack (procs s ! i)))" using proc_invD(5) [OF assms(1)] k by blast
  show "refs s (V2P (kstack (procs s ! i))) = 1" by (rule proc_invD(6) [OF assms(1) k])
  show "kstack (procs s ! i) \<noteq> 0" using f kpage_nonzero by (fastforce simp: kframe_def owned_def)
qed

end
