(* ===== verification/Proc_Spec.thy ===== *)
theory Proc_Spec
  imports Proc_Inv
begin

text \<open>
  What the routines of \<^verbatim>\<open>proc.c\<close> do to a well-formed kernel: creation of a process slot,
  \<^verbatim>\<open>fork\<close>, \<^verbatim>\<open>exit\<close>, \<^verbatim>\<open>wait\<close>, growth, sleeping, waking and killing.
\<close>

section \<open>A new slot\<close>

definition embryo :: "proc \<Rightarrow> int \<Rightarrow> u32 \<Rightarrow> proc" where
  "embryo p n k = p\<lparr>state := EMBRYO, pid := n, trace_enabled := False,
     vmas := replicate MAX_VMAS vma_zero, priority := DEFAULT_PRIORITY, kstack := k\<rparr>"

lemma kpages_of_owned: "proc_inv s \<Longrightarrow> a \<in> kpages_of s \<Longrightarrow> owned s (V2P a)"
  using proc_invD(5) [of s "V2P a"] by (auto simp: kframe_def)

lemma find_unused:
  assumes "proc_inv s" "first_from (\<lambda>p. state p = UNUSED) (procs s) 0 = Some i"
  shows "i < NPROC" "\<not> used (procs s ! i)"
  using first_SomeD [OF assms(2)] proc_invD(1) [OF assms(1)] by (auto simp: used_def)

lemma allocproc_spec:
  assumes inv: "proc_inv s"
  obtains (full) "allocproc s = Ret (None, s)" "\<forall>i < NPROC. used (procs s ! i)"
  | (nomem) i s' where "allocproc s = Ret (None, s')" "i < NPROC" "\<not> used (procs s ! i)" "\<not> used (procs s' ! i)"
      "\<forall>j. j \<noteq> i \<longrightarrow> procs s' ! j = procs s ! j" "proc_inv s'" "phys s' = phys s" "ftable s' = ftable s"
      "ofile (procs s' ! i) = ofile (procs s ! i)" "kalloc s = Ret (0, s)" "dirs s' = dirs s"
      "parent (procs s' ! i) = parent (procs s ! i)" "initproc s' = initproc s" "pipes s' = pipes s"
  | (slot) i k s' where "allocproc s = Ret (Some i, s')" "i < NPROC" "\<not> used (procs s ! i)" "k \<noteq> 0" "k \<notin> kpages_of s"
      "procs s' = (procs s)[i := embryo (procs s ! i) (nextpid s) k]"
      "vm_inv s' (dirs s)" "\<And>f. kframe s' (dirs s) f \<longleftrightarrow> kframe s (dirs s) f \<or> f = V2P k"
      "\<And>a. a \<in> insert k (kpages_of s) \<Longrightarrow> refs s' (V2P a) = 1" "phys s' = phys s"
      "nextpid s' = nextpid s + 1" "kdata s' = kdata s" "kpgdir s' = kpgdir s" "initproc s' = initproc s"
      "ftable s' = ftable s" "pipes s' = pipes s"
proof (cases "first_from (\<lambda>p. state p = UNUSED) (procs s) 0")
  case None
  then have "\<forall>p \<in> set (procs s). used p" by (simp add: first_from_None used_def)
  then have "\<forall>i < NPROC. used (procs s ! i)" using proc_invD(1) [OF inv] by simp
  then show ?thesis using None by (intro full) (simp_all add: allocproc_def)
next
  case (Some i)
  note i = find_unused [OF inv Some]
  note len = proc_invD(1) [OF inv]
  let ?p = "(procs s ! i)\<lparr>state := EMBRYO, pid := nextpid s, trace_enabled := False,
     vmas := replicate MAX_VMAS vma_zero, priority := DEFAULT_PRIORITY\<rparr>"
  define s1 where "s1 = s\<lparr>procs := (procs s)[i := ?p], nextpid := nextpid s + 1\<rparr>"
  have m1: "mcore s1 = mcore s" by (simp add: s1_def mcore_def)
  have v1: "vm_inv s1 (dirs s)" using proc_invD(4) [OF inv] by (simp only: mcore_cong [OF m1])
  have eq: "allocproc s = rbind (kalloc s1) (\<lambda>(k, s).
      let s = setproc i (\<lambda>p. p\<lparr>kstack := k\<rparr>) s
      in if k = 0 then Ret (None, setproc i (\<lambda>p. p\<lparr>state := UNUSED\<rparr>) s) else Ret (Some i, s))"
    by (simp add: allocproc_def Some s1_def setproc_def Let_def)
  show ?thesis
  proof (rule kalloc_cases [OF v1])
    assume al: "kalloc s1 = Ret (0, s1)"
    define s' where "s' = setproc i (\<lambda>p. p\<lparr>state := UNUSED\<rparr>) (setproc i (\<lambda>p. p\<lparr>kstack := 0\<rparr>) s1)"
    have p': "procs s' = (procs s)[i := ?p\<lparr>kstack := 0, state := UNUSED\<rparr>]" using i(1) len by (simp add: s'_def s1_def)
    have u: "\<not> used (?p\<lparr>kstack := 0, state := UNUSED\<rparr>)" by (simp add: used_def)
    have k: "map key (procs s') = map key (procs s)"
      unfolding p' by (rule nth_equalityI) (use i len u in \<open>auto simp: nth_list_update key_def\<close>)
    have pi: "proc_inv s'"
    proof (rule proc_inv_keys [OF inv k])
      show "proc_ok s' (procs s' ! j)" if "j < NPROC" for j
        using proc_invD(7) [OF inv that] that i len proc_ok_cong [of s s']
        by (auto simp: p' nth_list_update proc_ok_def used_def) (auto simp: s'_def s1_def)
      show "mcore s' = mcore s" by (simp add: s'_def m1)
    qed (use proc_invD(2) [OF inv] in \<open>simp_all add: s'_def s1_def\<close>)
    have "freelist s1 = 0" using al by (auto simp: kalloc_def Let_def res_simps split: if_splits)
    then have "kalloc s = Ret (0, s)" using m1 by (simp add: kalloc_def mcore_def)
    moreover have "dirs s' = dirs s" using key_images(1) [OF k] by (simp add: dirs_def s'_def s1_def)
    ultimately show ?thesis
      using eq al i pi p' len u
      by (intro nomem [of s' i]) (simp_all add: s'_def s1_def)
  next
    fix k s2 assume al: "kalloc s1 = Ret (k, s2)" "k \<noteq> 0"
    note fr = kalloc_frame [OF al(1)] and km = kmem_more [of s2 s1]
    note ap = alloc_page [OF v1 al, of "phys s2" s2]
    have ph: "phys s2 = phys s" using fr m1 by (simp add: mcore_def)
    have ap: "vm_inv s2 (dirs s)" "vm_frame s1 (dirs s) s2 (dirs s) {} {V2P k}" "kframe s2 (dirs s) (V2P k)"
        "refs s2 (V2P k) = 1"
      using alloc_page [OF v1 al, of "phys s2" s2] fr by auto
    note mm = kern_more [OF vm_frameD(4) [OF ap(2)]]
    define s' where "s' = setproc i (\<lambda>p. p\<lparr>kstack := k\<rparr>) s2"
    have m': "mcore s' = mcore s2" by (simp add: s'_def)
    have p': "procs s' = (procs s)[i := embryo (procs s ! i) (nextpid s) k]"
      using i(1) len mm by (simp add: s'_def s1_def embryo_def)
    have no: "\<not> owned s (V2P k)"
      using ka.alloc_new [OF vm_invD(1) [OF v1] al] m1 by (simp add: owned_def mcore_def)
    then have nk: "k \<notin> kpages_of s" using kpages_of_owned [OF inv] by blast
    have kf: "kframe s' (dirs s) f \<longleftrightarrow> kframe s (dirs s) f \<or> f = V2P k" for f
      using vm_frameD(7,10) [OF ap(2), of f] ap(3) mcore_cong(2) [OF m1] mcore_cong(2) [OF m'] by auto
    have rf: "refs s' (V2P a) = 1" if "a \<in> insert k (kpages_of s)" for a
    proof (cases "a = k")
      case False
      then have "a \<in> kpages_of s" "V2P a \<notin> {V2P k}" using that by auto
      moreover from this(1) have "kframe s1 (dirs s) (V2P a)" using proc_invD(5) [OF inv] mcore_cong(2) [OF m1] by auto
      ultimately show ?thesis
        using vm_frameD(8) [OF ap(2)] proc_invD(6) [OF inv] mcore_cong(3) [OF m1] mcore_cong(3) [OF m'] by simp
    qed (use ap(4) mcore_cong(3) [OF m'] in simp)
    have "vm_inv s' (dirs s)" using ap(1) mcore_cong(1) [OF m'] by simp
    then show ?thesis
      using eq al i nk p' kf rf ph mm vm_frameD(2,3) [OF ap(2)]
      by (intro slot [of i s' k]) (simp_all add: s'_def s1_def)
  qed
qed

section \<open>fork\<close>

text \<open>
  \<open>child_of s c p\<close>: what \<^verbatim>\<open>fork\<close> makes of the slot of the child, besides its memory.
\<close>

definition child_of :: "int \<Rightarrow> nat \<Rightarrow> proc \<Rightarrow> proc \<Rightarrow> bool" where
  "child_of n cur c p \<longleftrightarrow> state p = RUNNABLE \<and> pid p = n \<and> parent p = Some cur \<and> psz p = psz c \<and>
     vmas p = vmas c \<and> tf p = (tf c)\<lparr>tf_eax := 0\<rparr> \<and> ofile p = ofile c \<and> cwd p = cwd c \<and>
     priority p = priority c \<and> trace_enabled p = trace_enabled c"

lemma idup_sel [simp]:
  "procs (idup ip s) = procs s" "ftable (idup ip s) = ftable s" "phys (idup ip s) = phys s" "pipes (idup ip s) = pipes s"
  "kpgdir (idup ip s) = kpgdir s" "kdata (idup ip s) = kdata s" "nextpid (idup ip s) = nextpid s"
  by (simp_all add: idup_def)

text \<open>A process that enters the table with a directory, a stack and a pid of its own.\<close>

lemma proc_inv_add:
  assumes inv: "proc_inv s" and i: "i < NPROC" "\<not> used (procs s ! i)"
    and p': "procs s' = (procs s)[i := p]" "used p" "proc_ok s' p" "pid p = nextpid s" "kstack p = k" "k \<notin> kpages_of s"
    and d: "pgdir p \<notin> dirs s" "vm_inv s' (insert (pgdir p) (dirs s))"
    and kf: "\<And>f. kframe s' (insert (pgdir p) (dirs s)) f \<longleftrightarrow> kframe s (dirs s) f \<or> f = V2P k"
    and rf: "\<And>a. a \<in> insert k (kpages_of s) \<Longrightarrow> refs s' (V2P a) = 1"
    and eq: "nextpid s' = nextpid s + 1" "kdata s' = kdata s" "kpgdir s' = kpgdir s" "pipes s' = pipes s"
  shows "proc_inv s'" "dirs s' = insert (pgdir p) (dirs s)"
proof -
  note len = proc_invD(1) [OF inv]
  have us: "{q \<in> set (procs s'). used q} = insert p {q \<in> set (procs s). used q}"
    using used_set_upd [of i "procs s" p] i p' len by simp
  show ds: "dirs s' = insert (pgdir p) (dirs s)" unfolding dirs_def us eq by auto
  have ks: "kpages_of s' = insert k (kpages_of s)" unfolding kpages_of_def us eq using p'(5) by auto
  have old: "procs s' ! j = procs s ! j" if "j \<noteq> i" for j using that by (simp add: p')
  have new: "procs s' ! i = p" using i len by (simp add: p')
  have sep: "pgdir (procs s ! j) \<noteq> pgdir p" "kstack (procs s ! j) \<noteq> k" "pid (procs s ! j) \<noteq> pid p"
    if "j < NPROC" "used (procs s ! j)" for j
    using used_dir [OF inv that] used_stack(1) [OF inv that] d(1) p' proc_invD(7) [OF inv that(1)] that(2)
    by (auto simp: proc_ok_def)
  have "proc_ok s' (procs s' ! j)" if "j < NPROC" for j
    using proc_invD(7) [OF inv that] proc_ok_cong [of s s' "procs s ! j"] p'(3) old new eq
    by (cases "j = i") auto
  moreover have "pgdir (procs s' ! j) \<noteq> pgdir (procs s' ! j') \<and> kstack (procs s' ! j) \<noteq> kstack (procs s' ! j') \<and>
      pid (procs s' ! j) \<noteq> pid (procs s' ! j')"
    if "j < NPROC" "j' < NPROC" "j \<noteq> j'" "used (procs s' ! j)" "used (procs s' ! j')" for j j'
    using proc_invD(8) [OF inv that(1-3)] sep [of j] sep [of j'] that old new p'(5)
    by (cases "j = i"; cases "j' = i") auto
  moreover have "kframe s' (dirs s') f \<longleftrightarrow> f \<in> V2P ` kpages_of s'" for f
    unfolding ds ks kf using proc_invD(5) [OF inv] by auto
  ultimately show "proc_inv s'"
    unfolding proc_inv_def using len proc_invD(2,3) [OF inv] d(2) rf ks eq by (simp add: ds p'(1))
qed

lemma same_view_loads: "same_view s s' D \<Longrightarrow> \<forall>d \<in> D. \<forall>va. user_load (phys s') d va = user_load (phys s) d va"
  using same_view_load by blast

text \<open>The slot that \<^verbatim>\<open>allocproc\<close> hands to \<^verbatim>\<open>fork\<close>.\<close>

definition slot_ready :: "'z kern_scheme \<Rightarrow> nat \<Rightarrow> u32 \<Rightarrow> 'z kern_scheme \<Rightarrow> bool" where
  "slot_ready s i k s1 \<longleftrightarrow> i < NPROC \<and> \<not> used (procs s ! i) \<and> k \<noteq> 0 \<and> k \<notin> kpages_of s \<and>
     procs s1 = (procs s)[i := embryo (procs s ! i) (nextpid s) k] \<and> vm_inv s1 (dirs s) \<and>
     (\<forall>f. kframe s1 (dirs s) f \<longleftrightarrow> kframe s (dirs s) f \<or> f = V2P k) \<and>
     (\<forall>a \<in> insert k (kpages_of s). refs s1 (V2P a) = 1) \<and> phys s1 = phys s \<and> nextpid s1 = nextpid s + 1 \<and>
     kdata s1 = kdata s \<and> kpgdir s1 = kpgdir s \<and> ftable s1 = ftable s \<and> pipes s1 = pipes s \<and> initproc s1 = initproc s"

lemma slot_readyD:
  assumes "slot_ready s i k s1"
  shows "i < NPROC" "\<not> used (procs s ! i)" "k \<noteq> 0" "k \<notin> kpages_of s"
      "procs s1 = (procs s)[i := embryo (procs s ! i) (nextpid s) k]"
      "vm_inv s1 (dirs s)" "\<And>f. kframe s1 (dirs s) f \<longleftrightarrow> kframe s (dirs s) f \<or> f = V2P k"
      "\<And>a. a \<in> insert k (kpages_of s) \<Longrightarrow> refs s1 (V2P a) = 1" "phys s1 = phys s"
      "nextpid s1 = nextpid s + 1" "kdata s1 = kdata s" "kpgdir s1 = kpgdir s" "ftable s1 = ftable s" "pipes s1 = pipes s"
      "initproc s1 = initproc s"
  using assms unfolding slot_ready_def by blast+

text \<open>The two outcomes of \<^verbatim>\<open>fork\<close>.\<close>

definition fork_failed :: "'z kern_scheme \<Rightarrow> 'z kern_scheme \<Rightarrow> bool" where
  "fork_failed s s' \<longleftrightarrow> dirs s' = dirs s \<and> (\<forall>i < NPROC. if used (procs s ! i) then procs s' ! i = procs s ! i
     else \<not> used (procs s' ! i) \<and> parent (procs s' ! i) = parent (procs s ! i))"

definition fork_made :: "'z kern_scheme \<Rightarrow> nat \<Rightarrow> 'z kern_scheme \<Rightarrow> bool" where
  "fork_made s cur s' \<longleftrightarrow> (let c = procs s ! cur in \<exists>np < NPROC. \<not> used (procs s ! np) \<and>
     (\<forall>i. i \<noteq> np \<longrightarrow> procs s' ! i = procs s ! i) \<and> child_of (nextpid s) cur c (procs s' ! np) \<and>
     first_from (\<lambda>p. state p = UNUSED) (procs s) 0 = Some np \<and>
     killed (procs s' ! np) = killed (procs s ! np) \<and> pgdir (procs s' ! np) \<notin> dirs s \<and>
     (\<forall>va < psz c. user_load (phys s') (pgdir (procs s' ! np)) va = user_load (phys s) (pgdir c) va \<and>
        (\<forall>b. user_store (phys s') (pgdir c) va b = None \<and> user_store (phys s') (pgdir (procs s' ! np)) va b = None)) \<and>
     (\<forall>va. psz c \<le> PGROUNDDOWN va \<longrightarrow> user_load (phys s') (pgdir (procs s' ! np)) va = None))"

definition fork_kept :: "'z kern_scheme \<Rightarrow> 'z kern_scheme \<Rightarrow> bool" where
  "fork_kept s s' \<longleftrightarrow> proc_inv s' \<and> files_inv s' \<and> initproc s' = initproc s \<and> pipes s' = pipes s \<and>
     same_files (ftable s) (ftable s') \<and>
     (\<forall>d \<in> dirs s. \<forall>va. user_load (phys s') d va = user_load (phys s) d va)"

lemma fork_undone:
  assumes inv: "proc_inv s" and fi: "files_inv s" and cur: "cur < NPROC" "active (procs s ! cur)"
    and al: "allocproc s = Ret (Some i, s1)" and sr: "slot_ready s i k s1"
    and cp: "copyuvm s1 (pgdir (procs s ! cur)) (psz (procs s ! cur)) = Ret (0, s2)"
    and f2: "vm_inv s2 (dirs s)" "vm_frame s1 (dirs s) s2 (dirs s) C {}"
    and ld: "\<forall>d \<in> dirs s. \<forall>va. user_load (phys s2) d va = user_load (phys s) d va"
  shows "\<exists>s'. fork s cur = Ret (-1, s') \<and> fork_kept s s' \<and> fork_failed s s'"
proof -
  note a = slot_readyD [OF sr]
  define c where "c = procs s ! cur"
  note len = proc_invD(1) [OF inv]
  have uc: "used (procs s ! cur)" using cur(2) by (simp add: active_def)
  then have ci: "cur \<noteq> i" using a(2) by auto
  have pc: "procs s1 ! cur = c" using ci by (simp add: a(5) c_def)
  note m2 = kern_more [OF vm_frameD(4) [OF f2(2)]]
  define s3 where "s3 = setproc i (\<lambda>p. p\<lparr>pgdir := 0\<rparr>) s2"
  have m3: "mcore s3 = mcore s2" by (simp add: s3_def)
  have k3: "kstack (procs s3 ! i) = k" using a(1) len by (simp add: s3_def m2 a(5) embryo_def)
  have kk: "kframe s3 (dirs s) (V2P k)" "refs s3 (V2P k) = 1"
    using vm_frameD(7,8) [OF f2(2), of "V2P k"] a(7) a(8) [of k] mcore_cong [OF m3] by auto
  have "vm_inv s3 (dirs s)" using f2(1) mcore_cong(1) [OF m3] by simp
  from free_kframe [OF this kk] obtain s4 where s4: "kfree s3 k = Ret s4" "vm_inv s4 (dirs s)"
      "vm_frame s3 (dirs s) s4 (dirs s) {} {V2P k}" "refcnt s4 = (refcnt s3)(pidx k := 0)" by auto
  note m4 = kern_more [OF vm_frameD(4) [OF s4(3)]]
  define s5 where "s5 = setproc i (\<lambda>p. p\<lparr>kstack := 0, state := UNUSED\<rparr>) s4"
  have eq: "fork s cur = Ret (-1, s5)"
    using al cp s4(1) k3 by (simp add: fork_def pc c_def s3_def s5_def)
  have p5: "procs s5 = (procs s)[i := (embryo (procs s ! i) (nextpid s) k)\<lparr>pgdir := 0, kstack := 0, state := UNUSED\<rparr>]"
    using a(1) len by (simp add: s5_def m4 s3_def m2 a(5))
  let ?q = "(embryo (procs s ! i) (nextpid s) k)\<lparr>pgdir := 0, kstack := 0, state := UNUSED\<rparr>"
  have nu: "\<not> used ?q" by (simp add: used_def)
  have key5: "map key (procs s5) = map key (procs s)"
    unfolding p5 by (rule nth_equalityI) (use a(1,2) len nu in \<open>auto simp: nth_list_update key_def\<close>)
  have m5: "mcore s5 = mcore s4" by (simp add: s5_def)
  have nk: "\<not> kframe s (dirs s) (V2P k)" using proc_invD(5) [OF inv] a(4) by auto
  have kf: "kframe s5 (dirs s) f \<longleftrightarrow> kframe s (dirs s) f" for f
  proof (cases "f = V2P k")
    case True
    have "\<not> kframe s4 (dirs s) (V2P k)" using s4(4) by (simp add: kframe_def owned_def)
    then show ?thesis using nk True mcore_cong(2) [OF m5] by simp
  next
    case False
    then have "kframe s4 (dirs s) f \<longleftrightarrow> kframe s3 (dirs s) f" using vm_frameD(7,10) [OF s4(3), of f] by auto
    also have "\<dots> \<longleftrightarrow> kframe s (dirs s) f"
      using vm_frameD(7,10) [OF f2(2), of f] a(7) [of f] False mcore_cong(2) [OF m3] by auto
    finally show ?thesis using mcore_cong(2) [OF m5] by simp
  qed
  have rf: "refs s5 (V2P b) = 1" if "b \<in> kpages_of s" for b
  proof -
    have "V2P b \<noteq> V2P k" using that a(4) by auto
    moreover have "kframe s1 (dirs s) (V2P b)" using a(7) proc_invD(5) [OF inv] that by auto
    moreover from this have "kframe s3 (dirs s) (V2P b)" using vm_frameD(7) [OF f2(2)] mcore_cong(2) [OF m3] by auto
    ultimately show ?thesis
      using a(8) [of b] that vm_frameD(8) [OF f2(2)] vm_frameD(8) [OF s4(3)] mcore_cong(3) [OF m3] mcore_cong(3) [OF m5]
      by simp
  qed
  have e5: "kdata s5 = kdata s" "kpgdir s5 = kpgdir s" "pipes s5 = pipes s" "nextpid s5 = nextpid s + 1" "ftable s5 = ftable s"
      "initproc s5 = initproc s"
    using vm_frameD(2,3) [OF s4(3)] vm_frameD(2,3) [OF f2(2)] a(10-15) by (simp_all add: s5_def m4 s3_def m2)
  have ok: "proc_ok s5 (procs s5 ! j)" if "j < NPROC" for j
    using proc_invD(7) [OF inv that] proc_ok_cong [of s s5 "procs s ! j"] that a(1) len nu e5
    by (cases "j = i") (auto simp: p5 proc_ok_def embryo_def)
  have "vm_inv s5 (dirs s)" using s4(2) mcore_cong(1) [OF m5] by simp
  note g = proc_inv_gen [OF inv key5 ok this kf rf e5(1-3)]
  have pi: "proc_inv s5" "dirs s5 = dirs s"
    by (rule g(1), use e5(4) proc_invD(2) [OF inv] in simp_all) (rule g(2), use e5(4) proc_invD(2) [OF inv] in simp_all)
  have fi5: "files_inv s5"
  proof (rule files_inv_cong [OF fi e5(5)])
    show "length (procs s5) = NPROC" by (simp add: p5 len)
    show "ofile (procs s5 ! j) = ofile (procs s ! j) \<and> active (procs s5 ! j) = active (procs s ! j) \<and>
        (active (procs s ! j) \<longrightarrow> cwd (procs s5 ! j) = cwd (procs s ! j))" for j
      using a(1,2) len nu by (cases "j = i") (auto simp: p5 active_def embryo_def)
  qed
  have "user_load (phys s5) d' va = user_load (phys s) d' va" if "d' \<in> dirs s" for d' va
    using frame_load [OF s4(3) that that, of va] ld that by (simp add: s5_def s3_def)
  then have "fork_kept s s5" using pi(1) fi5 e5 by (simp add: fork_kept_def)
  moreover have "if used (procs s ! j) then procs s5 ! j = procs s ! j
      else \<not> used (procs s5 ! j) \<and> parent (procs s5 ! j) = parent (procs s ! j)" if "j < NPROC" for j
    using a(1,2) len nu by (cases "j = i") (auto simp: p5 embryo_def)
  then have "fork_failed s s5" using pi(2) by (simp add: fork_failed_def)
  ultimately show ?thesis using eq by blast
qed

lemma fork_done:
  assumes inv: "proc_inv s" and fi: "files_inv s" and cur: "cur < NPROC" "active (procs s ! cur)"
    and al: "allocproc s = Ret (Some i, s1)" and sr: "slot_ready s i k s1"
    and cp: "copyuvm s1 (pgdir (procs s ! cur)) (psz (procs s ! cur)) = Ret (d, s2)" "d \<noteq> 0"
    and f2: "d \<notin> dirs s" "vm_inv s2 (insert d (dirs s))" "vm_frame s1 (dirs s) s2 (insert d (dirs s)) C {}"
      "\<forall>va < psz (procs s ! cur). forked (phys s1) (phys s2) (pgdir (procs s ! cur)) d va"
      "\<forall>va < KERNBASE. psz (procs s ! cur) \<le> PGROUNDDOWN va \<longrightarrow> \<not> present (phys s2) d va"
    and ld: "\<forall>d \<in> dirs s. \<forall>va. user_load (phys s2) d va = user_load (phys s) d va"
  shows "\<exists>s'. fork s cur = Ret (nextpid s, s') \<and> fork_kept s s' \<and> fork_made s cur s'"
proof -
  note a = slot_readyD [OF sr]
  define c where "c = procs s ! cur"
  note len = proc_invD(1) [OF inv]
  have uc: "used (procs s ! cur)" using cur(2) by (simp add: active_def)
  then have ci: "cur \<noteq> i" using a(2) by auto
  have pc: "procs s1 ! cur = c" using ci by (simp add: a(5) c_def)
  note f2 = f2 [folded c_def]
  note m2 = kern_more [OF vm_frameD(4) [OF f2(3)]]
  let ?q = "(embryo (procs s ! i) (nextpid s) k)\<lparr>pgdir := d, psz := psz c, vmas := vmas c, parent := Some cur,
    tf := (tf c)\<lparr>tf_eax := 0\<rparr>, trace_enabled := trace_enabled c, priority := priority c\<rparr>"
  define s4 where "s4 = s2\<lparr>procs := (procs s)[i := ?q]\<rparr>"
  have fe: "files_exact s4"
    using fi a(1) len by (intro files_exact_cong [of s s4]) (auto simp: files_inv_def s4_def m2 a(13) nth_list_update embryo_def)
  have none: "\<forall>fd < NOFILE. ofile (procs s ! i) ! fd = None"
    using fi a(1,2) by (auto simp: files_inv_def active_def)
  have n4: "\<forall>fd \<in> set [0..<NOFILE]. ofile (procs s4 ! i) ! fd = None"
    using none a(1) len by (auto simp: s4_def embryo_def)
  have "distinct [0..<NOFILE]" "set [0..<NOFILE] \<subseteq> {..<NOFILE}" by auto
  then obtain s5 os
    where s5: "fork_files cur i [0..<NOFILE] s4 = Ret s5" "files_exact s5" "length os = NOFILE"
      "s5 = s4\<lparr>ftable := ftable s5, procs := (procs s4)[i := (procs s4 ! i)\<lparr>ofile := os\<rparr>]\<rparr>"
      "\<forall>fd < NOFILE. os ! fd = (if fd \<in> set [0..<NOFILE] then ofile (procs s4 ! cur) ! fd else ofile (procs s4 ! i) ! fd)"
      "same_files (ftable s4) (ftable s5)"
    using fork_files_spec [OF fe cur(1) a(1) ci [symmetric] _ _ n4] by (elim meta_impE exE conjE)
  have lc: "length (ofile c) = NOFILE" using proc_invD(7) [OF inv cur(1)] by (simp add: c_def proc_ok_def)
  have p4: "procs s4 ! cur = c" using ci by (simp add: s4_def c_def)
  have os: "os = ofile c" using s5(3,5) lc p4 by (intro nth_equalityI) simp_all
  have p5: "procs s5 = (procs s)[i := ?q\<lparr>ofile := ofile c\<rparr>]"
    by (subst s5(4)) (use a(1) len in \<open>simp add: s4_def os\<close>)
  have "cwd c \<noteq> None" using fi cur unfolding files_inv_def c_def by (metis (full_types))
  then obtain ip where ip: "cwd c = Some ip" by blast
  let ?r = "?q\<lparr>ofile := ofile c, cwd := Some ip, pname := take 15 (pname c), state := RUNNABLE\<rparr>"
  define t where "t = (idup ip s5)\<lparr>procs := (procs s)[i := ?r]\<rparr>"
  have eq: "fork s cur = Ret (nextpid s, t)"
    using al cp [folded c_def] s5(1) ci a(1) len ip
    by (simp add: fork_def pc Let_def s4_def [unfolded m2 [symmetric]] setproc_def m2 a(5) s4_def c_def [symmetric] p5 t_def embryo_def)
  define r where "r = ?r"
  have r: "state r = RUNNABLE" "pid r = nextpid s" "kstack r = k" "pgdir r = d" "psz r = psz c" "vmas r = vmas c"
      "parent r = Some cur" "tf r = (tf c)\<lparr>tf_eax := 0\<rparr>" "ofile r = ofile c" "cwd r = cwd c" "priority r = priority c"
      "trace_enabled r = trace_enabled c" "killed r = killed (procs s ! i)"
    by (simp_all add: r_def embryo_def ip)
  have pt: "procs t = (procs s)[i := r]" by (simp add: t_def r_def)
  have pti: "procs t ! i = r" "\<And>j. j \<noteq> i \<Longrightarrow> procs t ! j = procs s ! j" using a(1) len by (simp_all add: pt)
  have s5e: "mcore s5 = mcore s2" "nextpid s5 = nextpid s2" "kdata s5 = kdata s2" "kpgdir s5 = kpgdir s2" "pipes s5 = pipes s2"
      "phys s5 = phys s2"
    by (subst s5(4), simp add: s4_def mcore_def)+
  have mt: "mcore t = mcore s2" "phys t = phys s2" using s5e by (simp_all add: t_def)
  have te: "nextpid t = nextpid s + 1" "kdata t = kdata s" "kpgdir t = kpgdir s" "pipes t = pipes s" "ftable t = ftable s5"
    using s5e m2 vm_frameD(2,3) [OF f2(3)] a(10-14) by (simp_all add: t_def)
  have "initproc s5 = initproc s2" by (subst s5(4)) (simp add: s4_def)
  then have ti: "initproc t = initproc s" using m2 a(15) by (simp add: t_def idup_def)
  have sft: "same_files (ftable s) (ftable t)" using s5(6) m2 a(13) by (simp add: te s4_def)
  have kf: "kframe t (insert d (dirs s)) f \<longleftrightarrow> kframe s (dirs s) f \<or> f = V2P k" for f
    using vm_frameD(7,10) [OF f2(3), of f] a(7) [of f] mcore_cong(2) [OF mt(1)] by auto
  have rf: "refs t (V2P b) = 1" if "b \<in> insert k (kpages_of s)" for b
  proof -
    have "kframe s1 (dirs s) (V2P b)" using a(7) proc_invD(5) [OF inv] that by auto
    then show ?thesis using a(8) [OF that] vm_frameD(8) [OF f2(3)] mcore_cong(3) [OF mt(1)] by simp
  qed
  have kc: "k \<notin> dom (pipes s)" using a(4) by (simp add: kpages_of_def)
  have okr: "proc_ok t r"
    using proc_invD(7) [OF inv cur(1)] proc_invD(2) [OF inv] uc lc f2(1) kc
    by (auto simp: proc_ok_def r used_def te c_def dirs_def)
  have vt: "vm_inv t (insert (pgdir r) (dirs s))" using f2(2) mcore_cong(1) [OF mt(1)] by (simp add: r)
  note pa = proc_inv_add [OF inv a(1,2) pt _ okr r(2,3) a(4) _ vt _ rf te(1-4)]
  have pi: "proc_inv t" by (rule pa(1)) (use f2(1) kf in \<open>auto simp: r used_def\<close>)
  have fit: "files_inv t"
    unfolding files_inv_def
  proof (intro conjI allI impI)
    show "files_exact t"
      using s5(2) te(5) p5 a(1) len
      by (intro files_exact_cong [of s5 t]) (auto simp: pt r nth_list_update)
    fix j assume "j < NPROC"
    then show "if active (procs t ! j) then cwd (procs t ! j) \<noteq> None else \<forall>fd < NOFILE. ofile (procs t ! j) ! fd = None"
      using fi by (cases "j = i") (auto simp: pti r ip files_inv_def active_def used_def)
  qed
  have sh: "user_load (phys t) d va = user_load (phys s) (pgdir c) va \<and>
      user_store (phys t) (pgdir c) va b = None \<and> user_store (phys t) d va b = None" if "va < psz c" for va b
  proof -
    have f: "forked (phys s1) (phys s2) (pgdir c) d va" using f2(4) that by blast
    then have "present (phys s2) (pgdir c) va \<Longrightarrow> ubyte (phys s2) d va = ubyte (phys s1) (pgdir c) va"
      by (simp add: forked_def ubyte_def)
    then show ?thesis using f a(9) mt(2) by (auto simp: forked_def user_load_def user_store_def writable_def)
  qed
  have top: "user_load (phys t) d va = None" if "psz c \<le> PGROUNDDOWN va" for va
    using f2(5) that by (cases "va < KERNBASE") (auto simp: user_load_def mt)
  have ch: "child_of (nextpid s) cur c (procs t ! i)" and pd: "pgdir (procs t ! i) = d"
    and kr: "killed (procs t ! i) = killed (procs s ! i)" by (simp_all add: child_of_def pti r)
  have "first_from (\<lambda>p. state p = UNUSED) (procs s) 0 = Some i"
    using al by (auto simp: allocproc_def res_simps Let_def split: option.splits if_splits)
  then have "fork_made s cur t"
    unfolding fork_made_def Let_def c_def [symmetric]
    using a(1,2) pti(2) ch f2(1) sh top kr by (intro exI [of _ i]) (simp add: pd)
  moreover have "fork_kept s t" using ld pi fit ti te(4) sft by (simp add: fork_kept_def mt)
  ultimately show ?thesis using eq by blast
qed

lemma fork_slot:
  assumes inv: "proc_inv s" and fi: "files_inv s" and cur: "cur < NPROC" "active (procs s ! cur)"
    and al: "allocproc s = Ret (Some i, s1)" and sr: "slot_ready s i k s1"
  shows "\<exists>d s2. copyuvm s1 (pgdir (procs s ! cur)) (psz (procs s ! cur)) = Ret (d, s2) \<and>
    (d = 0 \<longrightarrow> (\<exists>s'. fork s cur = Ret (-1, s') \<and> fork_kept s s' \<and> fork_failed s s')) \<and>
    (d \<noteq> 0 \<longrightarrow> (\<exists>s'. fork s cur = Ret (nextpid s, s') \<and> fork_kept s s' \<and> fork_made s cur s'))"
proof -
  note a = slot_readyD [OF sr]
  have uc: "used (procs s ! cur)" using cur(2) by (simp add: active_def)
  have cd: "pgdir (procs s ! cur) \<in> dirs s" "psz (procs s ! cur) \<le> KERNBASE"
    using used_dir [OF inv cur(1) uc] proc_invD(7) [OF inv cur(1)] uc by (auto simp: proc_ok_def)
  have kd: "kdata_ok (kdata s1)" using proc_invD(3) [OF inv] a(11) by simp
  obtain d s2 where s2: "copyuvm s1 (pgdir (procs s ! cur)) (psz (procs s ! cur)) = Ret (d, s2)" "same_view s1 s2 (dirs s)"
      "d = 0 \<and> vm_inv s2 (dirs s) \<and> vm_frame s1 (dirs s) s2 (dirs s) (pages (pgdir (procs s ! cur)) 0 (psz (procs s ! cur))) {} \<or>
       d \<noteq> 0 \<and> d \<notin> dirs s \<and> vm_inv s2 (insert d (dirs s)) \<and>
         vm_frame s1 (dirs s) s2 (insert d (dirs s)) (pages (pgdir (procs s ! cur)) 0 (psz (procs s ! cur))) {} \<and>
         (\<forall>va < psz (procs s ! cur). forked (phys s1) (phys s2) (pgdir (procs s ! cur)) d va) \<and>
         (\<forall>va < KERNBASE. psz (procs s ! cur) \<le> PGROUNDDOWN va \<longrightarrow> \<not> present (phys s2) d va)"
    using copyuvm_spec [OF a(6) cd(1) kd cd(2)] by blast
  have ld: "\<forall>d \<in> dirs s. \<forall>va. user_load (phys s2) d va = user_load (phys s) d va"
    using same_view_loads [OF s2(2)] a(9) by simp
  show ?thesis
    using s2(1,3) fork_undone [OF inv fi cur al sr, of s2] fork_done [OF inv fi cur al sr, of d s2] ld by blast
qed

lemma fork_spec:
  assumes inv: "proc_inv s" and fi: "files_inv s" and cur: "cur < NPROC" "active (procs s ! cur)"
  shows "\<exists>r s'. fork s cur = Ret (r, s') \<and> fork_kept s s' \<and>
    (r = -1 \<and> fork_failed s s' \<or> r = nextpid s \<and> fork_made s cur s')"
proof (rule allocproc_spec [OF inv])
  assume "allocproc s = Ret (None, s)"
  then show ?thesis using inv fi by (simp add: fork_def fork_kept_def fork_failed_def)
next
  fix i s1 assume a: "allocproc s = Ret (None, s1)" "i < NPROC" "\<not> used (procs s ! i)" "\<not> used (procs s1 ! i)"
      "\<forall>j. j \<noteq> i \<longrightarrow> procs s1 ! j = procs s ! j" "proc_inv s1" "phys s1 = phys s" "ftable s1 = ftable s"
      "ofile (procs s1 ! i) = ofile (procs s ! i)" "dirs s1 = dirs s" "parent (procs s1 ! i) = parent (procs s ! i)"
      "initproc s1 = initproc s" "pipes s1 = pipes s"
  have "ofile (procs s1 ! j) = ofile (procs s ! j) \<and> active (procs s1 ! j) = active (procs s ! j) \<and>
      (active (procs s ! j) \<longrightarrow> cwd (procs s1 ! j) = cwd (procs s ! j))" for j
    using a by (cases "j = i") (auto simp: active_def)
  then have "files_inv s1" using proc_invD(1) [OF a(6)] by (intro files_inv_cong [OF fi a(8)])
  moreover have "fork_failed s s1" unfolding fork_failed_def using a(2-5,10,11) by metis
  ultimately show ?thesis using a by (auto simp: fork_def fork_kept_def)
next
  fix i k s1 assume a: "allocproc s = Ret (Some i, s1)" "i < NPROC" "\<not> used (procs s ! i)" "k \<noteq> 0" "k \<notin> kpages_of s"
      "procs s1 = (procs s)[i := embryo (procs s ! i) (nextpid s) k]"
      "vm_inv s1 (dirs s)" "\<And>f. kframe s1 (dirs s) f \<longleftrightarrow> kframe s (dirs s) f \<or> f = V2P k"
      "\<And>a. a \<in> insert k (kpages_of s) \<Longrightarrow> refs s1 (V2P a) = 1" "phys s1 = phys s"
      "nextpid s1 = nextpid s + 1" "kdata s1 = kdata s" "kpgdir s1 = kpgdir s" "initproc s1 = initproc s"
      "ftable s1 = ftable s" "pipes s1 = pipes s"
  have sr: "slot_ready s i k s1" unfolding slot_ready_def using a(2-) by blast
  show ?thesis using fork_slot [OF inv fi cur a(1) sr] by blast
qed

end
