(* ===== verification/File_Spec.thy ===== *)
theory File_Spec
  imports Proc_Spec
begin

text \<open>
  Closing a file. The ends of a pipe follow the open files: an end is open exactly while a file
  of the table refers to it, and the page of the pipe is given back with the last of them. What
  the last close does to an inode is the interface \<open>inode_put\<close>, which the file system provides.
\<close>

section \<open>Waking\<close>

definition woken :: "chan_addr \<Rightarrow> proc \<Rightarrow> proc" where
  "woken ch p = (if state p = SLEEPING \<and> chan p = ch then p\<lparr>state := RUNNABLE\<rparr> else p)"

lemma woken_sel [simp]:
  "ofile (woken ch p) = ofile p" "cwd (woken ch p) = cwd p" "parent (woken ch p) = parent p" "pid (woken ch p) = pid p"
  "pgdir (woken ch p) = pgdir p" "kstack (woken ch p) = kstack p" "chan (woken ch p) = chan p" "vmas (woken ch p) = vmas p"
  "priority (woken ch p) = priority p" "psz (woken ch p) = psz p" "tf (woken ch p) = tf p" "killed (woken ch p) = killed p"
  "used (woken ch p) = used p" "active (woken ch p) = active p" "key (woken ch p) = key p"
  "state (woken ch p) = ZOMBIE \<longleftrightarrow> state p = ZOMBIE" "state (woken ch p) = EMBRYO \<longleftrightarrow> state p = EMBRYO"
  "state (woken ch p) = UNUSED \<longleftrightarrow> state p = UNUSED"
  by (auto simp: woken_def used_def active_def key_def)

lemma woken_ok [simp]: "proc_ok s (woken ch p) = proc_ok s p"
  by (simp add: proc_ok_def)

lemma wakeup_sel [simp]:
  "procs (wakeup ch s) = map (woken ch) (procs s)" "procs (wakeup1 ch s) = map (woken ch) (procs s)"
  "ftable (wakeup ch s) = ftable s" "ftable (wakeup1 ch s) = ftable s" "pipes (wakeup ch s) = pipes s" "pipes (wakeup1 ch s) = pipes s"
  "initproc (wakeup ch s) = initproc s" "initproc (wakeup1 ch s) = initproc s" "nextpid (wakeup ch s) = nextpid s"
  "nextpid (wakeup1 ch s) = nextpid s" "kdata (wakeup ch s) = kdata s" "kdata (wakeup1 ch s) = kdata s"
  "kpgdir (wakeup ch s) = kpgdir s" "kpgdir (wakeup1 ch s) = kpgdir s" "phys (wakeup ch s) = phys s" "phys (wakeup1 ch s) = phys s"
  by (simp_all add: wakeup_def wakeup1_def woken_def [abs_def])

lemma map_key_woken [simp]: "map key (map (woken ch) ps) = map key ps"
  by simp

lemma proc_inv_woken:
  assumes "proc_inv s" "procs s' = map (woken ch) (procs s)" "mcore s' = mcore s" "kdata s' = kdata s" "kpgdir s' = kpgdir s"
    "pipes s' = pipes s" "nextpid s' = nextpid s"
  shows "proc_inv s'" "dirs s' = dirs s"
proof -
  have ok: "proc_ok s' (procs s' ! i)" if "i < NPROC" for i
    using proc_ok_cong [of s s' "procs s ! i"] proc_invD(1,7) [OF assms(1)] assms that by simp
  have "map key (procs s') = map key (procs s)" "0 < nextpid s'" using assms(2,7) proc_invD(2) [OF assms(1)] by simp_all
  note g = proc_inv_keys [OF assms(1) this(1) ok assms(3-6) this(2)]
  show "proc_inv s'" "dirs s' = dirs s" by (rule g(1), simp_all) (rule g(2), simp_all)
qed

lemma proc_inv_wakeup:
  assumes "proc_inv s"
  shows "proc_inv (wakeup ch s)" "proc_inv (wakeup1 ch s)" "dirs (wakeup ch s) = dirs s" "dirs (wakeup1 ch s) = dirs s"
  using proc_inv_woken [OF assms, of "wakeup ch s" ch] proc_inv_woken [OF assms, of "wakeup1 ch s" ch] by simp_all

text \<open>Processes may have been woken, nothing else of the table changed.\<close>

definition awake :: "proc \<Rightarrow> proc \<Rightarrow> bool" where
  "awake p q \<longleftrightarrow> q = p \<or> state p = SLEEPING \<and> q = p\<lparr>state := RUNNABLE\<rparr>"

lemma awake_refl [simp, intro]: "awake p p" by (simp add: awake_def)

lemma awake_woken [intro]: "awake p q \<Longrightarrow> awake p (woken ch q)"
  by (auto simp: awake_def woken_def)

lemma awake_trans: "awake p q \<Longrightarrow> awake q r \<Longrightarrow> awake p r"
  by (auto simp: awake_def)

lemma awake_D:
  assumes "awake p q"
  shows "ofile q = ofile p" "cwd q = cwd p" "parent q = parent p" "pid q = pid p" "pgdir q = pgdir p" "kstack q = kstack p"
    "used q = used p" "active q = active p" "state q = ZOMBIE \<longleftrightarrow> state p = ZOMBIE" "chan q = chan p" "psz q = psz p"
    "state q = SLEEPING \<Longrightarrow> state p = SLEEPING"
  using assms by (auto simp: awake_def used_def active_def)

section \<open>The ends of a pipe\<close>

definition pend :: "'z kern_scheme \<Rightarrow> u32 \<Rightarrow> bool \<Rightarrow> nat \<Rightarrow> bool" where
  "pend s a w f \<longleftrightarrow> f < NFILE \<and> 0 < fref (ftable s ! f) \<and> ftype (ftable s ! f) = FD_PIPE \<and>
     fpipe (ftable s ! f) = a \<and> writeable (ftable s ! f) = w"

definition pipes_inv :: "'z kern_scheme \<Rightarrow> bool" where
  "pipes_inv s \<longleftrightarrow> length (ftable s) = NFILE \<and>
     (\<forall>f < NFILE. fref (ftable s ! f) = 0 \<longrightarrow> ftype (ftable s ! f) = FD_NONE) \<and>
     (\<forall>a w f. pend s a w f \<longrightarrow> a \<in> dom (pipes s)) \<and>
     (\<forall>a w f g. pend s a w f \<longrightarrow> pend s a w g \<longrightarrow> f = g) \<and>
     (\<forall>a p. pipes s a = Some p \<longrightarrow> (writeopen p \<longleftrightarrow> (\<exists>f. pend s a True f)) \<and> (readopen p \<longleftrightarrow> (\<exists>f. pend s a False f)) \<and>
        (writeopen p \<or> readopen p))"

lemma pipes_invD:
  assumes "pipes_inv s"
  shows "length (ftable s) = NFILE" "\<And>f. f < NFILE \<Longrightarrow> fref (ftable s ! f) = 0 \<Longrightarrow> ftype (ftable s ! f) = FD_NONE"
    "\<And>a w f. pend s a w f \<Longrightarrow> a \<in> dom (pipes s)" "\<And>a w f g. pend s a w f \<Longrightarrow> pend s a w g \<Longrightarrow> f = g"
    "\<And>a p. pipes s a = Some p \<Longrightarrow> writeopen p \<longleftrightarrow> (\<exists>f. pend s a True f)"
    "\<And>a p. pipes s a = Some p \<Longrightarrow> readopen p \<longleftrightarrow> (\<exists>f. pend s a False f)"
    "\<And>a p. pipes s a = Some p \<Longrightarrow> writeopen p \<or> readopen p"
  using assms unfolding pipes_inv_def by blast+

lemma pend_cong: "ftable s' = ftable s \<Longrightarrow> pend s' = pend s"
  by (simp add: pend_def fun_eq_iff)

lemma pipes_inv_cong:
  assumes "pipes_inv s" "ftable s' = ftable s" "pipes s' = pipes s"
  shows "pipes_inv s'"
  using assms(1) unfolding pipes_inv_def pend_cong [OF assms(2)] assms(2,3) .

section \<open>Giving a pipe back\<close>

lemma proc_inv_pipes:
  assumes inv: "proc_inv s" and p: "dom ps = dom (pipes s)"
  shows "proc_inv (s\<lparr>pipes := ps\<rparr>)" "dirs (s\<lparr>pipes := ps\<rparr>) = dirs s"
proof -
  let ?s = "s\<lparr>pipes := ps\<rparr>"
  have m: "mcore ?s = mcore s" by simp
  show d: "dirs ?s = dirs s" by (simp add: dirs_def)
  have k: "kpages_of ?s = kpages_of s" by (simp add: kpages_of_def p)
  have o: "proc_ok ?s = proc_ok s" by (simp add: proc_ok_def fun_eq_iff p)
  show "proc_inv ?s"
    using inv unfolding proc_inv_def d k o mcore_cong [OF m] by simp
qed

lemma free_pipe:
  assumes inv: "proc_inv s" and a: "a \<in> dom (pipes s)"
  shows "\<exists>s'. kfree (s\<lparr>pipes := (pipes s)(a := None)\<rparr>) a = Ret s' \<and> proc_inv s' \<and> dirs s' = dirs s \<and>
    pipes s' = (pipes s)(a := None) \<and> procs s' = procs s \<and> ftable s' = ftable s \<and> initproc s' = initproc s \<and> nextpid s' = nextpid s \<and>
    (\<forall>d \<in> dirs s. \<forall>va. user_load (phys s') d va = user_load (phys s) d va)"
proof -
  let ?t = "s\<lparr>pipes := (pipes s)(a := None)\<rparr>"
  have mt: "mcore ?t = mcore s" by simp
  have ak: "a \<in> kpages_of s" using a by (simp add: kpages_of_def)
  have kf: "kframe ?t (dirs s) (V2P a)" "refs ?t (V2P a) = 1" "vm_inv ?t (dirs s)"
    using proc_invD(4,5) [OF inv] proc_invD(6) [OF inv ak] ak by (auto simp only: mcore_cong [OF mt])
  obtain s' where s': "kfree ?t a = Ret s'" "vm_inv s' (dirs s)" "vm_frame ?t (dirs s) s' (dirs s) {} {V2P a}"
      "refcnt s' = (refcnt ?t)(pidx a := 0)"
    using free_kframe [OF kf(3,1,2)] by auto
  note m = kern_more [OF vm_frameD(4) [OF s'(3)]]
  have e: "procs s' = procs s" "kdata s' = kdata s" "kpgdir s' = kpgdir s" "nextpid s' = nextpid s" "pipes s' = (pipes s)(a := None)"
      "ftable s' = ftable s" "initproc s' = initproc s"
    using vm_frameD(2,3) [OF s'(3)] by (simp_all add: m)
  have d: "dirs s' = dirs s" by (simp add: dirs_def e)
  have na: "kstack p \<noteq> a" if "p \<in> set (procs s)" "used p" for p
    using that proc_invD(1,7) [OF inv] a unfolding in_set_conv_nth proc_ok_def by auto
  have ks: "kpages_of s' = kpages_of s - {a}" using na by (auto simp: kpages_of_def e)
  have ok: "proc_ok s' (procs s' ! i)" if "i < NPROC" for i
    using proc_invD(7) [OF inv that] by (auto simp: proc_ok_def e)
  have nk: "\<not> kframe s' (dirs s) (V2P a)" using s'(4) by (simp add: kframe_def owned_def)
  have kf': "kframe s' (dirs s) f \<longleftrightarrow> f \<in> V2P ` kpages_of s'" for f
  proof -
    have e: "kframe s' (dirs s) f \<longleftrightarrow> kframe s (dirs s) f \<and> f \<noteq> V2P a"
      using vm_frameD(7,10) [OF s'(3), of f] nk by (auto simp only: mcore_cong [OF mt])
    show ?thesis unfolding e ks proc_invD(5) [OF inv] by auto
  qed
  have rf: "refs s' (V2P b) = 1" if "b \<in> kpages_of s'" for b
  proof -
    have b: "b \<in> kpages_of s" "V2P b \<notin> {V2P a}" using that ks by auto
    then have "kframe ?t (dirs s) (V2P b)" using proc_invD(5) [OF inv, of "V2P b"] by (auto simp only: mcore_cong [OF mt])
    then show ?thesis using vm_frameD(8) [OF s'(3) _ b(2)] proc_invD(6) [OF inv b(1)] by (simp only: mcore_cong [OF mt])
  qed
  have "proc_inv s'"
    unfolding proc_inv_def d using proc_invD(1-3,8) [OF inv] ok s'(2) kf' rf by (simp add: e)
  moreover have "user_load (phys s') b va = user_load (phys s) b va" if "b \<in> dirs s" for b va
    using frame_load [OF s'(3) that that, of va] by simp
  ultimately show ?thesis using s'(1) d e by blast
qed

section \<open>Closing\<close>

text \<open>What a close leaves alone.\<close>

definition keeps :: "'z kern_scheme \<Rightarrow> 'z kern_scheme \<Rightarrow> bool" where
  "keeps s s' \<longleftrightarrow> dirs s' = dirs s \<and> initproc s' = initproc s \<and> nextpid s' = nextpid s \<and>
     list_all2 awake (procs s) (procs s') \<and>
     (\<forall>d \<in> dirs s. \<forall>va. user_load (phys s') d va = user_load (phys s) d va)"

lemma list_all2_awake_refl [simp]: "list_all2 awake ps ps"
  by (simp add: list_all2_conv_all_nth)

lemma list_all2_awake_woken [simp]: "list_all2 awake ps (map (woken ch) ps)"
  by (auto simp: list_all2_conv_all_nth)

lemma keeps_refl [simp]: "keeps s s" by (simp add: keeps_def)

lemma keeps_trans: "keeps s t \<Longrightarrow> keeps t u \<Longrightarrow> keeps s u"
  unfolding keeps_def by (auto intro: list_all2_trans awake_trans)

lemma pipeclose_spec:
  fixes w :: bool
  assumes inv: "proc_inv s" and p: "pipes s a = Some p"
  defines "p' \<equiv> (if w then p\<lparr>writeopen := False\<rparr> else p\<lparr>readopen := False\<rparr>)"
  shows "\<exists>s'. pipeclose a w s = Ret s' \<and> proc_inv s' \<and> keeps s s' \<and> ftable s' = ftable s \<and>
    pipes s' = (pipes s)(a := if readopen p' \<or> writeopen p' then Some p' else None)"
proof -
  define t where "t = wakeup (if w then PipeReadChan a else PipeWriteChan a) (s\<lparr>pipes := (pipes s)(a \<mapsto> p')\<rparr>)"
  have d0: "dom ((pipes s)(a \<mapsto> p')) = dom (pipes s)" using p by auto
  note i0 = proc_inv_pipes [OF inv d0]
  have i1: "proc_inv t" "dirs t = dirs s"
    unfolding t_def by (rule proc_inv_wakeup(1) [OF i0(1)]) (simp only: proc_inv_wakeup(3) [OF i0(1)] i0(2))
  have t: "pipes t = (pipes s)(a \<mapsto> p')" "ftable t = ftable s" "initproc t = initproc s" "nextpid t = nextpid s" "phys t = phys s"
      "list_all2 awake (procs s) (procs t)"
    by (simp_all add: t_def)
  have kt: "keeps s t" using t i1 by (simp add: keeps_def)
  have eq: "pipeclose a w s = (if \<not> readopen p' \<and> \<not> writeopen p' then kfree (t\<lparr>pipes := (pipes t)(a := None)\<rparr>) a else Ret t)"
    by (simp add: pipeclose_def p Let_def p'_def t_def)
  show ?thesis
  proof (cases "readopen p' \<or> writeopen p'")
    case True
    then have "pipeclose a w s = Ret t" by (auto simp: eq)
    then show ?thesis using i1(1) kt t(1,2) True by simp
  next
    case False
    have "a \<in> dom (pipes t)" by (simp add: t)
    from free_pipe [OF i1(1) this] obtain s' where s': "kfree (t\<lparr>pipes := (pipes t)(a := None)\<rparr>) a = Ret s'" "proc_inv s'"
        "dirs s' = dirs t" "pipes s' = (pipes t)(a := None)" "procs s' = procs t" "ftable s' = ftable t" "initproc s' = initproc t"
        "nextpid s' = nextpid t" "\<forall>d \<in> dirs t. \<forall>va. user_load (phys s') d va = user_load (phys t) d va"
      by (elim exE conjE)
    have "keeps t s'" using s' by (simp add: keeps_def)
    then have "keeps s s'" by (rule keeps_trans [OF kt])
    moreover have "pipeclose a w s = Ret s'" using False s'(1) by (simp add: eq)
    moreover have "pipes s' = (pipes s)(a := None)" using s'(4) t(1) by simp
    ultimately show ?thesis using False s'(2,6) t(2) by simp
  qed
qed

text \<open>
  What the file system promises of \<^verbatim>\<open>begin_op(); iput(ip); end_op()\<close>: the processes, their
  memory, the open files and the pipes are as before.
\<close>

definition same_core :: "'z kern_scheme \<Rightarrow> 'z kern_scheme \<Rightarrow> bool" where
  "same_core s s' \<longleftrightarrow> mcore s' = mcore s \<and> kdata s' = kdata s \<and> kpgdir s' = kpgdir s \<and> procs s' = procs s \<and>
     initproc s' = initproc s \<and> nextpid s' = nextpid s \<and> ftable s' = ftable s \<and> pipes s' = pipes s"

locale inode_put =
  fixes put :: "nat \<Rightarrow> 'z kern_scheme \<Rightarrow> 'z kern_scheme res"
  assumes put_core: "put ip s = Ret s' \<Longrightarrow> same_core s s'"

lemma same_core_D:
  assumes "same_core s s'"
  shows "mcore s' = mcore s" "kdata s' = kdata s" "kpgdir s' = kpgdir s" "procs s' = procs s"
     "initproc s' = initproc s" "nextpid s' = nextpid s" "ftable s' = ftable s" "pipes s' = pipes s" "phys s' = phys s"
  using assms by (auto simp: same_core_def mcore_def)

lemma same_core_inv:
  assumes "same_core s s'"
  shows "proc_inv s \<Longrightarrow> proc_inv s'" "keeps s s'"
proof -
  note e = same_core_D [OF assms]
  have d: "dirs s' = dirs s" by (simp add: dirs_def e)
  show "keeps s s'" by (simp add: keeps_def d e)
  assume inv: "proc_inv s"
  have o: "proc_ok s' = proc_ok s" by (simp add: proc_ok_def fun_eq_iff e)
  show "proc_inv s'"
    by (rule proc_inv_keys(1) [OF inv]) (use proc_invD(2,7) [OF inv] in \<open>simp_all add: e o\<close>)
qed

text \<open>The entry of a file after one reference is gone.\<close>

definition dropped :: "file_t \<Rightarrow> file_t" where
  "dropped x = (if fref x > 1 then x\<lparr>fref := fref x - 1\<rparr> else x\<lparr>fref := 0, ftype := FD_NONE\<rparr>)"

lemma fref_dropped: "1 \<le> fref x \<Longrightarrow> fref (dropped x) = fref x - 1"
  by (simp add: dropped_def)

lemma pipes_inv_drop_more:
  assumes "pipes_inv s" "f < NFILE" "1 < fref (ftable s ! f)"
    "ftable s' = (ftable s)[f := (ftable s ! f)\<lparr>fref := fref (ftable s ! f) - 1\<rparr>]" "pipes s' = pipes s"
  shows "pipes_inv s'"
proof -
  have e: "pend s' = pend s"
    using assms(2-4) pipes_invD(1) [OF assms(1)] by (auto simp: pend_def fun_eq_iff nth_list_update)
  show ?thesis
    using assms(1,2,3) unfolding pipes_inv_def e assms(4,5) by (auto simp: nth_list_update)
qed

lemma pipes_inv_drop_other:
  assumes "pipes_inv s" "f < NFILE" "ftype (ftable s ! f) \<noteq> FD_PIPE"
    "ftable s' = (ftable s)[f := (ftable s ! f)\<lparr>fref := 0, ftype := FD_NONE\<rparr>]" "pipes s' = pipes s"
  shows "pipes_inv s'"
proof -
  have e: "pend s' = pend s"
    using assms(2-4) pipes_invD(1) [OF assms(1)] by (auto simp: pend_def fun_eq_iff nth_list_update)
  show ?thesis
    using assms(1,2,3) unfolding pipes_inv_def e assms(4,5) by (auto simp: nth_list_update)
qed

lemma pipes_inv_drop_end:
  assumes inv: "pipes_inv s" and f: "pend s a w f"
    and ft: "ftable s' = (ftable s)[f := (ftable s ! f)\<lparr>fref := 0, ftype := FD_NONE\<rparr>]"
    and p: "pipes s a = Some p"
    and ps: "pipes s' = (pipes s)(a := if readopen p' \<or> writeopen p' then Some p' else None)"
    and p': "p' = (if w then p\<lparr>writeopen := False\<rparr> else p\<lparr>readopen := False\<rparr>)"
  shows "pipes_inv s'"
proof -
  note D = pipes_invD [OF inv]
  have fl: "f < NFILE" using f by (simp add: pend_def)
  have e: "pend s' b v g \<longleftrightarrow> pend s b v g \<and> g \<noteq> f" for b v g
    using fl D(1) by (auto simp: pend_def ft nth_list_update)
  have g: "g = f \<longleftrightarrow> b = a \<and> v = w" if "pend s b v g" for b v g
    using that f D(4) [of a w g f] by (auto simp: pend_def)
  have wo: "writeopen p' \<longleftrightarrow> (\<exists>g. pend s' a True g)"
    unfolding e using D(5) [OF p] g f by (auto simp: p')
  have ro: "readopen p' \<longleftrightarrow> (\<exists>g. pend s' a False g)"
    unfolding e using D(6) [OF p] g f by (auto simp: p')
  have "b \<in> dom (pipes s')" if "pend s' b v h" for b v h
  proof (cases "b = a")
    case True
    then have "readopen p' \<or> writeopen p'" using that wo ro by (cases v) auto
    then show ?thesis using True by (simp add: ps)
  next
    case False
    then show ?thesis using that D(3) unfolding e by (auto simp: ps)
  qed
  moreover have ends: "(\<exists>g. pend s' b v g) \<longleftrightarrow> (\<exists>g. pend s b v g)" if "b \<noteq> a" for b v
    unfolding e using g [of b v] that by blast
  moreover have "(writeopen q \<longleftrightarrow> (\<exists>g. pend s' b True g)) \<and> (readopen q \<longleftrightarrow> (\<exists>g. pend s' b False g)) \<and> (writeopen q \<or> readopen q)"
    if q: "pipes s' b = Some q" for b q
  proof (cases "b = a")
    case True
    then have "q = p'" "readopen p' \<or> writeopen p'" using q by (auto simp: ps split: if_splits)
    then show ?thesis using wo ro True by blast
  next
    case False
    then have "pipes s b = Some q" using q by (simp add: ps)
    then show ?thesis using D(5-7) [of b q] ends [OF False] by blast
  qed
  moreover have "ftype (ftable s' ! h) = FD_NONE" if "h < NFILE" "fref (ftable s' ! h) = 0" for h
    using that D(1,2) fl by (auto simp: ft nth_list_update split: if_splits)
  moreover have "length (ftable s') = NFILE" by (simp add: ft D(1))
  moreover have "h = h'" if "pend s' b v h" "pend s' b v h'" for b v h h' using that D(4) unfolding e by blast
  ultimately show ?thesis unfolding pipes_inv_def by blast
qed

lemma fd_open:
  assumes ex: "files_exact s" and i: "i < NPROC" "fd < NOFILE" "ofile (procs s ! i) ! fd = Some f"
  shows "1 \<le> fref (ftable s ! f)" "f < NFILE" "0 < card (fdrefs s f)"
proof -
  show f: "f < NFILE" using ex i by (auto simp: files_exact_def)
  have "(i, fd) \<in> fdrefs s f" using i by (simp add: fdrefs_def)
  then show "0 < card (fdrefs s f)" by (auto simp: card_gt_0_iff)
  then show "1 \<le> fref (ftable s ! f)" using ex f by (auto simp: files_exact_def)
qed

lemma files_exact_close:
  assumes ex: "files_exact s" and i: "i < NPROC" "fd < NOFILE" "ofile (procs s ! i) ! fd = Some f"
    and ft: "ftable s' = (ftable s)[f := dropped (ftable s ! f)]" and aw: "list_all2 awake (procs s) ps"
    and p': "procs s' = ps[i := (ps ! i)\<lparr>ofile := (ofile (ps ! i))[fd := None]\<rparr>]"
  shows "files_exact s'"
proof -
  have l: "length (procs s) = NPROC" "length ps = NPROC" "length (ftable s) = NFILE" "length (ofile (procs s ! i)) = NOFILE"
    using ex aw i(1) by (auto simp: files_exact_def dest: list_all2_lengthD)
  have a: "ofile (ps ! j) = ofile (procs s ! j)" if "j < NPROC" for j
    using awake_D(1) list_all2_nthD [OF aw] that l by simp
  note r = fd_open(1) [OF ex i] and f = fd_open(2) [OF ex i] and pos = fd_open(3) [OF ex i]
  have e: "fdrefs s' g = fdrefs s g - {(i, fd)}" for g
    using i a l unfolding fdrefs_def p' by (auto simp: nth_list_update split: if_splits)
  have "fref (ftable s' ! g) = int (card (fdrefs s' g))" if "g < NFILE" for g
  proof (cases "g = f")
    case True
    then have "(i, fd) \<in> fdrefs s g" using i by (simp add: fdrefs_def)
    then show ?thesis using True f r l ex pos by (simp add: e ft fref_dropped files_exact_def of_nat_diff)
  next
    case False
    then have "(i, fd) \<notin> fdrefs s g" using i by (simp add: fdrefs_def)
    then show ?thesis using False that ex by (simp add: e ft files_exact_def)
  qed
  moreover have "length (ofile (procs s' ! j)) = NOFILE" if "j < NPROC" for j
    using that a l ex i(1) by (auto simp: p' nth_list_update files_exact_def)
  moreover have "g < NFILE" if "j < NPROC" "k < NOFILE" "ofile (procs s' ! j) ! k = Some g" for j k g
  proof -
    have "ofile (procs s ! j) ! k = Some g" using that a l i by (cases "j = i"; cases "k = fd") (auto simp: p')
    then show ?thesis using ex that(1,2) by (simp add: files_exact_def)
  qed
  ultimately show "files_exact s'" using l by (simp add: files_exact_def ft p')
qed

lemma setfile_sel [simp]:
  "procs (setfile i g s) = procs s" "ftable (setfile i g s) = (ftable s)[i := g (ftable s ! i)]" "pipes (setfile i g s) = pipes s"
  "initproc (setfile i g s) = initproc s" "nextpid (setfile i g s) = nextpid s" "kdata (setfile i g s) = kdata s"
  "kpgdir (setfile i g s) = kpgdir s" "phys (setfile i g s) = phys s"
  by (simp_all add: setfile_def)

lemma ftable_inv:
  assumes "proc_inv s" "s' = s\<lparr>ftable := ft\<rparr>"
  shows "proc_inv s'" "keeps s s'"
proof -
  have o: "proc_ok s' = proc_ok s" by (simp add: proc_ok_def fun_eq_iff assms(2))
  have d: "dirs s' = dirs s" by (simp add: dirs_def assms(2))
  show "proc_inv s'"
    by (rule proc_inv_keys(1) [OF assms(1)]) (use proc_invD(2,7) [OF assms(1)] in \<open>simp_all add: assms(2) o [unfolded assms(2)]\<close>)
  show "keeps s s'" using d by (simp add: keeps_def assms(2))
qed

context inode_put
begin

lemma fileclose_spec:
  assumes inv: "proc_inv s" and pv: "pipes_inv s" and f: "f < NFILE" "1 \<le> fref (ftable s ! f)"
    and total: "\<And>ip t. \<exists>t'. put ip t = Ret t'"
  shows "\<exists>s'. fileclose put f s = Ret s' \<and> proc_inv s' \<and> pipes_inv s' \<and> keeps s s' \<and>
    ftable s' = (ftable s)[f := dropped (ftable s ! f)]"
proof -
  note len = pipes_invD(1) [OF pv]
  let ?x = "ftable s ! f"
  show ?thesis
  proof (cases "1 < fref ?x")
    case True
    define t where "t = s\<lparr>ftable := (ftable s)[f := ?x\<lparr>fref := fref ?x - 1\<rparr>]\<rparr>"
    have "fileclose put f s = Ret t" using True f len by (simp add: fileclose_def Let_def setfile_def t_def)
    moreover have "pipes_inv t" by (rule pipes_inv_drop_more [OF pv f(1) True]) (simp_all add: t_def)
    moreover note ftable_inv [OF inv t_def]
    moreover have "ftable t = (ftable s)[f := dropped ?x]" using True by (simp add: t_def dropped_def)
    ultimately show ?thesis by blast
  next
    case False
    then have one: "fref ?x = 1" using f(2) by simp
    define t where "t = s\<lparr>ftable := (ftable s)[f := ?x\<lparr>fref := 0, ftype := FD_NONE\<rparr>]\<rparr>"
    note ti = ftable_inv [OF inv t_def]
    have ft: "ftable t = (ftable s)[f := dropped ?x]" "pipes t = pipes s" using one by (simp_all add: t_def dropped_def)
    have eq: "fileclose put f s = (case ftype ?x of FD_PIPE \<Rightarrow> pipeclose (fpipe ?x) (writeable ?x) t
        | FD_INODE \<Rightarrow> put (fip ?x) t | FD_NONE \<Rightarrow> Ret t)"
      using one f len by (simp add: fileclose_def Let_def setfile_def t_def split: filetype.split)
    show ?thesis
    proof (cases "ftype ?x")
      case FD_NONE
      have "pipes_inv t" by (rule pipes_inv_drop_other [OF pv f(1)]) (simp_all add: t_def FD_NONE)
      then show ?thesis using eq FD_NONE ti ft by simp
    next
      case FD_INODE
      obtain t' where t': "put (fip ?x) t = Ret t'" using total by blast
      note sc = put_core [OF t']
      have "pipes_inv t" by (rule pipes_inv_drop_other [OF pv f(1)]) (simp_all add: t_def FD_INODE)
      then have "pipes_inv t'" by (rule pipes_inv_cong) (simp_all add: same_core_D [OF sc])
      moreover have "fileclose put f s = Ret t'" using eq FD_INODE t' by simp
      moreover have "proc_inv t'" using same_core_inv(1) [OF sc] ti(1) by blast
      moreover have "keeps s t'" by (rule keeps_trans [OF ti(2) same_core_inv(2) [OF sc]])
      ultimately show ?thesis using same_core_D(7) [OF sc] ft by simp
    next
      case FD_PIPE
      have pe: "pend s (fpipe ?x) (writeable ?x) f" using f FD_PIPE by (simp add: pend_def)
      then obtain p where p: "pipes s (fpipe ?x) = Some p" using pipes_invD(3) [OF pv] by blast
      let ?p' = "if writeable ?x then p\<lparr>writeopen := False\<rparr> else p\<lparr>readopen := False\<rparr>"
      obtain t' where t': "pipeclose (fpipe ?x) (writeable ?x) t = Ret t'" "proc_inv t'" "keeps t t'" "ftable t' = ftable t"
          "pipes t' = (pipes t)(fpipe ?x := if readopen ?p' \<or> writeopen ?p' then Some ?p' else None)"
        using pipeclose_spec [OF ti(1), of "fpipe ?x" p "writeable ?x"] p ft(2) by auto
      have "pipes_inv t'"
        by (rule pipes_inv_drop_end [OF pv pe _ p _ refl]) (use t'(4,5) ft(2) in \<open>simp_all add: t_def\<close>)
      moreover have "fileclose put f s = Ret t'" using eq FD_PIPE t'(1) by simp
      moreover have "keeps s t'" by (rule keeps_trans [OF ti(2) t'(3)])
      ultimately show ?thesis using t'(2,4) ft by simp
    qed
  qed
qed

end

end
