(* ===== verification/Proc_Life.thy ===== *)
theory Proc_Life
  imports File_Spec
begin

text \<open>
  The life of a process after \<^verbatim>\<open>fork\<close>: \<^verbatim>\<open>wait\<close> returns everything that the process owned,
  \<^verbatim>\<open>exit\<close> leaves no orphans and loses no wake-up, \<^verbatim>\<open>sbrk\<close> grows and shrinks it.
\<close>

section \<open>Leaving the table\<close>

lemma used_set_remove:
  assumes "i < length ps" "used (ps ! i)" "\<not> used q"
    and inj: "\<And>j. j < length ps \<Longrightarrow> j \<noteq> i \<Longrightarrow> used (ps ! j) \<Longrightarrow> g (ps ! j) \<noteq> g (ps ! i)"
  shows "g ` {p \<in> set (ps[i := q]). used p} = g ` {p \<in> set ps. used p} - {g (ps ! i)}"
proof -
  have u: "{p \<in> set xs. used p} = (\<lambda>j. xs ! j) ` {j. j < length xs \<and> used (xs ! j)}" for xs :: "proc list"
    by (auto simp: set_conv_nth)
  have ix: "{j. j < length (ps[i := q]) \<and> used (ps[i := q] ! j)} = {j. j < length ps \<and> used (ps ! j)} - {i}"
    using assms by (auto simp: nth_list_update split: if_splits)
  have "g ` {p \<in> set (ps[i := q]). used p} = (\<lambda>j. g (ps[i := q] ! j)) ` ({j. j < length ps \<and> used (ps ! j)} - {i})"
    unfolding u ix image_image ..
  also have "\<dots> = (\<lambda>j. g (ps ! j)) ` ({j. j < length ps \<and> used (ps ! j)} - {i})"
    by (rule image_cong) auto
  also have "\<dots> = (\<lambda>j. g (ps ! j)) ` {j. j < length ps \<and> used (ps ! j)} - {g (ps ! i)}"
  proof (intro set_eqI iffI)
    fix y assume "y \<in> (\<lambda>j. g (ps ! j)) ` ({j. j < length ps \<and> used (ps ! j)} - {i})"
    then obtain j where "y = g (ps ! j)" "j < length ps" "used (ps ! j)" "j \<noteq> i" by auto
    then show "y \<in> (\<lambda>j. g (ps ! j)) ` {j. j < length ps \<and> used (ps ! j)} - {g (ps ! i)}" using inj by auto
  qed auto
  finally show ?thesis unfolding u image_image .
qed

lemma proc_inv_remove:
  assumes inv: "proc_inv s" and i: "i < NPROC" "used (procs s ! i)"
    and p': "procs s' = (procs s)[i := q]" "\<not> used q" "proc_ok s' q"
    and v: "vm_inv s' (dirs s - {pgdir (procs s ! i)})"
    and kf: "\<And>f. kframe s' (dirs s - {pgdir (procs s ! i)}) f \<longleftrightarrow> kframe s (dirs s) f \<and> f \<noteq> V2P (kstack (procs s ! i))"
    and rf: "\<And>a. a \<in> kpages_of s \<Longrightarrow> a \<noteq> kstack (procs s ! i) \<Longrightarrow> refs s' (V2P a) = 1"
    and eq: "nextpid s' = nextpid s" "kdata s' = kdata s" "kpgdir s' = kpgdir s" "pipes s' = pipes s"
  shows "proc_inv s'" "dirs s' = dirs s - {pgdir (procs s ! i)}"
proof -
  note len = proc_invD(1) [OF inv]
  have oki: "proc_ok s (procs s ! i)" by (rule proc_invD(7) [OF inv i(1)])
  have sep: "pgdir (procs s ! j) \<noteq> pgdir (procs s ! i) \<and> kstack (procs s ! j) \<noteq> kstack (procs s ! i)"
    if "j < length (procs s)" "j \<noteq> i" "used (procs s ! j)" for j
    using proc_invD(8) [OF inv _ i(1) that(2,3) i(2)] that(1) len by auto
  have "pgdir ` {p \<in> set (procs s'). used p} = pgdir ` {p \<in> set (procs s). used p} - {pgdir (procs s ! i)}"
    unfolding p'(1) by (rule used_set_remove) (use i p'(2) len sep in auto)
  moreover have "kpgdir s \<noteq> pgdir (procs s ! i)" using oki i(2) by (auto simp: proc_ok_def)
  ultimately show ds: "dirs s' = dirs s - {pgdir (procs s ! i)}" unfolding dirs_def eq by auto
  have "kstack ` {p \<in> set (procs s'). used p} = kstack ` {p \<in> set (procs s). used p} - {kstack (procs s ! i)}"
    unfolding p'(1) by (rule used_set_remove) (use i p'(2) len sep in auto)
  moreover have "kstack (procs s ! i) \<notin> dom (pipes s)" using oki i(2) by (simp add: proc_ok_def)
  ultimately have ks: "kpages_of s' = kpages_of s - {kstack (procs s ! i)}" unfolding kpages_of_def eq by auto
  have ok: "proc_ok s' (procs s' ! j)" if "j < NPROC" for j
    using proc_invD(7) [OF inv that] proc_ok_cong [of s s' "procs s ! j"] p'(1,3) i(1) len eq
    by (cases "j = i") auto
  have old: "j \<noteq> i \<and> procs s' ! j = procs s ! j" if "j < NPROC" "used (procs s' ! j)" for j
    using that p'(1,2) len by (cases "j = i") auto
  have "pgdir (procs s' ! j) \<noteq> pgdir (procs s' ! j') \<and> kstack (procs s' ! j) \<noteq> kstack (procs s' ! j') \<and>
      pid (procs s' ! j) \<noteq> pid (procs s' ! j')"
    if "j < NPROC" "j' < NPROC" "j \<noteq> j'" "used (procs s' ! j)" "used (procs s' ! j')" for j j'
    using proc_invD(8) [OF inv that(1-3)] old [OF that(1,4)] old [OF that(2,5)] that(4,5) by simp
  moreover have "kframe s' (dirs s') f \<longleftrightarrow> f \<in> V2P ` kpages_of s'" for f
    unfolding ds ks kf using proc_invD(5) [OF inv] by auto
  ultimately show "proc_inv s'"
    unfolding proc_inv_def using ok len proc_invD(2,3) [OF inv] v rf ks eq by (simp add: ds p'(1))
qed

section \<open>wait\<close>

lemma upt_split: "i < n \<Longrightarrow> [0..<n] = [0..<i] @ i # [Suc i..<n]"
  using upt_add_eq_append [of 0 i "n - i"] by (simp only: upt_conv_Cons less_imp_le le_add_diff_inverse)

definition reaped :: "proc \<Rightarrow> proc" where
  "reaped p = p\<lparr>kstack := 0, pid := 0, parent := None, pname := [], killed := False, state := UNUSED\<rparr>"

text \<open>Reaping a zombie: the slot is free, its stack and its address space are gone.\<close>

lemma reap_spec:
  assumes inv: "proc_inv s" and i: "i < NPROC" "used (procs s ! i)"
  shows "\<exists>s1 s2 s3. kfree s (kstack (procs s ! i)) = Ret s1 \<and> pgdir (procs s1 ! i) = pgdir (procs s ! i) \<and>
    freevm (setproc i (\<lambda>p. p\<lparr>kstack := 0\<rparr>) s1) (pgdir (procs s ! i)) = Ret s2 \<and>
    s3 = setproc i (\<lambda>p. p\<lparr>pid := 0, parent := None, pname := [], killed := False, state := UNUSED\<rparr>) s2 \<and>
    proc_inv s3 \<and> procs s3 = (procs s)[i := reaped (procs s ! i)] \<and> dirs s3 = dirs s - {pgdir (procs s ! i)} \<and>
    ftable s3 = ftable s \<and> pipes s3 = pipes s \<and> initproc s3 = initproc s \<and> nextpid s3 = nextpid s \<and>
    (\<forall>d \<in> dirs s - {pgdir (procs s ! i)}. \<forall>va. user_load (phys s3) d va = user_load (phys s) d va)"
proof -
  let ?k = "kstack (procs s ! i)" and ?d = "pgdir (procs s ! i)"
  note len = proc_invD(1) [OF inv] and st = used_stack [OF inv i]
  obtain s1 where s1: "kfree s ?k = Ret s1" "vm_inv s1 (dirs s)" "vm_frame s (dirs s) s1 (dirs s) {} {V2P ?k}"
      "refcnt s1 = (refcnt s)(pidx ?k := 0)"
    using free_kframe [OF proc_invD(4) [OF inv] st(2,3)] by auto
  note m1 = kern_more [OF vm_frameD(4) [OF s1(3)]]
  define t where "t = setproc i (\<lambda>p. p\<lparr>kstack := 0\<rparr>) s1"
  have mt: "mcore t = mcore s1" by (simp add: t_def)
  have vt: "vm_inv t (dirs s)" using s1(2) mcore_cong(1) [OF mt] by simp
  obtain s2 where s2: "freevm t ?d = Ret s2" "vm_inv s2 (dirs s - {?d})" "vm_frame t (dirs s) s2 (dirs s - {?d}) {} {}"
    using freevm_spec [OF vt used_dir [OF inv i]] by blast
  note m2 = kern_more [OF vm_frameD(4) [OF s2(3)]]
  define s3 where "s3 = setproc i (\<lambda>p. p\<lparr>pid := 0, parent := None, pname := [], killed := False, state := UNUSED\<rparr>) s2"
  have m3: "mcore s3 = mcore s2" by (simp add: s3_def)
  have p3: "procs s3 = (procs s)[i := reaped (procs s ! i)]"
    using i(1) len by (simp add: s3_def m2 t_def m1 reaped_def)
  have e3: "nextpid s3 = nextpid s" "kdata s3 = kdata s" "kpgdir s3 = kpgdir s" "pipes s3 = pipes s"
      "ftable s3 = ftable s" "initproc s3 = initproc s"
    using vm_frameD(2,3) [OF s2(3)] vm_frameD(2,3) [OF s1(3)] by (simp_all add: s3_def m2 t_def m1)
  have nk: "\<not> kframe s1 (dirs s) (V2P ?k)" using s1(4) by (simp add: kframe_def owned_def)
  have kf: "kframe s3 (dirs s - {?d}) f \<longleftrightarrow> kframe s (dirs s) f \<and> f \<noteq> V2P ?k" for f
  proof -
    have "kframe s3 (dirs s - {?d}) f = kframe s2 (dirs s - {?d}) f" by (rule mcore_cong(2) [OF m3])
    also have "\<dots> = kframe t (dirs s) f" using vm_frameD(7,10) [OF s2(3), of f] by blast
    also have "\<dots> = kframe s1 (dirs s) f" by (rule mcore_cong(2) [OF mt])
    also have "\<dots> \<longleftrightarrow> kframe s (dirs s) f \<and> f \<noteq> V2P ?k" using vm_frameD(7,10) [OF s1(3), of f] nk by blast
    finally show ?thesis .
  qed
  have rf: "refs s3 (V2P a) = 1" if a: "a \<in> kpages_of s" "a \<noteq> ?k" for a
  proof -
    have "kframe s (dirs s) (V2P a)" "V2P a \<notin> {V2P ?k}" using proc_invD(5) [OF inv] a by auto
    moreover from this have "kframe t (dirs s) (V2P a)" using vm_frameD(7) [OF s1(3)] mcore_cong(2) [OF mt] by simp
    ultimately show ?thesis
      using vm_frameD(8) [OF s1(3), of "V2P a"] vm_frameD(8) [OF s2(3), of "V2P a"] proc_invD(6) [OF inv a(1)]
      by (simp only: mcore_cong(3) [OF mt] mcore_cong(3) [OF m3] simp_thms not_False_eq_True empty_iff)
  qed
  have q: "\<not> used (reaped (procs s ! i))" "proc_ok s3 (reaped (procs s ! i))"
    using proc_invD(7) [OF inv i(1)] by (auto simp: used_def reaped_def proc_ok_def)
  have v3: "vm_inv s3 (dirs s - {?d})" using s2(2) mcore_cong(1) [OF m3] by simp
  note pr = proc_inv_remove [OF inv i p3 q v3 kf rf e3(1-4)]
  have "user_load (phys s3) d va = user_load (phys s) d va" if "d \<in> dirs s - {?d}" for d va
    using frame_load [OF s2(3), of d va] frame_load [OF s1(3), of d va] that by (simp add: s3_def t_def)
  then show ?thesis using s1(1) s2(1) pr p3 e3 m1(1) by (auto simp: t_def s3_def)
qed

text \<open>The scan finds the first zombie child, if there is one.\<close>

definition zombie_child :: "'z kern_scheme \<Rightarrow> nat \<Rightarrow> nat \<Rightarrow> bool" where
  "zombie_child s cur i \<longleftrightarrow> parent (procs s ! i) = Some cur \<and> state (procs s ! i) = ZOMBIE"

lemma wait_scan_none:
  assumes "\<forall>i \<in> set is. \<not> zombie_child s cur i"
  shows "wait_scan cur is hk s = Ret (Inl (hk \<or> (\<exists>i \<in> set is. parent (procs s ! i) = Some cur)), s)"
  using assms by (induction "is" arbitrary: hk) (auto simp: zombie_child_def)

lemma wait_scan_skip:
  assumes "\<forall>i \<in> set is. \<not> zombie_child s cur i"
  shows "wait_scan cur (is @ js) hk s = wait_scan cur js (hk \<or> (\<exists>i \<in> set is. parent (procs s ! i) = Some cur)) s"
  using assms by (induction "is" arbitrary: hk) (auto simp: zombie_child_def)

lemma proc_wait_spec:
  assumes inv: "proc_inv s" and cur: "cur < NPROC"
  shows "(\<forall>i < NPROC. \<not> zombie_child s cur i) \<Longrightarrow> proc_wait s cur =
      (if (\<exists>i < NPROC. parent (procs s ! i) = Some cur) \<and> \<not> killed (procs s ! cur)
       then Ret (None, sleep_on cur (ProcChan cur) s) else Ret (Some (-1), s))"
    "i < NPROC \<Longrightarrow> zombie_child s cur i \<Longrightarrow> \<forall>j < i. \<not> zombie_child s cur j \<Longrightarrow>
      \<exists>s'. proc_wait s cur = Ret (Some (pid (procs s ! i)), s') \<and> proc_inv s' \<and>
        procs s' = (procs s)[i := reaped (procs s ! i)] \<and> dirs s' = dirs s - {pgdir (procs s ! i)} \<and>
        ftable s' = ftable s \<and> pipes s' = pipes s \<and> initproc s' = initproc s \<and> nextpid s' = nextpid s \<and>
        (\<forall>d \<in> dirs s - {pgdir (procs s ! i)}. \<forall>va. user_load (phys s') d va = user_load (phys s) d va)"
proof -
  assume "\<forall>i < NPROC. \<not> zombie_child s cur i"
  then have "wait_scan cur [0..<NPROC] False s = Ret (Inl (\<exists>i \<in> set [0..<NPROC]. parent (procs s ! i) = Some cur), s)"
    using wait_scan_none [of "[0..<NPROC]" s cur False] by simp
  then show "proc_wait s cur = (if (\<exists>i < NPROC. parent (procs s ! i) = Some cur) \<and> \<not> killed (procs s ! cur)
       then Ret (None, sleep_on cur (ProcChan cur) s) else Ret (Some (-1), s))"
    by (auto simp: proc_wait_def)
next
  assume i: "i < NPROC" "zombie_child s cur i" "\<forall>j < i. \<not> zombie_child s cur j"
  have u: "used (procs s ! i)" using i(2) by (simp add: zombie_child_def used_def)
  note e = upt_split [OF i(1)]
  have sk: "wait_scan cur [0..<NPROC] False s = wait_scan cur (i # [Suc i..<NPROC])
      (False \<or> (\<exists>j \<in> set [0..<i]. parent (procs s ! j) = Some cur)) s"
    unfolding e by (rule wait_scan_skip) (use i(3) in auto)
  obtain s1 s2 s3 where r: "kfree s (kstack (procs s ! i)) = Ret s1" "pgdir (procs s1 ! i) = pgdir (procs s ! i)"
      "freevm (setproc i (\<lambda>p. p\<lparr>kstack := 0\<rparr>) s1) (pgdir (procs s ! i)) = Ret s2"
      "s3 = setproc i (\<lambda>p. p\<lparr>pid := 0, parent := None, pname := [], killed := False, state := UNUSED\<rparr>) s2"
      "proc_inv s3 \<and> procs s3 = (procs s)[i := reaped (procs s ! i)] \<and> dirs s3 = dirs s - {pgdir (procs s ! i)} \<and>
       ftable s3 = ftable s \<and> pipes s3 = pipes s \<and> initproc s3 = initproc s \<and> nextpid s3 = nextpid s \<and>
       (\<forall>d \<in> dirs s - {pgdir (procs s ! i)}. \<forall>va. user_load (phys s3) d va = user_load (phys s) d va)"
    using reap_spec [OF inv i(1) u] by blast
  have "proc_wait s cur = Ret (Some (pid (procs s ! i)), s3)"
    unfolding proc_wait_def sk using i(2) r(1-4) by (simp add: zombie_child_def Let_def)
  then show "\<exists>s'. proc_wait s cur = Ret (Some (pid (procs s ! i)), s') \<and> proc_inv s' \<and>
        procs s' = (procs s)[i := reaped (procs s ! i)] \<and> dirs s' = dirs s - {pgdir (procs s ! i)} \<and>
        ftable s' = ftable s \<and> pipes s' = pipes s \<and> initproc s' = initproc s \<and> nextpid s' = nextpid s \<and>
        (\<forall>d \<in> dirs s - {pgdir (procs s ! i)}. \<forall>va. user_load (phys s') d va = user_load (phys s) d va)"
    using r(5) by blast
qed

section \<open>exit\<close>

text \<open>The files that \<^verbatim>\<open>exit\<close> closes.\<close>

definition closed :: "nat \<Rightarrow> nat list \<Rightarrow> 'z kern_scheme \<Rightarrow> 'z kern_scheme \<Rightarrow> bool" where
  "closed cur fds s s' \<longleftrightarrow> dirs s' = dirs s \<and> initproc s' = initproc s \<and> nextpid s' = nextpid s \<and>
     (\<forall>i < NPROC. i \<noteq> cur \<longrightarrow> awake (procs s ! i) (procs s' ! i)) \<and>
     (\<exists>os. length os = NOFILE \<and> procs s' ! cur = (procs s ! cur)\<lparr>ofile := os\<rparr> \<and>
        (\<forall>fd < NOFILE. os ! fd = (if fd \<in> set fds then None else ofile (procs s ! cur) ! fd))) \<and>
     (\<forall>d \<in> dirs s. \<forall>va. user_load (phys s') d va = user_load (phys s) d va)"

lemma closed_skip:
  assumes "closed cur fds s s'" "ofile (procs s ! cur) ! fd = None"
  shows "closed cur (fd # fds) s s'"
proof -
  have e: "(if x \<in> set fds then None else ofile (procs s ! cur) ! x) =
      (if x \<in> set (fd # fds) then None else ofile (procs s ! cur) ! x)" for x
    using assms(2) by simp
  show ?thesis using assms(1) unfolding closed_def e .
qed

lemma closed_step:
  assumes "keeps s t" "length (procs t) = NPROC" "cur < NPROC" "fd < NOFILE" "state (procs s ! cur) = RUNNING"
    "length (ofile (procs s ! cur)) = NOFILE"
    and c: "closed cur fds (setproc cur (\<lambda>p. p\<lparr>ofile := (ofile p)[fd := None]\<rparr>) t) s'"
  shows "closed cur (fd # fds) s s'"
proof -
  let ?t = "setproc cur (\<lambda>p. p\<lparr>ofile := (ofile p)[fd := None]\<rparr>) t"
  have k: "dirs t = dirs s" "initproc t = initproc s" "nextpid t = nextpid s" "list_all2 awake (procs s) (procs t)"
      "\<And>d va. d \<in> dirs s \<Longrightarrow> user_load (phys t) d va = user_load (phys s) d va"
    using assms(1) by (auto simp: keeps_def)
  have l: "length (procs s) = NPROC" using list_all2_lengthD [OF k(4)] assms(2) by simp
  have aw: "awake (procs s ! i) (procs t ! i)" if "i < NPROC" for i using list_all2_nthD [OF k(4)] l that by simp
  have tc: "procs t ! cur = procs s ! cur" using aw [OF assms(3)] assms(5) by (simp add: awake_def)
  have td: "dirs ?t = dirs t"
  proof -
    have "map key (procs ?t) = map key (procs t)" by (simp add: key_map_upd key_def used_def)
    from key_images(1) [OF this] show ?thesis unfolding dirs_def setproc_sel(2) by (rule arg_cong)
  qed
  obtain os where os: "length os = NOFILE" "procs s' ! cur = (procs ?t ! cur)\<lparr>ofile := os\<rparr>"
      "\<forall>x < NOFILE. os ! x = (if x \<in> set fds then None else ofile (procs ?t ! cur) ! x)"
    using c by (auto simp: closed_def)
  have pc: "procs ?t ! cur = (procs s ! cur)\<lparr>ofile := (ofile (procs s ! cur))[fd := None]\<rparr>"
    using assms(2,3) by (simp add: tc)
  have "awake (procs s ! i) (procs s' ! i)" if "i < NPROC" "i \<noteq> cur" for i
    using c that awake_trans [OF aw [OF that(1)]] by (auto simp: closed_def)
  moreover have "procs s' ! cur = (procs s ! cur)\<lparr>ofile := os\<rparr>" unfolding os(2) pc by simp
  moreover have "\<forall>x < NOFILE. os ! x = (if x \<in> set (fd # fds) then None else ofile (procs s ! cur) ! x)"
    using os(3) assms(4,6) unfolding pc by (auto simp: nth_list_update)
  ultimately show ?thesis using os(1) c k td unfolding closed_def by auto
qed

context inode_put
begin

lemma exit_files_spec:
  assumes "proc_inv s" "pipes_inv s" "files_exact s" "cur < NPROC" "state (procs s ! cur) = RUNNING" "set fds \<subseteq> {..<NOFILE}"
    and total: "\<And>ip t. \<exists>t'. put ip t = Ret t'"
  shows "\<exists>s'. exit_files put cur fds s = Ret s' \<and> proc_inv s' \<and> pipes_inv s' \<and> files_exact s' \<and> closed cur fds s s'"
  using assms(1-6)
proof (induction fds arbitrary: s)
  case Nil
  have "length (ofile (procs s ! cur)) = NOFILE" using proc_invD(7) [OF Nil.prems(1,4)] by (simp add: proc_ok_def)
  then have "closed cur [] s s" unfolding closed_def by (intro conjI exI [of _ "ofile (procs s ! cur)"]) simp_all
  then show ?case using Nil by simp
next
  case (Cons fd fds)
  note inv = Cons.prems(1) and pv = Cons.prems(2) and ex = Cons.prems(3) and cur = Cons.prems(4,5)
  have fd: "fd < NOFILE" "set fds \<subseteq> {..<NOFILE}" using Cons.prems(6) by auto
  show ?case
  proof (cases "ofile (procs s ! cur) ! fd")
    case None
    then show ?thesis using Cons.IH [OF inv pv ex cur fd(2)] closed_skip by (fastforce simp: None)
  next
    case (Some f)
    note fc = files_exact_close [OF ex cur(1) fd(1) Some]
    note fo = fd_open [OF ex cur(1) fd(1) Some]
    from fileclose_spec [OF inv pv fo(2,1) total] obtain t where t: "fileclose put f s = Ret t" "proc_inv t" "pipes_inv t"
        "keeps s t" "ftable t = (ftable s)[f := dropped (ftable s ! f)]" by (elim exE conjE)
    let ?t = "setproc cur (\<lambda>p. p\<lparr>ofile := (ofile p)[fd := None]\<rparr>) t"
    have aw: "list_all2 awake (procs s) (procs t)" using t(4) by (simp add: keeps_def)
    have rt: "procs t ! cur = procs s ! cur"
      using list_all2_nthD [OF aw, of cur] proc_invD(1) [OF inv] cur by (simp add: awake_def)
    have it: "proc_inv ?t" by (rule proc_inv_setproc [OF t(2)]) (simp_all add: key_def used_def proc_ok_def)
    have pt: "pipes_inv ?t" by (rule pipes_inv_cong [OF t(3)]) simp_all
    have et: "files_exact ?t" by (rule fc [OF _ aw]) (simp_all add: t(5))
    have st: "state (procs ?t ! cur) = RUNNING" using cur rt proc_invD(1) [OF t(2)] by simp
    obtain s' where s': "exit_files put cur fds ?t = Ret s'" "proc_inv s'" "pipes_inv s'" "files_exact s'" "closed cur fds ?t s'"
      using Cons.IH [OF it pt et cur(1) st fd(2)] by blast
    have "length (ofile (procs s ! cur)) = NOFILE" using proc_invD(7) [OF inv cur(1)] by (simp add: proc_ok_def)
    then have "closed cur (fd # fds) s s'"
      using closed_step [OF t(4) proc_invD(1) [OF t(2)] cur(1) fd(1) cur(2) _ s'(5)] by blast
    moreover have "exit_files put cur (fd # fds) s = Ret s'" using t(1) s'(1) Some by simp
    ultimately show ?thesis using s'(2-4) by blast
  qed
qed

end

text \<open>Passing the children on: their parent changes, and some process may have been woken.\<close>

definition reparented :: "nat \<Rightarrow> nat option \<Rightarrow> proc \<Rightarrow> proc \<Rightarrow> bool" where
  "reparented cur ini p q \<longleftrightarrow> (\<exists>r. awake p r \<and> q = (if parent p = Some cur then r\<lparr>parent := ini\<rparr> else r))"

lemma awake_reparented: "awake p q \<Longrightarrow> parent p \<noteq> Some cur \<Longrightarrow> reparented cur ini p q"
  by (auto simp: reparented_def)

lemma reparented_awake:
  assumes "awake p q" "reparented cur ini q r"
  shows "reparented cur ini p r"
  using assms(2) awake_D(3) [OF assms(1)] awake_trans [OF assms(1)] unfolding reparented_def by metis

lemma reparented_D:
  assumes "reparented cur ini p q"
  shows "ofile q = ofile p" "cwd q = cwd p" "pid q = pid p" "pgdir q = pgdir p" "kstack q = kstack p"
    "used q = used p" "active q = active p" "chan q = chan p" "state q = ZOMBIE \<longleftrightarrow> state p = ZOMBIE"
    "state q = SLEEPING \<longrightarrow> state p = SLEEPING" "parent q = (if parent p = Some cur then ini else parent p)"
proof -
  obtain r where r: "awake p r" "q = (if parent p = Some cur then r\<lparr>parent := ini\<rparr> else r)" using assms by (auto simp: reparented_def)
  note a = awake_D [OF r(1)]
  show "ofile q = ofile p" "cwd q = cwd p" "pid q = pid p" "pgdir q = pgdir p" "kstack q = kstack p"
    "used q = used p" "active q = active p" "chan q = chan p" "state q = ZOMBIE \<longleftrightarrow> state p = ZOMBIE"
    "state q = SLEEPING \<longrightarrow> state p = SLEEPING" "parent q = (if parent p = Some cur then ini else parent p)"
    using a r(2) by (simp_all add: used_def active_def)
qed

lemma awake_parent: "awake (p\<lparr>parent := x\<rparr>) q \<Longrightarrow> \<exists>r. awake p r \<and> q = r\<lparr>parent := x\<rparr>"
proof -
  assume a: "awake (p\<lparr>parent := x\<rparr>) q"
  have "awake p (p\<lparr>state := RUNNABLE\<rparr>)" if "state p = SLEEPING" using that by (simp add: awake_def)
  moreover have "p\<lparr>parent := x, state := RUNNABLE\<rparr> = (p\<lparr>state := RUNNABLE\<rparr>)\<lparr>parent := x\<rparr>" by simp
  moreover have "q = p\<lparr>parent := x\<rparr> \<or> state p = SLEEPING \<and> q = p\<lparr>parent := x, state := RUNNABLE\<rparr>"
    using a by (simp add: awake_def)
  ultimately show ?thesis by (metis awake_refl)
qed

lemma exit_reparent_frame:
  "ftable (exit_reparent cur is s) = ftable s" "pipes (exit_reparent cur is s) = pipes s" "phys (exit_reparent cur is s) = phys s"
  "initproc (exit_reparent cur is s) = initproc s" "nextpid (exit_reparent cur is s) = nextpid s"
  "length (procs (exit_reparent cur is s)) = length (procs s)"
  by (induction "is" arbitrary: s) (simp_all add: Let_def)

lemma exit_reparent_inv:
  assumes "proc_inv s"
  shows "proc_inv (exit_reparent cur is s) \<and> dirs (exit_reparent cur is s) = dirs s"
  using assms
proof (induction "is" arbitrary: s)
  case (Cons i "is")
  let ?t = "setproc i (\<lambda>p. p\<lparr>parent := initproc s\<rparr>) s"
  have t: "proc_inv ?t"
    by (rule proc_inv_setproc [OF Cons.prems]) (simp_all add: key_def used_def proc_ok_def)
  have "map key (procs ?t) = map key (procs s)" by (simp add: key_map_upd key_def used_def)
  from key_images(1) [OF this] have d: "dirs ?t = dirs s" unfolding dirs_def setproc_sel(2) by (rule arg_cong)
  show ?case
    using Cons.IH [OF Cons.prems] Cons.IH [OF t] Cons.IH [OF proc_inv_wakeup(2) [OF t]] proc_inv_wakeup(4) [OF t] d
    by (simp add: Let_def)
qed simp

lemma exit_reparent_procs:
  assumes "i < length (procs s)" "distinct is" "initproc s = Some ini" "ini \<noteq> cur"
  shows "if i \<in> set is then reparented cur (Some ini) (procs s ! i) (procs (exit_reparent cur is s) ! i)
    else awake (procs s ! i) (procs (exit_reparent cur is s) ! i)"
  using assms
proof (induction "is" arbitrary: s)
  case (Cons j "is")
  show ?case
  proof (cases "parent (procs s ! j) = Some cur")
    case False
    have "if i \<in> set is then reparented cur (Some ini) (procs s ! i) (procs (exit_reparent cur is s) ! i)
        else awake (procs s ! i) (procs (exit_reparent cur is s) ! i)"
      by (rule Cons.IH) (use Cons.prems in auto)
    then show ?thesis
      using False Cons.prems(2) awake_reparented [of "procs s ! i" _ cur "Some ini"] by (cases "i = j") simp_all
  next
    case True
    let ?u = "setproc j (\<lambda>p. p\<lparr>parent := Some ini\<rparr>) s"
    define t where "t = (if state (procs ?u ! j) = ZOMBIE then wakeup1 (chan_of (Some ini)) ?u else ?u)"
    have l: "length (procs t) = length (procs s)" "initproc t = Some ini" by (simp_all add: t_def Cons.prems)
    have aw: "awake (procs ?u ! i) (procs t ! i)" using Cons.prems(1) by (auto simp: t_def)
    have eq: "exit_reparent cur (j # is) s = exit_reparent cur is t" using True Cons.prems(3) by (simp add: Let_def t_def)
    have ih: "if i \<in> set is then reparented cur (Some ini) (procs t ! i) (procs (exit_reparent cur is t) ! i)
        else awake (procs t ! i) (procs (exit_reparent cur is t) ! i)"
      by (rule Cons.IH) (use Cons.prems l in auto)
    show ?thesis
    proof (cases "i = j")
      case ij: True
      have u: "procs ?u ! i = (procs s ! i)\<lparr>parent := Some ini\<rparr>" using ij Cons.prems(1) by simp
      have "awake ((procs s ! i)\<lparr>parent := Some ini\<rparr>) (procs (exit_reparent cur is t) ! i)"
        using aw ih ij Cons.prems(2) awake_trans unfolding u by auto
      then show ?thesis using True ij eq awake_parent unfolding reparented_def by auto
    next
      case False
      then have a: "awake (procs s ! i) (procs t ! i)" using aw by simp
      show ?thesis
        unfolding eq using ih awake_trans [OF a] reparented_awake [OF a] False by simp
    qed
  qed
qed simp

lemma exit_reparent_wakes:
  assumes "initproc s = Some ini" "ini < length (procs s)" "ini \<noteq> cur" "distinct is" "set is \<subseteq> {..<length (procs s)}"
    and "i \<in> set is" "zombie_child s cur i"
  shows "\<not> (state (procs (exit_reparent cur is s) ! ini) = SLEEPING \<and> chan (procs (exit_reparent cur is s) ! ini) = ProcChan ini)"
  using assms
proof (induction "is" arbitrary: s)
  case (Cons j "is")
  have rest: "\<not> (state (procs (exit_reparent cur is t) ! ini) = SLEEPING \<and> chan (procs (exit_reparent cur is t) ! ini) = ProcChan ini)"
    if "\<not> (state (procs t ! ini) = SLEEPING \<and> chan (procs t ! ini) = ProcChan ini)" "initproc t = Some ini"
      "length (procs t) = length (procs s)" for t :: "'a kern_scheme"
  proof -
    have "\<exists>r. awake (procs t ! ini) r \<and> state (procs (exit_reparent cur is t) ! ini) = state r \<and>
        chan (procs (exit_reparent cur is t) ! ini) = chan r"
      using exit_reparent_procs [of ini t "is" ini cur] Cons.prems(2-4) that(2,3)
      by (auto simp: reparented_def split: if_splits)
    then show ?thesis using that(1) awake_D(10,12) by metis
  qed
  let ?u = "setproc j (\<lambda>p. p\<lparr>parent := Some ini\<rparr>) s"
  have lj: "j < length (procs s)" using Cons.prems(5) by simp
  show ?case
  proof (cases "zombie_child s cur j")
    case True
    let ?w = "wakeup1 (ProcChan ini) ?u"
    have w: "\<not> (state (procs ?w ! ini) = SLEEPING \<and> chan (procs ?w ! ini) = ProcChan ini)"
      using Cons.prems(2) by (auto simp: woken_def)
    have "exit_reparent cur (j # is) s = exit_reparent cur is ?w"
      using True Cons.prems(1) lj by (simp add: zombie_child_def Let_def chan_of_def)
    then show ?thesis using rest [OF w] Cons.prems(1) by simp
  next
    case False
    then have ij: "i \<in> set is" using Cons.prems(6,7) by auto
    let ?t = "if parent (procs s ! j) = Some cur then ?u else s"
    have "exit_reparent cur (j # is) s = exit_reparent cur is ?t"
      using False Cons.prems(1) lj by (simp add: zombie_child_def Let_def)
    moreover have "i \<noteq> j" using Cons.prems(4) ij by auto
    then have "zombie_child ?t cur i" using Cons.prems(7) by (simp add: zombie_child_def)
    ultimately show ?thesis using Cons.IH [of ?t] Cons.prems ij by simp
  qed
qed simp

definition in_wait :: "'z kern_scheme \<Rightarrow> nat \<Rightarrow> bool" where
  "in_wait s i \<longleftrightarrow> state (procs s ! i) = SLEEPING \<and> chan (procs s ! i) = ProcChan i"

text \<open>What \<^verbatim>\<open>exit\<close> leaves behind.\<close>

definition exited :: "nat \<Rightarrow> nat \<Rightarrow> 'z kern_scheme \<Rightarrow> 'z kern_scheme \<Rightarrow> bool" where
  "exited cur ini s s' \<longleftrightarrow> dirs s' = dirs s \<and> initproc s' = initproc s \<and> nextpid s' = nextpid s \<and>
     (\<forall>d \<in> dirs s. \<forall>va. user_load (phys s') d va = user_load (phys s) d va) \<and>
     (\<forall>i < NPROC. i \<noteq> cur \<longrightarrow> reparented cur (Some ini) (procs s ! i) (procs s' ! i)) \<and>
     (\<exists>os. (\<forall>fd < NOFILE. os ! fd = None) \<and> procs s' ! cur = (procs s ! cur)\<lparr>ofile := os, cwd := None, state := ZOMBIE\<rparr>) \<and>
     (\<forall>p < NPROC. parent (procs s ! cur) = Some p \<longrightarrow> \<not> in_wait s' p) \<and>
     ((\<exists>i < NPROC. i \<noteq> cur \<and> zombie_child s cur i) \<longrightarrow> \<not> in_wait s' ini)"

lemma exit_table:
  assumes inv: "proc_inv s" and cur: "cur < NPROC" "state (procs s ! cur) = RUNNING" "parent (procs s ! cur) \<noteq> Some cur"
    and ini: "initproc s = Some ini" "ini < NPROC" "ini \<noteq> cur"
  defines "t \<equiv> exit_reparent cur [0..<NPROC] (wakeup1 (chan_of (parent (procs s ! cur))) s)"
  shows "proc_inv t" "dirs t = dirs s" "procs t ! cur = procs s ! cur"
    "\<And>i. i < NPROC \<Longrightarrow> reparented cur (Some ini) (procs s ! i) (procs t ! i)"
    "\<And>p. p < NPROC \<Longrightarrow> parent (procs s ! cur) = Some p \<Longrightarrow> \<not> in_wait t p"
    "\<And>i. i < NPROC \<Longrightarrow> zombie_child s cur i \<Longrightarrow> \<not> in_wait t ini"
proof -
  define u where "u = wakeup1 (chan_of (parent (procs s ! cur))) s"
  have l: "length (procs s) = NPROC" by (rule proc_invD(1) [OF inv])
  have iu: "proc_inv u" "dirs u = dirs s" "length (procs u) = NPROC" "initproc u = Some ini"
    using proc_inv_wakeup(2,4) [OF inv] by (simp_all add: u_def l ini)
  have t: "t = exit_reparent cur [0..<NPROC] u" by (simp add: t_def u_def)
  show "proc_inv t" "dirs t = dirs s" using exit_reparent_inv [OF iu(1)] iu(2) by (simp_all add: t)
  have su: "awake (procs s ! i) (procs u ! i)" if "i < NPROC" for i using that l by (auto simp: u_def)
  have ut: "reparented cur (Some ini) (procs u ! i) (procs t ! i)" if "i < NPROC" for i
    using exit_reparent_procs [of i u "[0..<NPROC]" ini cur] iu ini(3) that by (simp add: t)
  show r: "reparented cur (Some ini) (procs s ! i) (procs t ! i)" if "i < NPROC" for i
    using reparented_awake [OF su ut] that by blast
  show "procs t ! cur = procs s ! cur"
    using r [OF cur(1)] cur(2,3) by (auto simp: reparented_def awake_def)
  show "\<not> in_wait t p" if "p < NPROC" "parent (procs s ! cur) = Some p" for p
  proof -
    have "\<not> in_wait u p" using that l by (auto simp: u_def chan_of_def in_wait_def woken_def)
    moreover have "state (procs t ! p) = SLEEPING \<longrightarrow> state (procs u ! p) = SLEEPING" "chan (procs t ! p) = chan (procs u ! p)"
      using reparented_D(8,10) [OF ut [OF that(1)]] by simp_all
    ultimately show ?thesis by (auto simp: in_wait_def)
  qed
  show "\<not> in_wait t ini" if "i < NPROC" "zombie_child s cur i" for i
  proof -
    have "zombie_child u cur i" using that l by (simp add: zombie_child_def u_def)
    then show ?thesis
      using exit_reparent_wakes [of u ini cur "[0..<NPROC]" i] iu ini that(1) by (auto simp: t in_wait_def atLeast0LessThan)
  qed
qed

lemma files_inv_exit:
  assumes fe: "files_exact t" and fi: "files_inv s" and cur: "cur < NPROC"
    and p: "\<And>i. i < NPROC \<Longrightarrow> i \<noteq> cur \<Longrightarrow> ofile (procs s' ! i) = ofile (procs t ! i) \<and> ofile (procs t ! i) = ofile (procs s ! i) \<and>
       cwd (procs s' ! i) = cwd (procs s ! i) \<and> active (procs s' ! i) = active (procs s ! i)"
    and c: "ofile (procs s' ! cur) = ofile (procs t ! cur)" "\<forall>fd < NOFILE. ofile (procs t ! cur) ! fd = None" "\<not> active (procs s' ! cur)"
    and l: "length (procs s') = NPROC" "ftable s' = ftable t"
  shows "files_inv s'"
proof -
  have "files_exact s'" by (rule files_exact_cong [OF fe l(2,1)]) (use p c in metis)
  moreover have "if active (procs s' ! i) then cwd (procs s' ! i) \<noteq> None else \<forall>fd < NOFILE. ofile (procs s' ! i) ! fd = None"
    if "i < NPROC" for i
    using p [OF that] c fi that by (cases "i = cur") (auto simp: files_inv_def)
  ultimately show ?thesis by (simp add: files_inv_def)
qed

context inode_put
begin

lemma exit_spec:
  assumes inv: "proc_inv s" and fi: "files_inv s" and pv: "pipes_inv s"
    and cur: "cur < NPROC" "state (procs s ! cur) = RUNNING" "parent (procs s ! cur) \<noteq> Some cur"
    and ini: "initproc s = Some ini" "ini < NPROC" "ini \<noteq> cur"
    and total: "\<And>ip t. \<exists>t'. put ip t = Ret t'"
  shows "\<exists>s'. proc_exit put s cur = Ret s' \<and> proc_inv s' \<and> files_inv s' \<and> pipes_inv s' \<and> exited cur ini s s'"
proof -
  have ac: "active (procs s ! cur)" using cur(2) by (simp add: active_def used_def)
  have fe: "files_exact s" using fi by (simp add: files_inv_def)
  have "set [0..<NOFILE] \<subseteq> {..<NOFILE}" by auto
  from exit_files_spec [OF inv pv fe cur(1,2) this total] obtain s1 where s1: "exit_files put cur [0..<NOFILE] s = Ret s1"
      "proc_inv s1" "pipes_inv s1" "files_exact s1" "closed cur [0..<NOFILE] s s1"
    by (elim exE conjE)
  obtain os where os: "procs s1 ! cur = (procs s ! cur)\<lparr>ofile := os\<rparr>" "\<forall>fd < NOFILE. os ! fd = None"
    using s1(5) by (auto simp: closed_def)
  have c1: "dirs s1 = dirs s" "initproc s1 = Some ini" "nextpid s1 = nextpid s"
      "\<And>i. i < NPROC \<Longrightarrow> i \<noteq> cur \<Longrightarrow> awake (procs s ! i) (procs s1 ! i)"
      "\<And>d va. d \<in> dirs s \<Longrightarrow> user_load (phys s1) d va = user_load (phys s) d va"
    using s1(5) ini(1) by (auto simp: closed_def)
  have "cwd (procs s ! cur) \<noteq> None" using fi ac cur(1) by (auto simp: files_inv_def)
  then obtain ip where ip: "cwd (procs s1 ! cur) = Some ip" using os(1) by auto
  obtain s2 where s2: "put ip s1 = Ret s2" using total by blast
  note e2 = same_core_D [OF put_core [OF s2]] and i2 = same_core_inv [OF put_core [OF s2]]
  define s3 where "s3 = setproc cur (\<lambda>p. p\<lparr>cwd := None\<rparr>) s2"
  have i3: "proc_inv s3"
    unfolding s3_def by (rule proc_inv_setproc [OF i2(1) [OF s1(2)]]) (simp_all add: key_def used_def proc_ok_def)
  have l: "length (procs s1) = NPROC" by (rule proc_invD(1) [OF s1(2)])
  have p3: "procs s3 ! cur = (procs s ! cur)\<lparr>ofile := os, cwd := None\<rparr>"
      "\<And>i. i < NPROC \<Longrightarrow> i \<noteq> cur \<Longrightarrow> awake (procs s ! i) (procs s3 ! i)"
    using cur(1) l os(1) c1(4) by (simp_all add: s3_def e2(4))
  have d3: "dirs s3 = dirs s"
  proof -
    have "map key (procs s3) = map key (procs s2)" by (simp add: s3_def key_map_upd key_def used_def)
    from key_images(1) [OF this] have "dirs s3 = dirs s2" by (simp add: dirs_def s3_def)
    then show ?thesis using c1(1) by (simp add: dirs_def e2)
  qed
  have st3: "state (procs s3 ! cur) = RUNNING" "parent (procs s3 ! cur) \<noteq> Some cur" "initproc s3 = Some ini"
    using cur p3 c1(2) by (simp_all add: s3_def e2)
  define t where "t = exit_reparent cur [0..<NPROC] (wakeup1 (chan_of (parent (procs s3 ! cur))) s3)"
  note T = exit_table [OF i3 cur(1) st3 ini(2,3), folded t_def]
  define s' where "s' = setproc cur (\<lambda>p. p\<lparr>state := ZOMBIE\<rparr>) t"
  have tc: "procs t ! cur = (procs s ! cur)\<lparr>ofile := os, cwd := None\<rparr>" using T(3) p3(1) by simp
  have lt: "length (procs t) = NPROC" by (rule proc_invD(1) [OF T(1)])
  have pc: "procs s' ! cur = (procs s ! cur)\<lparr>ofile := os, cwd := None, state := ZOMBIE\<rparr>" using tc lt cur(1) by (simp add: s'_def)
  have po: "procs s' ! i = procs t ! i" if "i \<noteq> cur" for i using that by (simp add: s'_def)
  have tf: "ftable t = ftable s1" "pipes t = pipes s1" "phys t = phys s1" "initproc t = Some ini" "nextpid t = nextpid s"
    using c1 by (simp_all add: t_def exit_reparent_frame s3_def e2)
  have eq: "proc_exit put s cur = Ret s'"
    using ini s1(1) ip s2 by (simp add: proc_exit_def Let_def s3_def t_def s'_def)
  have iv: "proc_inv s'"
    unfolding s'_def by (rule proc_inv_setproc [OF T(1)]) (use cur(2) tc in \<open>auto simp: key_def used_def proc_ok_def\<close>)
  have k: "map key (procs s') = map key (procs t)"
    unfolding s'_def setproc_sel by (rule key_map_upd) (use cur(2) tc in \<open>simp add: key_def used_def\<close>)
  have ds: "dirs s' = dirs s" using key_images(1) [OF k] T(2) d3 by (simp add: dirs_def s'_def)
  have re: "reparented cur (Some ini) (procs s ! i) (procs s' ! i)" if "i < NPROC" "i \<noteq> cur" for i
    using reparented_awake [OF p3(2) [OF that] T(4) [OF that(1)]] po [OF that(2)] by simp
  have fi': "files_inv s'"
  proof (rule files_inv_exit [OF s1(4) fi cur(1)])
    fix i assume i: "i < NPROC" "i \<noteq> cur"
    show "ofile (procs s' ! i) = ofile (procs s1 ! i) \<and> ofile (procs s1 ! i) = ofile (procs s ! i) \<and>
       cwd (procs s' ! i) = cwd (procs s ! i) \<and> active (procs s' ! i) = active (procs s ! i)"
      using reparented_D [OF re [OF i]] awake_D [OF c1(4) [OF i]] by simp
  qed (use pc os lt tf in \<open>simp_all add: s'_def active_def\<close>)
  have pi': "pipes_inv s'" by (rule pipes_inv_cong [OF s1(3)]) (simp_all add: s'_def tf)
  have w1: "\<not> in_wait s' p" if "p < NPROC" "parent (procs s ! cur) = Some p" for p
    using T(5) [OF that(1)] that cur(3) p3(1) po [of p] by (auto simp: in_wait_def)
  have w2: "\<not> in_wait s' ini" if i: "i < NPROC" "i \<noteq> cur" "zombie_child s cur i" for i
  proof -
    have "zombie_child s3 cur i" using i awake_D(3,9) [OF p3(2) [OF i(1,2)]] by (simp add: zombie_child_def)
    then show ?thesis using T(6) [OF i(1)] po [OF ini(3)] by (simp add: in_wait_def)
  qed
  have "\<exists>os. (\<forall>fd < NOFILE. os ! fd = None) \<and> procs s' ! cur = (procs s ! cur)\<lparr>ofile := os, cwd := None, state := ZOMBIE\<rparr>"
    using os(2) pc by blast
  then have "exited cur ini s s'"
    unfolding exited_def using ds re w1 w2 c1(5) ini(1) by (auto simp: s'_def tf)
  then show ?thesis using eq iv fi' pi' by blast
qed

end

end
