(* ===== verification/Proc_Boot.thy ===== *)
theory Proc_Boot
  imports Proc_Life
begin

text \<open>
  The first process: \<^verbatim>\<open>inituvm\<close> and \<^verbatim>\<open>userinit\<close> on a kernel that has just initialised its
  memory. The well-formedness of every later state starts here.
\<close>

section \<open>Writing to a page of user memory\<close>

lemma vm_inv_page_write:
  assumes inv: "vm_inv s D" and d: "d \<in> D" and va: "va < KERNBASE" and w: "writable (phys s) d va"
    and out: "\<And>a. PGROUNDDOWN a \<noteq> PTE_ADDR (lookup (phys s) d va) \<Longrightarrow> m a = phys s a"
  shows "vm_inv (s\<lparr>phys := m\<rparr>) D" "vm_frame s D (s\<lparr>phys := m\<rparr>) D {(d, PGROUNDDOWN va)} {}"
    "\<And>d' va'. d' \<in> D \<Longrightarrow> lookup m d' va' = lookup (phys s) d' va'"
proof -
  let ?f = "PTE_ADDR (lookup (phys s) d va)" and ?s = "s\<lparr>phys := m\<rparr>"
  have p: "present (phys s) d va" using w by (simp add: writable_def)
  note own = mapped_owned [OF inv d va p] and un = writable_unique [OF inv d va w] and ok = vm_invD(2) [OF inv]
  have mt: "m a = phys s a" if "PGROUNDDOWN a \<in> all_tabs s D" for a using that own by (intro out) auto
  have lk: "lookup m d' va' = lookup (phys s) d' va'" and pde: "pde_of m d' va' = pde_of (phys s) d' va'"
    if "d' \<in> D" for d' va'
    using same_tabs [OF ok _ that, of ?s] mt by simp_all
  show "\<And>d' va'. d' \<in> D \<Longrightarrow> lookup m d' va' = lookup (phys s) d' va'" by (rule lk)
  have ki: "kmem_inv ?s" by (rule kmem_inv_owned_write [OF vm_invD(1) [OF inv]]) (rule out, use own in auto)
  have ok': "tables_ok ?s D" by (rule tables_ok_cong [OF ok]) (simp_all add: pde)
  have at: "all_tabs ?s D = all_tabs s D" by (rule all_tabs_cong) (simp add: pde)
  have um: "umaps m D f = umaps (phys s) D f" for f by (rule umaps_cong) (simp add: lk)
  have kp: "kpage ?s = kpage s" by (rule kpage_cong) simp
  have ow: "owned ?s = owned s" by (rule owned_cong) simp_all
  show "vm_inv ?s D"
    using inv ki ok' unfolding vm_inv_def by (simp add: um at kp writable_def present_def lk)
  have kf: "kframe ?s D f = kframe s D f" for f by (simp add: kframe_def ow at um)
  have kb: "m a = phys s a" if "kframe s D (PGROUNDDOWN a)" for a
    using that un by (intro out) (auto simp: kframe_def)
  have ub: "ubyte m d' va' = ubyte (phys s) d' va'"
    if d': "d' \<in> D" "va' < KERNBASE" "(d', PGROUNDDOWN va') \<noteq> (d, PGROUNDDOWN va)" "present (phys s) d' va'" for d' va'
  proof -
    have "PTE_ADDR (lookup (phys s) d' va') \<noteq> ?f"
    proof
      assume e: "PTE_ADDR (lookup (phys s) d' va') = ?f"
      show False using umapsI [OF d'(1,2,4)] d'(3) unfolding e un(1) by blast
    qed
    then have "m (PTE_ADDR (lookup (phys s) d' va') + (va' AND 0xFFF)) =
        phys s (PTE_ADDR (lookup (phys s) d' va') + (va' AND 0xFFF))" by (intro out) simp
    then show ?thesis using lk [OF d'(1)] by (simp add: ubyte_def)
  qed
  show "vm_frame s D ?s D {(d, PGROUNDDOWN va)} {}"
    unfolding vm_frame_def using lk ub kb by (auto simp: kf refs_def)
qed

lemma inituvm_spec:
  assumes inv: "vm_inv s D" and d: "d \<in> D" and np: "\<not> present (phys s) d 0" and r: "inituvm s d code = Ret s'"
  shows "vmach.more s' = vmach.more s" "present (phys s') d 0 \<Longrightarrow> vm_inv s' D \<and> vm_frame s D s' D {(d, 0)} {}"
proof -
  have a0: "aligned (0 :: u32)" "(0 :: u32) < KERNBASE" by (simp_all add: aligned_def KERNBASE_def)
  have lc: "length code < 4096" using r by (auto simp: inituvm_def PGSIZE_def split: if_splits)
  obtain mem s1 where al: "kalloc s = Ret (mem, s1)" "mem \<noteq> 0"
    using r by (auto simp: inituvm_def res_simps split: if_splits)
  let ?s2 = "s1\<lparr>phys := mem_set (phys s1) (V2P mem) 0 PGSIZE\<rparr>"
  have am: "aligned (V2P mem)" using ka.alloc_new [OF vm_invD(1) [OF inv] al] kpage_aligned [of s mem] by simp
  have m: "\<forall>a. PGROUNDDOWN a \<noteq> V2P mem \<longrightarrow> mem_set (phys s1) (V2P mem) 0 PGSIZE a = phys s a"
    using mem_set_mmap [OF am] kalloc_frame [OF al(1)] by simp
  note low = low_or [OF low_bits(2,3)]
  obtain r' s3 where r': "mappages ?s2 d 0 PGSIZE (V2P mem) (PTE_W OR PTE_U) = Ret (r', s3)"
    "r' = -1 \<and> s3 = ?s2 \<or> r' = 0 \<and> vm_inv s3 D \<and> vm_frame s D s3 D {(d, 0)} {} \<and>
         pte_upd (phys s) (phys s3) D d 0 (V2P mem OR (PTE_W OR PTE_U) OR PTE_P) \<and> refs s3 (V2P mem) = 1 \<and>
         zero_page (phys s3) d 0"
    using map_zero [OF inv d a0 np al refl low] by blast
  have s': "s' = s3\<lparr>phys := mem_put (phys s3) (V2P mem) code\<rparr>"
    using r al r'(1) by (auto simp: inituvm_def Let_def split: if_splits)
  have "vmach.more s3 = vmach.more s"
    using r'(2) vm_frameD(4) [of s D s3] kmem_more(3) [of ?s2 s] kalloc_frame [OF al(1)] by fastforce
  then show "vmach.more s' = vmach.more s" by (simp add: s')
  assume p: "present (phys s') d 0"
  have out: "mem_put m' (V2P mem) code a = m' a" if "PGROUNDDOWN a \<noteq> V2P mem" for a m'
  proof -
    have "\<not> unat (a - V2P mem) < 4096" using frame_diff_less [OF am, of a] that by (simp add: word_less_nat_alt PGSIZE_def)
    then show ?thesis using lc by (simp add: mem_put_def)
  qed
  have "r' = 0"
  proof (rule ccontr)
    assume "r' \<noteq> 0"
    then have e: "s3 = ?s2" using r'(2) by blast
    have "phys s' a = phys s a" if "owned s (PGROUNDDOWN a)" for a
    proof -
      have "PGROUNDDOWN a \<noteq> V2P mem" using that kalloc_page(3) [OF vm_invD(1) [OF inv] al m refl] by auto
      then show ?thesis using out m by (simp add: s' e)
    qed
    then have "lookup (phys s') d 0 = lookup (phys s) d 0"
      using same_tabs(2) [OF vm_invD(2) [OF inv] _ d, of s'] tabs_owned [OF vm_invD(2) [OF inv]] by blast
    then show False using np p by (simp add: present_def)
  qed
  then have s3: "vm_inv s3 D" "vm_frame s D s3 D {(d, 0)} {}"
      "lookup (phys s3) d 0 = V2P mem OR (PTE_W OR PTE_U) OR PTE_P"
    using r'(2) pte_updD [of "phys s" "phys s3" D d 0 _ d 0] d a0 by (auto simp: PGROUNDDOWN_aligned)
  have w: "writable (phys s3) d 0" and f: "PTE_ADDR (lookup (phys s3) d 0) = V2P mem"
    using s3(3) pte_make [OF am low] by (simp_all add: writable_def present_def bit_flag)
  note pw = vm_inv_page_write [OF s3(1) d a0(2) w, of "mem_put (phys s3) (V2P mem) code", unfolded f, OF out]
  have "vm_inv s' D" unfolding s' by (rule pw(1))
  moreover have "PGROUNDDOWN 0 = 0" by (simp add: PGROUNDDOWN_aligned a0)
  then have "vm_frame s D s' D ({(d, 0)} \<union> {(d, 0)}) {}"
    unfolding s' using vm_frame_trans [OF s3(2) pw(2)] by auto
  ultimately show "vm_inv s' D \<and> vm_frame s D s' D {(d, 0)} {}" by simp
qed

section \<open>The first process\<close>

definition proc_zero :: proc where
  "proc_zero = \<lparr>psz = 0, pgdir = 0, kstack = 0, state = UNUSED, pid = 0, parent = None, tf = tf_zero, chan = NullChan,
     killed = False, trace_enabled = False, priority = 0, ofile = replicate NOFILE None, cwd = None, pname = [],
     vmas = replicate MAX_VMAS vma_zero\<rparr>"

definition file_zero :: file_t where
  "file_zero = \<lparr>ftype = FD_NONE, fref = 0, readable = False, writeable = False, fpipe = 0, fip = 0, foff = 0\<rparr>"

text \<open>The kernel's data segment before any code has run: the tables are empty.\<close>

definition kern_bss :: "pmem \<Rightarrow> u32 \<Rightarrow> u32 \<Rightarrow> inode list \<Rightarrow> kern" where
  "kern_bss m e dat ic = \<lparr>phys = m, freelist = 0, refcnt = (\<lambda>_. 0), use_lock = False, kend = e,
     cr3 = 0, kdata = dat, kpgdir = 0, procs = replicate NPROC proc_zero, initproc = None, nextpid = 1, ticks = 0,
     ftable = replicate NFILE file_zero, icache = ic, pipes = (\<lambda>_. None)\<rparr>"

lemma dirs_empty: "(\<And>i. i < NPROC \<Longrightarrow> \<not> used (procs s ! i)) \<Longrightarrow> length (procs s) = NPROC \<Longrightarrow> dirs s = {kpgdir s}"
  by (auto simp: dirs_def in_set_conv_nth)

lemma kvmalloc_inv:
  assumes b: "kboot (kern_bss m e dat ic) = Ret s0" "KERNBASE < e" "e \<le> entry_top" "kdata_ok dat"
    and k: "kvmalloc s0 = Ret s" "kpgdir s \<noteq> 0"
  shows "proc_inv s" "files_exact s" "pipes_inv s" "procs s = replicate NPROC proc_zero" "nextpid s = 1"
proof -
  let ?b = "kern_bss m e dat ic"
  have "KERNBASE \<le> e" using b(2) by simp
  then obtain ys where s0: "kmem_rel s0 ys" "set ys = Collect (kpage s0)"
    using kboot_gen [of ?b] b(1,3) by (auto simp: kern_bss_def)
  have fr: "kend s0 = e" "kmem.more s0 = kmem.more ?b" using kboot_frame [OF b(1)] by (simp_all add: kern_bss_def)
  note km = more_fields [OF fr(2)]
  have kd: "kdata_ok (kdata s0)" using km(2) b(4) by (simp add: kern_bss_def)
  have v0: "vm_inv s0 {}" using s0(1) fr(1) b(2) by (intro vm_inv_empty) (auto simp: kmem_inv_def)
  have no: "\<not> kframe s0 {} f" for f
  proof
    assume "kframe s0 {} f"
    then have "kpage s0 (P2V f)" "0 < refcnt s0 (pidx (P2V f))" by (simp_all add: kframe_def owned_def)
    then show False using kmem_rel_D(4) [OF s0(1), of "P2V f"] s0(2) by simp
  qed
  obtain d s1 where s1: "setupkvm s0 = Ret (d, s1)" "d = 0 \<or> vm_inv s1 {d} \<and> vm_frame s0 {} s1 {d} {} {}"
    using setupkvm_spec [OF v0 kd] by blast
  have s: "s = lcr3 (s1\<lparr>kpgdir := d\<rparr>) (V2P d)" "d \<noteq> 0" using k s1(1) by (auto simp: kvmalloc_def switchkvm_def lcr3_def)
  have v1: "vm_inv s1 {d}" "vm_frame s0 {} s1 {d} {} {}" using s1(2) s(2) by auto
  have ms: "mcore s = mcore s1" by (simp add: s(1))
  have kf: "\<not> kframe s {d} f" for f
    using no vm_frameD(10) [OF v1(2), of f] by (simp only: mcore_cong [OF ms]) auto
  note me = kern_more [OF vm_frameD(4) [OF v1(2)]] kern_more [OF km(4)]
  have e: "procs s = replicate NPROC proc_zero" "nextpid s = 1" "pipes s = (\<lambda>_. None)" "ftable s = replicate NFILE file_zero"
      "kpgdir s = d" "kdata s = dat"
    using me km vm_frameD(2) [OF v1(2)] by (simp_all add: s(1) kern_bss_def lcr3_def)
  then show "procs s = replicate NPROC proc_zero" "nextpid s = 1" by simp_all
  have nu: "\<not> used (procs s ! i)" if "i < NPROC" for i using that by (simp add: e used_def proc_zero_def)
  have ds: "dirs s = {d}" using dirs_empty [OF nu] e by simp
  have kp: "kpages_of s = {}" using nu e(1,3) by (auto simp: kpages_of_def used_def proc_zero_def)
  have "vm_inv s {d}" using v1(1) by (simp only: mcore_cong [OF ms])
  then show "proc_inv s"
    unfolding proc_inv_def ds kp using kf nu e b(4) by (auto simp: proc_ok_def proc_zero_def used_def)
  have "fdrefs s f = {}" for f by (auto simp: fdrefs_def e proc_zero_def)
  then show "files_exact s" by (simp add: files_exact_def e proc_zero_def file_zero_def)
  show "pipes_inv s" by (auto simp: pipes_inv_def pend_def e file_zero_def)
qed

lemma userinit_spec:
  assumes inv: "proc_inv s" and fe: "files_exact s" and pv: "pipes_inv s" and z: "procs s = replicate NPROC proc_zero"
    and r: "userinit code (Some root) s = Ret s'" and p: "\<And>i. initproc s' = Some i \<Longrightarrow> present (phys s') (pgdir (procs s' ! i)) 0"
  shows "\<exists>i < NPROC. initproc s' = Some i \<and> proc_inv s' \<and> files_inv s' \<and> pipes_inv s' \<and> state (procs s' ! i) = RUNNABLE \<and>
    parent (procs s' ! i) = None \<and> (\<forall>j. j \<noteq> i \<longrightarrow> procs s' ! j = procs s ! j)"
proof (rule allocproc_spec [OF inv])
  assume "allocproc s = Ret (None, s)"
  then show ?thesis using r by (simp add: userinit_def)
next
  fix i s1 assume "allocproc s = Ret (None, s1)"
  then show ?thesis using r by (simp add: userinit_def)
next
  fix i k s1 assume a: "allocproc s = Ret (Some i, s1)" "i < NPROC" "\<not> used (procs s ! i)" "k \<noteq> 0" "k \<notin> kpages_of s"
      "procs s1 = (procs s)[i := embryo (procs s ! i) (nextpid s) k]"
      "vm_inv s1 (dirs s)" "\<And>f. kframe s1 (dirs s) f \<longleftrightarrow> kframe s (dirs s) f \<or> f = V2P k"
      "\<And>a. a \<in> insert k (kpages_of s) \<Longrightarrow> refs s1 (V2P a) = 1" "phys s1 = phys s"
      "nextpid s1 = nextpid s + 1" "kdata s1 = kdata s" "kpgdir s1 = kpgdir s" "ftable s1 = ftable s" "pipes s1 = pipes s"
  note len = proc_invD(1) [OF inv]
  define s2 where "s2 = s1\<lparr>initproc := Some i\<rparr>"
  have m2: "mcore s2 = mcore s1" by (simp add: s2_def)
  have v2: "vm_inv s2 (dirs s)" using a(7) by (simp only: mcore_cong [OF m2])
  have kd: "kdata_ok (kdata s2)" using proc_invD(3) [OF inv] a(12) by (simp add: s2_def)
  obtain d s3 where s3: "setupkvm s2 = Ret (d, s3)"
      "d = 0 \<or> d \<notin> dirs s \<and> vm_inv s3 (insert d (dirs s)) \<and> vm_frame s2 (dirs s) s3 (insert d (dirs s)) {} {} \<and>
        (\<forall>va < KERNBASE. \<not> present (phys s3) d va)"
    using setupkvm_spec [OF v2 kd] by blast
  have dn: "d \<noteq> 0" using r a(1) s3(1) by (auto simp: userinit_def s2_def Let_def)
  then have d: "d \<notin> dirs s" "vm_inv s3 (insert d (dirs s))" "vm_frame s2 (dirs s) s3 (insert d (dirs s)) {} {}"
      "\<not> present (phys s3) d 0"
    using s3(2) by (auto simp: KERNBASE_def)
  define s4 where "s4 = setproc i (\<lambda>p. p\<lparr>pgdir := d\<rparr>) s3"
  have m4: "mcore s4 = mcore s3" "phys s4 = phys s3" by (simp_all add: s4_def)
  have v4: "vm_inv s4 (insert d (dirs s))" using d(2) by (simp only: mcore_cong [OF m4(1)])
  obtain s5 where s5: "inituvm s4 d code = Ret s5"
    using r a(1) s3(1) dn by (auto simp: userinit_def s2_def [symmetric] s4_def [symmetric] res_simps)
  let ?tf = "tf_zero\<lparr>tf_cs := 0x1B, tf_ds := 0x23, tf_es := 0x23, tf_ss := 0x23, tf_eflags := 0x200, tf_esp := PGSIZE, tf_eip := 0\<rparr>"
  have s': "s' = setproc i (\<lambda>p. p\<lparr>psz := PGSIZE, tf := ?tf, pname := ''initcode'', cwd := Some root, state := RUNNABLE\<rparr>) s5"
    using r a(1) s3(1) dn s5 by (simp add: userinit_def s2_def [symmetric] s4_def [symmetric])
  have np4: "\<not> present (phys s4) d 0" using d(4) by (simp add: m4)
  note iu = inituvm_spec [OF v4 _ np4 s5]
  note m5 = kern_more [OF iu(1)] and m3 = kern_more [OF vm_frameD(4) [OF d(3)]]
  define q where "q = (embryo (procs s ! i) (nextpid s) k)\<lparr>pgdir := d, psz := PGSIZE, tf := ?tf, pname := ''initcode'',
    cwd := Some root, state := RUNNABLE\<rparr>"
  have p': "procs s' = (procs s)[i := q]" and in': "initproc s' = Some i"
    using a(2) len m5 by (simp_all add: s' s4_def m3 s2_def a(6) q_def)
  have qi: "procs s' ! i = q" using a(2) len by (simp add: p')
  have ph: "mcore s' = mcore s5" "phys s' = phys s5" by (simp_all add: s')
  have "present (phys s5) d 0" using p [OF in'] qi ph(2) by (simp add: q_def)
  then have i5: "vm_inv s5 (insert d (dirs s))" "vm_frame s4 (insert d (dirs s)) s5 (insert d (dirs s)) {(d, 0)} {}"
    using iu(2) by auto
  have v': "vm_inv s' (insert (pgdir q) (dirs s))" using i5(1) by (simp only: mcore_cong [OF ph(1)]) (simp add: q_def)
  have k34: "kframe s4 E f = kframe s3 E f" "refs s4 f = refs s3 f" "kframe s2 E f = kframe s1 E f" "refs s2 f = refs s1 f"
      "kframe s' E f = kframe s5 E f" "refs s' f = refs s5 f" for E f
    by (simp_all only: mcore_cong [OF m4(1)] mcore_cong [OF m2] mcore_cong [OF ph(1)])
  have kf: "kframe s' (insert (pgdir q) (dirs s)) f \<longleftrightarrow> kframe s (dirs s) f \<or> f = V2P k" for f
  proof -
    have "kframe s5 (insert d (dirs s)) f \<longleftrightarrow> kframe s1 (dirs s) f"
      using vm_frameD(7,10) [OF i5(2), of f] vm_frameD(7,10) [OF d(3), of f] k34 by blast
    then show ?thesis using a(8) [of f] by (simp add: k34 q_def)
  qed
  have rf: "refs s' (V2P b) = 1" if "b \<in> insert k (kpages_of s)" for b
  proof -
    have f: "kframe s2 (dirs s) (V2P b)" using a(8) proc_invD(5) [OF inv] that k34(3) by auto
    then have "kframe s4 (insert d (dirs s)) (V2P b)" using vm_frameD(7) [OF d(3)] k34(1) by auto
    then have "refs s5 (V2P b) = refs s4 (V2P b)" using vm_frameD(8) [OF i5(2)] by blast
    then show ?thesis using a(9) [OF that] vm_frameD(8) [OF d(3) f] by (simp add: k34)
  qed
  have e: "nextpid s' = nextpid s + 1" "kdata s' = kdata s" "kpgdir s' = kpgdir s" "pipes s' = pipes s" "ftable s' = ftable s"
    using vm_frameD(2,3) [OF i5(2)] vm_frameD(2,3) [OF d(3)] a(11-15) by (simp_all add: s' m5 s4_def m3 s2_def)
  have zi: "procs s ! j = proc_zero" if "j < NPROC" for j using that by (simp add: z)
  have okq: "proc_ok s' q"
    using proc_invD(2) [OF inv] d(1) a(5) zi [OF a(2)]
    by (auto simp: proc_ok_def q_def embryo_def proc_zero_def e dirs_def kpages_of_def PGSIZE_def KERNBASE_def DEFAULT_PRIORITY_def
        MAX_PRIORITY_def)
  have q: "used q" "pid q = nextpid s" "kstack q = k" "pgdir q \<notin> dirs s" using d(1) by (simp_all add: q_def embryo_def used_def)
  have iv: "proc_inv s'" by (rule proc_inv_add(1) [OF inv a(2,3) p' q(1) okq q(2,3) a(5) q(4) v' kf rf e(1-4)])
  have oq: "ofile q = ofile (procs s ! i)" by (simp add: q_def embryo_def)
  have "files_exact s'"
    using fe oq a(2) len by (intro files_exact_cong [of s s']) (auto simp: e p' nth_list_update)
  moreover have "active q" "cwd q \<noteq> None" by (simp_all add: q_def active_def used_def)
  ultimately have fi: "files_inv s'"
    unfolding files_inv_def using zi a(2) len by (auto simp: p' nth_list_update active_def used_def proc_zero_def)
  have pi: "pipes_inv s'" by (rule pipes_inv_cong [OF pv]) (simp_all add: e)
  have "state q = RUNNABLE" "parent q = None" using zi [OF a(2)] by (simp_all add: q_def embryo_def proc_zero_def)
  then show ?thesis using a(2) in' iv fi pi qi by (intro exI [of _ i]) (simp add: p')
qed

end
