(* ===== verification/Proc_System.thy ===== *)
theory Proc_System
  imports Proc_Boot
begin

text \<open>
  Processes as a transition system: every call that creates, ends, waits for, kills, suspends or
  wakes a process is a step. In every reachable state the table is well-formed, the processes form
  a tree whose inner nodes are alive, and no process waits for a child that has already exited.
\<close>

section \<open>The invariant\<close>

definition tree_ok :: "'z kern_scheme \<Rightarrow> nat \<Rightarrow> bool" where
  "tree_ok s ini \<longleftrightarrow> initproc s = Some ini \<and> ini < NPROC \<and> active (procs s ! ini) \<and>
     (\<forall>i < NPROC. if used (procs s ! i) \<and> i \<noteq> ini
        then \<exists>p < NPROC. p \<noteq> i \<and> parent (procs s ! i) = Some p \<and> active (procs s ! p)
        else parent (procs s ! i) = None)"

definition wait_ok :: "'z kern_scheme \<Rightarrow> bool" where
  "wait_ok s \<longleftrightarrow> (\<forall>i < NPROC. in_wait s i \<longrightarrow> (\<exists>j < NPROC. parent (procs s ! j) = Some i \<and> active (procs s ! j)) \<and>
     (\<forall>j < NPROC. \<not> zombie_child s i j))"

definition sys_inv :: "'z kern_scheme \<Rightarrow> bool" where
  "sys_inv s \<longleftrightarrow> proc_inv s \<and> files_inv s \<and> pipes_inv s \<and> (\<exists>ini. tree_ok s ini) \<and> wait_ok s"

definition running :: "'z kern_scheme \<Rightarrow> nat \<Rightarrow> bool" where
  "running s cur \<longleftrightarrow> cur < NPROC \<and> state (procs s ! cur) = RUNNING"

lemma running_active: "running s cur \<Longrightarrow> active (procs s ! cur)" "running s cur \<Longrightarrow> cur < NPROC" "running s cur \<Longrightarrow> \<not> in_wait s cur"
  by (auto simp: running_def active_def used_def in_wait_def)

lemma tree_parent:
  assumes "tree_ok s ini" "i < NPROC" "parent (procs s ! i) = Some p"
  shows "p < NPROC" "p \<noteq> i" "active (procs s ! p)" "used (procs s ! i)" "i \<noteq> ini"
  using assms unfolding tree_ok_def by (metis option.distinct(1) option.inject)+

section \<open>Steps that leave the tree alone\<close>

text \<open>A process may stop sleeping, or begin to sleep on something that is no process.\<close>

definition quiet :: "proc \<Rightarrow> proc \<Rightarrow> bool" where
  "quiet p q \<longleftrightarrow> parent q = parent p \<and> used q = used p \<and> active q = active p \<and> ofile q = ofile p \<and> cwd q = cwd p \<and>
     (state q = ZOMBIE \<longleftrightarrow> state p = ZOMBIE) \<and>
     (state q = SLEEPING \<longrightarrow> state p = SLEEPING \<and> chan q = chan p \<or> (\<forall>j. chan q \<noteq> ProcChan j))"

lemma quiet_refl [simp]: "quiet p p" by (simp add: quiet_def)

lemma quiet_inv:
  assumes inv: "sys_inv s" and pi: "proc_inv s'" and q: "\<And>i. i < NPROC \<Longrightarrow> quiet (procs s ! i) (procs s' ! i)"
    and eq: "ftable s' = ftable s" "initproc s' = initproc s" "pipes_inv s'"
  shows "sys_inv s'"
proof -
  have l: "length (procs s') = NPROC" by (rule proc_invD(1) [OF pi])
  have i: "files_inv s" "wait_ok s" using inv by (auto simp: sys_inv_def)
  obtain ini where t: "tree_ok s ini" using inv by (auto simp: sys_inv_def)
  have "files_inv s'" by (rule files_inv_cong [OF i(1) eq(1) l]) (use q in \<open>simp add: quiet_def\<close>)
  moreover have "tree_ok s' ini"
    using t q eq(2) unfolding tree_ok_def quiet_def by (simp cong: if_cong) metis
  moreover have "wait_ok s'"
    unfolding wait_ok_def
  proof (intro allI impI)
    fix i assume i': "i < NPROC" "in_wait s' i"
    then have "in_wait s i" using q [OF i'(1)] by (auto simp: in_wait_def quiet_def)
    then show "(\<exists>j < NPROC. parent (procs s' ! j) = Some i \<and> active (procs s' ! j)) \<and> (\<forall>j < NPROC. \<not> zombie_child s' i j)"
      using i(2) i'(1) q unfolding wait_ok_def zombie_child_def quiet_def by metis
  qed
  ultimately show ?thesis using pi eq(3) by (auto simp: sys_inv_def)
qed

lemma setproc_quiet:
  assumes inv: "sys_inv s" and k: "key (g (procs s ! i)) = key (procs s ! i)" "proc_ok s (procs s ! i) \<Longrightarrow> proc_ok s (g (procs s ! i))"
    and q: "quiet (procs s ! i) (g (procs s ! i))"
  shows "sys_inv (setproc i g s)"
proof (rule quiet_inv [OF inv])
  have p: "proc_inv s" "pipes_inv s" using inv by (auto simp: sys_inv_def)
  show "proc_inv (setproc i g s)" by (rule proc_inv_setproc [OF p(1)]) (use k in blast)+
  show "pipes_inv (setproc i g s)" by (rule pipes_inv_cong [OF p(2)]) simp_all
  show "quiet (procs s ! j) (procs (setproc i g s) ! j)" if "j < NPROC" for j
    using q that proc_invD(1) [OF p(1)] by (cases "j = i") simp_all
qed simp_all

lemma woken_quiet: "quiet p (woken ch p)"
  by (auto simp: quiet_def woken_def used_def active_def)

lemma wakeup_inv:
  assumes "sys_inv s"
  shows "sys_inv (wakeup ch s)"
proof (rule quiet_inv [OF assms])
  have p: "proc_inv s" "pipes_inv s" using assms by (auto simp: sys_inv_def)
  show "proc_inv (wakeup ch s)" by (rule proc_inv_wakeup [OF p(1)])
  show "pipes_inv (wakeup ch s)" by (rule pipes_inv_cong [OF p(2)]) simp_all
  show "quiet (procs s ! i) (procs (wakeup ch s) ! i)" if "i < NPROC" for i
    using that proc_invD(1) [OF p(1)] by (simp add: woken_quiet)
qed simp_all

lemma lcr3_inv:
  assumes "sys_inv s"
  shows "sys_inv (lcr3 s v)"
proof (rule quiet_inv [OF assms])
  have p: "proc_inv s" "pipes_inv s" using assms by (auto simp: sys_inv_def)
  have e: "procs (lcr3 s v) = procs s" "ftable (lcr3 s v) = ftable s" "initproc (lcr3 s v) = initproc s" "pipes (lcr3 s v) = pipes s"
      "nextpid (lcr3 s v) = nextpid s"
    by (simp_all add: lcr3_def)
  have o: "proc_ok (lcr3 s v) = proc_ok s" by (simp add: proc_ok_def fun_eq_iff e)
  show "proc_inv (lcr3 s v)"
    by (rule proc_inv_keys(1) [OF p(1)]) (use proc_invD(2,7) [OF p(1)] in \<open>simp_all add: e o\<close>)
  show "pipes_inv (lcr3 s v)" by (rule pipes_inv_cong [OF p(2)]) (simp_all add: e)
  show "quiet (procs s ! i) (procs (lcr3 s v) ! i)" for i by (simp add: e)
  show "ftable (lcr3 s v) = ftable s" "initproc (lcr3 s v) = initproc s" by (simp_all add: e)
qed

section \<open>fork, exit and wait\<close>

lemma pipes_inv_same_files:
  assumes "pipes_inv s" "same_files (ftable s) (ftable s')" "pipes s' = pipes s"
  shows "pipes_inv s'"
proof -
  have l: "length (ftable s') = NFILE" using pipes_invD(1) [OF assms(1)] list_all2_lengthD [OF assms(2)] by simp
  have sf: "same_file (ftable s ! f) (ftable s' ! f)" if "f < NFILE" for f
    using list_all2_nthD [OF assms(2)] that pipes_invD(1) [OF assms(1)] by simp
  have f: "ftype (ftable s' ! f) = ftype (ftable s ! f)" "fpipe (ftable s' ! f) = fpipe (ftable s ! f)"
      "writeable (ftable s' ! f) = writeable (ftable s ! f)" "0 < fref (ftable s' ! f) \<longleftrightarrow> 0 < fref (ftable s ! f)"
      "fref (ftable s' ! f) = 0 \<longleftrightarrow> fref (ftable s ! f) = 0" if "f < NFILE" for f
    using sf [OF that] unfolding same_file_def
    by (metis file_t.select_convs file_t.surjective file_t.update_convs(2))+
  have e: "pend s' = pend s" using f by (auto simp: pend_def fun_eq_iff)
  have "ftype (ftable s' ! g) = FD_NONE" if "g < NFILE" "fref (ftable s' ! g) = 0" for g
    using f(1,5) [OF that(1)] that(2) pipes_invD(2) [OF assms(1) that(1)] by simp
  then show ?thesis using assms(1) l unfolding pipes_inv_def e assms(3) by blast
qed

lemma fork_inv:
  assumes inv: "sys_inv s" and cur: "running s cur" and f: "fork s cur = Ret (r, s')"
  shows "sys_inv s'"
proof -
  have i: "proc_inv s" "files_inv s" "pipes_inv s" "wait_ok s" using inv by (auto simp: sys_inv_def)
  obtain ini where t: "tree_ok s ini" using inv by (auto simp: sys_inv_def)
  have k: "fork_kept s s'" "r = -1 \<and> fork_failed s s' \<or> r = nextpid s \<and> fork_made s cur s'"
    using fork_spec [OF i(1,2) running_active(2,1) [OF cur]] f by auto
  have pi: "proc_inv s'" "files_inv s'" "pipes_inv s'" "initproc s' = initproc s"
    using k(1) pipes_inv_same_files [OF i(3), of s'] by (auto simp: fork_kept_def)
  show ?thesis
  proof (cases "fork_failed s s'")
    case True
    then have q: "if used (procs s ! j) then procs s' ! j = procs s ! j
        else \<not> used (procs s' ! j) \<and> parent (procs s' ! j) = parent (procs s ! j)" if "j < NPROC" for j
      using that by (auto simp: fork_failed_def)
    have u: "used (procs s' ! j) = used (procs s ! j)" "active (procs s' ! j) = active (procs s ! j)"
        "parent (procs s' ! j) = parent (procs s ! j)" "used (procs s ! j) \<Longrightarrow> procs s' ! j = procs s ! j" if "j < NPROC" for j
      using q [OF that] by (auto simp: active_def split: if_splits)
    have "tree_ok s' ini" using t u pi(4) unfolding tree_ok_def by (simp cong: if_cong) metis
    moreover have "wait_ok s'"
    proof -
      have w: "in_wait s' j = in_wait s j" "zombie_child s' j' j = zombie_child s j' j" if "j < NPROC" for j j'
        using u [OF that] by (cases "used (procs s ! j)"; auto simp: in_wait_def zombie_child_def used_def)+
      show ?thesis using i(4) u w unfolding wait_ok_def by metis
    qed
    ultimately show ?thesis using pi by (auto simp: sys_inv_def)
  next
    case False
    then obtain np where np: "np < NPROC" "\<not> used (procs s ! np)" "\<And>j. j \<noteq> np \<Longrightarrow> procs s' ! j = procs s ! j"
        "child_of (nextpid s) cur (procs s ! cur) (procs s' ! np)"
      using k(2) by (auto simp: fork_made_def Let_def)
    have c: "state (procs s' ! np) = RUNNABLE" "parent (procs s' ! np) = Some cur" "used (procs s' ! np)" "active (procs s' ! np)"
      using np(4) by (auto simp: child_of_def used_def active_def)
    note cu = running_active [OF cur]
    have cn: "cur \<noteq> np" using cu(1) np(2) by (auto simp: active_def)
    have nn: "parent (procs s ! j) \<noteq> Some np" if "j < NPROC" for j
      using tree_parent(3) [OF t that] np(2) by (auto simp: active_def)
    have "ini \<noteq> np" using t np(2) by (auto simp: tree_ok_def active_def)
    have tr: "if used (procs s' ! j) \<and> j \<noteq> ini
        then \<exists>p < NPROC. p \<noteq> j \<and> parent (procs s' ! j) = Some p \<and> active (procs s' ! p)
        else parent (procs s' ! j) = None" if j: "j < NPROC" for j
    proof (cases "j = np")
      case True
      then show ?thesis using c np(3) [OF cn] cu cn \<open>ini \<noteq> np\<close> by auto
    next
      case False
      have "active (procs s' ! p)" if "active (procs s ! p)" for p
        using that np(2,3) by (cases "p = np") (auto simp: active_def)
      then show ?thesis using t j np(3) [OF False] unfolding tree_ok_def by (metis (no_types))
    qed
    have "tree_ok s' ini" using t tr np(3) [OF \<open>ini \<noteq> np\<close>] pi(4) by (simp add: tree_ok_def)
    moreover have "wait_ok s'"
      unfolding wait_ok_def
    proof (intro allI impI)
      fix j assume j: "j < NPROC" "in_wait s' j"
      then have jn: "j \<noteq> np" "j \<noteq> cur" using c(1) cu(3) np(3) [OF cn] by (auto simp: in_wait_def)
      then have "in_wait s j" using j(2) np(3) by (simp add: in_wait_def)
      then obtain k where k: "k < NPROC" "parent (procs s ! k) = Some j" "active (procs s ! k)" "\<forall>k < NPROC. \<not> zombie_child s j k"
        using i(4) j(1) by (auto simp: wait_ok_def)
      then have "k \<noteq> np" using np(2) by (auto simp: active_def)
      then have "parent (procs s' ! k) = Some j \<and> active (procs s' ! k)" using k np(3) by simp
      moreover have "\<not> zombie_child s' j l" if "l < NPROC" for l
        using k(4) that c(1) np(3) by (cases "l = np") (auto simp: zombie_child_def)
      ultimately show "(\<exists>k < NPROC. parent (procs s' ! k) = Some j \<and> active (procs s' ! k)) \<and> (\<forall>k < NPROC. \<not> zombie_child s' j k)"
        using k(1) by blast
    qed
    ultimately show ?thesis using pi by (auto simp: sys_inv_def)
  qed
qed

text \<open>A process that finds children but no zombie goes to sleep.\<close>

lemma wait_sleep_inv:
  assumes inv: "sys_inv s" and cur: "running s cur" and k: "\<exists>j < NPROC. parent (procs s ! j) = Some cur"
    and nz: "\<forall>j < NPROC. \<not> zombie_child s cur j"
  shows "sys_inv (sleep_on cur (ProcChan cur) s)"
proof -
  have i: "proc_inv s" "files_inv s" "pipes_inv s" "wait_ok s" using inv by (auto simp: sys_inv_def)
  obtain ini where t: "tree_ok s ini" using inv by (auto simp: sys_inv_def)
  note len = proc_invD(1) [OF i(1)] and cu = running_active [OF cur]
  define s' where "s' = setproc cur (\<lambda>p. p\<lparr>chan := ProcChan cur, state := SLEEPING\<rparr>) s"
  note s' = s'_def
  have ac: "state (procs s ! cur) = RUNNING" using cur by (simp add: running_def)
  have pi: "proc_inv s'"
    unfolding s' by (rule proc_inv_setproc [OF i(1)]) (use ac in \<open>auto simp: key_def used_def proc_ok_def\<close>)
  have p: "parent (procs s' ! j) = parent (procs s ! j)" "used (procs s' ! j) = used (procs s ! j)"
      "active (procs s' ! j) = active (procs s ! j)" "ofile (procs s' ! j) = ofile (procs s ! j)"
      "cwd (procs s' ! j) = cwd (procs s ! j)" "zombie_child s' l j = zombie_child s l j"
      "in_wait s' j \<longleftrightarrow> j = cur \<or> in_wait s j" if "j < NPROC" for j l
    using that ac cu(2) len by (cases "j = cur"; auto simp: s' used_def active_def zombie_child_def in_wait_def)+
  have "files_inv s'" by (rule files_inv_cong [OF i(2)]) (use p len in \<open>simp_all add: s'\<close>)
  moreover have "pipes_inv s'" by (rule pipes_inv_cong [OF i(3)]) (simp_all add: s')
  moreover have "tree_ok s' ini" using t p unfolding tree_ok_def by (simp add: s' cong: if_cong) metis
  moreover have "wait_ok s'"
    unfolding wait_ok_def
  proof (intro allI impI)
    fix j assume j: "j < NPROC" "in_wait s' j"
    have "\<exists>l < NPROC. parent (procs s ! l) = Some cur \<and> active (procs s ! l)"
      using k tree_parent(4) [OF t] nz by (fastforce simp: active_def zombie_child_def)
    then show "(\<exists>l < NPROC. parent (procs s' ! l) = Some j \<and> active (procs s' ! l)) \<and> (\<forall>l < NPROC. \<not> zombie_child s' j l)"
      using j p i(4) nz unfolding wait_ok_def by metis
  qed
  ultimately show ?thesis using pi by (auto simp: sys_inv_def sleep_on_def s'_def)
qed

lemma reap_inv:
  assumes inv: "sys_inv s" and j: "j < NPROC" "zombie_child s cur j"
    and s': "proc_inv s'" "procs s' = (procs s)[j := reaped (procs s ! j)]" "ftable s' = ftable s" "pipes s' = pipes s" "initproc s' = initproc s"
  shows "sys_inv s'"
proof -
  have i: "proc_inv s" "files_inv s" "pipes_inv s" "wait_ok s" using inv by (auto simp: sys_inv_def)
  obtain ini where t: "tree_ok s ini" using inv by (auto simp: sys_inv_def)
  note len = proc_invD(1) [OF i(1)]
  have z: "state (procs s ! j) = ZOMBIE" "parent (procs s ! j) = Some cur" using j(2) by (auto simp: zombie_child_def)
  have na: "\<not> active (procs s ! j)" "\<not> used (procs s' ! j)" "parent (procs s' ! j) = None" "ofile (procs s' ! j) = ofile (procs s ! j)"
      "\<not> active (procs s' ! j)"
    using z j(1) len by (simp_all add: s'(2) active_def reaped_def used_def)
  have o: "procs s' ! l = procs s ! l" if "l \<noteq> j" for l using that by (simp add: s'(2))
  have np: "parent (procs s ! l) \<noteq> Some j" if "l < NPROC" for l using tree_parent(3) [OF t that] na(1) by auto
  have a: "active (procs s' ! l) = active (procs s ! l)" for l using na o by (cases "l = j") auto
  have "files_inv s'"
  proof (rule files_inv_cong [OF i(2) s'(3)])
    show "length (procs s') = NPROC" by (simp add: s'(2) len)
    show "ofile (procs s' ! l) = ofile (procs s ! l) \<and> active (procs s' ! l) = active (procs s ! l) \<and>
        (active (procs s ! l) \<longrightarrow> cwd (procs s' ! l) = cwd (procs s ! l))" for l
      using na(1,4) o [of l] a [of l] by (cases "l = j") simp_all
  qed
  moreover have "pipes_inv s'" by (rule pipes_inv_cong [OF i(3)]) (simp_all add: s')
  moreover have "tree_ok s' ini"
  proof -
    have "if used (procs s' ! l) \<and> l \<noteq> ini then \<exists>p < NPROC. p \<noteq> l \<and> parent (procs s' ! l) = Some p \<and> active (procs s' ! p)
        else parent (procs s' ! l) = None" if "l < NPROC" for l
    proof (cases "l = j")
      case False
      show ?thesis unfolding o [OF False] a using t that by (simp add: tree_ok_def)
    qed (use na(2,3) in simp)
    moreover have "initproc s' = Some ini" "ini < NPROC" "active (procs s' ! ini)" using t a s'(5) by (simp_all add: tree_ok_def)
    ultimately show ?thesis unfolding tree_ok_def by blast
  qed
  moreover have "wait_ok s'"
    unfolding wait_ok_def
  proof (intro allI impI)
    fix l assume l: "l < NPROC" "in_wait s' l"
    then have lj: "l \<noteq> j" using na(2) by (auto simp: in_wait_def used_def)
    then have "in_wait s l" using l o by (simp add: in_wait_def)
    then obtain m where m: "m < NPROC" "parent (procs s ! m) = Some l" "active (procs s ! m)" "\<forall>m < NPROC. \<not> zombie_child s l m"
      using i(4) l(1) by (auto simp: wait_ok_def)
    then have "m \<noteq> j" using na(1) by auto
    moreover have "\<not> zombie_child s' l n" if "n < NPROC" for n
      using m(4) that o na(3) by (cases "n = j") (auto simp: zombie_child_def)
    ultimately show "(\<exists>m < NPROC. parent (procs s' ! m) = Some l \<and> active (procs s' ! m)) \<and> (\<forall>m < NPROC. \<not> zombie_child s' l m)"
      using m(1-3) o by (metis (no_types))
  qed
  ultimately show ?thesis using s'(1) by (auto simp: sys_inv_def)
qed

lemma first_index:
  fixes n :: nat
  assumes "\<exists>j < n. P j"
  obtains j where "j < n" "P j" "\<forall>l < j. \<not> P l"
proof -
  define j where "j = (LEAST j. j < n \<and> P j)"
  have "j < n \<and> P j" unfolding j_def by (rule LeastI_ex) (use assms in blast)
  moreover have "\<not> P l" if "l < j" for l using not_less_Least [OF that [unfolded j_def]] that calculation by auto
  ultimately show ?thesis using that by blast
qed

lemma wait_inv:
  assumes inv: "sys_inv s" and cur: "running s cur" and w: "proc_wait s cur = Ret (r, s')"
  shows "sys_inv s'"
proof -
  have i: "proc_inv s" using inv by (simp add: sys_inv_def)
  note cu = running_active [OF cur]
  show ?thesis
  proof (cases "\<exists>j < NPROC. zombie_child s cur j")
    case False
    then have nz: "\<forall>j < NPROC. \<not> zombie_child s cur j" by blast
    then show ?thesis
      using proc_wait_spec(1) [OF i cu(2) nz] w inv wait_sleep_inv [OF inv cur _ nz] by (auto split: if_splits)
  next
    case True
    then obtain j where j: "j < NPROC" "zombie_child s cur j" "\<forall>l < j. \<not> zombie_child s cur l" by (rule first_index)
    from proc_wait_spec(2) [OF i cu(2) j] show ?thesis using w by (auto intro: reap_inv [OF inv j(1,2)])
  qed
qed

text \<open>An exit whose calls into the file system all return.\<close>

definition totalised :: "(nat \<Rightarrow> 'z kern_scheme \<Rightarrow> 'z kern_scheme res) \<Rightarrow> nat \<Rightarrow> 'z kern_scheme \<Rightarrow> 'z kern_scheme res" where
  "totalised put ip s = (case put ip s of Ret s' \<Rightarrow> Ret s' | _ \<Rightarrow> Ret s)"

lemma totalised_Ret: "put ip s = Ret s' \<Longrightarrow> totalised put ip s = Ret s'"
  by (simp add: totalised_def)

lemma totalised_put: "inode_put put \<Longrightarrow> inode_put (totalised put)"
  by (auto simp: inode_put_def totalised_def same_core_def split: res.splits)

lemma totalised_total: "\<exists>t'. totalised put ip t = Ret t'"
  by (simp add: totalised_def split: res.splits)

lemma fileclose_totalised: "fileclose put f s = Ret s' \<Longrightarrow> fileclose (totalised put) f s = Ret s'"
  by (auto simp: fileclose_def Let_def totalised_Ret split: if_splits filetype.splits)

lemma exit_files_totalised: "exit_files put cur fds s = Ret s' \<Longrightarrow> exit_files (totalised put) cur fds s = Ret s'"
proof (induction fds arbitrary: s)
  case (Cons fd fds)
  show ?case
  proof (cases "ofile (procs s ! cur) ! fd")
    case (Some f)
    then obtain t where t: "fileclose put f s = Ret t"
        "exit_files put cur fds (setproc cur (\<lambda>p. p\<lparr>ofile := (ofile p)[fd := None]\<rparr>) t) = Ret s'"
      using Cons.prems by (auto simp: res_simps)
    then show ?thesis using Cons.IH [OF t(2)] fileclose_totalised [OF t(1)] Some by simp
  qed (use Cons in simp)
qed simp

lemma exit_totalised: "proc_exit put s cur = Ret s' \<Longrightarrow> proc_exit (totalised put) s cur = Ret s'"
proof -
  assume x: "proc_exit put s cur = Ret s'"
  then obtain t where t: "exit_files put cur [0..<NOFILE] s = Ret t" and ni: "initproc s \<noteq> Some cur"
    by (auto simp: proc_exit_def res_simps split: if_splits)
  then obtain ip where ip: "cwd (procs t ! cur) = Some ip" using x by (auto simp: proc_exit_def split: option.splits)
  then obtain u where "put ip t = Ret u" using x t ni by (auto simp: proc_exit_def res_simps)
  then show ?thesis using x t ni ip exit_files_totalised [OF t] totalised_Ret [of put ip t u] by (simp add: proc_exit_def)
qed

lemma exit_facts:
  assumes inv: "sys_inv s" and put: "inode_put put" and cur: "running s cur" and x: "proc_exit put s cur = Ret s'" and t: "tree_ok s ini"
  shows "proc_inv s'" "files_inv s'" "pipes_inv s'" "exited cur ini s s'" "cur \<noteq> ini"
proof -
  have i: "proc_inv s" "files_inv s" "pipes_inv s" using inv by (auto simp: sys_inv_def)
  have ini: "initproc s = Some ini" "ini < NPROC" using t by (auto simp: tree_ok_def)
  show ne: "cur \<noteq> ini" using x ini(1) by (auto simp: proc_exit_def)
  have c: "cur < NPROC" "state (procs s ! cur) = RUNNING" using cur by (auto simp: running_def)
  have pc: "parent (procs s ! cur) \<noteq> Some cur" using tree_parent(2) [OF t c(1)] by blast
  have ne': "ini \<noteq> cur" using ne by simp
  note ex = inode_put.exit_spec [OF totalised_put [OF put] i c pc ini ne' totalised_total]
  show "proc_inv s'" "files_inv s'" "pipes_inv s'" "exited cur ini s s'" using ex exit_totalised [OF x] by auto
qed

lemma exit_inv:
  assumes inv: "sys_inv s" and put: "inode_put put" and cur: "running s cur" and x: "proc_exit put s cur = Ret s'"
  shows "sys_inv s'"
proof -
  obtain ini where t: "tree_ok s ini" and w: "wait_ok s" using inv by (auto simp: sys_inv_def)
  note F = exit_facts [OF inv put cur x t] and cu = running_active [OF cur]
  have re: "reparented cur (Some ini) (procs s ! j) (procs s' ! j)" if "j < NPROC" "j \<noteq> cur" for j
    using F(4) that by (simp add: exited_def)
  note D = reparented_D [OF re]
  have c: "parent (procs s' ! cur) = parent (procs s ! cur)" "used (procs s' ! cur)" "\<not> active (procs s' ! cur)" "\<not> in_wait s' cur"
    using F(4) by (auto simp: exited_def used_def active_def in_wait_def)
  have ini: "ini < NPROC" "active (procs s ! ini)" "parent (procs s ! ini) = None" "initproc s = Some ini"
    using t by (auto simp: tree_ok_def)
  have ai: "active (procs s' ! ini)" using D(7) [OF ini(1)] F(5) ini(2) by auto
  have par: "parent (procs s' ! j) = (if parent (procs s ! j) = Some cur then Some ini else parent (procs s ! j))" if "j < NPROC" for j
  proof (cases "j = cur")
    case True
    then show ?thesis using c(1) tree_parent(2) [OF t that] by auto
  qed (use D(11) [OF that] in simp)
  have act: "active (procs s' ! j) \<longleftrightarrow> active (procs s ! j) \<and> j \<noteq> cur" if "j < NPROC" for j
    using D(7) [OF that] c(3) by (cases "j = cur") auto
  have us: "used (procs s' ! j) = used (procs s ! j)" if "j < NPROC" for j
    using D(6) [OF that] c(2) cu(1) by (cases "j = cur") (auto simp: active_def)
  have "if used (procs s' ! j) \<and> j \<noteq> ini then \<exists>p < NPROC. p \<noteq> j \<and> parent (procs s' ! j) = Some p \<and> active (procs s' ! p)
      else parent (procs s' ! j) = None" if j: "j < NPROC" for j
  proof (cases "parent (procs s ! j)")
    case None
    then show ?thesis using t j par [OF j] us [OF j] unfolding tree_ok_def by (metis option.distinct(1))
  next
    case (Some p)
    note tp = tree_parent [OF t j Some]
    show ?thesis
    proof (cases "p = cur")
      case True
      then show ?thesis using tp Some par [OF j] us [OF j] ini(1) ai by auto
    next
      case False
      then show ?thesis using tp Some par [OF j] us [OF j] act [OF tp(1)] by auto
    qed
  qed
  moreover have "initproc s' = Some ini" using F(4) ini(4) by (simp add: exited_def)
  ultimately have "tree_ok s' ini" unfolding tree_ok_def using ini(1) ai by blast
  moreover have "wait_ok s'"
    unfolding wait_ok_def
  proof (intro allI impI)
    fix j assume j: "j < NPROC" "in_wait s' j"
    have jc: "j \<noteq> cur" using j(2) c(4) by auto
    have "in_wait s j" using j(2) D(8,10) [OF j(1) jc] by (auto simp: in_wait_def)
    then obtain k where k: "k < NPROC" "parent (procs s ! k) = Some j" "active (procs s ! k)" "\<forall>k < NPROC. \<not> zombie_child s j k"
      using w j(1) by (auto simp: wait_ok_def)
    have pj: "parent (procs s ! cur) \<noteq> Some j" using F(4) j by (auto simp: exited_def)
    then have "k \<noteq> cur" using k(2) by auto
    then have "parent (procs s' ! k) = Some j \<and> active (procs s' ! k)" using k par act jc by simp
    moreover have "\<not> zombie_child s' j l" if l: "l < NPROC" for l
    proof
      assume z: "zombie_child s' j l"
      have lc: "l \<noteq> cur" using z pj c(1) by (auto simp: zombie_child_def)
      have zs: "state (procs s ! l) = ZOMBIE" using z D(9) [OF l lc] by (simp add: zombie_child_def)
      show False
      proof (cases "parent (procs s ! l) = Some cur")
        case True
        then have "zombie_child s cur l" "j = ini" using zs z par [OF l] by (auto simp: zombie_child_def)
        then show False using F(4) l lc j(2) by (auto simp: exited_def)
      next
        case False
        then show False using zs z par [OF l] k(4) l by (auto simp: zombie_child_def)
      qed
    qed
    ultimately show "(\<exists>k < NPROC. parent (procs s' ! k) = Some j \<and> active (procs s' ! k)) \<and> (\<forall>k < NPROC. \<not> zombie_child s' j k)"
      using k(1) by blast
  qed
  ultimately show ?thesis using F(1-3) by (auto simp: sys_inv_def)
qed

section \<open>Pipes\<close>

lemma pipe_upd_inv:
  assumes inv: "sys_inv s" and p: "pipes s a = Some p" "writeopen p' = writeopen p" "readopen p' = readopen p"
  shows "sys_inv (s\<lparr>pipes := (pipes s)(a \<mapsto> p')\<rparr>)" (is "sys_inv ?s")
proof (rule quiet_inv [OF inv])
  have i: "proc_inv s" "pipes_inv s" using inv by (auto simp: sys_inv_def)
  have d: "dom ((pipes s)(a \<mapsto> p')) = dom (pipes s)" using p(1) by auto
  show "proc_inv ?s" by (rule proc_inv_pipes(1) [OF i(1) d])
  have e: "pend ?s = pend s" by (rule pend_cong) simp
  have "(writeopen q \<longleftrightarrow> (\<exists>f. pend s b True f)) \<and> (readopen q \<longleftrightarrow> (\<exists>f. pend s b False f)) \<and> (writeopen q \<or> readopen q)"
    if "pipes ?s b = Some q" for b q
    using that pipes_invD(5-7) [OF i(2), of b] p by (cases "b = a") auto
  moreover have "b \<in> dom (pipes ?s)" if "pend s b w f" for b w f using pipes_invD(3) [OF i(2) that] d by simp
  moreover have "length (ftable ?s) = NFILE" "\<forall>f < NFILE. fref (ftable ?s ! f) = 0 \<longrightarrow> ftype (ftable ?s ! f) = FD_NONE"
    using pipes_invD(1,2) [OF i(2)] by simp_all
  ultimately show "pipes_inv ?s"
    unfolding pipes_inv_def e using pipes_invD(4) [OF i(2)] by blast
qed simp_all

lemma sleep_inv:
  assumes inv: "sys_inv s" and cur: "running s cur" and ch: "\<forall>j. ch \<noteq> ProcChan j"
  shows "sys_inv (sleep_on cur ch s)"
  unfolding sleep_on_def
  by (rule setproc_quiet [OF inv]) (use cur ch in \<open>auto simp: running_def key_def used_def proc_ok_def quiet_def active_def\<close>)

lemma pipewrite_inv:
  "sys_inv s \<Longrightarrow> running s cur \<Longrightarrow> pipewrite cur a n bs s = Ret (r, s') \<Longrightarrow> sys_inv s'"
proof (induction cur a n bs s rule: pipewrite.induct)
  case (1 cur a n s)
  then show ?case using wakeup_inv by auto
next
  case (2 cur a n b bs s)
  obtain p where p: "pipes s a = Some p" using "2.prems"(3) by (auto split: option.splits)
  have "length (procs s) = NPROC" using "2.prems"(1) by (simp add: sys_inv_def proc_invD)
  then have w: "running (wakeup (PipeReadChan a) s) cur" using "2.prems"(2) by (simp add: running_def woken_def)
  have put: "sys_inv (s\<lparr>pipes := (pipes s)(a \<mapsto> pipe_put p b)\<rparr>)"
    by (rule pipe_upd_inv [OF "2.prems"(1) p]) (simp_all add: pipe_put_def)
  show ?case
  proof (cases "pipe_full p")
    case True
    then show ?thesis
      using "2.prems" p sleep_inv [OF wakeup_inv [OF "2.prems"(1)] w, of "PipeWriteChan a"] by (auto split: if_splits)
  next
    case False
    then show ?thesis using "2.IH" [OF p False put] "2.prems" p by (simp add: running_def)
  qed
qed

lemma pipe_take_open: "pipe_take n p = (bs, p') \<Longrightarrow> writeopen p' = writeopen p \<and> readopen p' = readopen p"
proof (induction n p arbitrary: bs p' rule: pipe_take.induct)
  case (2 n p)
  then show ?case by (auto simp: pipe_get_def Let_def split: if_splits prod.splits)
qed simp

lemma piperead_inv:
  assumes inv: "sys_inv s" and cur: "running s cur" and r: "piperead cur a n s = Ret (r, s')"
  shows "sys_inv s'"
proof -
  obtain p where p: "pipes s a = Some p" using r by (auto simp: piperead_def split: option.splits)
  obtain bs p' where t: "pipe_take n p = (bs, p')" by (cases "pipe_take n p")
  note u = pipe_upd_inv [OF inv p] pipe_take_open [OF t]
  show ?thesis
    using r p t inv wakeup_inv [OF u(1) [of p']] u(2) sleep_inv [OF inv cur, of "PipeReadChan a"]
    by (auto simp: piperead_def split: if_splits)
qed

section \<open>The transition system\<close>

text \<open>
  One step is one call of a routine of \<^verbatim>\<open>proc.c\<close> or \<^verbatim>\<open>pipe.c\<close> by a running process, a wake-up
  (from any code, interrupt handlers included), or the dispatch of a runnable process by the
  scheduler. \<open>put\<close> stands for the release of an inode.
\<close>

inductive proc_step :: "(nat \<Rightarrow> kern \<Rightarrow> kern res) \<Rightarrow> kern \<Rightarrow> kern \<Rightarrow> bool" for put where
  fork: "running s cur \<Longrightarrow> fork s cur = Ret (r, s') \<Longrightarrow> proc_step put s s'"
| exit: "running s cur \<Longrightarrow> proc_exit put s cur = Ret s' \<Longrightarrow> proc_step put s s'"
| wait: "running s cur \<Longrightarrow> proc_wait s cur = Ret (w, s') \<Longrightarrow> proc_step put s s'"
| kill: "running s cur \<Longrightarrow> proc_kill s n = (r, s') \<Longrightarrow> proc_step put s s'"
| yield: "running s cur \<Longrightarrow> proc_step put s (yield s cur)"
| setprio: "running s cur \<Longrightarrow> setprio s cur n = (r, s') \<Longrightarrow> proc_step put s s'"
| sleep: "running s cur \<Longrightarrow> \<forall>j. ch \<noteq> ProcChan j \<Longrightarrow> proc_step put s (sleep_on cur ch s)"
| sleep_return: "running s cur \<Longrightarrow> proc_step put s (sleep_return cur s)"
| wakeup: "proc_step put s (wakeup ch s)"
| pipewrite: "running s cur \<Longrightarrow> pipewrite cur a n bs s = Ret (x, s') \<Longrightarrow> proc_step put s s'"
| piperead: "running s cur \<Longrightarrow> piperead cur a k s = Ret (x, s') \<Longrightarrow> proc_step put s s'"
| dispatch: "i < NPROC \<Longrightarrow> state (procs s ! i) = RUNNABLE \<Longrightarrow> switchuvm s i = Ret s' \<Longrightarrow>
    proc_step put s (setproc i (\<lambda>p. p\<lparr>state := RUNNING\<rparr>) s')"

text \<open>
  The system starts with memory and kernel directory set up and the first process made; its first
  page was mapped, and its working directory is the root.
\<close>

inductive proc_reach :: "(nat \<Rightarrow> kern \<Rightarrow> kern res) \<Rightarrow> kern \<Rightarrow> bool" for put where
  boot: "kboot (kern_bss m e dat ic) = Ret s0 \<Longrightarrow> KERNBASE < e \<Longrightarrow> e \<le> entry_top \<Longrightarrow> kdata_ok dat \<Longrightarrow>
    kvmalloc s0 = Ret s1 \<Longrightarrow> kpgdir s1 \<noteq> 0 \<Longrightarrow> userinit code (Some root) s1 = Ret s \<Longrightarrow>
    (\<forall>i. initproc s = Some i \<longrightarrow> present (phys s) (pgdir (procs s ! i)) 0) \<Longrightarrow> proc_reach put s"
| step: "proc_reach put s \<Longrightarrow> proc_step put s s' \<Longrightarrow> proc_reach put s'"

lemma kill_inv:
  assumes inv: "sys_inv s" and k: "proc_kill s n = (r, s')"
  shows "sys_inv s'"
proof (cases "first_from (\<lambda>p. pid p = n) (procs s) 0")
  case None
  then show ?thesis using k inv by (simp add: proc_kill_def)
next
  case (Some i)
  have "sys_inv (setproc i (\<lambda>p. p\<lparr>killed := True, state := (if state p = SLEEPING then RUNNABLE else state p)\<rparr>) s)"
    by (rule setproc_quiet [OF inv]) (auto simp: key_def used_def proc_ok_def quiet_def active_def)
  then show ?thesis using k Some by (simp add: proc_kill_def)
qed

lemma boot_inv:
  assumes "kboot (kern_bss m e dat ic) = Ret s0" "KERNBASE < e" "e \<le> entry_top" "kdata_ok dat"
    "kvmalloc s0 = Ret s1" "kpgdir s1 \<noteq> 0" "userinit code (Some root) s1 = Ret s"
    "\<forall>i. initproc s = Some i \<longrightarrow> present (phys s) (pgdir (procs s ! i)) 0"
  shows "sys_inv s"
proof -
  note k = kvmalloc_inv [OF assms(1-6)]
  obtain i where i: "i < NPROC" "initproc s = Some i" "proc_inv s" "files_inv s" "pipes_inv s" "state (procs s ! i) = RUNNABLE"
      "parent (procs s ! i) = None" "\<forall>j. j \<noteq> i \<longrightarrow> procs s ! j = procs s1 ! j"
    using userinit_spec [OF k(1-4) assms(7)] assms(8) by blast
  have z: "procs s ! j = proc_zero" if "j < NPROC" "j \<noteq> i" for j using that i(8) k(4) by simp
  have p: "parent (procs s ! j) = None" "j \<noteq> i \<Longrightarrow> \<not> used (procs s ! j)" "\<not> in_wait s j" if "j < NPROC" for j
    using z [OF that] i(6,7) by (cases "j = i"; auto simp: proc_zero_def used_def in_wait_def)+
  have "tree_ok s i" unfolding tree_ok_def using i p by (auto simp: active_def used_def)
  moreover have "wait_ok s" using p by (simp add: wait_ok_def)
  ultimately show ?thesis using i by (auto simp: sys_inv_def)
qed

lemma step_inv:
  assumes st: "proc_step put s s'" and put: "inode_put put" and inv: "sys_inv s"
  shows "sys_inv s'"
  using st
proof cases
  case (fork cur r)
  then show ?thesis using fork_inv [OF inv] by blast
next
  case (exit cur)
  then show ?thesis using exit_inv [OF inv put] by blast
next
  case (wait cur w)
  then show ?thesis using wait_inv [OF inv] by blast
next
  case (kill cur n r)
  then show ?thesis using kill_inv [OF inv] by blast
next
  case (yield cur)
  then show ?thesis
    unfolding yield(1) yield_def
    by (intro setproc_quiet [OF inv]) (auto simp: running_def key_def used_def proc_ok_def quiet_def active_def)
next
  case (setprio cur n r)
  have "sys_inv (setproc cur (\<lambda>p. p\<lparr>priority := n\<rparr>) s)" if "1 \<le> n" "n \<le> MAX_PRIORITY"
    by (rule setproc_quiet [OF inv]) (use that in \<open>auto simp: key_def used_def proc_ok_def quiet_def active_def\<close>)
  then show ?thesis using setprio(2) inv by (auto simp: setprio_def split: if_splits)
next
  case (sleep cur ch)
  then show ?thesis using sleep_inv [OF inv] by blast
next
  case (sleep_return cur)
  show ?thesis
    unfolding sleep_return(1) sleep_return_def
    by (rule setproc_quiet [OF inv]) (auto simp: key_def used_def proc_ok_def quiet_def active_def)
next
  case (wakeup ch)
  then show ?thesis using wakeup_inv [OF inv] by blast
next
  case (pipewrite cur a n bs x)
  then show ?thesis using pipewrite_inv [OF inv] by blast
next
  case (piperead cur a k x)
  then show ?thesis using piperead_inv [OF inv] by blast
next
  case (dispatch i t)
  have t: "t = lcr3 s (V2P (pgdir (procs s ! i)))" using dispatch(4) by (auto simp: switchuvm_def split: if_splits)
  have p: "procs t = procs s" by (simp add: t lcr3_def)
  have it: "sys_inv t" unfolding t by (rule lcr3_inv [OF inv])
  show ?thesis
    unfolding dispatch(1)
    by (rule setproc_quiet [OF it])
      (use dispatch(3) p in \<open>auto simp: key_def used_def proc_ok_def quiet_def active_def\<close>)
qed

lemma proc_reach_sys: "proc_reach put s \<Longrightarrow> inode_put put \<Longrightarrow> sys_inv s"
  by (induction rule: proc_reach.induct) (auto intro: boot_inv step_inv)

end
