(* ===== verification/Proc_Live.thy ===== *)
theory Proc_Live
  imports Proc_System
begin

text \<open>
  When creating a process succeeds: one free slot of the table and enough free pages. With it, a
  kernel that boots and forks, on which the theorems about processes are instantiated.
\<close>

lemma room_free_pages: "room s d k \<Longrightarrow> free_pages s k"
  by (auto simp: room_def free_pages_def)

lemma free_pages_mono: "free_pages s n \<Longrightarrow> m \<le> n \<Longrightarrow> free_pages s m"
  by (auto simp: free_pages_def)

lemma allocproc_room:
  assumes inv: "proc_inv s" and u: "\<exists>i < NPROC. \<not> used (procs s ! i)" and fp: "free_pages s (Suc k)"
  shows "\<exists>i s'. allocproc s = Ret (Some i, s') \<and> free_pages s' k"
proof -
  have "\<exists>p \<in> set (procs s). state p = UNUSED" using u proc_invD(1) [OF inv] by (auto simp: used_def)
  then obtain i where i: "first_from (\<lambda>p. state p = UNUSED) (procs s) 0 = Some i"
    using first_from_None [of "\<lambda>p. state p = UNUSED" "procs s" 0] by (cases "first_from (\<lambda>p. state p = UNUSED) (procs s) 0") auto
  define s1 where "s1 = (setproc i (\<lambda>p. p\<lparr>state := EMBRYO, pid := nextpid s, trace_enabled := False,
      vmas := replicate MAX_VMAS vma_zero, priority := DEFAULT_PRIORITY\<rparr>) s)\<lparr>nextpid := nextpid s + 1\<rparr>"
  have "free_pages s1 (Suc k)" using fp mcore_cong(4) [of s1 s] by (simp add: s1_def)
  then obtain x xs where rel: "kmem_rel s1 (x # xs)" "k \<le> length xs" by (auto simp: free_pages_def Suc_le_length_iff)
  obtain s2 where s2: "kalloc s1 = Ret (x, s2)" "kmem_rel s2 xs" using kalloc_Cons [OF rel(1)] by blast
  have x: "x \<noteq> 0" using kmem_rel_D(3) [OF rel(1), of x] kpage_nonzero by fastforce
  have "allocproc s = Ret (Some i, setproc i (\<lambda>p. p\<lparr>kstack := x\<rparr>) s2)"
    using s2(1) x by (simp add: allocproc_def i Let_def s1_def)
  moreover have "free_pages (setproc i (\<lambda>p. p\<lparr>kstack := x\<rparr>) s2) k"
    using s2(2) rel(2) mcore_cong(4) [of "setproc i (\<lambda>p. p\<lparr>kstack := x\<rparr>) s2" s2] by (auto simp: free_pages_def)
  ultimately show ?thesis by blast
qed

lemma fork_room:
  assumes inv: "proc_inv s" and fi: "files_inv s" and cur: "cur < NPROC" "active (procs s ! cur)"
    and u: "\<exists>i < NPROC. \<not> used (procs s ! i)" and fp: "free_pages s 1026"
  shows "\<exists>s'. fork s cur = Ret (nextpid s, s') \<and> fork_kept s s' \<and> fork_made s cur s'"
proof -
  obtain i s1 where a: "allocproc s = Ret (Some i, s1)" "free_pages s1 (1025 + 0)"
    using allocproc_room [OF inv u, of 1025] fp by auto
  obtain k where sr: "slot_ready s i k s1"
    by (rule allocproc_spec [OF inv]) (use a(1) in \<open>auto simp: slot_ready_def\<close>)
  note R = slot_readyD [OF sr]
  have uc: "used (procs s ! cur)" using cur(2) by (simp add: active_def)
  have cd: "pgdir (procs s ! cur) \<in> dirs s" "psz (procs s ! cur) \<le> KERNBASE"
    using used_dir [OF inv cur(1) uc] proc_invD(7) [OF inv cur(1)] uc by (auto simp: proc_ok_def)
  have kd: "kdata_ok (kdata s1)" using proc_invD(3) [OF inv] R(11) by simp
  obtain d s2 where d: "copyuvm s1 (pgdir (procs s ! cur)) (psz (procs s ! cur)) = Ret (d, s2)" "d \<noteq> 0"
    using copyuvm_room [OF R(6) cd(1) kd cd(2) a(2)] by blast
  then show ?thesis using fork_slot [OF inv fi cur a(1) sr] by auto
qed

section \<open>A kernel that boots\<close>

lemma mcore_room:
  assumes "mcore s' = mcore s"
  shows "room s' d k = room s d k"
proof -
  note e = mcore_D [OF assms]
  have "kmem_rel s' xs = kmem_rel s xs" for xs by (simp only: kmem_rel_def e kpage_cong [OF e(4)])
  then show ?thesis by (simp add: room_def e)
qed

lemma inituvm_room:
  assumes inv: "vm_inv s D" and d: "d \<in> D" and np: "\<not> present (phys s) d 0" and r: "room s d (Suc k)" and l: "length code < 4096"
  shows "\<exists>s'. inituvm s d code = Ret s' \<and> present (phys s') d 0 \<and> free_pages s' k"
proof -
  have a0: "aligned (0 :: u32)" "(0 :: u32) < KERNBASE" by (simp_all add: aligned_def KERNBASE_def)
  have sz: "(0 :: u32) \<le> 0x1000" "(0x1000 :: u32) < KERNBASE" by (simp_all add: KERNBASE_def)
  from allocuvm_step_spec [OF inv d a0 np sz] obtain x where x: "allocuvm_step d 0 0x1000 0 s = Ret x" by blast
  obtain s3 where s3: "allocuvm_step d 0 0x1000 0 s = Ret (Inr s3)" "room s3 d k"
    using allocuvm_step_room [OF inv d r x] x by blast
  have n3: "vm_inv s3 D" "new_page s3 d 0" using allocuvm_step_spec [OF inv d a0 np sz] s3(1) by auto
  obtain mem s1 r' where m: "kalloc s = Ret (mem, s1)" "mem \<noteq> 0"
      "mappages (s1\<lparr>phys := mem_set (phys s1) (V2P mem) 0 PGSIZE\<rparr>) d 0 PGSIZE (V2P mem) (PTE_W OR PTE_U) = Ret (r', s3)"
    using s3(1) by (auto simp: allocuvm_step_def Let_def res_simps split: if_splits)
  let ?m = "mem_put (phys s3) (V2P mem) code"
  have i: "inituvm s d code = Ret (s3\<lparr>phys := ?m\<rparr>)" using m l by (simp add: inituvm_def Let_def PGSIZE_def)
  have am: "aligned (V2P mem)" using ka.alloc_new [OF vm_invD(1) [OF inv] m(1,2)] kpage_aligned [of s mem] by simp
  note low = low_or [OF low_bits(2,3)]
  have "lookup (phys s3) d 0 = V2P mem OR (PTE_W OR PTE_U) OR PTE_P \<or> r' = -1"
    using map_zero [OF inv d a0 np m(1,2) refl low] m(3) pte_updD [of "phys s" "phys s3" D d 0 _ d 0] d a0
    by (auto simp: PGROUNDDOWN_aligned)
  moreover have "r' \<noteq> -1" using s3(1) m by (auto simp: allocuvm_step_def Let_def res_simps split: if_splits)
  ultimately have lk: "lookup (phys s3) d 0 = V2P mem OR (PTE_W OR PTE_U) OR PTE_P" by simp
  have f: "PTE_ADDR (lookup (phys s3) d 0) = V2P mem" and w: "writable (phys s3) d 0"
    using pte_make [OF am low] n3(2) by (simp_all add: lk new_page_def)
  have out: "?m a = phys s3 a" if "PGROUNDDOWN a \<noteq> V2P mem" for a
  proof -
    have "\<not> unat (a - V2P mem) < 4096" using frame_diff_less [OF am, of a] that by (simp add: word_less_nat_alt PGSIZE_def)
    then show ?thesis using l by (simp add: mem_put_def)
  qed
  have own: "owned s3 (V2P mem)" using mapped_owned [OF n3(1) d a0(2)] w f by (simp add: writable_def)
  have "lookup ?m d 0 = lookup (phys s3) d 0"
    using vm_inv_page_write(3) [OF n3(1) d a0(2) w, unfolded f, OF out d] by simp
  then have "present ?m d 0" using w by (simp add: writable_def present_def)
  moreover obtain xs where xs: "kmem_rel s3 xs" "k \<le> length xs" using room_free_pages [OF s3(2)] by (auto simp: free_pages_def)
  have "kmem_rel (s3\<lparr>phys := ?m\<rparr>) xs"
    by (rule kmem_rel_owned_write [OF xs(1)]) (rule out, use own in auto)
  ultimately show ?thesis using i xs(2) by (auto simp: free_pages_def)
qed

lemma booted:
  "\<exists>s i. proc_reach put s \<and> initproc s = Some i \<and> i < NPROC \<and> state (procs s ! i) = RUNNABLE \<and> free_pages s 2000 \<and>
     \<not> killed (procs s ! i) \<and> (\<forall>j < NPROC. j \<noteq> i \<longrightarrow> procs s ! j = proc_zero) \<and>
     psz (procs s ! i) = PGSIZE \<and> vmas (procs s ! i) = replicate MAX_VMAS vma_zero \<and>
     (\<forall>va < KERNBASE. PGROUNDDOWN va \<noteq> 0 \<longrightarrow> \<not> present (phys s) (pgdir (procs s ! i)) va)"
proof -
  let ?b = "kern_bss (\<lambda>_. 0) 0x80200000 0x80108000 []"
  obtain s0 ys where s0: "kboot ?b = Ret s0" "kmem_rel s0 ys" "set ys = Collect (kpage s0)"
    using kboot_gen [of ?b] boot_image by (auto simp: kern_bss_def)
  have fr: "kend s0 = 0x80200000" "kmem.more s0 = kmem.more ?b" using kboot_frame [OF s0(1)] by (simp_all add: kern_bss_def)
  have v0: "vm_inv s0 {}" using s0(2) fr(1) boot_image(1) by (intro vm_inv_empty) (auto simp: kmem_inv_def)
  have kd: "kdata_ok (kdata s0)" using more_fields(2) [OF fr(2)] boot_image(4) by (simp add: kern_bss_def)
  have fp: "free_pages s0 (1025 + 3071)" using s0(2) boot_kpages [OF fr(1) s0(3)] by (auto simp: free_pages_def)
  obtain d t where t: "setupkvm s0 = Ret (d, t)" "d \<noteq> 0" "room t d 3071" using setupkvm_room [OF v0 kd fp] by blast
  define s1 where "s1 = switchkvm (t\<lparr>kpgdir := d\<rparr>)"
  have k1: "kvmalloc s0 = Ret s1" "kpgdir s1 \<noteq> 0" using t by (simp_all add: kvmalloc_def s1_def switchkvm_def lcr3_def)
  note K = kvmalloc_inv [OF s0(1) boot_image(1,2,4) k1]
  have "mcore s1 = mcore t" by (simp add: s1_def switchkvm_def)
  then have f1: "free_pages s1 (Suc 3070)" using room_free_pages [OF t(3)] mcore_cong(4) [of s1 t] by simp
  have u: "\<exists>i < NPROC. \<not> used (procs s1 ! i)"     using K(4) by (intro exI [of _ 0]) (simp add: used_def proc_zero_def NPROC_def)
  obtain i s2 where s2: "allocproc s1 = Ret (Some i, s2)" "free_pages s2 3070" using allocproc_room [OF K(1) u f1] by blast
  obtain k where sr: "slot_ready s1 i k s2"
    by (rule allocproc_spec [OF K(1)]) (use s2(1) in \<open>auto simp: slot_ready_def\<close>)
  note R = slot_readyD [OF sr]
  define s3 where "s3 = s2\<lparr>initproc := Some i\<rparr>"
  have m3: "mcore s3 = mcore s2" by (simp add: s3_def)
  have v3: "vm_inv s3 (dirs s1)" using R(6) by (simp only: mcore_cong [OF m3])
  have kd3: "kdata_ok (kdata s3)" using proc_invD(3) [OF K(1)] R(11) by (simp add: s3_def)
  have f3: "free_pages s3 (1025 + 2045)" using s2(2) mcore_cong(4) [OF m3] by simp
  obtain d' s4 where s4: "setupkvm s3 = Ret (d', s4)" "d' \<noteq> 0" "room s4 d' (Suc 2044)" using setupkvm_room [OF v3 kd3 f3] by auto
  have s4i: "vm_inv s4 (insert d' (dirs s1))" "vm_frame s3 (dirs s1) s4 (insert d' (dirs s1)) {} {}" "\<not> present (phys s4) d' 0"
      "\<forall>va < KERNBASE. \<not> present (phys s4) d' va"
    using setupkvm_spec [OF v3 kd3] s4(1,2) by (auto simp: KERNBASE_def)
  define s5 where "s5 = setproc i (\<lambda>p. p\<lparr>pgdir := d'\<rparr>) s4"
  have m5: "mcore s5 = mcore s4" "phys s5 = phys s4" by (simp_all add: s5_def)
  have v5: "vm_inv s5 (insert d' (dirs s1))" using s4i(1) by (simp only: mcore_cong [OF m5(1)])
  have r5: "room s5 d' (Suc 2044)"
    using s4(3) mcore_room [OF m5(1)] by simp
  obtain s6 where s6: "inituvm s5 d' [] = Ret s6" "present (phys s6) d' 0" "free_pages s6 2044"
    using inituvm_room [OF v5 _ _ r5, of "[]"] s4i(3) m5(2) by auto
  have np5: "\<not> present (phys s5) d' 0" using s4i(3) m5(2) by simp
  have "vm_frame s5 (insert d' (dirs s1)) s6 (insert d' (dirs s1)) {(d', 0)} {}"
    using inituvm_spec(2) [OF v5 _ np5 s6(1,2)] by simp
  then have ab: "\<not> present (phys s6) d' va" if "va < KERNBASE" "PGROUNDDOWN va \<noteq> 0" for va
    using vm_frameD(5) [of s5 "insert d' (dirs s1)" s6 "insert d' (dirs s1)" _ _ d' va] s4i(4) that m5(2) by (auto simp: present_def)
  note m6 = kern_more [OF inituvm_spec(1) [OF v5 _ np5 s6(1)]] and m4 = kern_more [OF vm_frameD(4) [OF s4i(2)]]
  have l: "length (procs s6) = NPROC" "i < NPROC" "pgdir (procs s6 ! i) = d'" "initproc s6 = Some i" "\<not> killed (procs s6 ! i)"
      "vmas (procs s6 ! i) = replicate MAX_VMAS vma_zero"
    using R(1,5) proc_invD(1) [OF K(1)] K(4) m6 by (simp_all add: s5_def m4 s3_def embryo_def proc_zero_def)
  define s where "s = setproc i (\<lambda>p. p\<lparr>psz := PGSIZE, tf := tf_zero\<lparr>tf_cs := 0x1B, tf_ds := 0x23, tf_es := 0x23, tf_ss := 0x23,
      tf_eflags := 0x200, tf_esp := PGSIZE, tf_eip := 0\<rparr>, pname := ''initcode'', cwd := Some 0, state := RUNNABLE\<rparr>) s6"
  have ui: "userinit [] (Some 0) s1 = Ret s"
    using s2(1) s4(1,2) s6(1) by (simp add: userinit_def Let_def s3_def s5_def s_def)
  have pr: "\<forall>j. initproc s = Some j \<longrightarrow> present (phys s) (pgdir (procs s ! j)) 0" using s6(2) l by (simp add: s_def)
  have "proc_reach put s" by (rule proc_reach.boot [OF s0(1) boot_image(1,2,4) k1 ui pr])
  moreover have "free_pages s 2000" using free_pages_mono [OF s6(3), of 2000] mcore_cong(4) [of s s6] by (simp add: s_def)
  moreover have "procs s ! j = proc_zero" if "j < NPROC" "j \<noteq> i" for j
    using userinit_spec [OF K(1-4) ui] pr that K(4) l by (auto simp: s_def)
  ultimately show ?thesis using l ab by (intro exI [of _ s] exI [of _ i]) (simp add: s_def)
qed

end
