(* ===== verification/Proc_Props.thy ===== *)
theory Proc_Props
  imports Proc_Live
begin

text \<open>
  The properties of the process table, for every state that is reachable from boot, each with an
  instance on a kernel that has booted and forked.
\<close>

section \<open>Example states\<close>

text \<open>Dropping a reference to a cached inode that others still use.\<close>

definition put_ref :: "nat \<Rightarrow> 'z kern_scheme \<Rightarrow> 'z kern_scheme res" where
  "put_ref ip s = Ret (s\<lparr>icache := (icache s)[ip := (icache s ! ip)\<lparr>iref := iref (icache s ! ip) - 1\<rparr>]\<rparr>)"

lemma put_ref_put: "inode_put put_ref" and put_ref_total: "\<And>ip t. \<exists>t'. put_ref ip t = Ret t'"
  by (auto simp: inode_put_def put_ref_def same_core_def mcore_def)

lemma reparented_state:
  "reparented cur ini p q \<Longrightarrow> state q = state p \<or> state p = SLEEPING \<and> state q = RUNNABLE"
  by (auto simp: reparented_def awake_def split: if_splits)

lemma reachD:
  assumes "proc_reach put s" "inode_put put"
  shows "proc_inv s" "files_inv s" "pipes_inv s" "wait_ok s" "\<exists>ini. tree_ok s ini"
  using proc_reach_sys [OF assms] by (auto simp: sys_inv_def)

lemma dispatch_step:
  assumes r: "proc_reach put s" "inode_put put" and i: "i < NPROC" "state (procs s ! i) = RUNNABLE"
  shows "\<exists>s'. proc_reach put s' \<and> procs s' = (procs s)[i := (procs s ! i)\<lparr>state := RUNNING\<rparr>] \<and>
    mcore s' = mcore s \<and> initproc s' = initproc s \<and> nextpid s' = nextpid s"
proof -
  note inv = reachD(1) [OF r]
  have u: "used (procs s ! i)" using i(2) by (simp add: used_def)
  have k: "kstack (procs s ! i) \<noteq> 0" by (rule used_stack(4) [OF inv i(1) u])
  have d: "pgdir (procs s ! i) \<noteq> 0"
    by (rule kpage_nonzero [OF tables_ok_D(2) [OF vm_invD(2) [OF proc_invD(4) [OF inv]] used_dir [OF inv i(1) u]]])
  let ?t = "lcr3 s (V2P (pgdir (procs s ! i)))"
  have "switchuvm s i = Ret ?t" using k d by (simp add: switchuvm_def)
  then have "proc_reach put (setproc i (\<lambda>p. p\<lparr>state := RUNNING\<rparr>) ?t)"
    by (rule proc_reach.step [OF r(1) proc_step.dispatch [OF i]])
  moreover have "procs ?t = procs s" "initproc ?t = initproc s" "nextpid ?t = nextpid s" by (simp_all add: lcr3_def)
  ultimately show ?thesis by (intro exI [of _ "setproc i (\<lambda>p. p\<lparr>state := RUNNING\<rparr>) ?t"]) simp
qed

lemma init_running:
  "\<exists>s i. proc_reach put_ref s \<and> initproc s = Some i \<and> running s i \<and> free_pages s 2000 \<and>
     \<not> killed (procs s ! i) \<and> (\<forall>j < NPROC. j \<noteq> i \<longrightarrow> procs s ! j = proc_zero)"
proof -
  obtain s i where s: "proc_reach put_ref s" "initproc s = Some i" "i < NPROC" "state (procs s ! i) = RUNNABLE" "free_pages s 2000"
      "\<forall>j < NPROC. j \<noteq> i \<longrightarrow> procs s ! j = proc_zero" "\<not> killed (procs s ! i)"
    using booted [of put_ref] by blast
  obtain s' where s': "proc_reach put_ref s'" "procs s' = (procs s)[i := (procs s ! i)\<lparr>state := RUNNING\<rparr>]" "mcore s' = mcore s"
      "initproc s' = initproc s"
    using dispatch_step [OF s(1) put_ref_put s(3,4)] by blast
  have "running s' i" "\<not> killed (procs s' ! i)"
    using s(3,7) s'(2) proc_invD(1) [OF reachD(1) [OF s(1) put_ref_put]] by (simp_all add: running_def)
  then show ?thesis using s s' mcore_cong(4) [OF s'(3)] by (intro exI [of _ s'] exI [of _ i]) simp
qed

lemma child_running:
  "\<exists>s i c. proc_reach put_ref s \<and> initproc s = Some i \<and> running s i \<and> running s c \<and> c \<noteq> i \<and> parent (procs s ! c) = Some i \<and>
     \<not> killed (procs s ! i) \<and> (\<forall>j < NPROC. \<not> zombie_child s i j)"
proof -
  obtain s i where s: "proc_reach put_ref s" "initproc s = Some i" "running s i" "free_pages s 2000"
      "\<forall>j < NPROC. j \<noteq> i \<longrightarrow> procs s ! j = proc_zero" "\<not> killed (procs s ! i)"
    using init_running by blast
  note R = reachD [OF s(1) put_ref_put] and ri = running_active [OF s(3)]
  define j where "j = (if i = 0 then 1 else 0 :: nat)"
  have "j < NPROC" "j \<noteq> i" by (simp_all add: j_def NPROC_def)
  then have u: "\<exists>j < NPROC. \<not> used (procs s ! j)" using s(5) by (auto simp: used_def proc_zero_def)
  obtain s1 where s1: "fork s i = Ret (nextpid s, s1)" "fork_kept s s1" "fork_made s i s1"
    using fork_room [OF R(1,2) ri(2,1) u free_pages_mono [OF s(4)]] by auto
  have r1: "proc_reach put_ref s1" by (rule proc_reach.step [OF s(1) proc_step.fork [OF s(3) s1(1)]])
  obtain c where c: "c < NPROC" "\<not> used (procs s ! c)" "\<forall>j. j \<noteq> c \<longrightarrow> procs s1 ! j = procs s ! j"
      "child_of (nextpid s) i (procs s ! i) (procs s1 ! c)"
    using s1(3) by (auto simp: fork_made_def Let_def)
  have ci: "c \<noteq> i" using c(2) ri(1) by (auto simp: active_def)
  have cs: "state (procs s1 ! c) = RUNNABLE" "parent (procs s1 ! c) = Some i" using c(4) by (auto simp: child_of_def)
  obtain s2 where s2: "proc_reach put_ref s2" "procs s2 = (procs s1)[c := (procs s1 ! c)\<lparr>state := RUNNING\<rparr>]" "initproc s2 = initproc s1"
    using dispatch_step [OF r1 put_ref_put c(1) cs(1)] by blast
  have l: "length (procs s1) = NPROC" by (rule proc_invD(1) [OF reachD(1) [OF r1 put_ref_put]])
  have "running s2 c" "running s2 i" "parent (procs s2 ! c) = Some i" "\<not> killed (procs s2 ! i)"
    using c(1,3) ci cs s(3,6) l by (simp_all add: running_def s2(2))
  moreover have "\<not> zombie_child s2 i j" if "j < NPROC" for j
    using that s(3,5) c(3) ci l calculation(1,2)
    by (cases "j = c"; cases "j = i") (auto simp: zombie_child_def running_def s2(2) proc_zero_def)
  moreover have "initproc s2 = Some i" using s2(3) s1(2) s(2) by (simp add: fork_kept_def)
  ultimately show ?thesis using s2(1) ci by blast
qed

section \<open>The table\<close>



section \<open>fork\<close>

lemma fork_keeps:
  assumes "r = -1 \<and> fork_failed s s' \<or> r = nextpid s \<and> fork_made s cur s'" "i < NPROC" "used (procs s ! i)"
  shows "procs s' ! i = procs s ! i"
  using assms(1)
proof
  assume "r = -1 \<and> fork_failed s s'"
  then show ?thesis using assms(2,3) by (simp add: fork_failed_def)
next
  assume "r = nextpid s \<and> fork_made s cur s'"
  then obtain np where "\<not> used (procs s ! np)" "\<forall>i. i \<noteq> np \<longrightarrow> procs s' ! i = procs s ! i" unfolding fork_made_def Let_def by blast
  then show ?thesis using assms(3) by (cases "i = np") auto
qed



section \<open>exit and wait\<close>






lemma parent_waiting:
  "\<exists>s i c. proc_reach put_ref s \<and> in_wait s i \<and> i < NPROC \<and> running s c \<and> parent (procs s ! c) = Some i"
proof -
  obtain s i c where s: "proc_reach put_ref s" "running s i" "running s c" "c \<noteq> i" "parent (procs s ! c) = Some i"
      "\<not> killed (procs s ! i)" "\<forall>j < NPROC. \<not> zombie_child s i j"
    using child_running by blast
  note R = reachD(1) [OF s(1) put_ref_put] and ra = running_active(2) [OF s(2)] running_active(2) [OF s(3)]
  let ?s = "sleep_on i (ProcChan i) s"
  have w: "proc_wait s i = Ret (None, ?s)" using proc_wait_spec(1) [OF R ra(1) s(7)] s(5,6) ra(2) by auto
  have "proc_reach put_ref ?s" by (rule proc_reach.step [OF s(1) proc_step.wait [OF s(2) w]])
  moreover have "in_wait ?s i" "running ?s c" "parent (procs ?s ! c) = Some i"
    using s(3-5) ra proc_invD(1) [OF R] by (simp_all add: in_wait_def sleep_on_def running_def)
  ultimately show ?thesis using ra(1) by blast
qed


section \<open>kill\<close>

text \<open>C17. \<^const>\<open>proc_kill\<close> does not look whether the slot it finds is in use. With the argument 0, which
  is the identifier of every slot that \<^verbatim>\<open>wait\<close> has freed or that was never used, it reports success
  and marks such a slot; \<^verbatim>\<open>allocproc\<close> does not clear the mark, so the next process that \<^verbatim>\<open>fork\<close>
  makes there is born killed.\<close>

theorem kill_zero_kills_next_child:
  assumes "proc_reach put s" "inode_put put" "running s cur" "free_pages s 1026"
    and "first_from (\<lambda>p. state p = UNUSED) (procs s) 0 = Some i" "pid (procs s ! i) = 0"
  shows "\<exists>s1 s2. proc_kill s 0 = (0, s1) \<and> (\<forall>j < NPROC. state (procs s ! j) \<noteq> UNUSED \<longrightarrow> procs s1 ! j = procs s ! j) \<and>
    fork s1 cur = Ret (nextpid s, s2) \<and> child_of (nextpid s) cur (procs s ! cur) (procs s2 ! i) \<and> killed (procs s2 ! i)"
proof -
  note R = reachD [OF assms(1,2)] and ra = running_active [OF assms(3)] and ff = first_SomeD [OF assms(5)]
  note len = proc_invD(1) [OF R(1)]
  have i: "i < NPROC" "state (procs s ! i) = UNUSED" "\<And>j. j < i \<Longrightarrow> state (procs s ! j) \<noteq> UNUSED" using ff len by auto
  have pos: "0 < pid (procs s ! j)" if "j < NPROC" "state (procs s ! j) \<noteq> UNUSED" for j
    using proc_invD(7) [OF R(1) that(1)] that(2) by (auto simp: proc_ok_def used_def)
  have fz: "first_from (\<lambda>p. pid p = 0) (procs s) 0 = Some i"
  proof (cases "first_from (\<lambda>p. pid p = 0) (procs s) 0")
    case None
    then show ?thesis using assms(6) i(1) len by (auto simp: first_from_None)
  next
    case (Some j)
    note fj = first_SomeD [OF Some]
    have "\<not> j < i" using pos [of j] i(3) [of j] fj len by auto
    moreover have "\<not> i < j" using fj assms(6) by blast
    ultimately show ?thesis using Some by simp
  qed
  define s1 where "s1 = setproc i (\<lambda>p. p\<lparr>killed := True, state := (if state p = SLEEPING then RUNNABLE else state p)\<rparr>) s"
  have k: "proc_kill s 0 = (0, s1)" by (simp add: proc_kill_def fz s1_def)
  have r1: "proc_reach put s1" by (rule proc_reach.step [OF assms(1) proc_step.kill [OF assms(3) k]])
  note R1 = reachD [OF r1 assms(2)]
  have p1: "procs s1 = (procs s)[i := (procs s ! i)\<lparr>killed := True, state := UNUSED\<rparr>]" using i(2) by (simp add: s1_def)
  have ci: "cur \<noteq> i" using i(2) ra(1) by (auto simp: active_def used_def)
  have o: "procs s1 ! j = procs s ! j" if "j \<noteq> i" for j using that by (simp add: p1)
  have u1: "\<not> used (procs s1 ! i)" "killed (procs s1 ! i)" using i len by (simp_all add: p1 used_def)
  have f1: "free_pages s1 1026" using assms(4) mcore_cong(4) [of s1 s] by (simp add: s1_def)
  have ex: "\<exists>j < NPROC. \<not> used (procs s1 ! j)" using u1(1) i(1) by blast
  have a1: "active (procs s1 ! cur)" using ra(1) o [OF ci] by simp
  obtain s2 where s2: "fork s1 cur = Ret (nextpid s1, s2)" "fork_made s1 cur s2"
    using fork_room [OF R1(1,2) ra(2) a1 ex f1] by blast
  obtain np where np: "child_of (nextpid s1) cur (procs s1 ! cur) (procs s2 ! np)" "killed (procs s2 ! np) = killed (procs s1 ! np)"
      "first_from (\<lambda>p. state p = UNUSED) (procs s1) 0 = Some np"
    using s2(2) unfolding fork_made_def Let_def by blast
  note fn = first_SomeD [OF np(3)]
  have "np = i"
  proof (rule ccontr)
    assume ne: "np \<noteq> i"
    then have "state (procs s ! np) = UNUSED" using fn o by simp
    then have "i < np" using ne i(3) by (metis linorder_neqE_nat)
    then show False using fn u1(1) by (auto simp: used_def)
  qed
  moreover have "nextpid s1 = nextpid s" by (simp add: s1_def)
  moreover have "\<forall>j < NPROC. state (procs s ! j) \<noteq> UNUSED \<longrightarrow> procs s1 ! j = procs s ! j" using o i(2) by metis
  ultimately show ?thesis using k np(1,2) u1(2) s2(1) o [OF ci] by (intro exI [of _ s1] exI [of _ s2]) simp
qed

theorem kill_zero_kills_next_child_witness:
  "\<exists>s p i s1 s2. proc_reach put_ref s \<and> running s p \<and> proc_kill s 0 = (0, s1) \<and> fork s1 p = Ret (nextpid s, s2) \<and> killed (procs s2 ! i)"
proof -
  obtain s p where s: "proc_reach put_ref s" "running s p" "free_pages s 2000" "\<forall>j < NPROC. j \<noteq> p \<longrightarrow> procs s ! j = proc_zero"
    using init_running by blast
  have len: "length (procs s) = NPROC" by (rule proc_invD(1) [OF reachD(1) [OF s(1) put_ref_put]])
  define j where "j = (if p = 0 then 1 else 0 :: nat)"
  have "j < NPROC" "j \<noteq> p" by (simp_all add: j_def NPROC_def)
  then have "state (procs s ! j) = UNUSED" using s(4) by (simp add: proc_zero_def)
  moreover have "procs s ! j \<in> set (procs s)" using \<open>j < NPROC\<close> len by simp
  ultimately
  obtain i where i: "first_from (\<lambda>p. state p = UNUSED) (procs s) 0 = Some i"
    by (cases "first_from (\<lambda>p. state p = UNUSED) (procs s) 0") (auto simp: first_from_None)
  have "i \<noteq> p" "i < NPROC" using first_SomeD [OF i] s(2) len by (auto simp: running_def)
  then have "pid (procs s ! i) = 0" using s(4) by (simp add: proc_zero_def)
  moreover have "free_pages s 1026" by (rule free_pages_mono [OF s(3)]) simp
  ultimately show ?thesis using kill_zero_kills_next_child [OF s(1) put_ref_put s(2) _ i] s(1,2) by blast
qed

end
