(* ===== verification/Sched.thy ===== *)
theory Sched
  imports Proc_Props "HOL-Library.Sublist"
begin

text \<open>
  The weighted round-robin \<^verbatim>\<open>scheduler\<close> of \<^verbatim>\<open>proc.c\<close>. What happens between the switch to a
  process and the switch back is a parameter \<open>run\<close>: the process itself, and whatever other
  processors do meanwhile. The routines return the processes they switched to, in order;
  \<^verbatim>\<open>ran_process\<close> is whether that list is empty.
\<close>

section \<open>The scheduler\<close>

fun sched_pass :: "(nat \<Rightarrow> 'z kern_scheme \<Rightarrow> 'z kern_scheme res) \<Rightarrow> int \<Rightarrow> nat list \<Rightarrow> 'z kern_scheme \<Rightarrow>
    (nat list \<times> 'z kern_scheme) res" where
  "sched_pass run round [] s = Ret ([], s)"
| "sched_pass run round (i # is) s =
     (if state (procs s ! i) \<noteq> RUNNABLE then sched_pass run round is s
      else if priority (procs s ! i) \<le> round then sched_pass run round is s
      else rbind (switchuvm s i) (\<lambda>s.
        rbind (run i (setproc i (\<lambda>p. p\<lparr>state := RUNNING\<rparr>) s)) (\<lambda>s.
          rbind (sched_pass run round is (switchkvm s)) (\<lambda>(t, s). Ret (i # t, s)))))"

fun sched_rounds :: "(nat \<Rightarrow> 'z kern_scheme \<Rightarrow> 'z kern_scheme res) \<Rightarrow> int list \<Rightarrow> 'z kern_scheme \<Rightarrow>
    (nat list \<times> 'z kern_scheme) res" where
  "sched_rounds run [] s = Ret ([], s)"
| "sched_rounds run (r # rs) s =
     rbind (sched_pass run r [0..<NPROC] s) (\<lambda>(t, s).
       if t = [] then Ret ([], s)
       else rbind (sched_rounds run rs s) (\<lambda>(u, s). Ret (t @ u, s)))"

text \<open>The endless loop of \<^verbatim>\<open>scheduler\<close>, \<open>n\<close> times around.\<close>

fun scheduler :: "nat \<Rightarrow> (nat \<Rightarrow> 'z kern_scheme \<Rightarrow> 'z kern_scheme res) \<Rightarrow> 'z kern_scheme \<Rightarrow>
    (nat list \<times> 'z kern_scheme) res" where
  "scheduler 0 run s = Ret ([], s)"
| "scheduler (Suc n) run s =
     rbind (sched_rounds run [0..MAX_PRIORITY - 1] s) (\<lambda>(t, s).
       rbind (scheduler n run s) (\<lambda>(u, s). Ret (t @ u, s)))"

section \<open>One pass\<close>

text \<open>Scheduling sees of a process whether it can run, and its priority.\<close>

definition leaves :: "nat \<Rightarrow> 'z kern_scheme \<Rightarrow> 'z kern_scheme \<Rightarrow> bool" where
  "leaves j s s' \<longleftrightarrow> state (procs s' ! j) = state (procs s ! j) \<and> priority (procs s' ! j) = priority (procs s ! j)"

definition turn_of :: "int \<Rightarrow> 'z kern_scheme \<Rightarrow> nat \<Rightarrow> bool" where
  "turn_of r s i \<longleftrightarrow> state (procs s ! i) = RUNNABLE \<and> r < priority (procs s ! i)"

lemma leaves_trans: "leaves j s t \<Longrightarrow> leaves j t u \<Longrightarrow> leaves j s u" and leaves_refl [simp]: "leaves j s s"
  and leaves_turn: "leaves j s t \<Longrightarrow> turn_of r t j = turn_of r s j"
  by (simp_all add: leaves_def turn_of_def)

lemma lcr3_procs [simp]: "procs (lcr3 s v) = procs s" "procs (switchkvm s) = procs s"
  by (simp_all add: lcr3_def switchkvm_def)

lemma switchuvm_ok:
  assumes "sys_inv s" "i < NPROC" "state (procs s ! i) = RUNNABLE"
  shows "switchuvm s i = Ret (lcr3 s (V2P (pgdir (procs s ! i))))"
proof -
  have p: "proc_inv s" using assms(1) by (simp add: sys_inv_def)
  have u: "used (procs s ! i)" using assms(3) by (simp add: used_def)
  have "kstack (procs s ! i) \<noteq> 0" by (rule used_stack(4) [OF p assms(2) u])
  moreover have "pgdir (procs s ! i) \<noteq> 0"
    by (rule kpage_nonzero [OF tables_ok_D(2) [OF vm_invD(2) [OF proc_invD(4) [OF p]] used_dir [OF p assms(2) u]]])
  ultimately show ?thesis by (simp add: switchuvm_def)
qed

definition dispatched :: "nat \<Rightarrow> 'z kern_scheme \<Rightarrow> 'z kern_scheme" where
  "dispatched i s = setproc i (\<lambda>p. p\<lparr>state := RUNNING\<rparr>) (lcr3 s (V2P (pgdir (procs s ! i))))"

lemma dispatched_inv:
  assumes "sys_inv s" "i < NPROC" "state (procs s ! i) = RUNNABLE"
  shows "sys_inv (dispatched i s)" "running (dispatched i s) i" "j \<noteq> i \<Longrightarrow> leaves j s (dispatched i s)"
proof -
  let ?t = "lcr3 s (V2P (pgdir (procs s ! i)))"
  have "sys_inv ?t" by (rule lcr3_inv [OF assms(1)])
  then show "sys_inv (dispatched i s)"
    unfolding dispatched_def
    by (rule setproc_quiet) (use assms(3) in \<open>auto simp: key_def used_def proc_ok_def quiet_def active_def\<close>)
  have "length (procs s) = NPROC" using assms(1) proc_invD(1) by (auto simp: sys_inv_def)
  then show "running (dispatched i s) i" "j \<noteq> i \<Longrightarrow> leaves j s (dispatched i s)"
    using assms(2) by (simp_all add: running_def dispatched_def leaves_def)
qed

text \<open>The contract of the environment: a process that is switched to gives the processor back.\<close>

locale sched_env =
  fixes run :: "nat \<Rightarrow> 'z kern_scheme \<Rightarrow> 'z kern_scheme res"
  assumes turn: "sys_inv s \<Longrightarrow> running s i \<Longrightarrow> \<exists>s'. run i s = Ret s' \<and> sys_inv s'"
begin

lemma pass_step:
  assumes "sys_inv s" "i < NPROC" "turn_of r s i"
  shows "\<exists>s1. run i (dispatched i s) = Ret s1 \<and> sys_inv (switchkvm s1) \<and>
    sched_pass run r (i # is) s = rbind (sched_pass run r is (switchkvm s1)) (\<lambda>(t, s). Ret (i # t, s))"
proof -
  have r: "state (procs s ! i) = RUNNABLE" "\<not> priority (procs s ! i) \<le> r" using assms(3) by (auto simp: turn_of_def)
  obtain s1 where s1: "run i (dispatched i s) = Ret s1" "sys_inv s1"
    using turn [OF dispatched_inv(1,2) [OF assms(1,2) r(1)]] by blast
  have "sys_inv (switchkvm s1)" unfolding switchkvm_def by (rule lcr3_inv [OF s1(2)])
  then show ?thesis using s1 r switchuvm_ok [OF assms(1,2) r(1)] by (simp add: dispatched_def)
qed

lemma pass_skip: "\<not> turn_of r s i \<Longrightarrow> sched_pass run r (i # is) s = sched_pass run r is s"
  by (auto simp: turn_of_def)

lemma pass_total:
  assumes "sys_inv s" "set is \<subseteq> {..<NPROC}"
  shows "\<exists>t s'. sched_pass run r is s = Ret (t, s') \<and> sys_inv s' \<and> subseq t is"
  using assms
proof (induction "is" arbitrary: s)
  case (Cons i "is")
  show ?case
  proof (cases "turn_of r s i")
    case False
    then show ?thesis using Cons.IH [OF Cons.prems(1)] Cons.prems(2) pass_skip [OF False] by auto
  next
    case True
    then obtain s1 where s1: "sys_inv (switchkvm s1)"
        "sched_pass run r (i # is) s = rbind (sched_pass run r is (switchkvm s1)) (\<lambda>(t, s). Ret (i # t, s))"
      using pass_step [OF Cons.prems(1) _ True] Cons.prems(2) by auto
    then show ?thesis using Cons.IH [OF s1(1)] Cons.prems(2) by auto
  qed
qed simp

lemma rounds_total:
  assumes "sys_inv s"
  shows "\<exists>t s'. sched_rounds run rs s = Ret (t, s') \<and> sys_inv s' \<and> length t \<le> NPROC * length rs"
  using assms
proof (induction rs arbitrary: s)
  case (Cons r rs)
  obtain t s1 where t: "sched_pass run r [0..<NPROC] s = Ret (t, s1)" "sys_inv s1" "subseq t [0..<NPROC]"
    using pass_total [OF Cons.prems, of "[0..<NPROC]" r] by (auto simp: atLeast0LessThan)
  have "length t \<le> NPROC" using list_emb_length [OF t(3)] by simp
  then show ?case using Cons.IH [OF t(2)] t(1,2) by auto
qed simp

text \<open>A process that the others leave alone gets the processor after at most one turn of each slot before it.\<close>

lemma pass_first:
  assumes "sys_inv s" "j < NPROC" "turn_of r s j" "set as \<subseteq> {..<NPROC} - {j}" "set bs \<subseteq> {..<NPROC}"
    and fair: "\<And>t i t'. sys_inv t \<Longrightarrow> running t i \<Longrightarrow> i \<noteq> j \<Longrightarrow> run i t = Ret t' \<Longrightarrow> leaves j t t'"
  shows "\<exists>xs ys s'. sched_pass run r (as @ j # bs) s = Ret (xs @ j # ys, s') \<and> sys_inv s' \<and> subseq xs as"
  using assms(1,3,4)
proof (induction as arbitrary: s)
  case Nil
  obtain s1 where s1: "sys_inv (switchkvm s1)"
      "sched_pass run r (j # bs) s = rbind (sched_pass run r bs (switchkvm s1)) (\<lambda>(t, s). Ret (j # t, s))"
    using pass_step [OF Nil(1) assms(2) Nil(2)] by blast
  then show ?case using pass_total [OF s1(1) assms(5), of r] by fastforce
next
  case (Cons i as)
  show ?case
  proof (cases "turn_of r s i")
    case False
    then show ?thesis using Cons.IH [OF Cons.prems(1,2)] Cons.prems(3) pass_skip [OF False] by fastforce
  next
    case True
    have i: "i < NPROC" "i \<noteq> j" "state (procs s ! i) = RUNNABLE" using Cons.prems(3) True by (auto simp: turn_of_def)
    obtain s1 where s1: "run i (dispatched i s) = Ret s1" "sys_inv (switchkvm s1)"
        "sched_pass run r (i # as @ j # bs) s = rbind (sched_pass run r (as @ j # bs) (switchkvm s1)) (\<lambda>(t, s). Ret (i # t, s))"
      using pass_step [OF Cons.prems(1) i(1) True] by blast
    note d = dispatched_inv [OF Cons.prems(1) i(1,3)]
    have "leaves j s s1" using leaves_trans [OF d(3) fair [OF d(1,2) i(2) s1(1)]] i(2) by simp
    then have "turn_of r (switchkvm s1) j" using Cons.prems(2) by (simp add: leaves_def turn_of_def)
    then obtain xs ys s' where "sched_pass run r (as @ j # bs) (switchkvm s1) = Ret (xs @ j # ys, s')" "sys_inv s'" "subseq xs as"
      using Cons.IH [OF s1(2)] Cons.prems(3) by auto
    then have "sched_pass run r (i # as @ j # bs) s = Ret ((i # xs) @ j # ys, s')" "sys_inv s'" "subseq (i # xs) (i # as)"
      using s1(3) by simp_all
    then show ?thesis by (intro exI [of _ "i # xs"] exI [of _ ys] exI [of _ s']) simp
  qed
qed

lemma rounds_first:
  assumes "sys_inv s" "j < NPROC" "turn_of r s j"
    and fair: "\<And>t i t'. sys_inv t \<Longrightarrow> running t i \<Longrightarrow> i \<noteq> j \<Longrightarrow> run i t = Ret t' \<Longrightarrow> leaves j t t'"
  shows "\<exists>xs ys s'. sched_rounds run (r # rs) s = Ret (xs @ j # ys, s') \<and> sys_inv s' \<and> length xs \<le> j"
proof -
  have e: "[0..<NPROC] = [0..<j] @ j # [Suc j..<NPROC]"
    using upt_add_eq_append [of 0 j "NPROC - j"] upt_conv_Cons [OF assms(2)] assms(2) by simp
  obtain xs ys s1 where p: "sched_pass run r [0..<NPROC] s = Ret (xs @ j # ys, s1)" "sys_inv s1" "subseq xs [0..<j]"
    unfolding e using pass_first [OF assms(1-3), of "[0..<j]" "[Suc j..<NPROC]"] fair assms(2) by fastforce
  have "length xs \<le> j" using list_emb_length [OF p(3)] by simp
  moreover obtain u s2 where "sched_rounds run rs s1 = Ret (u, s2)" "sys_inv s2" using rounds_total [OF p(2)] by blast
  ultimately show ?thesis using p(1) by (intro exI [of _ xs] exI [of _ "ys @ u"] exI [of _ s2]) simp
qed

end

section \<open>Processes that only compute\<close>

locale sched_busy = sched_env +
  assumes busy: "sys_inv s \<Longrightarrow> running s i \<Longrightarrow> run i s = Ret s' \<Longrightarrow> k < NPROC \<Longrightarrow> leaves k (setproc i (\<lambda>p. p\<lparr>state := RUNNABLE\<rparr>) s) s'"
begin

lemma busy_turn:
  assumes "sys_inv s" "i < NPROC" "turn_of r s i" "run i (dispatched i s) = Ret s1" "k < NPROC"
  shows "leaves k s (switchkvm s1)"
proof -
  have r: "state (procs s ! i) = RUNNABLE" using assms(3) by (simp add: turn_of_def)
  note d = dispatched_inv [OF assms(1,2) r]
  have "length (procs s) = NPROC" using assms(1) proc_invD(1) by (auto simp: sys_inv_def)
  then have "leaves k s (setproc i (\<lambda>p. p\<lparr>state := RUNNABLE\<rparr>) (dispatched i s))"
    using r assms(2) by (cases "k = i") (simp_all add: leaves_def dispatched_def)
  then have "leaves k s s1" using leaves_trans busy [OF d(1,2) assms(4,5)] by blast
  then show ?thesis by (simp add: leaves_def)
qed

lemma pass_busy:
  assumes "sys_inv s" "set is \<subseteq> {..<NPROC}"
  shows "\<exists>s'. sched_pass run r is s = Ret (filter (turn_of r s) is, s') \<and> sys_inv s' \<and> (\<forall>k < NPROC. leaves k s s')"
  using assms
proof (induction "is" arbitrary: s)
  case (Cons i "is")
  show ?case
  proof (cases "turn_of r s i")
    case False
    then show ?thesis using Cons.IH [OF Cons.prems(1)] Cons.prems(2) pass_skip [OF False] by auto
  next
    case True
    have i: "i < NPROC" "set is \<subseteq> {..<NPROC}" using Cons.prems(2) by auto
    obtain s1 where s1: "run i (dispatched i s) = Ret s1" "sys_inv (switchkvm s1)"
        "sched_pass run r (i # is) s = rbind (sched_pass run r is (switchkvm s1)) (\<lambda>(t, s). Ret (i # t, s))"
      using pass_step [OF Cons.prems(1) i(1) True] by blast
    note l = busy_turn [OF Cons.prems(1) i(1) True s1(1)]
    have "filter (turn_of r (switchkvm s1)) is = filter (turn_of r s) is"
      using i(2) leaves_turn [OF l] by (intro filter_cong) auto
    moreover obtain s' where s': "sched_pass run r is (switchkvm s1) = Ret (filter (turn_of r (switchkvm s1)) is, s')" "sys_inv s'"
        "\<forall>k < NPROC. leaves k (switchkvm s1) s'"
      using Cons.IH [OF s1(2) i(2)] by blast
    moreover have "\<forall>k < NPROC. leaves k s s'" using l s'(3) leaves_trans by blast
    ultimately show ?thesis using s1(3) True by simp
  qed
qed simp

lemma rounds_busy:
  assumes "sys_inv s" "sorted rs"
  shows "\<exists>s'. sched_rounds run rs s = Ret (concat (map (\<lambda>r. filter (turn_of r s) [0..<NPROC]) rs), s') \<and> sys_inv s' \<and>
    (\<forall>k < NPROC. leaves k s s')"
  using assms
proof (induction rs arbitrary: s)
  case (Cons r rs)
  have "set [0..<NPROC] \<subseteq> {..<NPROC}" by auto
  from pass_busy [OF Cons.prems(1) this, of r] obtain s1
    where s1: "sched_pass run r [0..<NPROC] s = Ret (filter (turn_of r s) [0..<NPROC], s1)" "sys_inv s1" "\<forall>k < NPROC. leaves k s s1"
    by blast
  show ?case
  proof (cases "filter (turn_of r s) [0..<NPROC] = []")
    case True
    have "filter (turn_of r' s) [0..<NPROC] = []" if "r' \<in> set rs" for r'
      using True that Cons.prems(2) by (fastforce simp: filter_empty_conv turn_of_def)
    then show ?thesis using s1 True by (intro exI [of _ s1]) (simp add: filter_empty_conv)
  next
    case False
    obtain s2 where s2: "sched_rounds run rs s1 = Ret (concat (map (\<lambda>r. filter (turn_of r s1) [0..<NPROC]) rs), s2)" "sys_inv s2"
        "\<forall>k < NPROC. leaves k s1 s2"
      using Cons.IH [OF s1(2)] Cons.prems(2) by auto
    have "filter (turn_of r s1) [0..<NPROC] = filter (turn_of r s) [0..<NPROC]" for r
      using s1(3) by (intro filter_cong) (auto simp: leaves_turn)
    moreover have "\<forall>k < NPROC. leaves k s s2" using s1(3) s2(3) leaves_trans by blast
    ultimately show ?thesis using s1(1) s2 False by (auto simp: filter_empty_conv)
  qed
qed simp

end
text \<open>Every process runs until the clock takes the processor away: \<^verbatim>\<open>trap\<close> calls \<^const>\<open>yield\<close>.\<close>

definition preempted :: "nat \<Rightarrow> 'z kern_scheme \<Rightarrow> 'z kern_scheme res" where
  "preempted i s = Ret (yield s i)"

lemma yield_inv: "sys_inv s \<Longrightarrow> running s i \<Longrightarrow> sys_inv (yield s i)"
  unfolding yield_def
  by (rule setproc_quiet) (auto simp: key_def used_def proc_ok_def quiet_def active_def running_def)

interpretation busy: sched_busy preempted
proof
  show "\<exists>s'. preempted i s = Ret s' \<and> sys_inv s'" if "sys_inv s" "running s i" for s :: "'z kern_scheme" and i
    using yield_inv [OF that] by (simp add: preempted_def)
qed (simp add: preempted_def yield_def)

lemma weight_sum:
  assumes "0 \<le> p" "p \<le> m"
  shows "length (filter (\<lambda>r. r < p) [0..m - 1]) = nat p"
proof -
  have "[0..m - 1] = [0..p - 1] @ [p..m - 1]" using assms upto_split1 [of 0 p "m - 1"] by (cases "p = m") auto
  then show ?thesis by (simp add: filter_empty_conv)
qed

lemma count_rounds:
  "count_list (concat (map (\<lambda>r. filter (P r) xs) rs)) i = (if i \<in> set xs then count_list xs i * length (filter (\<lambda>r. P r i) rs) else 0)"
proof (induction rs)
  case (Cons r rs)
  have "count_list (filter (P r) xs) i = (if P r i then count_list xs i else 0)"
    by (induction xs) auto
  then show ?case using Cons by (auto simp: count_list_0_iff)
qed simp

lemma count_upt: "i < n \<Longrightarrow> count_list [0..<n] i = 1"
  by (induction n) (auto simp: less_Suc_eq)

lemma booted_sys: "\<exists>s :: kern. \<exists>i. sys_inv s \<and> i < NPROC \<and> state (procs s ! i) = RUNNABLE"
  using booted [of put_ref] proc_reach_sys [OF _ put_ref_put] by blast

section \<open>Properties\<close>

text \<open>C26. Priority is weight: when every process computes until the clock preempts it, one cycle of
  the scheduler switches to each runnable process as often as its priority says, to no other
  process, and leaves all of them as they were.\<close>

theorem weighted_shares:
  assumes "sys_inv s" "i < NPROC"
  shows "\<exists>t s'. sched_rounds preempted [0..MAX_PRIORITY - 1] s = Ret (t, s') \<and> sys_inv s' \<and> (\<forall>k < NPROC. leaves k s s') \<and>
    count_list t i = (if state (procs s ! i) = RUNNABLE then nat (priority (procs s ! i)) else 0)"
proof -
  let ?t = "concat (map (\<lambda>r. filter (turn_of r s) [0..<NPROC]) [0..MAX_PRIORITY - 1])"
  obtain s' where s': "sched_rounds preempted [0..MAX_PRIORITY - 1] s = Ret (?t, s')" "sys_inv s'" "\<forall>k < NPROC. leaves k s s'"
    using busy.rounds_busy [OF assms(1) sorted_upto] by blast
  have c: "count_list [0..<NPROC] i = 1" by (rule count_upt [OF assms(2)])
  have p: "1 \<le> priority (procs s ! i) \<and> priority (procs s ! i) \<le> MAX_PRIORITY" if "state (procs s ! i) = RUNNABLE"
    using assms that proc_invD(7) [of s i] by (auto simp: sys_inv_def proc_ok_def used_def)
  have "length (filter (\<lambda>r. turn_of r s i) [0..MAX_PRIORITY - 1]) =
      (if state (procs s ! i) = RUNNABLE then nat (priority (procs s ! i)) else 0)"
    using p weight_sum by (auto simp: turn_of_def)
  then show ?thesis using s' assms(2) by (intro exI [of _ ?t] exI [of _ s']) (simp add: count_rounds c)
qed
theorem weighted_shares_witness:
  "\<exists>(s :: kern) i t s'. state (procs s ! i) = RUNNABLE \<and> sched_rounds preempted [0..MAX_PRIORITY - 1] s = Ret (t, s') \<and>
     count_list t i = nat (priority (procs s ! i))"
proof -
  obtain s :: kern and i where s: "sys_inv s" "i < NPROC" "state (procs s ! i) = RUNNABLE" using booted_sys by blast
  then show ?thesis using weighted_shares [OF s(1,2)] by fastforce
qed

text \<open>C27. Nobody starves: whatever the processes do while they run, as long as each gives the
  processor back and the others leave process \<open>j\<close> runnable with its priority, one cycle of the
  scheduler ends, makes at most 640 switches, and switches to \<open>j\<close> after at most \<open>j\<close> others.\<close>

theorem no_starvation:
  assumes "sys_inv s" "j < NPROC" "state (procs s ! j) = RUNNABLE"
    and run: "\<And>t i. sys_inv t \<Longrightarrow> running t i \<Longrightarrow> \<exists>t'. run i t = Ret t' \<and> sys_inv t' \<and> (i \<noteq> j \<longrightarrow> leaves j t t')"
  shows "\<exists>xs ys s'. sched_rounds run [0..MAX_PRIORITY - 1] s = Ret (xs @ j # ys, s') \<and> sys_inv s' \<and>
    length xs \<le> j \<and> length (xs @ j # ys) \<le> 640"
proof -
  have env: "sched_env run" by unfold_locales (use run in blast)
  have r: "[0..MAX_PRIORITY - 1] = 0 # [1..MAX_PRIORITY - 1]" by (simp add: MAX_PRIORITY_def upto_rec1)
  have "0 < priority (procs s ! j)" using assms(1-3) proc_invD(7) [of s j] by (auto simp: sys_inv_def proc_ok_def used_def)
  then have t: "turn_of 0 s j" using assms(3) by (simp add: turn_of_def)
  have "\<And>t i t'. sys_inv t \<Longrightarrow> running t i \<Longrightarrow> i \<noteq> j \<Longrightarrow> run i t = Ret t' \<Longrightarrow> leaves j t t'" using run by fastforce
  then obtain xs ys s' where s': "sched_rounds run [0..MAX_PRIORITY - 1] s = Ret (xs @ j # ys, s')" "sys_inv s'" "length xs \<le> j"
    using sched_env.rounds_first [OF env assms(1,2) t, of "[1..MAX_PRIORITY - 1]"] unfolding r by blast
  have "length (xs @ j # ys) \<le> 640"
    using sched_env.rounds_total [OF env assms(1), of "[0..MAX_PRIORITY - 1]"] s'(1) by (auto simp: MAX_PRIORITY_def NPROC_def)
  then show ?thesis using s' by blast
qed

theorem no_starvation_witness:
  "\<exists>(s :: kern) j xs ys s'. state (procs s ! j) = RUNNABLE \<and>
     sched_rounds preempted [0..MAX_PRIORITY - 1] s = Ret (xs @ j # ys, s') \<and> length xs \<le> j"
proof -
  obtain s :: kern and j where s: "sys_inv s" "j < NPROC" "state (procs s ! j) = RUNNABLE" using booted_sys by blast
  have "\<exists>t'. preempted i t = Ret t' \<and> sys_inv t' \<and> (i \<noteq> j \<longrightarrow> leaves j t t')" if "sys_inv t" "running t i" for t :: kern and i
    using yield_inv [OF that] by (simp add: preempted_def leaves_def yield_def)
  then show ?thesis using no_starvation [OF s, of preempted] s(3) by blast
qed

end
