(* ===== verification/Fault.thy ===== *)
theory Fault
  imports Sched
begin

text \<open>
  Page faults: the \<^verbatim>\<open>T_PGFLT\<close> case of \<^verbatim>\<open>trap\<close> in \<^verbatim>\<open>trap.c\<close>, and memory accesses that may
  cause them, by user programs and by kernel code that follows a user pointer. The processor runs
  on the page directory of the current process. Messages printed with \<^verbatim>\<open>cprintf\<close> are left out.
\<close>

section \<open>The handler\<close>

definition set_killed :: "nat \<Rightarrow> 'z kern_scheme \<Rightarrow> 'z kern_scheme" where
  "set_killed i s = setproc i (\<lambda>p. p\<lparr>killed := True\<rparr>) s"

definition in_kernel :: "u32 \<Rightarrow> bool" where
  "in_kernel cs \<longleftrightarrow> cs AND 3 = 0"

definition read_only :: "vma option \<Rightarrow> bool" where
  "read_only v = (case v of None \<Rightarrow> False | Some v \<Rightarrow> \<not> flag (vprot v) PROT_WRITE)"

definition pgfault :: "'z kern_scheme \<Rightarrow> nat option \<Rightarrow> u32 \<Rightarrow> u32 \<Rightarrow> u32 \<Rightarrow> 'z kern_scheme res" where
  "pgfault s cur err cs faultva =
     (let pageva = PGROUNDDOWN faultva
      in case cur of None \<Rightarrow> Panic ''page fault''
      | Some c \<Rightarrow>
          let p = procs s ! c;
              v = map_option ((!) (vmas p)) (vma_find (vmas p) faultva)
          in if err AND 3 = 3 then
               if read_only v then Ret (set_killed c s)
               else rbind (cow_fault s (pgdir p) pageva) (\<lambda>(cowresult, s).
                 if cowresult = 1 then Ret s
                 else if cowresult < 0 then Ret (set_killed c s)
                 else if in_kernel cs then Panic ''page fault''
                 else Ret (set_killed c s))
             else if flag err 1 then
               if in_kernel cs then Panic ''page fault'' else Ret (set_killed c s)
             else
               (case v of
                  None \<Rightarrow> if in_kernel cs then Panic ''page fault'' else Ret (set_killed c s)
                | Some a \<Rightarrow>
                    if flag err 2 \<and> read_only v then Ret (set_killed c s)
                    else rbind (vm_alloc_mmap_page s (pgdir p) pageva (vprot a)) (\<lambda>(r, s).
                      if r < 0 then Ret (set_killed c s) else Ret s)))"

section \<open>Accesses\<close>

text \<open>
  The error code the processor pushes: bit 0 for a present page, bit 1 for a write, bit 2 for user
  mode. The selectors are those of user and kernel code.
\<close>

definition fault_code :: "pmem \<Rightarrow> u32 \<Rightarrow> u32 \<Rightarrow> bool \<Rightarrow> bool \<Rightarrow> u32" where
  "fault_code m d va wr usr =
     (if present m d va then 1 else 0) OR (if wr then 2 else 0) OR (if usr then 4 else 0)"

definition USER_CS :: u32 where "USER_CS = 0x1B"
definition KERNEL_CS :: u32 where "KERNEL_CS = 0x8"

text \<open>
  A store and a load of a user program: the instruction is retried after each fault, until it
  succeeds (\<open>Some\<close>) or the process is killed on the way back to user mode (\<open>None\<close>). \<open>n\<close>
  bounds the number of faults.
\<close>

fun ustore :: "nat \<Rightarrow> 'z kern_scheme \<Rightarrow> nat \<Rightarrow> u32 \<Rightarrow> u8 \<Rightarrow> (unit option \<times> 'z kern_scheme) res" where
  "ustore n s c va b =
     (case user_store (phys s) (pgdir (procs s ! c)) va b of
        Some m \<Rightarrow> Ret (Some (), s\<lparr>phys := m\<rparr>)
      | None \<Rightarrow>
          (case n of 0 \<Rightarrow> Refault
           | Suc n \<Rightarrow> rbind (pgfault s (Some c) (fault_code (phys s) (pgdir (procs s ! c)) va True True) USER_CS va) (\<lambda>s.
               if killed (procs s ! c) then Ret (None, s) else ustore n s c va b)))"

fun uload :: "nat \<Rightarrow> 'z kern_scheme \<Rightarrow> nat \<Rightarrow> u32 \<Rightarrow> (u8 option \<times> 'z kern_scheme) res" where
  "uload n s c va =
     (case user_load (phys s) (pgdir (procs s ! c)) va of
        Some b \<Rightarrow> Ret (Some b, s)
      | None \<Rightarrow>
          (case n of 0 \<Rightarrow> Refault
           | Suc n \<Rightarrow> rbind (pgfault s (Some c) (fault_code (phys s) (pgdir (procs s ! c)) va False True) USER_CS va) (\<lambda>s.
               if killed (procs s ! c) then Ret (None, s) else uload n s c va)))"

declare ustore.simps [simp del] uload.simps [simp del]

text \<open>
  Kernel code that follows a user pointer runs in supervisor mode with write protection on: the
  user bit does not matter, the write bit does. A killed process goes on until the system call
  ends, so the instruction is retried whatever the handler did; where the handler did not make the
  page accessible it faults again, and the model stops with \<^const>\<open>Refault\<close>.
\<close>

definition kuload :: "'z kern_scheme \<Rightarrow> nat \<Rightarrow> u32 \<Rightarrow> (u8 \<times> 'z kern_scheme) res" where
  "kuload s c va =
     (let d = pgdir (procs s ! c)
      in if present (phys s) d va then Ret (ubyte (phys s) d va, s)
         else rbind (pgfault s (Some c) (fault_code (phys s) d va False False) KERNEL_CS va) (\<lambda>s.
           if present (phys s) d va then Ret (ubyte (phys s) d va, s) else Refault))"

definition kustore :: "'z kern_scheme \<Rightarrow> nat \<Rightarrow> u32 \<Rightarrow> u8 \<Rightarrow> 'z kern_scheme res" where
  "kustore s c va b =
     (let d = pgdir (procs s ! c);
          put = (\<lambda>s. s\<lparr>phys := (phys s)(PTE_ADDR (lookup (phys s) d va) + (va AND 0xFFF) := b)\<rparr>)
      in if writable (phys s) d va then Ret (put s)
         else rbind (pgfault s (Some c) (fault_code (phys s) d va True False) KERNEL_CS va) (\<lambda>s.
           if writable (phys s) d va then Ret (put s) else Refault))"

fun kuloads :: "nat \<Rightarrow> 'z kern_scheme \<Rightarrow> nat \<Rightarrow> u32 \<Rightarrow> (u8 list \<times> 'z kern_scheme) res" where
  "kuloads 0 s c va = Ret ([], s)"
| "kuloads (Suc n) s c va =
     rbind (kuload s c va) (\<lambda>(b, s).
       rbind (kuloads n s c (va + 1)) (\<lambda>(bs, s). Ret (b # bs, s)))"

fun kustores :: "'z kern_scheme \<Rightarrow> nat \<Rightarrow> u32 \<Rightarrow> u8 list \<Rightarrow> 'z kern_scheme res" where
  "kustores s c va [] = Ret s"
| "kustores s c va (b # bs) = rbind (kustore s c va b) (\<lambda>s. kustores s c (va + 1) bs)"

section \<open>What a memory operation keeps\<close>

text \<open>An operation on the pages of live directories that leaves the tables above the memory alone.\<close>

lemma frame_inv:
  assumes inv: "sys_inv s" and v: "vm_inv s' (dirs s)" and f: "vm_frame s (dirs s) s' (dirs s) C {}"
  shows "sys_inv s'" "procs s' = procs s" "dirs s' = dirs s"
proof -
  have p: "proc_inv s" "pipes_inv s" using inv by (auto simp: sys_inv_def)
  note m = kern_more [OF vm_frameD(4) [OF f]] and e = vm_frameD(2,3) [OF f]
  have kf: "kframe s' (dirs s) g \<longleftrightarrow> kframe s (dirs s) g" for g using vm_frameD(7,10) [OF f] by blast
  have rf: "refs s' (V2P a) = 1" if "a \<in> kpages_of s" for a
    using vm_frameD(8) [OF f, of "V2P a"] proc_invD(5) [OF p(1), of "V2P a"] proc_invD(6) [OF p(1) that] that by auto
  have ok: "proc_ok s' (procs s' ! i)" if "i < NPROC" for i
    using proc_invD(7) [OF p(1) that] m e by (simp add: proc_ok_def)
  have n: "0 < nextpid s'" using proc_invD(2) [OF p(1)] m by simp
  have k: "map key (procs s') = map key (procs s)" using m by simp
  note g = proc_inv_gen [OF p(1) k ok v kf rf e m(7) n]
  show "procs s' = procs s" by (rule m)
  show "dirs s' = dirs s" by (rule g(2))
  show "sys_inv s'"
    by (rule quiet_inv [OF inv g(1)]) (use m in \<open>auto intro: pipes_inv_cong [OF p(2)]\<close>)
qed

lemma set_killed_inv: "sys_inv s \<Longrightarrow> sys_inv (set_killed i s)"
  unfolding set_killed_def
  by (rule setproc_quiet) (auto simp: key_def used_def proc_ok_def quiet_def active_def)

lemma set_killed_sel [simp]:
  "phys (set_killed i s) = phys s" "procs (set_killed i s) = (procs s)[i := (procs s ! i)\<lparr>killed := True\<rparr>]"
  by (simp_all add: set_killed_def)
section \<open>What the handler does\<close>

definition area :: "'z kern_scheme \<Rightarrow> nat \<Rightarrow> u32 \<Rightarrow> vma option" where
  "area s c va = map_option ((!) (vmas (procs s ! c))) (vma_find (vmas (procs s ! c)) va)"

lemma fault_code_bits:
  "fault_code m d va wr usr AND 3 = 3 \<longleftrightarrow> present m d va \<and> wr"
  "flag (fault_code m d va wr usr) 1 \<longleftrightarrow> present m d va" "flag (fault_code m d va wr usr) 2 \<longleftrightarrow> wr"
  by (auto simp: fault_code_def flag_def)

lemma pgfault_simp:
  "pgfault s (Some c) (fault_code (phys s) d va wr usr) cs va =
     (if present (phys s) d va \<and> wr then
        if read_only (area s c va) then Ret (set_killed c s)
        else rbind (cow_fault s (pgdir (procs s ! c)) (PGROUNDDOWN va)) (\<lambda>(cowresult, s).
          if cowresult = 1 then Ret s
          else if cowresult < 0 then Ret (set_killed c s)
          else if in_kernel cs then Panic ''page fault'' else Ret (set_killed c s))
      else if present (phys s) d va then
        if in_kernel cs then Panic ''page fault'' else Ret (set_killed c s)
      else
        (case area s c va of
           None \<Rightarrow> if in_kernel cs then Panic ''page fault'' else Ret (set_killed c s)
         | Some a \<Rightarrow>
             if wr \<and> read_only (area s c va) then Ret (set_killed c s)
             else rbind (vm_alloc_mmap_page s (pgdir (procs s ! c)) (PGROUNDDOWN va) (vprot a)) (\<lambda>(r, s).
               if r < 0 then Ret (set_killed c s) else Ret s)))"
  unfolding pgfault_def Let_def area_def option.case(2) fault_code_bits by (simp split: option.split)

lemma sys_dir: "sys_inv s \<Longrightarrow> running s c \<Longrightarrow> pgdir (procs s ! c) \<in> dirs s"
  and sys_vm: "sys_inv s \<Longrightarrow> vm_inv s (dirs s)"
  using used_dir [of s c] proc_invD(4) [of s] by (auto simp: sys_inv_def running_def used_def)

lemma pgfault_write:
  assumes inv: "sys_inv s" and c: "running s c" and va: "va < KERNBASE"
    and p: "present (phys s) (pgdir (procs s ! c)) va" "\<not> read_only (area s c va)"
  defines "d \<equiv> pgdir (procs s ! c)"
  obtains (copy) s1 where "pgfault s (Some c) (fault_code (phys s) d va True usr) cs va = Ret s1" "sys_inv s1" "procs s1 = procs s"
      "same_view s s1 (dirs s)" "writable (phys s1) d va" "\<not> flag (lookup (phys s1) d va) PTE_COW"
      "vm_frame s (dirs s) s1 (dirs s) {(d, PGROUNDDOWN va)} {}" "flag (lookup (phys s) d va) PTE_COW" "dirs s1 = dirs s"
  | (fail) "pgfault s (Some c) (fault_code (phys s) d va True usr) cs va = Ret (set_killed c s)"
      "flag (lookup (phys s) d va) PTE_COW \<longrightarrow> kalloc s = Ret (0, s)"
  | (panic) "pgfault s (Some c) (fault_code (phys s) d va True usr) cs va = Panic ''page fault''" "in_kernel cs"
      "\<not> flag (lookup (phys s) d va) PTE_COW"
proof -
  note D = sys_dir [OF inv c, folded d_def] and V = sys_vm [OF inv]
  note e = same_page_lookup [of "PGROUNDDOWN va" va]
  obtain r s1 where r: "cow_fault s d (PGROUNDDOWN va) = Ret (r, s1)" "vm_inv s1 (dirs s)" "same_view s s1 (dirs s)"
    "vm_frame s (dirs s) s1 (dirs s) {(d, PGROUNDDOWN va)} {}"
    "r = 0 \<and> s1 = s \<and> \<not> flag (lookup (phys s) d va) PTE_COW \<or>
     r = -1 \<and> s1 = s \<and> kalloc s = Ret (0, s) \<or>
     r = 1 \<and> flag (lookup (phys s) d va) PTE_COW \<and> writable (phys s1) d va \<and> \<not> flag (lookup (phys s1) d va) PTE_COW"
    using cow_fault_spec [OF V D user_page [OF va]] p(1)
    by (simp add: e d_def present_aligned writable_def) blast
  have pg: "pgfault s (Some c) (fault_code (phys s) d va True usr) cs va =
     (if r = 1 then Ret s1 else if r < 0 then Ret (set_killed c s1)
      else if in_kernel cs then Panic ''page fault'' else Ret (set_killed c s1))"
    using p r(1) by (simp add: pgfault_simp d_def)
  show ?thesis
    using r(5)
  proof (elim disjE conjE)
    assume "r = 0" "s1 = s" "\<not> flag (lookup (phys s) d va) PTE_COW"
    then show ?thesis using that(2,3) pg by (auto split: if_splits)
  next
    assume "r = -1" "s1 = s" "kalloc s = Ret (0, s)"
    then show ?thesis using that(2) pg by simp
  next
    assume a: "r = 1" "flag (lookup (phys s) d va) PTE_COW" "writable (phys s1) d va" "\<not> flag (lookup (phys s1) d va) PTE_COW"
    note f = frame_inv [OF inv r(2,4)]
    show ?thesis using that(1) [of s1] pg a f r(3,4) by simp
  qed
qed

lemma pgfault_demand:
  assumes inv: "sys_inv s" and c: "running s c" and va: "va < KERNBASE"
    and p: "\<not> present (phys s) (pgdir (procs s ! c)) va" "area s c va = Some a" "wr \<longrightarrow> flag (vprot a) PROT_WRITE"
  defines "d \<equiv> pgdir (procs s ! c)"
  obtains (page) s1 where "pgfault s (Some c) (fault_code (phys s) d va wr usr) cs va = Ret s1" "sys_inv s1" "procs s1 = procs s"
      "vm_frame s (dirs s) s1 (dirs s) {(d, PGROUNDDOWN va)} {}" "present (phys s1) d va" "flag (lookup (phys s1) d va) PTE_U"
      "flag (lookup (phys s1) d va) PTE_W \<longleftrightarrow> flag (vprot a) PROT_WRITE" "zero_page (phys s1) d (PGROUNDDOWN va)" "dirs s1 = dirs s"
  | (fail) s1 where "pgfault s (Some c) (fault_code (phys s) d va wr usr) cs va = Ret (set_killed c s1)" "sys_inv s1" "procs s1 = procs s"
      "vm_frame s (dirs s) s1 (dirs s) {} {}" "dirs s1 = dirs s" "vm_alloc_mmap_page s d (PGROUNDDOWN va) (vprot a) = Ret (-1, s1)"
proof -
  note D = sys_dir [OF inv c, folded d_def] and V = sys_vm [OF inv]
  note e = same_page_lookup [of "PGROUNDDOWN va" va]
  have np: "\<not> present (phys s) d (PGROUNDDOWN va)" using p(1) by (simp add: present_aligned d_def)
  obtain r s1 where r: "vm_alloc_mmap_page s d (PGROUNDDOWN va) (vprot a) = Ret (r, s1)" "vm_inv s1 (dirs s)"
    "r = -1 \<and> vm_frame s (dirs s) s1 (dirs s) {} {} \<or>
     r = 0 \<and> vm_frame s (dirs s) s1 (dirs s) {(d, PGROUNDDOWN va)} {} \<and> present (phys s1) d va \<and>
       flag (lookup (phys s1) d va) PTE_U \<and> (flag (lookup (phys s1) d va) PTE_W \<longleftrightarrow> flag (vprot a) PROT_WRITE) \<and>
       zero_page (phys s1) d (PGROUNDDOWN va)"
    using vm_alloc_mmap_page_spec [OF V D user_page [OF va] np, of "vprot a"]
    by (simp add: e present_aligned) blast
  have pg: "pgfault s (Some c) (fault_code (phys s) d va wr usr) cs va = (if r < 0 then Ret (set_killed c s1) else Ret s1)"
    using p r(1) by (auto simp: pgfault_simp d_def read_only_def)
  show ?thesis
    using r(3)
  proof (elim disjE conjE)
    assume a: "r = -1" "vm_frame s (dirs s) s1 (dirs s) {} {}"
    show ?thesis using that(2) [of s1] pg a r(1) frame_inv [OF inv r(2) a(2)] by simp
  next
    assume a: "r = 0" "vm_frame s (dirs s) s1 (dirs s) {(d, PGROUNDDOWN va)} {}" "present (phys s1) d va"
       "flag (lookup (phys s1) d va) PTE_U" "flag (lookup (phys s1) d va) PTE_W \<longleftrightarrow> flag (vprot a) PROT_WRITE"
       "zero_page (phys s1) d (PGROUNDDOWN va)"
    show ?thesis using that(1) [of s1] pg a frame_inv [OF inv r(2) a(2)] by simp
  qed
qed
lemma running_cong: "procs s' = procs s \<Longrightarrow> running s' c = running s c" and area_cong: "procs s' = procs s \<Longrightarrow> area s' c va = area s c va"
  by (simp_all add: running_def area_def)

lemma not_in_kernel: "\<not> in_kernel USER_CS" and in_kernel: "in_kernel KERNEL_CS"
  by (simp_all add: in_kernel_def USER_CS_def KERNEL_CS_def)

lemma sys_slot: "sys_inv s \<Longrightarrow> running s c \<Longrightarrow> c < length (procs s)"
  by (simp add: sys_inv_def proc_invD(1) running_def)

lemma write_inv:
  assumes inv: "sys_inv s" and c: "running s c" "va < KERNBASE" "writable (phys s) (pgdir (procs s ! c)) va"
    and m: "m = (phys s)(PTE_ADDR (lookup (phys s) (pgdir (procs s ! c)) va) + (va AND 0xFFF) := b)"
  shows "sys_inv (s\<lparr>phys := m\<rparr>)"
proof -
  note a = sys_vm [OF inv] sys_dir [OF inv c(1)] c(2,3) m
  show ?thesis by (rule frame_inv(1) [OF inv writable_store(1) [OF a] store_frame [OF a]])
qed

section \<open>User programs\<close>

text \<open>
  What a fault may change of what a process \<open>d\<close> reads: nothing but that an absent page of the
  faulting process now reads as zeros.
\<close>

definition paged_in :: "pmem \<Rightarrow> pmem \<Rightarrow> u32 \<Rightarrow> u32 \<Rightarrow> u32 set \<Rightarrow> bool" where
  "paged_in m m' d va D \<longleftrightarrow> (\<forall>d' \<in> D. \<forall>va'. user_load m' d' va' = user_load m d' va' \<or>
     d' = d \<and> PGROUNDDOWN va' = PGROUNDDOWN va \<and> \<not> present m d va \<and> user_load m' d' va' = Some 0)"

lemma paged_in_refl [simp]: "paged_in m m d va D"
  by (simp add: paged_in_def)

lemma paged_in_view: "same_view s s' D \<Longrightarrow> paged_in (phys s) (phys s') d va D"
  unfolding paged_in_def using same_view_load by blast

lemma paged_in_frame:
  assumes "vm_frame s D s' D {} {}"
  shows "paged_in (phys s) (phys s') d va D"
  unfolding paged_in_def using frame_load [OF assms] by blast

lemma paged_in_demand:
  assumes f: "vm_frame s D s' D {(d, PGROUNDDOWN va)} {}" and np: "\<not> present (phys s) d va"
    and p: "present (phys s') d va" "flag (lookup (phys s') d va) PTE_U" "zero_page (phys s') d (PGROUNDDOWN va)"
  shows "paged_in (phys s) (phys s') d va D"
  unfolding paged_in_def
proof (intro ballI allI)
  fix d' va' assume d': "d' \<in> D"
  show "user_load (phys s') d' va' = user_load (phys s) d' va' \<or>
     d' = d \<and> PGROUNDDOWN va' = PGROUNDDOWN va \<and> \<not> present (phys s) d va \<and> user_load (phys s') d' va' = Some 0"
  proof (cases "d' = d \<and> PGROUNDDOWN va' = PGROUNDDOWN va")
    case False
    then show ?thesis using frame_load [OF f d' d'] by auto
  next
    case True
    then have "lookup (phys s') d' va' = lookup (phys s') d va" using same_page_lookup [of va' va] by simp
    then have "user_load (phys s') d' va' = (if va' < KERNBASE then Some 0 else None)"
      using p True by (simp add: user_load_def present_def zero_page_def)
    then show ?thesis using True np by (auto simp: user_load_def)
  qed
qed

lemma paged_in_trans:
  assumes "paged_in m (phys s1) d va D" "same_view s1 s2 D"
  shows "paged_in m (phys s2) d va D"
  using assms(1) same_view_load [OF assms(2)] unfolding paged_in_def by metis

text \<open>A store: it succeeds, or one or two faults decide.\<close>

lemma ustore_hit:
  "user_store (phys s) (pgdir (procs s ! c)) va b = Some m \<Longrightarrow> ustore n s c va b = Ret (Some (), s\<lparr>phys := m\<rparr>)"
  by (subst ustore.simps) simp

lemma ustore_fault:
  assumes "user_store (phys s) (pgdir (procs s ! c)) va b = None"
    "pgfault s (Some c) (fault_code (phys s) (pgdir (procs s ! c)) va True True) USER_CS va = Ret s1"
  shows "ustore (Suc n) s c va b = (if killed (procs s1 ! c) then Ret (None, s1) else ustore n s1 c va b)"
  using assms by (subst ustore.simps) simp

lemma user_load_store:
  assumes "sys_inv s" "running s c" "user_store (phys s) (pgdir (procs s ! c)) va b = Some m" "d' \<in> dirs s"
  shows "user_load m d' va' = (if d' = pgdir (procs s ! c) \<and> va' = va then Some b else user_load (phys s) d' va')"
  by (rule store_load [OF sys_vm [OF assms(1)] sys_dir [OF assms(1,2)] assms(3,4)])

text \<open>The reasons for which a store of a process ends in its death.\<close>

definition store_refused :: "'z kern_scheme \<Rightarrow> nat \<Rightarrow> u32 \<Rightarrow> bool" where
  "store_refused s c va \<longleftrightarrow>
     (let d = pgdir (procs s ! c)
      in if present (phys s) d va then read_only (area s c va) \<or> \<not> flag (lookup (phys s) d va) PTE_U \<or>
           \<not> flag (lookup (phys s) d va) PTE_W \<and> \<not> flag (lookup (phys s) d va) PTE_COW
         else area s c va = None \<or> read_only (area s c va))"

lemma dirs_killed [simp]: "c < length (procs s) \<Longrightarrow> dirs (set_killed c s) = dirs s"
proof -
  assume c: "c < length (procs s)"
  have "map key ((procs s)[c := (procs s ! c)\<lparr>killed := True\<rparr>]) = map key (procs s)"
    using c by (simp add: map_update key_def used_def list_update_same_conv)
  then show ?thesis using key_images(1) [of "(procs s)[c := (procs s ! c)\<lparr>killed := True\<rparr>]" "procs s"] by (simp add: dirs_def set_killed_def)
qed

lemma pages_for: "free_pages s 1025 \<Longrightarrow> room s d (Suc 0)"
proof -
  assume "free_pages s 1025"
  then obtain xs where "kmem_rel s xs" "1025 \<le> length xs" by (auto simp: free_pages_def)
  then show ?thesis using card_missing [of "phys s" d] unfolding room_def by (intro exI [of _ xs]) simp
qed

text \<open>How a store may end: in the death of the process, or with the byte written.\<close>

definition store_ends :: "'z kern_scheme \<Rightarrow> nat \<Rightarrow> u32 \<Rightarrow> u8 \<Rightarrow> unit option \<Rightarrow> 'z kern_scheme \<Rightarrow> bool" where
  "store_ends s c va b r s' \<longleftrightarrow> (let d = pgdir (procs s ! c) in sys_inv s' \<and> dirs s' = dirs s \<and>
     (case r of
        None \<Rightarrow> killed (procs s' ! c) \<and> paged_in (phys s) (phys s') d va (dirs s) \<and>
          (killed (procs s ! c) \<or> store_refused s c va \<or> \<not> free_pages s 1025)
      | Some _ \<Rightarrow> procs s' = procs s \<and> (\<exists>m. paged_in (phys s) m d va (dirs s) \<and>
          (\<forall>d' \<in> dirs s. \<forall>va'. user_load (phys s') d' va' = (if d' = d \<and> va' = va then Some b else user_load m d' va')))))"

lemma ends_hit:
  assumes inv: "sys_inv s1" and c: "running s c" and e: "procs s1 = procs s" "dirs s1 = dirs s"
    and st: "user_store (phys s1) (pgdir (procs s ! c)) va b = Some m" and p: "paged_in (phys s) (phys s1) (pgdir (procs s ! c)) va (dirs s)"
  shows "store_ends s c va b (Some ()) (s1\<lparr>phys := m\<rparr>)"
proof -
  have c1: "running s1 c" using c e(1) by (simp add: running_def)
  have st1: "user_store (phys s1) (pgdir (procs s1 ! c)) va b = Some m" using st e(1) by simp
  have "sys_inv (s1\<lparr>phys := m\<rparr>)" by (rule write_inv [OF inv c1 user_storeD(1-3) [OF st1]])
  moreover have "dirs (s1\<lparr>phys := m\<rparr>) = dirs s" using e(2) by (simp add: dirs_def)
  moreover have "\<forall>d' \<in> dirs s. \<forall>va'. user_load m d' va' =
      (if d' = pgdir (procs s ! c) \<and> va' = va then Some b else user_load (phys s1) d' va')"
    using user_load_store [OF inv c1 st1] e by simp
  ultimately show ?thesis using p e(1) unfolding store_ends_def Let_def by (auto intro!: exI [of _ "phys s1"])
qed

lemma ends_kill:
  assumes "sys_inv s1" "c < length (procs s)" "procs s1 = procs s" "dirs s1 = dirs s"
    "paged_in (phys s) (phys s1) (pgdir (procs s ! c)) va (dirs s)"
    "killed (procs s ! c) \<or> store_refused s c va \<or> \<not> free_pages s 1025"
  shows "store_ends s c va b None (set_killed c s1)"
  using assms set_killed_inv [OF assms(1), of c] by (simp add: store_ends_def)

lemma ustore_killed:
  assumes "user_store (phys s) (pgdir (procs s ! c)) va b = None" "procs s1 = procs s" "c < length (procs s)"
    "pgfault s (Some c) (fault_code (phys s) (pgdir (procs s ! c)) va True True) USER_CS va = Ret (set_killed c s1)"
  shows "ustore (Suc n) s c va b = Ret (None, set_killed c s1)"
  using ustore_fault [OF assms(1,4)] assms(2,3) by simp

lemma ends_refused:
  assumes "sys_inv s" "running s c" "va < KERNBASE" "user_store (phys s) (pgdir (procs s ! c)) va b = None"
    "pgfault s (Some c) (fault_code (phys s) (pgdir (procs s ! c)) va True True) USER_CS va = Ret (set_killed c s)"
    "killed (procs s ! c) \<or> store_refused s c va \<or> \<not> free_pages s 1025"
  shows "\<exists>r s'. ustore (Suc n) s c va b = Ret (r, s') \<and> store_ends s c va b r s'"
  using ustore_killed [OF assms(4) refl sys_slot [OF assms(1,2)] assms(5)] ends_kill [OF assms(1) sys_slot [OF assms(1,2)] refl refl paged_in_refl assms(6)]
  by blast

lemma free_pages_kalloc: "free_pages s 1025 \<Longrightarrow> kalloc s \<noteq> Ret (0, s)"
proof
  assume "free_pages s 1025" "kalloc s = Ret (0, s)"
  then show False using room_kalloc [OF pages_for] by fastforce
qed

lemma ustore_cow:
  assumes inv: "sys_inv s" and c: "running s c" and va: "va < KERNBASE" and st: "user_store (phys s) (pgdir (procs s ! c)) va b = None"
    and p: "present (phys s) (pgdir (procs s ! c)) va" "\<not> read_only (area s c va)"
  shows "\<exists>r s'. ustore 2 s c va b = Ret (r, s') \<and> store_ends s c va b r s'"
proof -
  let ?d = "pgdir (procs s ! c)"
  have two: "2 = Suc (Suc 0)" by simp
  note l = sys_slot [OF inv c]
  have w: "\<not> (flag (lookup (phys s) ?d va) PTE_W \<and> flag (lookup (phys s) ?d va) PTE_U)"
    using st va p(1) by (auto simp: user_store_def writable_def)
  show ?thesis
  proof (rule pgfault_write [OF inv c va p, of True USER_CS])
    fix s1 assume s1: "pgfault s (Some c) (fault_code (phys s) ?d va True True) USER_CS va = Ret s1" "sys_inv s1" "procs s1 = procs s"
      "same_view s s1 (dirs s)" "writable (phys s1) ?d va" "\<not> flag (lookup (phys s1) ?d va) PTE_COW" "flag (lookup (phys s) ?d va) PTE_COW"
      "dirs s1 = dirs s"
    have c1: "running s1 c" using c s1(3) by (simp add: running_def)
    have u: "flag (lookup (phys s1) ?d va) PTE_U \<longleftrightarrow> flag (lookup (phys s) ?d va) PTE_U"
      using s1(4) sys_dir [OF inv c] va by (simp add: same_view_def)
    note ft = ustore_fault [OF st s1(1), of "Suc 0"]
    show ?thesis
    proof (cases "killed (procs s ! c)")
      case True
      have "store_ends s c va b None s1"
        using s1(2,3,8) True paged_in_view [OF s1(4)] by (simp add: store_ends_def)
      then show ?thesis using ft True s1(3) by (auto simp: two)
    next
      case nk: False
      show ?thesis
      proof (cases "user_store (phys s1) ?d va b")
        case (Some m)
        then have "ustore (Suc 0) s1 c va b = Ret (Some (), s1\<lparr>phys := m\<rparr>)" using ustore_hit [of s1 c] s1(3) by simp
        then show ?thesis using ft nk s1(3) ends_hit [OF s1(2) c s1(3,8) Some paged_in_view [OF s1(4)]] by (auto simp: two)
      next
        case None
        have nu: "\<not> flag (lookup (phys s) ?d va) PTE_U" using None s1(5) va u by (simp add: user_store_def split: if_splits)
        then have ref: "store_refused s c va" using p(1) by (simp add: store_refused_def)
        have p1: "present (phys s1) ?d va" using s1(5) by (simp add: writable_def)
        have k: "pgfault s1 (Some c) (fault_code (phys s1) ?d va True True) USER_CS va = Ret (set_killed c s1)"
          by (rule pgfault_write [OF s1(2) c1 va, unfolded s1(3), of True USER_CS])
             (use p1 p(2) s1(3,6) not_in_kernel area_cong [OF s1(3)] in auto)
        have "ustore (Suc 0) s1 c va b = Ret (None, set_killed c s1)"
          by (rule ustore_killed) (use None k s1(3) l in auto)
        then show ?thesis
          using ft nk s1(3) ends_kill [OF s1(2) l s1(3,8) paged_in_view [OF s1(4)]] ref by (auto simp: two)
      qed
    qed
  next
    assume f: "pgfault s (Some c) (fault_code (phys s) ?d va True True) USER_CS va = Ret (set_killed c s)"
      "flag (lookup (phys s) ?d va) PTE_COW \<longrightarrow> kalloc s = Ret (0, s)"
    have "store_refused s c va \<or> \<not> free_pages s 1025"
      using f(2) w p(1) free_pages_kalloc [of s] by (auto simp: store_refused_def)
    then show ?thesis using ends_refused [OF inv c va st f(1)] unfolding two by blast
  next
    assume "in_kernel USER_CS"
    then show ?thesis using not_in_kernel by simp
  qed
qed

lemma ustore_demand:
  assumes inv: "sys_inv s" and c: "running s c" and va: "va < KERNBASE" and st: "user_store (phys s) (pgdir (procs s ! c)) va b = None"
    and p: "\<not> present (phys s) (pgdir (procs s ! c)) va" "area s c va = Some a" "flag (vprot a) PROT_WRITE"
  shows "\<exists>r s'. ustore 2 s c va b = Ret (r, s') \<and> store_ends s c va b r s'"
proof -
  let ?d = "pgdir (procs s ! c)"
  have two: "2 = Suc (Suc 0)" by simp
  note l = sys_slot [OF inv c]
  show ?thesis
  proof (rule pgfault_demand [OF inv c va p(1,2), of True True USER_CS])
    fix s1 assume s1: "pgfault s (Some c) (fault_code (phys s) ?d va True True) USER_CS va = Ret s1" "sys_inv s1" "procs s1 = procs s"
      "vm_frame s (dirs s) s1 (dirs s) {(?d, PGROUNDDOWN va)} {}" "present (phys s1) ?d va" "flag (lookup (phys s1) ?d va) PTE_U"
      "flag (lookup (phys s1) ?d va) PTE_W \<longleftrightarrow> flag (vprot a) PROT_WRITE" "zero_page (phys s1) ?d (PGROUNDDOWN va)" "dirs s1 = dirs s"
    note pi = paged_in_demand [OF s1(4) p(1) s1(5,6,8)] and ft = ustore_fault [OF st s1(1), of "Suc 0"]
    obtain m where m: "user_store (phys s1) ?d va b = Some m" using store_Some [of "phys s1" ?d va b] s1(5-7) p(3) va by (auto simp: writable_def)
    then have h: "ustore (Suc 0) s1 c va b = Ret (Some (), s1\<lparr>phys := m\<rparr>)" using ustore_hit [of s1 c] s1(3) by simp
    show ?thesis
    proof (cases "killed (procs s ! c)")
      case True
      have "store_ends s c va b None s1" using s1(2,3,9) True pi by (simp add: store_ends_def)
      then show ?thesis using ft True s1(3) by (auto simp: two)
    next
      case False
      then show ?thesis using ft h s1(3) ends_hit [OF s1(2) c s1(3,9) m pi] by (auto simp: two)
    qed
  next
    fix s1 assume s1: "pgfault s (Some c) (fault_code (phys s) ?d va True True) USER_CS va = Ret (set_killed c s1)" "sys_inv s1" "procs s1 = procs s"
      "vm_frame s (dirs s) s1 (dirs s) {} {}" "dirs s1 = dirs s" "vm_alloc_mmap_page s ?d (PGROUNDDOWN va) (vprot a) = Ret (-1, s1)"
    have "\<not> free_pages s 1025"
      using demand_room [OF sys_vm [OF inv] sys_dir [OF inv c] pages_for s1(6)] by auto
    then show ?thesis
      using ustore_killed [OF st s1(3) l s1(1), of "Suc 0"] ends_kill [OF s1(2) l s1(3,5) paged_in_frame [OF s1(4)]] by (auto simp: two)
  qed (use p(3) in simp)
qed

lemma ustore_settles:
  assumes inv: "sys_inv s" and c: "running s c" and va: "va < KERNBASE"
  shows "\<exists>r s'. ustore 2 s c va b = Ret (r, s') \<and> store_ends s c va b r s'"
proof (cases "user_store (phys s) (pgdir (procs s ! c)) va b")
  case (Some m)
  then show ?thesis using ustore_hit [OF Some] ends_hit [OF inv c refl refl Some paged_in_refl] by blast
next
  case st: None
  let ?d = "pgdir (procs s ! c)"
  have two: "2 = Suc (Suc 0)" by simp
  show ?thesis
  proof (cases "read_only (area s c va) \<or> \<not> present (phys s) ?d va \<and> area s c va = None")
    case True
    then have "store_refused s c va" by (auto simp: store_refused_def)
    moreover have "pgfault s (Some c) (fault_code (phys s) ?d va True True) USER_CS va = Ret (set_killed c s)"
      using True not_in_kernel by (auto simp: pgfault_simp read_only_def split: option.split)
    ultimately show ?thesis using ends_refused [OF inv c va st] unfolding two by blast
  next
    case nr: False
    show ?thesis
    proof (cases "present (phys s) ?d va")
      case True
      then show ?thesis using ustore_cow [OF inv c va st True] nr by blast
    next
      case False
      then obtain a where "area s c va = Some a" "flag (vprot a) PROT_WRITE" using nr by (auto simp: read_only_def)
      then show ?thesis using ustore_demand [OF inv c va st False] by blast
    qed
  qed
qed

lemma uload_settles:
  assumes inv: "sys_inv s" and c: "running s c" and va: "va < KERNBASE"
  defines "d \<equiv> pgdir (procs s ! c)"
  shows "\<exists>r s'. uload 1 s c va = Ret (r, s') \<and> sys_inv s' \<and> dirs s' = dirs s \<and> paged_in (phys s) (phys s') d va (dirs s) \<and>
    (case r of None \<Rightarrow> killed (procs s' ! c) | Some b \<Rightarrow> user_load (phys s') d va = Some b \<and> procs s' = procs s)"
proof (cases "user_load (phys s) d va")
  case (Some b)
  then have "uload 1 s c va = Ret (Some b, s)" by (subst uload.simps) (simp add: d_def)
  then show ?thesis using inv Some by auto
next
  case ld: None
  note l = sys_slot [OF inv c]
  let ?pf = "pgfault s (Some c) (fault_code (phys s) d va False True) USER_CS va"
  have u: "uload 1 s c va = rbind ?pf (\<lambda>s. if killed (procs s ! c) then Ret (None, s) else uload 0 s c va)"
    using ld by (subst uload.simps) (simp add: d_def)
  have k: ?thesis if "?pf = Ret (set_killed c s1)" "sys_inv s1" "procs s1 = procs s" "dirs s1 = dirs s"
      "paged_in (phys s) (phys s1) d va (dirs s)" for s1
    using that u l set_killed_inv [OF that(2)] by (intro exI [of _ None] exI [of _ "set_killed c s1"]) simp
  show ?thesis
  proof (cases "present (phys s) d va \<or> area s c va = None")
    case True
    then have "?pf = Ret (set_killed c s)" using not_in_kernel by (auto simp: pgfault_simp split: option.split)
    then show ?thesis using k inv by simp
  next
    case False
    then obtain a where a: "area s c va = Some a" "\<not> present (phys s) (pgdir (procs s ! c)) va" by (auto simp: d_def)
    show ?thesis
    proof (rule pgfault_demand [OF inv c va a(2,1), of False True USER_CS, folded d_def])
      fix s1 assume s1: "?pf = Ret s1" "sys_inv s1" "procs s1 = procs s" "vm_frame s (dirs s) s1 (dirs s) {(d, PGROUNDDOWN va)} {}"
        "present (phys s1) d va" "flag (lookup (phys s1) d va) PTE_U" "zero_page (phys s1) d (PGROUNDDOWN va)" "dirs s1 = dirs s"
      have pi: "paged_in (phys s) (phys s1) d va (dirs s)"
        using paged_in_demand [OF s1(4) _ s1(5-7)] a(2) by (simp add: d_def)
      obtain b where b: "user_load (phys s1) d va = Some b" using s1(5,6) va by (simp add: user_load_def)
      then have "uload 0 s1 c va = Ret (Some b, s1)" using s1(3) by (subst uload.simps) (simp add: d_def)
      then show ?thesis using u s1 pi b by (cases "killed (procs s ! c)") auto
    next
      fix s1 assume "?pf = Ret (set_killed c s1)" "sys_inv s1" "procs s1 = procs s" "vm_frame s (dirs s) s1 (dirs s) {} {}" "dirs s1 = dirs s"
      then show ?thesis using k paged_in_frame by blast
    qed simp
  qed
qed

end
