(* ===== verification/Syscall.thy ===== *)
theory Syscall
  imports Fault
begin

text \<open>
  The system call interface of \<^verbatim>\<open>syscall.c\<close>: the numbers of \<^verbatim>\<open>syscall.h\<close>, the fetching of
  arguments from user memory, and the dispatcher with its tracing. The kernel reads the
  arguments through the user's own mappings, so a fetch may fault.
\<close>

section \<open>Numbers\<close>

definition SYS_fork :: nat where "SYS_fork = 1"
definition SYS_exit :: nat where "SYS_exit = 2"
definition SYS_wait :: nat where "SYS_wait = 3"
definition SYS_pipe :: nat where "SYS_pipe = 4"
definition SYS_read :: nat where "SYS_read = 5"
definition SYS_kill :: nat where "SYS_kill = 6"
definition SYS_exec :: nat where "SYS_exec = 7"
definition SYS_fstat :: nat where "SYS_fstat = 8"
definition SYS_chdir :: nat where "SYS_chdir = 9"
definition SYS_dup :: nat where "SYS_dup = 10"
definition SYS_getpid :: nat where "SYS_getpid = 11"
definition SYS_sbrk :: nat where "SYS_sbrk = 12"
definition SYS_sleep :: nat where "SYS_sleep = 13"
definition SYS_uptime :: nat where "SYS_uptime = 14"
definition SYS_open :: nat where "SYS_open = 15"
definition SYS_write :: nat where "SYS_write = 16"
definition SYS_mknod :: nat where "SYS_mknod = 17"
definition SYS_unlink :: nat where "SYS_unlink = 18"
definition SYS_link :: nat where "SYS_link = 19"
definition SYS_mkdir :: nat where "SYS_mkdir = 20"
definition SYS_close :: nat where "SYS_close = 21"
definition SYS_trace :: nat where "SYS_trace = 22"
definition SYS_setprio :: nat where "SYS_setprio = 23"
definition SYS_getprio :: nat where "SYS_getprio = 24"
definition SYS_mmap :: nat where "SYS_mmap = 25"
definition SYS_munmap :: nat where "SYS_munmap = 26"
definition SYS_mprotect :: nat where "SYS_mprotect = 27"
definition SYS_numvp :: nat where "SYS_numvp = 28"
definition SYS_numpp :: nat where "SYS_numpp = 29"
definition SYS_getptsize :: nat where "SYS_getptsize = 30"
definition SYS_pageref :: nat where "SYS_pageref = 31"

section \<open>Arguments\<close>

definition fetchint :: "'z kern_scheme \<Rightarrow> nat \<Rightarrow> u32 \<Rightarrow> (u32 option \<times> 'z kern_scheme) res" where
  "fetchint s cur addr =
     (if addr \<ge> psz (procs s ! cur) \<or> addr + 4 > psz (procs s ! cur) then Ret (None, s)
      else rbind (kuloads 4 s cur addr) (\<lambda>(bs, s). Ret (Some (word_rcat (rev bs)), s)))"

text \<open>
  \<^verbatim>\<open>fetchstr\<close> leaves the string where it is; the result is its length, or -1. The loop runs over
  the addresses from \<open>addr\<close> to \<^verbatim>\<open>ep\<close>.
\<close>

fun strscan :: "nat \<Rightarrow> 'z kern_scheme \<Rightarrow> nat \<Rightarrow> u32 \<Rightarrow> u32 \<Rightarrow> (int \<times> 'z kern_scheme) res" where
  "strscan 0 s cur addr p = Ret (-1, s)"
| "strscan (Suc n) s cur addr p =
     rbind (kuload s cur p) (\<lambda>(b, s).
       if b = 0 then Ret (uint (p - addr), s) else strscan n s cur addr (p + 1))"

definition fetchstr :: "'z kern_scheme \<Rightarrow> nat \<Rightarrow> u32 \<Rightarrow> (int \<times> 'z kern_scheme) res" where
  "fetchstr s cur addr =
     (if addr \<ge> psz (procs s ! cur) then Ret (-1, s)
      else strscan (unat (psz (procs s ! cur) - addr)) s cur addr addr)"

definition argint :: "'z kern_scheme \<Rightarrow> nat \<Rightarrow> nat \<Rightarrow> (u32 option \<times> 'z kern_scheme) res" where
  "argint s cur n = fetchint s cur (tf_esp (tf (procs s ! cur)) + 4 + 4 * of_nat n)"

definition argptr :: "'z kern_scheme \<Rightarrow> nat \<Rightarrow> nat \<Rightarrow> int \<Rightarrow> (u32 option \<times> 'z kern_scheme) res" where
  "argptr s cur n len =
     rbind (argint s cur n) (\<lambda>(i, s). case i of None \<Rightarrow> Ret (None, s)
     | Some i \<Rightarrow>
         if len < 0 \<or> i \<ge> psz (procs s ! cur) \<or> i + word_of_int len > psz (procs s ! cur) then Ret (None, s)
         else Ret (Some i, s))"

definition argstr :: "'z kern_scheme \<Rightarrow> nat \<Rightarrow> nat \<Rightarrow> ((u32 \<times> int) option \<times> 'z kern_scheme) res" where
  "argstr s cur n =
     rbind (argint s cur n) (\<lambda>(a, s). case a of None \<Rightarrow> Ret (None, s)
     | Some a \<Rightarrow> rbind (fetchstr s cur a) (\<lambda>(l, s).
         Ret (if l < 0 then None else Some (a, l), s)))"

section \<open>Dispatch\<close>

text \<open>
  A handler returns a value, puts the process to sleep, or ends it. A sleeping process continues
  inside the handler when it is woken; its result is stored by \<open>syscall_return\<close>.
\<close>

datatype outcome = Value int | Sleeps | Exits

type_synonym 'z handler = "'z kern_scheme \<Rightarrow> nat \<Rightarrow> (outcome \<times> 'z kern_scheme) res"

definition syscall_names :: "(nat \<times> string) list" where
  "syscall_names =
     [(SYS_fork, ''fork''),
      (SYS_exit, ''exit''),
      (SYS_wait, ''wait''),
      (SYS_pipe, ''pipe''),
      (SYS_read, ''read''),
      (SYS_kill, ''kill''),
      (SYS_exec, ''exec''),
      (SYS_fstat, ''fstat''),
      (SYS_chdir, ''chdir''),
      (SYS_dup, ''dup''),
      (SYS_getpid, ''getpid''),
      (SYS_sbrk, ''sbrk''),
      (SYS_sleep, ''sleep''),
      (SYS_uptime, ''uptime''),
      (SYS_open, ''open''),
      (SYS_write, ''write''),
      (SYS_mknod, ''mknod''),
      (SYS_unlink, ''unlink''),
      (SYS_link, ''link''),
      (SYS_mkdir, ''mkdir''),
      (SYS_close, ''close''),
      (SYS_trace, ''trace''),
      (SYS_setprio, ''setprio''),
      (SYS_getprio, ''getprio''),
      (SYS_mmap, ''mmap''),
      (SYS_munmap, ''munmap''),
      (SYS_mprotect, ''mprotect''),
      (SYS_numvp, ''numvp''),
      (SYS_numpp, ''numpp''),
      (SYS_getptsize, ''getptsize''),
      (SYS_pageref, ''pageref'')]"

text \<open>A line that the tracing prints: pid, name of the call, result.\<close>

type_synonym trace_line = "int \<times> string \<times> u32"

definition set_eax :: "nat \<Rightarrow> int \<Rightarrow> 'z kern_scheme \<Rightarrow> 'z kern_scheme" where
  "set_eax cur r s = setproc cur (\<lambda>p. p\<lparr>tf := (tf p)\<lparr>tf_eax := word_of_int r\<rparr>\<rparr>) s"

definition syscall_return :: "nat \<Rightarrow> nat \<Rightarrow> int \<Rightarrow> 'z kern_scheme \<Rightarrow> trace_line list \<times> 'z kern_scheme" where
  "syscall_return num cur r s =
     (let s = set_eax cur r s; p = procs s ! cur
      in (if trace_enabled p then [(pid p, the (map_of syscall_names num), tf_eax (tf p))] else [], s))"

definition syscall :: "(nat \<Rightarrow> 'z handler option) \<Rightarrow> 'z kern_scheme \<Rightarrow> nat \<Rightarrow>
    ((outcome \<times> trace_line list) \<times> 'z kern_scheme) res" where
  "syscall syscalls s cur =
     (let num = sint (tf_eax (tf (procs s ! cur)))
      in if num > 0 \<and> num < 32 \<and> syscalls (nat num) \<noteq> None then
           rbind (the (syscalls (nat num)) s cur) (\<lambda>(r, s). case r of
             Value v \<Rightarrow> (let (out, s) = syscall_return (nat num) cur v s in Ret ((Value v, out), s))
           | _ \<Rightarrow> Ret ((r, []), s))
         else Ret ((Value (-1), []), set_eax cur (-1) s))"

end
