(* ===== verification/Sysproc.thy ===== *)
theory Sysproc
  imports Syscall
begin

text \<open>
  The system calls of \<^verbatim>\<open>sysproc.c\<close>. A handler takes the state and the current process.
\<close>

section \<open>Processes and time\<close>

definition fails :: "'z kern_scheme \<Rightarrow> (outcome \<times> 'z kern_scheme) res" where
  "fails s = Ret (Value (-1), s)"

definition with_int :: "nat \<Rightarrow> (int \<Rightarrow> 'z handler) \<Rightarrow> 'z handler" where
  "with_int n f s cur = rbind (argint s cur n) (\<lambda>(x, s). case x of None \<Rightarrow> fails s | Some w \<Rightarrow> f (sint w) s cur)"

definition sys_fork :: "'z handler" where
  "sys_fork s cur = rbind (fork s cur) (\<lambda>(r, s). Ret (Value r, s))"

definition sys_exit :: "(nat \<Rightarrow> 'z kern_scheme \<Rightarrow> 'z kern_scheme res) \<Rightarrow> 'z handler" where
  "sys_exit iput s cur = rbind (proc_exit iput s cur) (\<lambda>s. Ret (Exits, s))"

definition sys_wait :: "'z handler" where
  "sys_wait s cur = rbind (proc_wait s cur) (\<lambda>(r, s). Ret (case r of None \<Rightarrow> Sleeps | Some n \<Rightarrow> Value n, s))"

definition sys_kill :: "'z handler" where
  "sys_kill = with_int 0 (\<lambda>n s cur. let (r, s) = proc_kill s n in Ret (Value r, s))"

definition sys_getpid :: "'z handler" where
  "sys_getpid s cur = Ret (Value (pid (procs s ! cur)), s)"

text \<open>Handlers with arguments come in two parts: fetching the arguments, and the work.\<close>

definition do_sbrk :: "int \<Rightarrow> 'z handler" where
  "do_sbrk n s cur =
     (let addr = psz (procs s ! cur)
      in rbind (growproc s cur n) (\<lambda>(r, s). if r < 0 then fails s else Ret (Value (sint addr), s)))"

definition sys_sbrk :: "'z handler" where
  "sys_sbrk = with_int 0 do_sbrk"

text \<open>
  \<^verbatim>\<open>sys_sleep\<close>: one pass of its loop, from the entry and again after each wake-up. The comparison
  is between unsigned numbers: a negative argument is a very large one.
\<close>

definition sleep_pass :: "u32 \<Rightarrow> u32 \<Rightarrow> 'z handler" where
  "sleep_pass ticks0 n s cur =
     (if ticks s - ticks0 < n then
        if killed (procs s ! cur) then fails s
        else Ret (Sleeps, sleep_on cur TicksChan s)
      else Ret (Value 0, s))"

definition sys_sleep :: "'z handler" where
  "sys_sleep = with_int 0 (\<lambda>n s. sleep_pass (ticks s) (word_of_int n) s)"

definition sys_uptime :: "'z handler" where
  "sys_uptime s cur = Ret (Value (sint (ticks s)), s)"

definition sys_trace :: "'z handler" where
  "sys_trace = with_int 0 (\<lambda>enabled s cur. Ret (Value 0, setproc cur (\<lambda>p. p\<lparr>trace_enabled := enabled \<noteq> 0\<rparr>) s))"

definition sys_setprio :: "'z handler" where
  "sys_setprio = with_int 0 (\<lambda>n s cur. let (r, s) = setprio s cur n in Ret (Value r, s))"

definition sys_getprio :: "'z handler" where
  "sys_getprio s cur = Ret (Value (getprio s cur), s)"

section \<open>Memory\<close>

definition do_mmap :: "int \<Rightarrow> 'z handler" where
  "do_mmap n s cur =
     (if n \<le> 0 then fails s
      else
        let p = procs s ! cur;
            len = PGROUNDUP (word_of_int n)
        in if len = 0 \<or> len \<ge> KERNBASE then fails s
           else
             let start = PGROUNDUP (psz p)
             in if start \<ge> KERNBASE \<or> len > KERNBASE - start then fails s
                else
                  (case first_from (\<lambda>v. \<not> vused v) (vmas p) 0 of
                     None \<Rightarrow> fails s
                   | Some i \<Rightarrow>
                       Ret (Value (sint start), setproc cur (\<lambda>p. p\<lparr>vmas := (vmas p)[i :=
                         \<lparr>vstart = start, vlength = len, vprot = PROT_READ OR PROT_WRITE, vused = True\<rparr>],
                         psz := start + len\<rparr>) s)))"

definition sys_mmap :: "'z handler" where
  "sys_mmap = with_int 0 do_mmap"

text \<open>The arguments that \<^verbatim>\<open>munmap\<close> and \<^verbatim>\<open>mprotect\<close> check in the same way: the area they name.\<close>

definition named_area :: "'z kern_scheme \<Rightarrow> nat \<Rightarrow> u32 \<Rightarrow> int \<Rightarrow> nat option" where
  "named_area s cur addr n =
     (if n \<le> 0 then None
      else if addr mod PGSIZE \<noteq> 0 then None
      else
        let len = PGROUNDUP (word_of_int n)
        in if len = 0 then None else vma_find_exact (vmas (procs s ! cur)) addr len)"

definition do_munmap :: "u32 \<Rightarrow> int \<Rightarrow> 'z handler" where
  "do_munmap addr n s cur =
     (case named_area s cur addr n of
        None \<Rightarrow> fails s
      | Some i \<Rightarrow>
          let p = procs s ! cur; v = vmas p ! i
          in rbind (vm_unmap_range s (pgdir p) (vstart v) (vlength v)) (\<lambda>(r, s).
            if r < 0 then fails s
            else Ret (Value 0, setproc cur (\<lambda>p. p\<lparr>vmas := (vmas p)[i := vma_zero]\<rparr>) s)))"

definition sys_munmap :: "'z handler" where
  "sys_munmap = with_int 0 (\<lambda>addr_arg. with_int 1 (\<lambda>n. do_munmap (word_of_int addr_arg) n))"

definition set_prot :: "nat \<Rightarrow> nat \<Rightarrow> u32 \<Rightarrow> 'z kern_scheme \<Rightarrow> 'z kern_scheme" where
  "set_prot cur i prot s = setproc cur (\<lambda>p. p\<lparr>vmas := (vmas p)[i := (vmas p ! i)\<lparr>vprot := prot\<rparr>]\<rparr>) s"

definition do_mprotect :: "u32 \<Rightarrow> int \<Rightarrow> int \<Rightarrow> 'z handler" where
  "do_mprotect addr n prot s cur =
     (if n \<le> 0 then fails s
      else if prot \<noteq> uint PROT_READ \<and> prot \<noteq> uint (PROT_READ OR PROT_WRITE) then fails s
      else
        (case named_area s cur addr n of
           None \<Rightarrow> fails s
         | Some i \<Rightarrow>
             let p = procs s ! cur; v = vmas p ! i; oldprot = vprot v;
                 s = set_prot cur i (word_of_int prot) s
             in rbind (vm_protect_range s (pgdir p) (vstart v) (vlength v) (word_of_int prot)) (\<lambda>(r, s).
               if r < 0 then fails (set_prot cur i oldprot s) else Ret (Value 0, s))))"

definition sys_mprotect :: "'z handler" where
  "sys_mprotect = with_int 0 (\<lambda>addr_arg. with_int 1 (\<lambda>n. with_int 2 (\<lambda>prot. do_mprotect (word_of_int addr_arg) n prot)))"

definition sys_numvp :: "'z handler" where
  "sys_numvp s cur = rbind (vm_numvp s (Some (procs s ! cur))) (\<lambda>n. Ret (Value n, s))"

definition sys_numpp :: "'z handler" where
  "sys_numpp s cur = rbind (vm_numpp s (Some (procs s ! cur))) (\<lambda>n. Ret (Value n, s))"

definition sys_getptsize :: "'z handler" where
  "sys_getptsize s cur = Ret (Value (vm_getptsize s (Some (procs s ! cur))), s)"

definition sys_pageref :: "'z handler" where
  "sys_pageref = with_int 0 (\<lambda>addr s cur.
     if word_of_int addr \<ge> KERNBASE then fails s
     else rbind (vm_pageref s (pgdir (procs s ! cur)) (word_of_int addr)) (\<lambda>n. Ret (Value n, s)))"

section \<open>The table\<close>

text \<open>
  The entries of \<^verbatim>\<open>syscalls\<close> that this theory provides; \<open>files\<close> gives those of \<^verbatim>\<open>sysfile.c\<close>.
\<close>

definition syscalls :: "(nat \<Rightarrow> 'z handler option) \<Rightarrow> (nat \<Rightarrow> 'z kern_scheme \<Rightarrow> 'z kern_scheme res) \<Rightarrow> nat \<Rightarrow> 'z handler option" where
  "syscalls files iput = files(
     SYS_fork \<mapsto> sys_fork, SYS_exit \<mapsto> sys_exit iput, SYS_wait \<mapsto> sys_wait, SYS_kill \<mapsto> sys_kill,
     SYS_getpid \<mapsto> sys_getpid, SYS_sbrk \<mapsto> sys_sbrk, SYS_sleep \<mapsto> sys_sleep, SYS_uptime \<mapsto> sys_uptime,
     SYS_trace \<mapsto> sys_trace, SYS_setprio \<mapsto> sys_setprio, SYS_getprio \<mapsto> sys_getprio, SYS_mmap \<mapsto> sys_mmap,
     SYS_munmap \<mapsto> sys_munmap, SYS_mprotect \<mapsto> sys_mprotect, SYS_numvp \<mapsto> sys_numvp, SYS_numpp \<mapsto> sys_numpp,
     SYS_getptsize \<mapsto> sys_getptsize, SYS_pageref \<mapsto> sys_pageref)"

end
