(* ===== verification/Trap.thy ===== *)
theory Trap
  imports Sysproc
begin

text \<open>
  The dispatcher \<^verbatim>\<open>trap\<close> of \<^verbatim>\<open>trap.c\<close>. The interrupt handlers of the disk, the keyboard and the
  serial line are arguments; acknowledging an interrupt does not change the state. A trap returns
  to the interrupted code, ends the process, suspends it until the scheduler chooses it again
  (after which \<open>trap_resume\<close> runs), or leaves it asleep inside a system call.
\<close>

section \<open>Trap numbers\<close>

definition T_PGFLT :: u32 where "T_PGFLT = 14"
definition T_SYSCALL :: u32 where "T_SYSCALL = 64"
definition T_IRQ0 :: u32 where "T_IRQ0 = 32"
definition IRQ_TIMER :: u32 where "IRQ_TIMER = 0"
definition IRQ_KBD :: u32 where "IRQ_KBD = 1"
definition IRQ_COM1 :: u32 where "IRQ_COM1 = 4"
definition IRQ_IDE :: u32 where "IRQ_IDE = 14"
definition IRQ_SPURIOUS :: u32 where "IRQ_SPURIOUS = 31"
definition DPL_USER :: u32 where "DPL_USER = 3"

section \<open>The dispatcher\<close>

datatype trap_end = Resumes | Yields | Asleep_in_call | Ended

definition on_curproc :: "nat option \<Rightarrow> 'z kern_scheme \<Rightarrow> (proc \<Rightarrow> bool) \<Rightarrow> bool" where
  "on_curproc cur s P = (case cur of None \<Rightarrow> False | Some c \<Rightarrow> P (procs s ! c))"

text \<open>The last lines of \<^verbatim>\<open>trap\<close>, run when the process comes back from \<^verbatim>\<open>yield\<close>.\<close>

definition trap_resume :: "(nat \<Rightarrow> 'z kern_scheme \<Rightarrow> 'z kern_scheme res) \<Rightarrow> nat option \<Rightarrow> u32 \<Rightarrow> 'z kern_scheme \<Rightarrow>
    (trap_end \<times> 'z kern_scheme) res" where
  "trap_resume iput cur cs s =
     (if on_curproc cur s killed \<and> cs AND 3 = DPL_USER
      then rbind (proc_exit iput s (the cur)) (\<lambda>s. Ret (Ended, s))
      else Ret (Resumes, s))"

definition trap_tail :: "(nat \<Rightarrow> 'z kern_scheme \<Rightarrow> 'z kern_scheme res) \<Rightarrow> nat option \<Rightarrow> trapframe \<Rightarrow> 'z kern_scheme \<Rightarrow>
    (trap_end \<times> 'z kern_scheme) res" where
  "trap_tail iput cur f s =
     (if on_curproc cur s killed \<and> tf_cs f AND 3 = DPL_USER
      then rbind (proc_exit iput s (the cur)) (\<lambda>s. Ret (Ended, s))
      else if on_curproc cur s (\<lambda>p. state p = RUNNING) \<and> tf_trapno f = T_IRQ0 + IRQ_TIMER
      then Ret (Yields, yield s (the cur))
      else trap_resume iput cur (tf_cs f) s)"

definition clock_tick :: "nat \<Rightarrow> 'z kern_scheme \<Rightarrow> 'z kern_scheme" where
  "clock_tick cpu s = (if cpu = 0 then wakeup TicksChan (s\<lparr>ticks := ticks s + 1\<rparr>) else s)"

definition trap_unexpected :: "nat option \<Rightarrow> u32 \<Rightarrow> 'z kern_scheme \<Rightarrow> 'z kern_scheme res" where
  "trap_unexpected cur cs s =
     (case cur of None \<Rightarrow> Panic ''trap''
      | Some c \<Rightarrow> if in_kernel cs then Panic ''trap'' else Ret (set_killed c s))"

record 'z devices =
  ideintr :: "'z kern_scheme \<Rightarrow> 'z kern_scheme res"
  kbdintr :: "'z kern_scheme \<Rightarrow> 'z kern_scheme res"
  uartintr :: "'z kern_scheme \<Rightarrow> 'z kern_scheme res"

definition trap_switch :: "'z devices \<Rightarrow> nat \<Rightarrow> nat option \<Rightarrow> trapframe \<Rightarrow> u32 \<Rightarrow> 'z kern_scheme \<Rightarrow> 'z kern_scheme res" where
  "trap_switch dev cpu cur f cr2 s =
     (let n = tf_trapno f
      in if n = T_IRQ0 + IRQ_TIMER then Ret (clock_tick cpu s)
         else if n = T_PGFLT then pgfault s cur (tf_err f) (tf_cs f) cr2
         else if n = T_IRQ0 + IRQ_IDE then ideintr dev s
         else if n = T_IRQ0 + IRQ_IDE + 1 then Ret s
         else if n = T_IRQ0 + IRQ_KBD then kbdintr dev s
         else if n = T_IRQ0 + IRQ_COM1 then uartintr dev s
         else if n = T_IRQ0 + 7 \<or> n = T_IRQ0 + IRQ_SPURIOUS then Ret s
         else trap_unexpected cur (tf_cs f) s)"

definition trap_syscall :: "(nat \<Rightarrow> 'z handler option) \<Rightarrow> (nat \<Rightarrow> 'z kern_scheme \<Rightarrow> 'z kern_scheme res) \<Rightarrow> nat option \<Rightarrow>
    trapframe \<Rightarrow> 'z kern_scheme \<Rightarrow> ((trap_end \<times> trace_line list) \<times> 'z kern_scheme) res" where
  "trap_syscall calls iput cur f s =
     (case cur of None \<Rightarrow> Fault
      | Some c \<Rightarrow>
          if killed (procs s ! c) then rbind (proc_exit iput s c) (\<lambda>s. Ret ((Ended, []), s))
          else rbind (syscall calls (setproc c (\<lambda>p. p\<lparr>tf := f\<rparr>) s) c) (\<lambda>((r, out), s).
            case r of
              Sleeps \<Rightarrow> Ret ((Asleep_in_call, out), s)
            | Exits \<Rightarrow> Ret ((Ended, out), s)
            | Value v \<Rightarrow>
                if killed (procs s ! c) then rbind (proc_exit iput s c) (\<lambda>s. Ret ((Ended, out), s))
                else Ret ((Resumes, out), s)))"

definition trap :: "(nat \<Rightarrow> 'z handler option) \<Rightarrow> (nat \<Rightarrow> 'z kern_scheme \<Rightarrow> 'z kern_scheme res) \<Rightarrow> 'z devices \<Rightarrow> nat \<Rightarrow>
    nat option \<Rightarrow> trapframe \<Rightarrow> u32 \<Rightarrow> 'z kern_scheme \<Rightarrow> ((trap_end \<times> trace_line list) \<times> 'z kern_scheme) res" where
  "trap calls iput dev cpu cur f cr2 s =
     (if tf_trapno f = T_SYSCALL then trap_syscall calls iput cur f s
      else rbind (trap_switch dev cpu cur f cr2 s) (\<lambda>s.
        rbind (trap_tail iput cur f s) (\<lambda>(e, s). Ret ((e, []), s))))"

end
