(* ===== verification/Sysproc_Spec.thy ===== *)
theory Sysproc_Spec
  imports Trap
begin

text \<open>
  What the system calls of \<^verbatim>\<open>sysproc.c\<close> keep: the invariant of processes and memory, the
  well-formedness of the memory areas, and the memory of every other process.
\<close>

section \<open>Memory areas\<close>

definition area_ok :: "vma \<Rightarrow> bool" where
  "area_ok v \<longleftrightarrow> (vused v \<longrightarrow> aligned (vstart v) \<and> aligned (vlength v) \<and> 0 < vlength v \<and>
     unat (vstart v) + unat (vlength v) \<le> unat KERNBASE)"

definition areas_ok :: "'z kern_scheme \<Rightarrow> bool" where
  "areas_ok s \<longleftrightarrow> (\<forall>i < NPROC. used (procs s ! i) \<longrightarrow> (\<forall>v \<in> set (vmas (procs s ! i)). area_ok v))"

definition kern_inv :: "'z kern_scheme \<Rightarrow> bool" where
  "kern_inv s \<longleftrightarrow> sys_inv s \<and> areas_ok s"

lemma kern_invD: "kern_inv s \<Longrightarrow> sys_inv s" "kern_inv s \<Longrightarrow> areas_ok s"
  by (simp_all add: kern_inv_def)

lemma areas_cong:
  assumes "areas_ok s" "\<And>i. i < NPROC \<Longrightarrow> used (procs s' ! i) \<Longrightarrow> used (procs s ! i) \<and> vmas (procs s' ! i) = vmas (procs s ! i)"
  shows "areas_ok s'"
  using assms by (simp add: areas_ok_def)

lemma area_zero [simp]: "area_ok vma_zero" by (simp add: area_ok_def vma_zero_def)

section \<open>Isolation\<close>

text \<open>The step of process \<open>c\<close> leaves the memory of every process that lives before and after it alone.\<close>

definition isolated :: "nat \<Rightarrow> 'z kern_scheme \<Rightarrow> 'z kern_scheme \<Rightarrow> bool" where
  "isolated c s s' \<longleftrightarrow> (\<forall>i < NPROC. i \<noteq> c \<longrightarrow> used (procs s ! i) \<longrightarrow> used (procs s' ! i) \<longrightarrow>
     pgdir (procs s' ! i) = pgdir (procs s ! i) \<and>
     (\<forall>va. user_load (phys s') (pgdir (procs s ! i)) va = user_load (phys s) (pgdir (procs s ! i)) va))"

text \<open>A step that moves memory only: the tables stay, and other directories read as before.\<close>

definition moved :: "nat \<Rightarrow> 'z kern_scheme \<Rightarrow> 'z kern_scheme \<Rightarrow> bool" where
  "moved c s s' \<longleftrightarrow> procs s' = procs s \<and> dirs s' = dirs s \<and>
     (\<forall>d \<in> dirs s. d \<noteq> pgdir (procs s ! c) \<longrightarrow> (\<forall>va. user_load (phys s') d va = user_load (phys s) d va))"

lemma moved_refl [simp]: "moved c s s" by (simp add: moved_def)

lemma moved_trans: "moved c s t \<Longrightarrow> moved c t u \<Longrightarrow> moved c s u"
  by (simp add: moved_def)

lemma dir_other:
  assumes "sys_inv s" "i < NPROC" "c < NPROC" "i \<noteq> c" "used (procs s ! i)" "used (procs s ! c)"
  shows "pgdir (procs s ! i) \<noteq> pgdir (procs s ! c)" "pgdir (procs s ! i) \<in> dirs s"
  using assms proc_invD(8) [of s i c] used_dir [of s i] by (auto simp: sys_inv_def)

lemma moved_isolated:
  assumes "sys_inv s" "running s c" "moved c s t" "isolated c t s'"
  shows "isolated c s s'"
  unfolding isolated_def
proof (intro allI impI)
  fix i assume i: "i < NPROC" "i \<noteq> c" "used (procs s ! i)" "used (procs s' ! i)"
  have "used (procs s ! c)" "c < NPROC" using assms(2) by (auto simp: running_def used_def)
  note d = dir_other [OF assms(1) i(1) this(2) i(2,3) this(1)]
  have t: "procs t = procs s" using assms(3) by (simp add: moved_def)
  have "pgdir (procs s' ! i) = pgdir (procs t ! i) \<and> (\<forall>va. user_load (phys s') (pgdir (procs t ! i)) va = user_load (phys t) (pgdir (procs t ! i)) va)"
    using assms(4) i by (simp add: isolated_def t)
  moreover have "\<forall>va. user_load (phys t) (pgdir (procs s ! i)) va = user_load (phys s) (pgdir (procs s ! i)) va"
    using assms(3) d by (simp add: moved_def)
  ultimately show "pgdir (procs s' ! i) = pgdir (procs s ! i) \<and>
     (\<forall>va. user_load (phys s') (pgdir (procs s ! i)) va = user_load (phys s) (pgdir (procs s ! i)) va)"
    by (simp add: t)
qed

lemma isolated_refl: "isolated c s s" by (simp add: isolated_def)

lemma isolated_moved: "sys_inv s \<Longrightarrow> running s c \<Longrightarrow> moved c s t \<Longrightarrow> isolated c s t"
  using moved_isolated [OF _ _ _ isolated_refl] by blast

lemma isolated_setproc:
  assumes "isolated c s t" "c < length (procs t)"
  shows "isolated c s (setproc c g t)"
  using assms by (simp add: isolated_def)

text \<open>Everyone's memory reads as before: a step on the tables.\<close>

lemma isolated_same:
  assumes "phys s' = phys s" "\<And>i. i < NPROC \<Longrightarrow> i \<noteq> c \<Longrightarrow> used (procs s' ! i) \<Longrightarrow> used (procs s ! i) \<Longrightarrow> pgdir (procs s' ! i) = pgdir (procs s ! i)"
  shows "isolated c s s'"
  using assms by (simp add: isolated_def)

lemma moved_paged:
  assumes "paged_in (phys s) (phys s') (pgdir (procs s ! c)) va (dirs s)" "procs s' = procs s" "dirs s' = dirs s"
  shows "moved c s s'"
  using assms unfolding moved_def paged_in_def by blast

section \<open>Fetching\<close>

lemma kuload_moved:
  assumes inv: "sys_inv s" and c: "running s c" and va: "va < KERNBASE" and r: "kuload s c va = Ret (b, s')"
  shows "sys_inv s' \<and> moved c s s'"
proof (cases "present (phys s) (pgdir (procs s ! c)) va")
  case True
  then show ?thesis using r inv by (simp add: kuload_def Let_def)
next
  case False
  let ?d = "pgdir (procs s ! c)"
  obtain s1 where s1: "pgfault s (Some c) (fault_code (phys s) ?d va False False) KERNEL_CS va = Ret s1" "present (phys s1) ?d va" "s' = s1"
    using r False by (auto simp: kuload_def Let_def res_simps split: if_splits)
  show ?thesis
  proof (cases "area s c va")
    case None
    then show ?thesis using s1(1) False in_kernel by (simp add: pgfault_simp)
  next
    case (Some a)
    show ?thesis
    proof (rule pgfault_demand [OF inv c va False Some, of False False KERNEL_CS])
      fix t assume t: "pgfault s (Some c) (fault_code (phys s) ?d va False False) KERNEL_CS va = Ret t" "sys_inv t" "procs t = procs s"
        "vm_frame s (dirs s) t (dirs s) {(?d, PGROUNDDOWN va)} {}" "present (phys t) ?d va" "flag (lookup (phys t) ?d va) PTE_U"
        "zero_page (phys t) ?d (PGROUNDDOWN va)" "dirs t = dirs s"
      then show ?thesis using s1 moved_paged [OF paged_in_demand [OF t(4) False t(5-7)] t(3,8)] by simp
    next
      fix t assume t: "pgfault s (Some c) (fault_code (phys s) ?d va False False) KERNEL_CS va = Ret (set_killed c t)"
        "vm_frame s (dirs s) t (dirs s) {} {}"
      have "lookup (phys t) ?d va = lookup (phys s) ?d va" using vm_frameD(5) [OF t(2)] sys_dir [OF inv c] by blast
      then show ?thesis using s1 t(1) False by (auto simp: present_def)
    qed simp
  qed
qed

lemma kuloads_moved:
  assumes "sys_inv s" "running s c" "unat va + n \<le> unat KERNBASE" "kuloads n s c va = Ret (bs, s')"
  shows "sys_inv s' \<and> moved c s s'"
  using assms
proof (induction n arbitrary: s va bs)
  case (Suc n)
  have va: "va < KERNBASE" using Suc.prems(3) by (simp add: word_less_nat_alt)
  obtain b s1 bs1 where s1: "kuload s c va = Ret (b, s1)" "kuloads n s1 c (va + 1) = Ret (bs1, s')"
    using Suc.prems(4) by (auto simp: res_simps)
  note m = kuload_moved [OF Suc.prems(1,2) va s1(1)]
  have "running s1 c" using Suc.prems(2) m by (simp add: running_def moved_def)
  moreover have "unat (va + 1) + n \<le> unat KERNBASE"
    using Suc.prems(3) unat_add_no_wrap [of va 1] by (simp add: KERNBASE_def)
  ultimately show ?case using Suc.IH [OF _ _ _ s1(2)] m moved_trans by blast
qed simp

lemma sys_psz: "sys_inv s \<Longrightarrow> running s c \<Longrightarrow> psz (procs s ! c) \<le> KERNBASE"
  using proc_invD(7) [of s c] by (auto simp: sys_inv_def running_def proc_ok_def used_def)

lemma fetchint_moved:
  assumes inv: "sys_inv s" and c: "running s c" and r: "fetchint s c addr = Ret (x, s')"
  shows "sys_inv s' \<and> moved c s s'"
proof (cases "addr \<ge> psz (procs s ! c) \<or> addr + 4 > psz (procs s ! c)")
  case True
  then show ?thesis using r inv by (auto simp: fetchint_def)
next
  case False
  then have l: "unat addr < unat (psz (procs s ! c))" "unat (addr + 4) \<le> unat (psz (procs s ! c))"
    by (simp_all add: word_less_nat_alt word_le_nat_alt not_le not_less)
  moreover have "unat (psz (procs s ! c)) \<le> unat KERNBASE" using sys_psz [OF inv c] by (simp add: word_le_nat_alt)
  moreover have "unat (addr + 4) = unat addr + 4"
    using l(1) calculation(3) unat_add_no_wrap [of addr 4] by (simp add: KERNBASE_def)
  ultimately have "unat addr + 4 \<le> unat KERNBASE" by simp
  moreover obtain bs where "kuloads 4 s c addr = Ret (bs, s')" using r False by (auto simp: fetchint_def res_simps)
  ultimately show ?thesis using kuloads_moved [OF inv c] by blast
qed

lemma argint_moved: "sys_inv s \<Longrightarrow> running s c \<Longrightarrow> argint s c n = Ret (x, s') \<Longrightarrow> sys_inv s' \<and> moved c s s'"
  unfolding argint_def by (rule fetchint_moved)
section \<open>Handlers\<close>

named_theorems safe_calls \<open>handlers that keep the invariant and the memory of others\<close>

definition safe :: "'z handler \<Rightarrow> bool" where
  "safe h \<longleftrightarrow> (\<forall>s cur x s'. kern_inv s \<longrightarrow> running s cur \<longrightarrow> h s cur = Ret (x, s') \<longrightarrow> kern_inv s' \<and> isolated cur s s')"

lemma safeI: "(\<And>s cur x s'. kern_inv s \<Longrightarrow> running s cur \<Longrightarrow> h s cur = Ret (x, s') \<Longrightarrow> kern_inv s' \<and> isolated cur s s') \<Longrightarrow> safe h"
  and safeD: "safe h \<Longrightarrow> kern_inv s \<Longrightarrow> running s cur \<Longrightarrow> h s cur = Ret (x, s') \<Longrightarrow> kern_inv s' \<and> isolated cur s s'"
  by (auto simp: safe_def)

lemma moved_kern: "kern_inv s \<Longrightarrow> sys_inv s' \<Longrightarrow> moved c s s' \<Longrightarrow> kern_inv s'"
  by (auto simp: kern_inv_def moved_def areas_ok_def)

lemma fails_Ret [simp]: "fails s = Ret (x, s') \<longleftrightarrow> x = Value (-1) \<and> s' = s"
  by (auto simp: fails_def)

lemma safe_with_int [safe_calls]:
  assumes "\<And>n. safe (f n)"
  shows "safe (with_int k f)"
proof (rule safeI)
  fix s cur x s' assume a: "kern_inv s" "running s cur" "with_int k f s cur = Ret (x, s')"
  obtain y t where y: "argint s cur k = Ret (y, t)" "(case y of None \<Rightarrow> fails t | Some w \<Rightarrow> f (sint w) t cur) = Ret (x, s')"
    using a(3) by (auto simp: with_int_def res_simps)
  have m: "sys_inv t \<and> moved cur s t" by (rule argint_moved [OF kern_invD(1) [OF a(1)] a(2) y(1)])
  then have t: "kern_inv t" "running t cur" using moved_kern [OF a(1)] a(2) by (auto simp: moved_def running_def)
  have "kern_inv s' \<and> isolated cur t s'"
    using y(2) t safeD [OF assms t] isolated_refl by (cases y) auto
  then show "kern_inv s' \<and> isolated cur s s'"
    using moved_isolated [OF kern_invD(1) [OF a(1)] a(2)] m by blast
qed

text \<open>A handler that changes one field of the caller, or nothing.\<close>

lemma safe_const: "(\<And>s cur x s'. h s cur = Ret (x, s') \<Longrightarrow> s' = s) \<Longrightarrow> safe h"
  by (rule safeI) (use isolated_refl in blast)

lemma kern_setproc:
  assumes inv: "kern_inv s" and k: "key (g (procs s ! c)) = key (procs s ! c)" "proc_ok s (procs s ! c) \<Longrightarrow> proc_ok s (g (procs s ! c))"
    and q: "quiet (procs s ! c) (g (procs s ! c))" and c: "running s c"
    and v: "\<And>v. v \<in> set (vmas (g (procs s ! c))) \<Longrightarrow> v \<in> set (vmas (procs s ! c)) \<or> area_ok v"
  shows "kern_inv (setproc c g s) \<and> isolated c s (setproc c g s)"
proof -
  have i: "sys_inv s" "areas_ok s" using inv by (auto simp: kern_inv_def)
  note l = sys_slot [OF i(1) c]
  have "sys_inv (setproc c g s)" by (rule setproc_quiet [OF i(1)]) (use k q in blast)+
  moreover have "area_ok w" if w: "i < NPROC" "used (procs (setproc c g s) ! i)" "w \<in> set (vmas (procs (setproc c g s) ! i))" for i w
  proof (cases "i = c")
    case True
    then have "used (procs s ! c)" using c by (simp add: running_def used_def)
    then show ?thesis using w v [of w] l i(2) True by (auto simp: areas_ok_def)
  next
    case False
    then show ?thesis using w i(2) by (auto simp: areas_ok_def)
  qed
  then have "areas_ok (setproc c g s)" by (auto simp: areas_ok_def)
  moreover have "isolated c s (setproc c g s)" by (rule isolated_setproc [OF isolated_refl l])
  ultimately show ?thesis by (simp add: kern_inv_def)
qed

lemma kern_moved: "kern_inv s \<Longrightarrow> running s c \<Longrightarrow> sys_inv s' \<Longrightarrow> moved c s s' \<Longrightarrow> kern_inv s' \<and> isolated c s s'"
  using moved_kern isolated_moved kern_invD(1) by blast

lemmas quiet_simps = key_def used_def proc_ok_def quiet_def active_def running_def

lemma safe_getpid [safe_calls]: "safe sys_getpid" and safe_uptime [safe_calls]: "safe sys_uptime"
  and safe_getprio [safe_calls]: "safe sys_getprio" and safe_numvp [safe_calls]: "safe sys_numvp"
  and safe_numpp [safe_calls]: "safe sys_numpp" and safe_getptsize [safe_calls]: "safe sys_getptsize"
  by (rule safe_const, auto simp: sys_getpid_def sys_uptime_def sys_getprio_def sys_numvp_def sys_numpp_def
      sys_getptsize_def res_simps)+

lemma safe_pageref [safe_calls]: "safe sys_pageref"
  unfolding sys_pageref_def
  by (rule safe_with_int, rule safe_const) (auto simp: res_simps split: if_splits)

lemma safe_trace [safe_calls]: "safe sys_trace"
  unfolding sys_trace_def
  by (rule safe_with_int, rule safeI) (auto intro!: kern_setproc [THEN conjunct1] kern_setproc [THEN conjunct2] simp: quiet_simps)

lemma safe_setprio [safe_calls]: "safe sys_setprio"
  unfolding sys_setprio_def
proof (rule safe_with_int, rule safeI)
  fix n x and s s' :: "'z kern_scheme" and cur assume a: "kern_inv s" "running s cur"
    "(let (r, s) = setprio s cur n in Ret (Value r, s)) = Ret (x, s')"
  show "kern_inv s' \<and> isolated cur s s'"
  proof (cases "n < 1 \<or> n > MAX_PRIORITY")
    case True
    then show ?thesis using a isolated_refl by (auto simp: setprio_def)
  next
    case False
    then have "s' = setproc cur (\<lambda>p. p\<lparr>priority := n\<rparr>) s" using a(3) by (auto simp: setprio_def)
    then show ?thesis using kern_setproc [OF a(1), of "\<lambda>p. p\<lparr>priority := n\<rparr>" cur] a(2) False by (auto simp: quiet_simps)
  qed
qed
lemma areas_from:
  assumes "areas_ok s" "\<And>i. i < NPROC \<Longrightarrow> used (procs s' ! i) \<Longrightarrow> \<exists>j < NPROC. used (procs s ! j) \<and> vmas (procs s' ! i) = vmas (procs s ! j)"
  shows "areas_ok s'"
  unfolding areas_ok_def using assms unfolding areas_ok_def by metis

lemma fork_safe:
  assumes inv: "kern_inv s" and c: "running s cur" and f: "fork s cur = Ret (r, s')"
  shows "kern_inv s' \<and> isolated cur s s'"
proof -
  have i: "sys_inv s" "areas_ok s" "proc_inv s" "files_inv s" using inv by (auto simp: kern_inv_def sys_inv_def)
  have k: "fork_kept s s'" "r = -1 \<and> fork_failed s s' \<or> r = nextpid s \<and> fork_made s cur s'"
    using fork_spec [OF i(3,4) running_active(2,1) [OF c]] f by auto
  have kp: "procs s' ! j = procs s ! j" if "j < NPROC" "used (procs s ! j)" for j by (rule fork_keeps [OF k(2) that])
  have ch: "used (procs s ! j) \<or> vmas (procs s' ! j) = vmas (procs s ! cur)" if j: "j < NPROC" "used (procs s' ! j)" for j
    using k(2)
  proof
    assume "r = -1 \<and> fork_failed s s'"
    then show ?thesis using j unfolding fork_failed_def by metis
  next
    assume "r = nextpid s \<and> fork_made s cur s'"
    then obtain np where "child_of (nextpid s) cur (procs s ! cur) (procs s' ! np)" "\<forall>i. i \<noteq> np \<longrightarrow> procs s' ! i = procs s ! i"
      unfolding fork_made_def Let_def by blast
    then show ?thesis using j by (cases "j = np") (auto simp: child_of_def)
  qed
  have "areas_ok s'"
  proof (rule areas_from [OF i(2)])
    fix j assume j: "j < NPROC" "used (procs s' ! j)"
    show "\<exists>l < NPROC. used (procs s ! l) \<and> vmas (procs s' ! j) = vmas (procs s ! l)"
      using ch [OF j] kp [OF j(1)] j(1) running_active(1,2) [OF c] c by (auto simp: running_def used_def)
  qed
  moreover have "isolated cur s s'"
    using kp k(1) used_dir [OF i(3)] by (auto simp: isolated_def fork_kept_def)
  ultimately show ?thesis using fork_inv [OF i(1) c f] by (simp add: kern_inv_def)
qed

lemma safe_fork [safe_calls]: "safe sys_fork"
  by (rule safeI) (auto simp: sys_fork_def res_simps dest: fork_safe)

lemma exit_safe:
  assumes inv: "kern_inv s" and put: "inode_put put" and c: "running s cur" and x: "proc_exit put s cur = Ret s'"
  shows "kern_inv s' \<and> isolated cur s s'"
proof -
  have i: "sys_inv s" "areas_ok s" "proc_inv s" using inv by (auto simp: kern_inv_def sys_inv_def)
  obtain ini where t: "tree_ok s ini" using i(1) by (auto simp: sys_inv_def)
  have e: "exited cur ini s s'" by (rule exit_facts(4) [OF i(1) put c x t])
  have re: "reparented cur (Some ini) (procs s ! j) (procs s' ! j)" if "j < NPROC" "j \<noteq> cur" for j
    using e that by (simp add: exited_def)
  have v: "vmas (procs s' ! j) = vmas (procs s ! j)" if "j < NPROC" for j
  proof (cases "j = cur")
    case True
    then show ?thesis using e by (auto simp: exited_def)
  next
    case False
    then show ?thesis using re [OF that] by (auto simp: reparented_def awake_def split: if_splits)
  qed
  have "areas_ok s'"
  proof (rule areas_cong [OF i(2)])
    fix j assume j: "j < NPROC" "used (procs s' ! j)"
    show "used (procs s ! j) \<and> vmas (procs s' ! j) = vmas (procs s ! j)"
      using v [OF j(1)] j reparented_D(6) [OF re] c by (cases "j = cur") (auto simp: running_def used_def)
  qed
  moreover have "isolated cur s s'"
    using e used_dir [OF i(3)] reparented_D(4) [OF re] by (auto simp: isolated_def exited_def)
  ultimately show ?thesis using exit_inv [OF i(1) put c x] by (simp add: kern_inv_def)
qed

lemma safe_exit: "inode_put put \<Longrightarrow> safe (sys_exit put)"
  by (rule safeI) (auto simp: sys_exit_def res_simps dest: exit_safe)

lemma wait_safe:
  assumes inv: "kern_inv s" and c: "running s cur" and w: "proc_wait s cur = Ret (r, s')"
  shows "kern_inv s' \<and> isolated cur s s'"
proof -
  have i: "sys_inv s" "areas_ok s" "proc_inv s" using inv by (auto simp: kern_inv_def sys_inv_def)
  note l = proc_invD(1) [OF i(3)] and cu = running_active [OF c]
  have "areas_ok s' \<and> isolated cur s s'"
  proof (cases "\<exists>j < NPROC. zombie_child s cur j")
    case False
    then have nz: "\<forall>j < NPROC. \<not> zombie_child s cur j" by blast
    have "s' = s \<or> s' = sleep_on cur (ProcChan cur) s" using proc_wait_spec(1) [OF i(3) cu(2) nz] w by (auto split: if_splits)
    then show ?thesis
    proof
      assume "s' = sleep_on cur (ProcChan cur) s"
      then have s': "s' = setproc cur (\<lambda>p. p\<lparr>chan := ProcChan cur, state := SLEEPING\<rparr>) s" by (simp add: sleep_on_def)
      have "areas_ok s'"
      proof (rule areas_cong [OF i(2)])
        fix j assume "j < NPROC" "used (procs s' ! j)"
        then show "used (procs s ! j) \<and> vmas (procs s' ! j) = vmas (procs s ! j)"
          using l c by (cases "j = cur") (auto simp: s' running_def used_def)
      qed
      moreover have "isolated cur s s'" unfolding s' by (rule isolated_setproc [OF isolated_refl]) (use l cu(2) in simp)
      ultimately show ?thesis by blast
    qed (use i(2) isolated_refl in blast)
  next
    case True
    then obtain j where j: "j < NPROC" "zombie_child s cur j" "\<forall>l < j. \<not> zombie_child s cur l" by (rule first_index)
    obtain s1 where s1: "proc_wait s cur = Ret (Some (pid (procs s ! j)), s1)" "procs s1 = (procs s)[j := reaped (procs s ! j)]"
        "\<forall>d \<in> dirs s - {pgdir (procs s ! j)}. \<forall>va. user_load (phys s1) d va = user_load (phys s) d va"
      using proc_wait_spec(2) [OF i(3) cu(2) j] by blast
    have e: "s' = s1" using s1(1) w by simp
    have u: "\<not> used (procs s' ! j)" "used (procs s ! j)"
      using j(1,2) l by (simp_all add: e s1(2) reaped_def used_def zombie_child_def)
    have o: "procs s' ! k = procs s ! k" if "k \<noteq> j" for k using that by (simp add: e s1(2))
    have "areas_ok s'"
    proof (rule areas_cong [OF i(2)])
      fix k assume "k < NPROC" "used (procs s' ! k)"
      then show "used (procs s ! k) \<and> vmas (procs s' ! k) = vmas (procs s ! k)" using u(1) o [of k] by (cases "k = j") auto
    qed
    moreover have "isolated cur s s'"
      unfolding isolated_def
    proof (intro allI impI)
      fix k assume k: "k < NPROC" "used (procs s ! k)" "used (procs s' ! k)"
      then have kj: "k \<noteq> j" using u(1) by blast
      have "pgdir (procs s ! k) \<noteq> pgdir (procs s ! j)" using proc_invD(8) [OF i(3) k(1) j(1) kj k(2) u(2)] by blast
      then show "pgdir (procs s' ! k) = pgdir (procs s ! k) \<and>
          (\<forall>va. user_load (phys s') (pgdir (procs s ! k)) va = user_load (phys s) (pgdir (procs s ! k)) va)"
        using o [OF kj] s1(3) used_dir [OF i(3) k(1,2)] by (simp add: e)
    qed
    ultimately show ?thesis by blast
  qed
  then show ?thesis using wait_inv [OF i(1) c w] by (simp add: kern_inv_def)
qed

lemma safe_wait [safe_calls]: "safe sys_wait"
  by (rule safeI) (auto simp: sys_wait_def res_simps dest: wait_safe)
lemma kill_safe:
  assumes inv: "kern_inv s" and k: "proc_kill s n = (r, s')"
  shows "kern_inv s' \<and> isolated cur s s'"
proof (cases "first_from (\<lambda>p. pid p = n) (procs s) 0")
  case None
  then show ?thesis using k inv isolated_refl by (simp add: proc_kill_def)
next
  case (Some i)
  have i: "sys_inv s" "areas_ok s" using inv by (auto simp: kern_inv_def)
  have l: "i < length (procs s)" using first_SomeD [OF Some] by simp
  have s': "s' = setproc i (\<lambda>p. p\<lparr>killed := True, state := (if state p = SLEEPING then RUNNABLE else state p)\<rparr>) s"
    using k Some by (simp add: proc_kill_def)
  have e: "used (procs s' ! j) = used (procs s ! j) \<and> vmas (procs s' ! j) = vmas (procs s ! j) \<and> pgdir (procs s' ! j) = pgdir (procs s ! j)" for j
    using l by (cases "j = i") (simp_all add: s' used_def)
  have "areas_ok s'" by (rule areas_cong [OF i(2)]) (use e in simp)
  moreover have "isolated cur s s'" by (rule isolated_same) (use e in \<open>simp_all add: s'\<close>)
  ultimately show ?thesis using kill_inv [OF i(1) k] by (simp add: kern_inv_def)
qed

lemma safe_kill [safe_calls]: "safe sys_kill"
  unfolding sys_kill_def
proof (rule safe_with_int, rule safeI)
  fix n cur x and s s' :: "'z kern_scheme" assume a: "kern_inv s" "(let (r, s) = proc_kill s n in Ret (Value r, s)) = Ret (x, s')"
  obtain r where "proc_kill s n = (r, s')" using a(2) by (auto split: prod.splits)
  then show "kern_inv s' \<and> isolated cur s s'" by (rule kill_safe [OF a(1)])
qed

lemma safe_sleep [safe_calls]: "safe sys_sleep"
  unfolding sys_sleep_def
proof (rule safe_with_int, rule safeI)
  fix n cur x and s s' :: "'z kern_scheme"
  assume a: "kern_inv s" "running s cur" "sleep_pass (ticks s) (word_of_int n) s cur = Ret (x, s')"
  have "s' = s \<or> s' = sleep_on cur TicksChan s" using a(3) by (auto simp: sleep_pass_def split: if_splits)
  then show "kern_inv s' \<and> isolated cur s s'"
  proof
    assume "s' = sleep_on cur TicksChan s"
    then show ?thesis
      using kern_setproc [OF a(1), of "\<lambda>p. p\<lparr>chan := TicksChan, state := SLEEPING\<rparr>" cur] a(2)
      by (auto simp: sleep_on_def quiet_simps)
  qed (use a(1) isolated_refl in blast)
qed

lemma frame_moved:
  assumes inv: "sys_inv s" and c: "running s c" and v: "vm_inv s' (dirs s)" and f: "vm_frame s (dirs s) s' (dirs s) (pages (pgdir (procs s ! c)) lo hi) {}"
  shows "sys_inv s' \<and> moved c s s'"
proof -
  note g = frame_inv [OF inv v f]
  have "user_load (phys s') d va = user_load (phys s) d va" if "d \<in> dirs s" "d \<noteq> pgdir (procs s ! c)" for d va
    by (rule frame_load [OF f that(1,1)]) (use that(2) in \<open>simp add: pages_def\<close>)
  then show ?thesis using g by (simp add: moved_def)
qed

lemma growproc_keeps:
  assumes inv: "kern_inv s" and c: "running s cur" and g: "growproc s cur n = Ret (r, s')"
  shows "kern_inv s' \<and> isolated cur s s' \<and> running s' cur"
proof -
  have i: "sys_inv s" "areas_ok s" using inv by (auto simp: kern_inv_def)
  let ?d = "pgdir (procs s ! cur)" and ?sz = "psz (procs s ! cur)"
  note V = sys_vm [OF i(1)] and D = sys_dir [OF i(1) c] and K = sys_psz [OF i(1) c]
  obtain z t where t: "(if n > 0 then allocuvm s ?d ?sz (?sz + word_of_int n) else if n < 0 then deallocuvm s ?d ?sz (?sz + word_of_int n)
      else Ret (?sz, s)) = Ret (z, t)"
    "(if n \<noteq> 0 \<and> z = 0 then Ret (-1, t) else rbind (switchuvm (setproc cur (\<lambda>p. p\<lparr>psz := z\<rparr>) t) cur) (\<lambda>s. Ret (0, s))) = Ret (r, s')"
    using g by (auto simp: growproc_def Let_def rbind_eq_Ret)
  have m: "sys_inv t \<and> moved cur s t" and z: "z \<le> KERNBASE"
  proof -
    let ?new = "?sz + word_of_int n"
    show "sys_inv t \<and> moved cur s t"
    proof (cases "n > 0")
      case True
      show ?thesis
      proof (cases "?new \<ge> KERNBASE \<or> ?new < ?sz")
        case True
        then show ?thesis using t(1) \<open>n > 0\<close> i(1) by (auto simp: allocuvm_def split: if_splits)
      next
        case False
        then have b: "?sz \<le> ?new" "?new < KERNBASE" by (simp_all add: not_le not_less)
        have a: "allocuvm s ?d ?sz ?new = Ret (z, t)" using t(1) \<open>n > 0\<close> by simp
        show ?thesis using allocuvm_ret [OF V D b a] frame_moved [OF i(1) c] by blast
      qed
    next
      case False
      show ?thesis
      proof (cases "n < 0")
        case True
        then have "deallocuvm s ?d ?sz ?new = Ret (z, t)" using t(1) by simp
        then show ?thesis using deallocuvm_spec [OF V D K, of ?new] frame_moved [OF i(1) c] by auto
      qed (use False t(1) i(1) in auto)
    qed
    show "z \<le> KERNBASE"
    proof (cases "n > 0")
      case True
      then have a: "allocuvm s ?d ?sz ?new = Ret (z, t)" using t(1) by simp
      show ?thesis
      proof (cases "?new \<ge> KERNBASE \<or> ?new < ?sz")
        case True
        then show ?thesis using a K by (auto simp: allocuvm_def KERNBASE_def split: if_splits)
      next
        case False
        then have b: "?sz \<le> ?new" "?new < KERNBASE" by (simp_all add: not_le not_less)
        then show ?thesis using allocuvm_ret [OF V D b a] by auto
      qed
    next
      case False
      then have "z = ?sz \<or> n < 0 \<and> deallocuvm s ?d ?sz ?new = Ret (z, t)" using t(1) by (auto split: if_splits)
      then show ?thesis using deallocuvm_spec [OF V D K, of ?new] K by (auto simp: min_def split: if_splits)
    qed
  qed
  have tt: "kern_inv t" "running t cur" using moved_kern [OF inv] m c by (auto simp: moved_def running_def)
  have "kern_inv s' \<and> isolated cur t s' \<and> running s' cur"
  proof (cases "n \<noteq> 0 \<and> z = 0")
    case True
    then show ?thesis using t(2) tt isolated_refl by auto
  next
    case False
    let ?t = "setproc cur (\<lambda>p. p\<lparr>psz := z\<rparr>) t"
    have k: "kern_inv ?t \<and> isolated cur t ?t" by (rule kern_setproc [OF tt(1)]) (use z tt(2) in \<open>auto simp: quiet_simps\<close>)
    have "switchuvm ?t cur = Ret s'" using t(2) False by (auto simp: rbind_eq_Ret split: if_splits)
    then have s': "s' = lcr3 ?t (V2P (pgdir (procs ?t ! cur)))" by (auto simp: switchuvm_def split: if_splits)
    have "sys_inv s'" unfolding s' by (rule lcr3_inv) (use k in \<open>simp add: kern_inv_def\<close>)
    moreover have "areas_ok s'" by (rule areas_cong [of ?t]) (use k in \<open>auto simp: s' kern_inv_def\<close>)
    moreover have "isolated cur t s'" using k by (simp add: isolated_def s' lcr3_def)
    moreover have "running s' cur" using tt(2) sys_slot [OF kern_invD(1) [OF tt(1)] tt(2)] by (simp add: running_def s')
    ultimately show ?thesis by (simp add: kern_inv_def)
  qed
  then show ?thesis using moved_isolated [OF i(1) c conjunct2 [OF m]] by simp
qed

lemma growproc_safe:
  assumes "kern_inv s" "running s cur" "growproc s cur n = Ret (r, s')"
  shows "kern_inv s' \<and> isolated cur s s'"
  using growproc_keeps [OF assms] by simp

lemma safe_sbrk [safe_calls]: "safe sys_sbrk"
  unfolding sys_sbrk_def
  by (rule safe_with_int, rule safeI) (use growproc_safe in \<open>fastforce simp: do_sbrk_def Let_def rbind_eq_Ret split: if_splits\<close>)

section \<open>mmap, munmap and mprotect\<close>

lemma roundup_aligned [simp]: "aligned (PGROUNDUP a)"
  using aligned_PGROUNDDOWN [of "a + PGSIZE - 1"] by (simp add: PGROUNDUP_def PGROUNDDOWN_def)

definition mmapped :: "nat \<Rightarrow> u32 \<Rightarrow> u32 \<Rightarrow> nat \<Rightarrow> 'z kern_scheme \<Rightarrow> 'z kern_scheme" where
  "mmapped i start len cur s = setproc cur (\<lambda>p. p\<lparr>vmas := (vmas p)[i :=
     \<lparr>vstart = start, vlength = len, vprot = PROT_READ OR PROT_WRITE, vused = True\<rparr>], psz := start + len\<rparr>) s"

lemma mmap_cases:
  assumes inv: "sys_inv s" and c: "running s cur"
  obtains (fail) "do_mmap n s cur = Ret (Value (-1), s)"
  | (map) i start len where "do_mmap n s cur = Ret (Value (sint start), mmapped i start len cur s)" "i < MAX_VMAS" "\<not> vused (vmas (procs s ! cur) ! i)"
      "start = PGROUNDUP (psz (procs s ! cur))" "len = PGROUNDUP (word_of_int n)" "0 < n" "0 < len" "unat start + unat len \<le> unat KERNBASE"
      "aligned start" "aligned len"
proof -
  let ?p = "procs s ! cur" and ?st = "PGROUNDUP (psz (procs s ! cur))" and ?len = "PGROUNDUP (word_of_int n :: u32)"
  have lv: "length (vmas ?p) = MAX_VMAS" using inv c proc_invD(7) [of s cur] by (auto simp: sys_inv_def running_def proc_ok_def)
  show ?thesis
  proof (cases "n \<le> 0 \<or> ?len = 0 \<or> ?len \<ge> KERNBASE \<or> ?st \<ge> KERNBASE \<or> ?len > KERNBASE - ?st \<or>
      first_from (\<lambda>v. \<not> vused v) (vmas ?p) 0 = None")
    case True
    then have "do_mmap n s cur = Ret (Value (-1), s)" by (auto simp: do_mmap_def Let_def fails_def)
    then show ?thesis by (rule fail)
  next
    case False
    then obtain i where i: "first_from (\<lambda>v. \<not> vused v) (vmas ?p) 0 = Some i" by auto
    have b: "?st < KERNBASE" "?len \<le> KERNBASE - ?st" "?len \<noteq> 0" "0 < n" using False by (auto simp: not_le not_less)
    have "unat (KERNBASE - ?st) = unat KERNBASE - unat ?st" using b(1) by (simp add: unat_sub)
    then have "unat ?st + unat ?len \<le> unat KERNBASE" using b(1,2) by (simp add: word_le_nat_alt word_less_nat_alt)
    moreover have "do_mmap n s cur = Ret (Value (sint ?st), mmapped i ?st ?len cur s)"
      using False i by (auto simp: do_mmap_def Let_def mmapped_def)
    moreover have "i < MAX_VMAS" "\<not> vused (vmas ?p ! i)" using first_SomeD [OF i] lv by auto
    ultimately show ?thesis using map [of ?st i ?len] b by (simp add: word_gt_0)
  qed
qed

lemma mmap_safe:
  assumes inv: "kern_inv s" and c: "running s cur" and r: "do_mmap n s cur = Ret (x, s')"
  shows "kern_inv s' \<and> isolated cur s s'"
proof (rule mmap_cases [OF kern_invD(1) [OF inv] c, of n])
  assume "do_mmap n s cur = Ret (Value (-1), s)"
  then show ?thesis using r inv isolated_refl by simp
next
  fix i start len assume m: "do_mmap n s cur = Ret (Value (sint start), mmapped i start len cur s)" "i < MAX_VMAS"
      "0 < len" "unat start + unat len \<le> unat KERNBASE" "aligned start" "aligned len"
  have s': "s' = mmapped i start len cur s" using r m(1) by simp
  show ?thesis
    unfolding s' mmapped_def
  proof (rule kern_setproc [OF inv _ _ _ c])
    fix v assume "v \<in> set (vmas ((procs s ! cur)\<lparr>vmas := (vmas (procs s ! cur))[i :=
        \<lparr>vstart = start, vlength = len, vprot = PROT_READ OR PROT_WRITE, vused = True\<rparr>], psz := start + len\<rparr>))"
    then have "v \<in> set (vmas (procs s ! cur)) \<or> v = \<lparr>vstart = start, vlength = len, vprot = PROT_READ OR PROT_WRITE, vused = True\<rparr>"
      using set_update_subset_insert by fastforce
    then show "v \<in> set (vmas (procs s ! cur)) \<or> area_ok v" using m by (auto simp: area_ok_def)
  qed (use range_end(2) [OF m(4)] c in \<open>auto simp: quiet_simps\<close>)
qed

lemma safe_mmap [safe_calls]: "safe sys_mmap"
  unfolding sys_mmap_def by (rule safe_with_int, rule safeI) (rule mmap_safe)

lemma named_area_Some:
  assumes "named_area s cur addr n = Some i"
  shows "i < length (vmas (procs s ! cur))" "vused (vmas (procs s ! cur) ! i)" "vstart (vmas (procs s ! cur) ! i) = addr"
    "vlength (vmas (procs s ! cur) ! i) = PGROUNDUP (word_of_int n)" "0 < n"
  using assms vma_find_exact_Some [of "vmas (procs s ! cur)" addr "PGROUNDUP (word_of_int n)" i]
  by (auto simp: named_area_def Let_def split: if_splits)

lemma area_nth:
  assumes "kern_inv s" "running s cur" "i < length (vmas (procs s ! cur))" "vused (vmas (procs s ! cur) ! i)"
  defines "v \<equiv> vmas (procs s ! cur) ! i"
  shows "aligned (vstart v)" "aligned (vlength v)" "0 < vlength v" "unat (vstart v) + unat (vlength v) \<le> unat KERNBASE"
proof -
  have "area_ok v" using assms(1-3) nth_mem [OF assms(3)] by (auto simp: kern_inv_def areas_ok_def running_def used_def v_def)
  then show "aligned (vstart v)" "aligned (vlength v)" "0 < vlength v" "unat (vstart v) + unat (vlength v) \<le> unat KERNBASE"
    using assms(4) by (auto simp: area_ok_def v_def)
qed

definition unmapped :: "nat \<Rightarrow> nat \<Rightarrow> 'z kern_scheme \<Rightarrow> 'z kern_scheme" where
  "unmapped i cur s = setproc cur (\<lambda>p. p\<lparr>vmas := (vmas p)[i := vma_zero]\<rparr>) s"

lemma munmap_cases:
  assumes inv: "kern_inv s" and c: "running s cur"
  obtains (fail) "do_munmap addr n s cur = Ret (Value (-1), s)" "named_area s cur addr n = None"
  | (unmap) i t where "named_area s cur addr n = Some i" "do_munmap addr n s cur = Ret (Value 0, unmapped i cur t)"
      "vm_unmap_range s (pgdir (procs s ! cur)) addr (PGROUNDUP (word_of_int n)) = Ret (0, t)" "sys_inv t" "moved cur s t"
      "vm_frame s (dirs s) t (dirs s) (pages (pgdir (procs s ! cur)) addr (addr + PGROUNDUP (word_of_int n))) {}"
      "\<forall>va. addr \<le> va \<longrightarrow> va < addr + PGROUNDUP (word_of_int n) \<longrightarrow> \<not> present (phys t) (pgdir (procs s ! cur)) va"
proof (cases "named_area s cur addr n")
  case None
  then show ?thesis using fail by (simp add: do_munmap_def fails_def)
next
  case (Some i)
  note a = named_area_Some [OF Some] and I = kern_invD(1) [OF inv]
  note v = area_nth [OF inv c a(1,2), unfolded a(3,4)]
  obtain t where t: "vm_unmap_range s (pgdir (procs s ! cur)) addr (PGROUNDUP (word_of_int n)) = Ret (0, t)" "vm_inv t (dirs s)"
      "vm_frame s (dirs s) t (dirs s) (pages (pgdir (procs s ! cur)) addr (addr + PGROUNDUP (word_of_int n))) {}"
      "\<forall>va. addr \<le> va \<longrightarrow> va < addr + PGROUNDUP (word_of_int n) \<longrightarrow> \<not> present (phys t) (pgdir (procs s ! cur)) va"
    using vm_unmap_range_spec [OF sys_vm [OF I] sys_dir [OF I c] v(1,4)] by blast
  have "do_munmap addr n s cur = Ret (Value 0, unmapped i cur t)"
    using Some t(1) a(3,4) by (simp add: do_munmap_def Let_def unmapped_def)
  then show ?thesis using unmap [OF Some] t frame_moved [OF I c t(2,3)] by blast
qed

lemma unmapped_kern:
  assumes "kern_inv t" "running t cur"
  shows "kern_inv (unmapped i cur t) \<and> isolated cur t (unmapped i cur t)"
  unfolding unmapped_def
proof (rule kern_setproc [OF assms(1) _ _ _ assms(2)])
  fix v assume "v \<in> set (vmas ((procs t ! cur)\<lparr>vmas := (vmas (procs t ! cur))[i := vma_zero]\<rparr>))"
  then have "v \<in> set (vmas (procs t ! cur)) \<or> v = vma_zero" using set_update_subset_insert by fastforce
  then show "v \<in> set (vmas (procs t ! cur)) \<or> area_ok v" by auto
qed (auto simp: quiet_simps)

lemma moved_running: "moved c s t \<Longrightarrow> running s c \<Longrightarrow> running t c"
  by (simp add: moved_def running_def)

lemma munmap_safe:
  assumes inv: "kern_inv s" and c: "running s cur" and r: "do_munmap addr n s cur = Ret (x, s')"
  shows "kern_inv s' \<and> isolated cur s s'"
proof (rule munmap_cases [OF inv c, of addr n])
  assume "do_munmap addr n s cur = Ret (Value (-1), s)"
  then show ?thesis using r inv isolated_refl by simp
next
  fix i t assume t: "do_munmap addr n s cur = Ret (Value 0, unmapped i cur t)" "sys_inv t" "moved cur s t"
  have "kern_inv s' \<and> isolated cur t s'"
    using unmapped_kern [OF moved_kern [OF inv t(2,3)] moved_running [OF t(3) c], of i] r t(1) by auto
  then show ?thesis using moved_isolated [OF kern_invD(1) [OF inv] c t(3)] by blast
qed

lemma safe_munmap [safe_calls]: "safe sys_munmap"
  unfolding sys_munmap_def by (intro safe_with_int safeI) (rule munmap_safe)
lemma set_prot_kern:
  assumes inv: "kern_inv s" and c: "running s cur" and i: "i < length (vmas (procs s ! cur))"
  shows "kern_inv (set_prot cur i prot s) \<and> isolated cur s (set_prot cur i prot s)"
  unfolding set_prot_def
proof (rule kern_setproc [OF inv _ _ _ c])
  have ok: "area_ok (vmas (procs s ! cur) ! i)"
    using inv c nth_mem [OF i] by (auto simp: kern_inv_def areas_ok_def running_def used_def)
  fix v assume "v \<in> set (vmas ((procs s ! cur)\<lparr>vmas := (vmas (procs s ! cur))[i := (vmas (procs s ! cur) ! i)\<lparr>vprot := prot\<rparr>]\<rparr>))"
  then have "v \<in> set (vmas (procs s ! cur)) \<or> v = (vmas (procs s ! cur) ! i)\<lparr>vprot := prot\<rparr>"
    using set_update_subset_insert by fastforce
  then show "v \<in> set (vmas (procs s ! cur)) \<or> area_ok v" using ok by (auto simp: area_ok_def)
qed (auto simp: quiet_simps)

lemma mprotect_cases:
  assumes inv: "kern_inv s" and c: "running s cur"
  obtains (fail) "do_mprotect addr n prot s cur = Ret (Value (-1), s)"
      "named_area s cur addr n = None \<or> prot \<notin> {1, 3}"
  | (protect) i t where "named_area s cur addr n = Some i" "prot \<in> {1, 3}" "do_mprotect addr n prot s cur = Ret (Value 0, t)"
      "kern_inv t" "moved cur (set_prot cur i (word_of_int prot) s) t"
      "vm_frame (set_prot cur i (word_of_int prot) s) (dirs s) t (dirs s) (pages (pgdir (procs s ! cur)) addr (addr + PGROUNDUP (word_of_int n))) {}"
      "\<forall>va. addr \<le> va \<longrightarrow> va < addr + PGROUNDUP (word_of_int n) \<longrightarrow> protected (phys s) (phys t) (pgdir (procs s ! cur)) (word_of_int prot) va"
proof (cases "named_area s cur addr n = None \<or> prot \<notin> {1, 3}")
  case True
  have p: "uint PROT_READ = 1" "uint (PROT_READ OR PROT_WRITE) = 3" by (simp_all add: PROT_READ_def PROT_WRITE_def)
  have "do_mprotect addr n prot s cur = Ret (Value (-1), s)"
    using True by (auto simp: do_mprotect_def p fails_def split: option.split)
  then show ?thesis using True fail by blast
next
  case False
  then obtain i where Some: "named_area s cur addr n = Some i" and pr: "prot \<in> {1, 3}" by auto
  note a = named_area_Some [OF Some] and I = kern_invD(1) [OF inv]
  note v = area_nth [OF inv c a(1,2), unfolded a(3,4)]
  let ?s = "set_prot cur i (word_of_int prot) s"
  have k: "kern_inv ?s" using set_prot_kern [OF inv c a(1)] by blast
  have l: "cur < length (procs s)" by (rule sys_slot [OF I c])
  have e: "phys ?s = phys s" "running ?s cur" "pgdir (procs ?s ! cur) = pgdir (procs s ! cur)"
    using c l by (simp_all add: set_prot_def running_def)
  have "map key (procs ?s) = map key (procs s)"
    using l by (simp add: set_prot_def map_update key_def used_def list_update_same_conv)
  then have d: "dirs ?s = dirs s" using key_images(1) [of "procs ?s" "procs s"] by (simp add: dirs_def set_prot_def)
  obtain t where t: "vm_protect_range ?s (pgdir (procs s ! cur)) addr (PGROUNDUP (word_of_int n)) (word_of_int prot) = Ret (0, t)"
      "vm_inv t (dirs s)" "vm_frame ?s (dirs s) t (dirs s) (pages (pgdir (procs s ! cur)) addr (addr + PGROUNDUP (word_of_int n))) {}"
      "\<forall>va. addr \<le> va \<longrightarrow> va < addr + PGROUNDUP (word_of_int n) \<longrightarrow> protected (phys s) (phys t) (pgdir (procs s ! cur)) (word_of_int prot) va"
    using vm_protect_range_spec [OF sys_vm [OF kern_invD(1) [OF k]] sys_dir [OF kern_invD(1) [OF k] e(2)] v(1,4), of "word_of_int prot"]
    by (auto simp: e d)
  have p: "uint PROT_READ = 1" "uint (PROT_READ OR PROT_WRITE) = 3" by (simp_all add: PROT_READ_def PROT_WRITE_def)
  have do: "do_mprotect addr n prot s cur = Ret (Value 0, t)"
    using Some t(1) a pr by (auto simp: do_mprotect_def Let_def p)
  have m: "sys_inv t \<and> moved cur ?s t" by (rule frame_moved [OF kern_invD(1) [OF k] e(2)]) (use t(2,3) in \<open>simp_all add: d e\<close>)
  show ?thesis by (rule protect [OF Some pr do _ _ t(3,4)]) (use m moved_kern [OF k] in auto)
qed

lemma mprotect_safe:
  assumes inv: "kern_inv s" and c: "running s cur" and r: "do_mprotect addr n prot s cur = Ret (x, s')"
  shows "kern_inv s' \<and> isolated cur s s'"
proof (rule mprotect_cases [OF inv c, of addr n prot])
  assume "do_mprotect addr n prot s cur = Ret (Value (-1), s)"
  then show ?thesis using r inv isolated_refl by simp
next
  fix i t assume t: "named_area s cur addr n = Some i" "do_mprotect addr n prot s cur = Ret (Value 0, t)" "kern_inv t"
    "moved cur (set_prot cur i (word_of_int prot) s) t"
  let ?s = "set_prot cur i (word_of_int prot) s"
  have k: "kern_inv ?s \<and> isolated cur s ?s" by (rule set_prot_kern [OF inv c named_area_Some(1) [OF t(1)]])
  have r1: "running ?s cur" using c sys_slot [OF kern_invD(1) [OF inv] c] by (simp add: set_prot_def running_def)
  have "isolated cur ?s t" by (rule isolated_moved [OF kern_invD(1) [OF conjunct1 [OF k]] r1 t(4)])
  moreover have "procs ?s ! j = procs s ! j" if "j \<noteq> cur" for j using that by (simp add: set_prot_def)
  moreover have "phys ?s = phys s" by (simp add: set_prot_def)
  ultimately have "isolated cur s t" by (simp add: isolated_def)
  then show ?thesis using t(2,3) r by auto
qed

lemma safe_mprotect [safe_calls]: "safe sys_mprotect"
  unfolding sys_mprotect_def by (intro safe_with_int safeI) (rule mprotect_safe)

lemma safe_table:
  assumes "inode_put put" "\<And>n h. files n = Some h \<Longrightarrow> safe h" "syscalls files put n = Some h"
  shows "safe h"
  using assms(2,3) safe_exit [OF assms(1)] safe_calls unfolding syscalls_def
  by (auto simp: fun_upd_def split: if_splits)

end
