(* ===== verification/Trap_Spec.thy ===== *)
theory Trap_Spec
  imports Sysproc_Spec
begin

text \<open>
  Traps as steps of the whole kernel: whatever a process does to enter it, the invariant holds
  afterwards and the memory of every other process is as it was.
\<close>

section \<open>A call that returns leaves its process running\<close>

named_theorems stays_calls \<open>handlers that return to a running process\<close>

definition stays :: "'z handler \<Rightarrow> bool" where
  "stays h \<longleftrightarrow> (\<forall>s cur v s'. kern_inv s \<longrightarrow> running s cur \<longrightarrow> h s cur = Ret (Value v, s') \<longrightarrow> running s' cur)"

lemma staysI: "(\<And>s cur v s'. kern_inv s \<Longrightarrow> running s cur \<Longrightarrow> h s cur = Ret (Value v, s') \<Longrightarrow> running s' cur) \<Longrightarrow> stays h"
  and staysD: "stays h \<Longrightarrow> kern_inv s \<Longrightarrow> running s cur \<Longrightarrow> h s cur = Ret (Value v, s') \<Longrightarrow> running s' cur"
  by (auto simp: stays_def)

lemma stays_with_int:
  assumes "\<And>n. stays (f n)"
  shows "stays (with_int k f)"
proof (rule staysI)
  fix s cur v s' assume a: "kern_inv s" "running s cur" "with_int k f s cur = Ret (Value v, s')"
  obtain y t where y: "argint s cur k = Ret (y, t)" "(case y of None \<Rightarrow> fails t | Some w \<Rightarrow> f (sint w) t cur) = Ret (Value v, s')"
    using a(3) by (auto simp: with_int_def res_simps)
  have m: "sys_inv t \<and> moved cur s t" by (rule argint_moved [OF kern_invD(1) [OF a(1)] a(2) y(1)])
  then have t: "kern_inv t" "running t cur" using moved_kern [OF a(1)] a(2) by (auto simp: moved_def running_def)
  then show "running s' cur" using y(2) staysD [OF assms t] by (cases y) auto
qed

lemma running_setproc:
  assumes "running s cur" "sys_inv s" "\<And>p. state p = RUNNING \<Longrightarrow> state (g p) = RUNNING"
  shows "running (setproc i g s) cur"
  using assms sys_slot [OF assms(2,1)] by (cases "i = cur") (auto simp: running_def)

lemma stays_const: "(\<And>s cur x s'. h s cur = Ret (x, s') \<Longrightarrow> s' = s) \<Longrightarrow> stays h"
  by (rule staysI) blast

lemma stays_simple [stays_calls]:
  "stays sys_getpid" "stays sys_uptime" "stays sys_getprio" "stays sys_numvp" "stays sys_numpp" "stays sys_getptsize"
  by (rule stays_const, auto simp: sys_getpid_def sys_uptime_def sys_getprio_def sys_numvp_def sys_numpp_def
      sys_getptsize_def res_simps)+

lemma stays_pageref [stays_calls]: "stays sys_pageref"
  unfolding sys_pageref_def
  by (rule stays_with_int, rule stays_const) (auto simp: res_simps split: if_splits)

lemma stays_trace [stays_calls]: "stays sys_trace" and stays_setprio [stays_calls]: "stays sys_setprio"
  and stays_kill [stays_calls]: "stays sys_kill" and stays_sleep [stays_calls]: "stays sys_sleep"
  unfolding sys_trace_def sys_setprio_def sys_kill_def sys_sleep_def
  by (rule stays_with_int, rule staysI,
      auto simp: setprio_def proc_kill_def sleep_pass_def kern_inv_def intro!: running_setproc split: if_splits option.splits)+

lemma stays_mmap [stays_calls]: "stays sys_mmap"
  unfolding sys_mmap_def
proof (rule stays_with_int, rule staysI)
  fix n cur v and s s' :: "'z kern_scheme" assume a: "kern_inv s" "running s cur" "do_mmap n s cur = Ret (Value v, s')"
  show "running s' cur"
    by (rule mmap_cases [OF kern_invD(1) [OF a(1)] a(2), of n])
       (use a in \<open>auto simp: mmapped_def kern_inv_def intro!: running_setproc\<close>)
qed

lemma stays_munmap [stays_calls]: "stays sys_munmap"
  unfolding sys_munmap_def
proof (intro stays_with_int staysI)
  fix ad n cur v and s s' :: "'z kern_scheme" assume a: "kern_inv s" "running s cur" "do_munmap (word_of_int ad) n s cur = Ret (Value v, s')"
  show "running s' cur"
  proof (rule munmap_cases [OF a(1,2), of "word_of_int ad" n])
    fix i t assume t: "do_munmap (word_of_int ad) n s cur = Ret (Value 0, unmapped i cur t)" "sys_inv t" "moved cur s t"
    have "running (unmapped i cur t) cur"
      unfolding unmapped_def by (rule running_setproc [OF moved_running [OF t(3) a(2)] t(2)]) simp
    then show ?thesis using t(1) a(3) by simp
  qed (use a in simp)
qed

lemma stays_mprotect [stays_calls]: "stays sys_mprotect"
  unfolding sys_mprotect_def
proof (intro stays_with_int staysI)
  fix ad n p cur v and s s' :: "'z kern_scheme"
  assume a: "kern_inv s" "running s cur" "do_mprotect (word_of_int ad) n p s cur = Ret (Value v, s')"
  show "running s' cur"
  proof (rule mprotect_cases [OF a(1,2), of "word_of_int ad" n p])
    fix i t assume t: "do_mprotect (word_of_int ad) n p s cur = Ret (Value 0, t)" "moved cur (set_prot cur i (word_of_int p) s) t"
    have "running (set_prot cur i (word_of_int p) s) cur"
      unfolding set_prot_def by (rule running_setproc [OF a(2) kern_invD(1) [OF a(1)]]) simp
    then show ?thesis using moved_running [OF t(2)] t(1) a(3) by simp
  qed (use a in simp)
qed

lemma stays_fork [stays_calls]: "stays sys_fork"
proof (rule staysI)
  fix s cur v s' assume a: "kern_inv s" "running s cur" "sys_fork s cur = Ret (Value v, s')"
  obtain r where f: "fork s cur = Ret (r, s')" using a(3) by (auto simp: sys_fork_def res_simps)
  have i: "proc_inv s" "files_inv s" using a(1) by (auto simp: kern_inv_def sys_inv_def)
  have k: "r = -1 \<and> fork_failed s s' \<or> r = nextpid s \<and> fork_made s cur s'"
    using fork_spec [OF i running_active(2,1) [OF a(2)]] f by auto
  have "procs s' ! cur = procs s ! cur" by (rule fork_keeps [OF k]) (use a(2) in \<open>auto simp: running_def used_def\<close>)
  then show "running s' cur" using a(2) by (simp add: running_def)
qed

lemma stays_exit [stays_calls]: "stays (sys_exit put)"
  by (rule staysI) (auto simp: sys_exit_def res_simps)

lemma stays_wait [stays_calls]: "stays sys_wait"
proof (rule staysI)
  fix s cur v s' assume a: "kern_inv s" "running s cur" "sys_wait s cur = Ret (Value v, s')"
  obtain r where w: "proc_wait s cur = Ret (r, s')" "r \<noteq> None"
    using a(3) by (auto simp: sys_wait_def res_simps split: option.splits)
  have i: "proc_inv s" using a(1) by (simp add: kern_inv_def sys_inv_def)
  note cu = running_active [OF a(2)]
  show "running s' cur"
  proof (cases "\<exists>j < NPROC. zombie_child s cur j")
    case False
    then have nz: "\<forall>j < NPROC. \<not> zombie_child s cur j" by blast
    then have "s' = s" using proc_wait_spec(1) [OF i cu(2) nz] w by (auto split: if_splits)
    then show ?thesis using a(2) by simp
  next
    case True
    then obtain j where j: "j < NPROC" "zombie_child s cur j" "\<forall>l < j. \<not> zombie_child s cur l" by (rule first_index)
    then have "procs s' = (procs s)[j := reaped (procs s ! j)]" using proc_wait_spec(2) [OF i cu(2) j] w(1) by auto
    moreover have "j \<noteq> cur" using j(2) a(2) by (auto simp: zombie_child_def running_def)
    ultimately show ?thesis using a(2) by (simp add: running_def)
  qed
qed

lemma stays_sbrk [stays_calls]: "stays sys_sbrk"
  unfolding sys_sbrk_def
proof (rule stays_with_int, rule staysI)
  fix n cur v and s s' :: "'z kern_scheme" assume a: "kern_inv s" "running s cur" "do_sbrk n s cur = Ret (Value v, s')"
  obtain r where g: "growproc s cur n = Ret (r, s')" using a(3) by (auto simp: do_sbrk_def Let_def rbind_eq_Ret split: if_splits)
  show "running s' cur" using growproc_keeps [OF a(1,2) g] by simp
qed

lemma stays_table:
  assumes "\<And>n h. files n = Some h \<Longrightarrow> stays h" "syscalls files put n = Some h"
  shows "stays h"
  using assms stays_calls unfolding syscalls_def by (auto simp: fun_upd_def split: if_splits)

section \<open>Page faults and interrupts\<close>

lemma isolated_trans:
  assumes "isolated c s t" "isolated c t u" "\<And>i. i < NPROC \<Longrightarrow> used (procs u ! i) \<Longrightarrow> used (procs s ! i) \<Longrightarrow> used (procs t ! i)"
  shows "isolated c s u"
  using assms unfolding isolated_def by (metis (no_types, lifting))

lemma set_killed_kern:
  assumes "kern_inv s" "running s c"
  shows "kern_inv (set_killed c s) \<and> isolated c s (set_killed c s)" "running (set_killed c s) c"
  unfolding set_killed_def
  by (rule kern_setproc [OF assms(1) _ _ _ assms(2)]; auto simp: quiet_simps)
     (rule running_setproc [OF assms(2) kern_invD(1) [OF assms(1)]], simp)

lemma moved_killed:
  assumes "kern_inv s" "running s c" "sys_inv t" "moved c s t"
  shows "kern_inv (set_killed c t) \<and> isolated c s (set_killed c t) \<and> running (set_killed c t) c"
proof -
  have t: "kern_inv t" "running t c" using moved_kern [OF assms(1,3,4)] moved_running [OF assms(4,2)] by auto
  show ?thesis using set_killed_kern [OF t] moved_isolated [OF kern_invD(1) [OF assms(1)] assms(2,4)] by blast
qed

lemma pgfault_safe:
  assumes inv: "kern_inv s" and c: "running s c" and va: "va < KERNBASE"
    and r: "pgfault s (Some c) (fault_code (phys s) (pgdir (procs s ! c)) va wr usr) cs va = Ret s'"
  shows "kern_inv s' \<and> isolated c s s' \<and> running s' c"
proof -
  let ?d = "pgdir (procs s ! c)"
  note I = kern_invD(1) [OF inv]
  have k: ?thesis if "s' = set_killed c s" using set_killed_kern [OF inv c] that by simp
  have mv: ?thesis if "sys_inv s'" "moved c s s'" using kern_moved [OF inv c that] moved_running [OF that(2) c] by blast
  show ?thesis
  proof (cases "present (phys s) ?d va")
    case p: True
    show ?thesis
    proof (cases "wr \<and> \<not> read_only (area s c va)")
      case True
      then have nr: "\<not> read_only (area s c va)" and w: "wr" by auto
      show ?thesis
      proof (rule pgfault_write [OF I c va p nr, of usr cs])
        fix s1 assume s1: "pgfault s (Some c) (fault_code (phys s) ?d va True usr) cs va = Ret s1" "sys_inv s1" "procs s1 = procs s"
          "same_view s s1 (dirs s)" "dirs s1 = dirs s"
        then show ?thesis using mv r w moved_paged [OF paged_in_view [OF s1(4)] s1(3,5)] by simp
      qed (use r w k in auto)
    next
      case False
      then show ?thesis using r p k by (auto simp: pgfault_simp split: if_splits)
    qed
  next
    case np: False
    show ?thesis
    proof (cases "area s c va = None \<or> wr \<and> read_only (area s c va)")
      case True
      then show ?thesis using r np k by (auto simp: pgfault_simp split: if_splits option.splits)
    next
      case False
      then obtain a where a: "area s c va = Some a" "wr \<longrightarrow> flag (vprot a) PROT_WRITE" by (auto simp: read_only_def)
      show ?thesis
      proof (rule pgfault_demand [OF I c va np a, of usr cs])
        fix s1 assume s1: "pgfault s (Some c) (fault_code (phys s) ?d va wr usr) cs va = Ret s1" "sys_inv s1" "procs s1 = procs s"
          "vm_frame s (dirs s) s1 (dirs s) {(?d, PGROUNDDOWN va)} {}" "present (phys s1) ?d va" "flag (lookup (phys s1) ?d va) PTE_U"
          "zero_page (phys s1) ?d (PGROUNDDOWN va)" "dirs s1 = dirs s"
        then show ?thesis using mv r moved_paged [OF paged_in_demand [OF s1(4) np s1(5-7)] s1(3,8)] by simp
      next
        fix s1 assume s1: "pgfault s (Some c) (fault_code (phys s) ?d va wr usr) cs va = Ret (set_killed c s1)" "sys_inv s1" "procs s1 = procs s"
          "vm_frame s (dirs s) s1 (dirs s) {} {}" "dirs s1 = dirs s"
        then show ?thesis using r moved_killed [OF inv c s1(2) moved_paged [OF paged_in_frame [OF s1(4)] s1(3,5)]] by simp
      qed
    qed
  qed
qed
section \<open>A whole trap\<close>

lemma isolated_from:
  assumes "isolated c t u" "\<And>i. i \<noteq> c \<Longrightarrow> procs t ! i = procs s ! i" "phys t = phys s"
  shows "isolated c s u"
  using assms by (simp add: isolated_def)

lemma exit_after:
  assumes iso: "isolated c s t" and t: "kern_inv t" "running t c" and put: "inode_put put" and x: "proc_exit put t c = Ret u"
  shows "kern_inv u \<and> isolated c s u"
proof -
  note I = kern_invD(1) [OF t(1)]
  obtain ini where ini: "tree_ok t ini" using I by (auto simp: sys_inv_def)
  have e: "exited c ini t u" by (rule exit_facts(4) [OF I put t(2) x ini])
  have k: "kern_inv u \<and> isolated c t u" by (rule exit_safe [OF t(1) put t(2) x])
  have "used (procs t ! i)" if "i < NPROC" "i \<noteq> c" "used (procs u ! i)" for i
    using reparented_D(6) [of c "Some ini" "procs t ! i" "procs u ! i"] e that by (simp add: exited_def)
  then show ?thesis using k iso unfolding isolated_def by metis
qed

lemma ticks_inv:
  assumes "sys_inv s"
  shows "sys_inv (s\<lparr>ticks := n\<rparr>)"
proof (rule quiet_inv [OF assms])
  have p: "proc_inv s" "pipes_inv s" using assms by (auto simp: sys_inv_def)
  have o: "proc_ok (s\<lparr>ticks := n\<rparr>) = proc_ok s" by (simp add: proc_ok_def fun_eq_iff)
  show "proc_inv (s\<lparr>ticks := n\<rparr>)"
    by (rule proc_inv_keys(1) [OF p(1)]) (use proc_invD(2,7) [OF p(1)] in \<open>simp_all add: o\<close>)
  show "pipes_inv (s\<lparr>ticks := n\<rparr>)" by (rule pipes_inv_cong [OF p(2)]) simp_all
qed simp_all

lemma clock_safe:
  assumes "kern_inv s" "running s c"
  shows "kern_inv (clock_tick cpu s) \<and> isolated c s (clock_tick cpu s) \<and> running (clock_tick cpu s) c"
proof (cases "cpu = 0")
  case True
  let ?t = "s\<lparr>ticks := ticks s + 1\<rparr>"
  have i: "sys_inv s" "areas_ok s" using assms(1) by (auto simp: kern_inv_def)
  have "sys_inv ?t" by (rule ticks_inv [OF i(1)])
  then have w: "sys_inv (wakeup TicksChan ?t)" by (rule wakeup_inv)
  have l: "length (procs s) = NPROC" using i(1) by (simp add: sys_inv_def proc_inv_def)
  have q: "procs (wakeup TicksChan ?t) ! j = procs s ! j \<or>
      state (procs s ! j) = SLEEPING \<and> procs (wakeup TicksChan ?t) ! j = (procs s ! j)\<lparr>state := RUNNABLE\<rparr>" if "j < NPROC" for j
    using that l by (auto simp: woken_def)
  have "areas_ok (wakeup TicksChan ?t)"
    by (rule areas_cong [OF i(2)]) (use q in \<open>fastforce simp: used_def\<close>)
  moreover have "isolated c s (wakeup TicksChan ?t)"
    unfolding isolated_def using q by fastforce
  moreover have "running (wakeup TicksChan ?t) c" using q [of c] assms(2) by (auto simp: running_def)
  ultimately show ?thesis using w True by (simp add: clock_tick_def kern_inv_def)
qed (use assms isolated_refl in \<open>simp add: clock_tick_def\<close>)

lemma tail_safe:
  assumes t: "kern_inv t" "running t c" "isolated c s t" and put: "inode_put put"
    and r: "trap_tail put (Some c) f t = Ret (e, u)"
  shows "kern_inv u \<and> isolated c s u"
proof -
  consider (exit) "proc_exit put t c = Ret u" | (yield) "u = yield t c" | (resume) "u = t"
    using r by (auto simp: trap_tail_def trap_resume_def rbind_eq_Ret split: if_splits)
  then show ?thesis
  proof cases
    case exit
    then show ?thesis by (rule exit_after [OF t(3,1,2) put])
  next
    case yield
    have "kern_inv (yield t c)" unfolding yield_def
      by (rule conjunct1, rule kern_setproc [OF t(1)]) (use t(2) in \<open>auto simp: quiet_simps\<close>)
    moreover have "isolated c s (yield t c)" unfolding yield_def
      by (rule isolated_setproc [OF t(3) sys_slot [OF kern_invD(1) [OF t(1)] t(2)]])
    ultimately show ?thesis by (simp add: yield)
  qed (use t in simp)
qed

lemma set_eax_safe:
  assumes "kern_inv t" "running t c" "isolated c s t"
  shows "kern_inv (set_eax c v t)" "running (set_eax c v t) c" "isolated c s (set_eax c v t)"
proof -
  show "kern_inv (set_eax c v t)" unfolding set_eax_def
    by (rule conjunct1, rule kern_setproc [OF assms(1)]) (use assms(2) in \<open>auto simp: quiet_simps\<close>)
  show "running (set_eax c v t) c" unfolding set_eax_def
    by (rule running_setproc [OF assms(2) kern_invD(1) [OF assms(1)]]) simp
  show "isolated c s (set_eax c v t)" unfolding set_eax_def
    by (rule isolated_setproc [OF assms(3) sys_slot [OF kern_invD(1) [OF assms(1)] assms(2)]])
qed

lemma syscall_safe:
  assumes inv: "kern_inv s" and c: "running s c" and calls: "\<And>n h. calls n = Some h \<Longrightarrow> safe h \<and> stays h"
    and r: "syscall calls s c = Ret ((v, out), t)"
  shows "kern_inv t \<and> isolated c s t \<and> (\<forall>x. v = Value x \<longrightarrow> running t c)"
proof -
  let ?n = "sint (tf_eax (tf (procs s ! c)))"
  show ?thesis
  proof (cases "?n > 0 \<and> ?n < 32 \<and> calls (nat ?n) \<noteq> None")
    case True
    then obtain h where h: "calls (nat ?n) = Some h" by auto
    then obtain y x where x: "h s c = Ret (y, x)" and
        e: "(case y of Value w \<Rightarrow> (let (out, s) = syscall_return (nat ?n) c w x in Ret ((Value w, out), s)) | _ \<Rightarrow> Ret ((y, []), x)) = Ret ((v, out), t)"
      using r True by (auto simp: syscall_def Let_def rbind_eq_Ret)
    have k: "kern_inv x" "isolated c s x" using calls [OF h] x inv c unfolding safe_def by blast+
    show ?thesis
    proof (cases y)
      case (Value w)
      have ru: "running x c" using staysD [of h s c w x] calls [OF h] x inv c Value by simp
      have "t = set_eax c w x" using e by (simp add: Value syscall_return_def Let_def)
      then show ?thesis using set_eax_safe [OF k(1) ru k(2)] by simp
    qed (use k e in auto)
  next
    case False
    then have "syscall calls s c = Ret ((Value (-1), []), set_eax c (-1) s)" by (simp only: syscall_def Let_def if_False)
    then have "t = set_eax c (-1) s" using r by simp
    then show ?thesis using set_eax_safe [OF inv c isolated_refl] by simp
  qed
qed

lemma trap_syscall_safe:
  assumes inv: "kern_inv s" and c: "running s c" and put: "inode_put put"
    and calls: "\<And>n h. calls n = Some h \<Longrightarrow> safe h \<and> stays h"
    and r: "trap_syscall calls put (Some c) f s = Ret ((e, out), u)"
  shows "kern_inv u \<and> isolated c s u"
proof (cases "killed (procs s ! c)")
  case True
  then show ?thesis using r exit_after [OF isolated_refl inv c put] by (auto simp: trap_syscall_def rbind_eq_Ret)
next
  case False
  let ?s = "setproc c (\<lambda>p. p\<lparr>tf := f\<rparr>) s"
  obtain v o1 t where t1: "syscall calls ?s c = Ret ((v, o1), t)" and
      e: "(case v of Sleeps \<Rightarrow> Ret ((Asleep_in_call, o1), t) | Exits \<Rightarrow> Ret ((Ended, o1), t)
           | Value v \<Rightarrow> if killed (procs t ! c) then rbind (proc_exit put t c) (\<lambda>s. Ret ((Ended, o1), s)) else Ret ((Resumes, o1), t)) =
         Ret ((e, out), u)"
    using r False by (auto simp: trap_syscall_def rbind_eq_Ret)
  have t2: "u = t \<or> (\<exists>x. v = Value x) \<and> proc_exit put t c = Ret u"
    using e by (cases v) (auto simp: rbind_eq_Ret split: if_splits)
  have k: "kern_inv ?s" by (rule conjunct1, rule kern_setproc [OF inv _ _ _ c]) (use c in \<open>auto simp: quiet_simps\<close>)
  have ru: "running ?s c" by (rule running_setproc [OF c kern_invD(1) [OF inv]]) simp
  have sy: "kern_inv t \<and> isolated c ?s t \<and> (\<forall>x. v = Value x \<longrightarrow> running t c)"
    by (rule syscall_safe [OF k ru calls t1])
  have "isolated c s t" by (rule isolated_from [of c ?s]) (use sy in auto)
  then show ?thesis using t2 sy exit_after [of c s t put u] put by auto
qed

definition real_fault :: "'z kern_scheme \<Rightarrow> nat \<Rightarrow> trapframe \<Rightarrow> u32 \<Rightarrow> bool" where
  "real_fault s c f cr2 \<longleftrightarrow> cr2 < KERNBASE \<and>
     (\<exists>wr usr. tf_err f = fault_code (phys s) (pgdir (procs s ! c)) cr2 wr usr)"

definition from_device :: "u32 \<Rightarrow> bool" where
  "from_device n \<longleftrightarrow> n \<in> {T_IRQ0 + IRQ_IDE, T_IRQ0 + IRQ_KBD, T_IRQ0 + IRQ_COM1}"

lemma trap_safe:
  assumes inv: "kern_inv s" and c: "running s c" and put: "inode_put put"
    and calls: "\<And>n h. calls n = Some h \<Longrightarrow> safe h \<and> stays h"
    and f: "tf_trapno f = T_PGFLT \<Longrightarrow> real_fault s c f cr2" "\<not> from_device (tf_trapno f)"
    and r: "trap calls put dev cpu (Some c) f cr2 s = Ret ((e, out), u)"
  shows "kern_inv u \<and> isolated c s u"
proof (cases "tf_trapno f = T_SYSCALL")
  case True
  then show ?thesis using r trap_syscall_safe [OF inv c put calls] by (simp add: trap_def)
next
  case False
  then obtain t where t: "trap_switch dev cpu (Some c) f cr2 s = Ret t" "trap_tail put (Some c) f t = Ret (e, u)"
    using r by (auto simp: trap_def rbind_eq_Ret)
  have "kern_inv t \<and> isolated c s t \<and> running t c"
  proof (cases "tf_trapno f = T_PGFLT")
    case True
    then obtain wr usr where w: "tf_err f = fault_code (phys s) (pgdir (procs s ! c)) cr2 wr usr" "cr2 < KERNBASE"
      using f(1) by (auto simp: real_fault_def)
    have "pgfault s (Some c) (tf_err f) (tf_cs f) cr2 = Ret t"
      using t(1) True by (simp add: trap_switch_def T_PGFLT_def T_IRQ0_def IRQ_TIMER_def)
    then show ?thesis using pgfault_safe [OF inv c w(2)] w(1) by simp
  next
    case False
    then have "t = clock_tick cpu s \<or> t = s \<or> t = set_killed c s"
      using t(1) f(2) by (auto simp: trap_switch_def from_device_def Let_def trap_unexpected_def split: if_splits)
    then show ?thesis using clock_safe [OF inv c] set_killed_kern [OF inv c] inv c isolated_refl by auto
  qed
  then show ?thesis using tail_safe [OF _ _ _ put t(2)] by blast
qed

end
