(* ===== verification/Trap_Props.thy ===== *)
theory Trap_Props
  imports Trap_Spec
begin

text \<open>
  The properties of faults, system calls and traps.
\<close>

section \<open>A state to run them in\<close>

lemma init_kern:
  "\<exists>s i. proc_reach put_ref s \<and> kern_inv s \<and> running s i \<and> free_pages s 2000 \<and> \<not> killed (procs s ! i) \<and>
     psz (procs s ! i) = PGSIZE \<and> vmas (procs s ! i) = replicate MAX_VMAS vma_zero \<and>
     (\<forall>va < KERNBASE. PGROUNDDOWN va \<noteq> 0 \<longrightarrow> \<not> present (phys s) (pgdir (procs s ! i)) va)"
proof -
  obtain s i where s: "proc_reach put_ref s" "i < NPROC" "state (procs s ! i) = RUNNABLE" "free_pages s 2000"
      "\<forall>j < NPROC. j \<noteq> i \<longrightarrow> procs s ! j = proc_zero" "\<not> killed (procs s ! i)" "psz (procs s ! i) = PGSIZE"
      "vmas (procs s ! i) = replicate MAX_VMAS vma_zero"
      "\<forall>va < KERNBASE. PGROUNDDOWN va \<noteq> 0 \<longrightarrow> \<not> present (phys s) (pgdir (procs s ! i)) va"
    using booted [of put_ref] by blast
  obtain s' where s': "proc_reach put_ref s'" "procs s' = (procs s)[i := (procs s ! i)\<lparr>state := RUNNING\<rparr>]" "mcore s' = mcore s"
    using dispatch_step [OF s(1) put_ref_put s(2,3)] by blast
  have l: "length (procs s) = NPROC" by (rule proc_invD(1) [OF reachD(1) [OF s(1) put_ref_put]])
  have o: "vmas (procs s' ! j) = replicate MAX_VMAS vma_zero" if "j < NPROC" "used (procs s' ! j)" for j
    using that s(2,5,8) l by (cases "j = i") (auto simp: s'(2) used_def proc_zero_def)
  have "areas_ok s'" unfolding areas_ok_def using o by (auto simp: set_replicate_conv_if)
  then have "kern_inv s'" using proc_reach_sys [OF s'(1) put_ref_put] by (simp add: kern_inv_def)
  moreover have "phys s' = phys s" using s'(3) by (simp add: mcore_def)
  ultimately show ?thesis using s s'(1,2) mcore_cong(4) [OF s'(3)] l
    by (intro exI [of _ s'] exI [of _ i]) (simp add: running_def)
qed

section \<open>Isolation\<close>



section \<open>Stores by a user program\<close>

text \<open>C18. A store instruction of a user program faults at most twice. Then either it has taken
  effect: the byte is at its address in the process's own memory and, apart from a page that was
  not there and now reads zero, nothing else has changed for anybody; or the process is killed, and
  then it already was, or the store was not allowed (no mapping, or a read-only one), or fewer than
  1025 pages were free.\<close>

theorem store_settles:
  assumes "kern_inv s" "running s c" "va < KERNBASE"
  defines "d \<equiv> pgdir (procs s ! c)"
  shows "\<exists>r s'. ustore 2 s c va b = Ret (r, s') \<and> sys_inv s' \<and>
    (case r of
       None \<Rightarrow> killed (procs s' ! c) \<and> paged_in (phys s) (phys s') d va (dirs s) \<and>
         (killed (procs s ! c) \<or> store_refused s c va \<or> \<not> free_pages s 1025)
     | Some _ \<Rightarrow> procs s' = procs s \<and> (\<exists>m. paged_in (phys s) m d va (dirs s) \<and>
         (\<forall>d' \<in> dirs s. \<forall>va'. user_load (phys s') d' va' = (if d' = d \<and> va' = va then Some b else user_load m d' va'))))"
  using ustore_settles [OF kern_invD(1) [OF assms(1)] assms(2,3), of b]
  unfolding store_ends_def Let_def d_def by blast

theorem store_settles_witness:
  "\<exists>(s :: kern) c s'. kern_inv s \<and> running s c \<and> ustore 2 s c PGSIZE 7 = Ret (None, s') \<and> killed (procs s' ! c)"
proof -
  obtain s :: kern and i where s: "kern_inv s" "running s i" "vmas (procs s ! i) = replicate MAX_VMAS vma_zero"
      "\<forall>va < KERNBASE. PGROUNDDOWN va \<noteq> 0 \<longrightarrow> \<not> present (phys s) (pgdir (procs s ! i)) va"
    using init_kern by blast
  have pg: "PGROUNDDOWN PGSIZE = PGSIZE" "PGSIZE \<noteq> 0" "PGSIZE < KERNBASE" by (simp_all add: PGROUNDDOWN_def PGSIZE_def KERNBASE_def)
  have np: "\<not> present (phys s) (pgdir (procs s ! i)) PGSIZE" using s(4) pg by simp
  have a: "vma_find (vmas (procs s ! i)) PGSIZE = None"
    unfolding vma_find_None s(3) by (simp add: in_vma_def vma_zero_def)
  obtain r s' where r: "ustore 2 s i PGSIZE 7 = Ret (r, s')" "r = None \<longrightarrow> killed (procs s' ! i)"
    using store_settles [OF s(1,2) pg(3), of 7] by (auto split: option.splits)
  have "user_store (phys s) (pgdir (procs s ! i)) PGSIZE 7 = None" using np by (simp add: user_store_def writable_def)
  then have "ustore 2 s i PGSIZE 7 = Ret (None, set_killed i s)"
    using ustore_killed [of s i PGSIZE 7 s 1] sys_slot [OF kern_invD(1) [OF s(1)] s(2)] np a not_in_kernel
    by (simp add: pgfault_simp area_def numeral_2_eq_2)
  then have "r = None" using r(1) by simp
  then show ?thesis using r s(1,2) by blast
qed

section \<open>Mappings\<close>

lemma vma_find_at:
  assumes "vma_find vs va = None" "i < length vs" "in_vma v va"
  shows "vma_find (vs[i := v]) va = Some i"
proof (cases "vma_find (vs[i := v]) va")
  case None
  then have "\<not> in_vma v va" using assms(2) set_update_memI [of i vs v] by (auto simp: vma_find_None)
  then show ?thesis using assms(3) by simp
next
  case (Some j)
  have j: "j < length vs" "in_vma (vs[i := v] ! j) va" using vma_find_Some [OF Some] by auto
  have "j = i"
  proof (rule ccontr)
    assume "j \<noteq> i"
    then have "in_vma (vs ! j) va" using j by simp
    then show False using assms(1) j(1) nth_mem [of j vs] by (auto simp: vma_find_None)
  qed
  then show ?thesis using Some by simp
qed

lemma same_page_user: "PGROUNDDOWN a = PGROUNDDOWN b \<Longrightarrow> b < KERNBASE \<Longrightarrow> a < KERNBASE"
  using PGROUNDDOWN_mono [of KERNBASE a] PGROUNDDOWN_le [of b] by (auto simp: aligned_def KERNBASE_def not_le [symmetric])

lemma store_demand:
  assumes inv: "sys_inv s" and c: "running s c" and nk: "\<not> killed (procs s ! c)" and va: "va < KERNBASE"
    and p: "\<not> present (phys s) (pgdir (procs s ! c)) va" "area s c va = Some a" "flag (vprot a) PROT_WRITE" and mem: "free_pages s 1025"
  defines "d \<equiv> pgdir (procs s ! c)"
  shows "\<exists>s2. ustore 2 s c va b = Ret (Some (), s2) \<and> sys_inv s2 \<and> procs s2 = procs s \<and> (\<forall>d' \<in> dirs s. \<forall>va'. user_load (phys s2) d' va' =
    (if d' = d \<and> va' = va then Some b
     else if d' = d \<and> PGROUNDDOWN va' = PGROUNDDOWN va then Some 0
     else user_load (phys s) d' va'))"
proof (rule pgfault_demand [OF inv c va p(1,2), folded d_def, of True True USER_CS])
  fix s1 assume s1: "pgfault s (Some c) (fault_code (phys s) d va True True) USER_CS va = Ret s1" "sys_inv s1" "procs s1 = procs s"
    "vm_frame s (dirs s) s1 (dirs s) {(d, PGROUNDDOWN va)} {}" "present (phys s1) d va" "flag (lookup (phys s1) d va) PTE_U"
    "flag (lookup (phys s1) d va) PTE_W \<longleftrightarrow> flag (vprot a) PROT_WRITE" "zero_page (phys s1) d (PGROUNDDOWN va)" "dirs s1 = dirs s"
  have c1: "running s1 c" using c s1(3) by (simp add: running_def)
  have st: "user_store (phys s) d va b = None" using p(1) by (simp add: user_store_def writable_def d_def)
  obtain m where m: "user_store (phys s1) d va b = Some m" using store_Some [of "phys s1" d va b] s1(5-7) p(3) va by (auto simp: writable_def)
  then have m': "user_store (phys s1) (pgdir (procs s1 ! c)) va b = Some m" using s1(3) by (simp add: d_def)
  have "ustore 2 s c va b = Ret (Some (), s1\<lparr>phys := m\<rparr>)"
    using ustore_fault [OF st [unfolded d_def] s1(1) [unfolded d_def], of 1] ustore_hit [OF m', of 1] nk s1(3) by (simp add: numeral_2_eq_2)
  moreover have "sys_inv (s1\<lparr>phys := m\<rparr>)" by (rule write_inv [OF s1(2) c1 user_storeD(1-3) [OF m']])
  moreover have "user_load m d' va' = (if d' = d \<and> va' = va then Some b
     else if d' = d \<and> PGROUNDDOWN va' = PGROUNDDOWN va then Some 0 else user_load (phys s) d' va')" if d': "d' \<in> dirs s" for d' va'
  proof -
    have "user_load (phys s1) d' va' = (if d' = d \<and> PGROUNDDOWN va' = PGROUNDDOWN va then Some 0 else user_load (phys s) d' va')"
    proof (cases "d' = d \<and> PGROUNDDOWN va' = PGROUNDDOWN va")
      case False
      then show ?thesis using frame_load [OF s1(4) d' d'] by auto
    next
      case True
      then have "lookup (phys s1) d' va' = lookup (phys s1) d va" using same_page_lookup [of va' va] by simp
      then show ?thesis using s1(5,6,8) True same_page_user [of va' va] va by (simp add: user_load_def present_def zero_page_def)
    qed
    then show ?thesis using user_load_store [OF s1(2) c1 m', of d' va'] d' s1(3,9) by (auto simp: d_def)
  qed
  ultimately show ?thesis using s1(3) by (intro exI [of _ "s1\<lparr>phys := m\<rparr>"]) simp
next
  fix s1 assume x: "vm_alloc_mmap_page s d (PGROUNDDOWN va) (vprot a) = Ret (-1, s1)"
  have "\<not> free_pages s 1025" using demand_room [OF sys_vm [OF inv] sys_dir [OF inv c] pages_for x [unfolded d_def]] by auto
  then show ?thesis using mem by simp
qed (use p(3) in simp)

text \<open>C19. \<^verbatim>\<open>mmap\<close> is lazy and its memory works. A call that succeeds returns the page-aligned end of
  the old address space, extends the address space by the length rounded up, and touches no memory.
  A later store into the new range succeeds, even though no page is there, if 1025 pages are free, no
  older mapping covers the address and no page was present there: afterwards the byte reads back,
  every other byte of its page reads zero, and no other memory has changed. The last two conditions are
  not checked by the code. They hold unless \<^verbatim>\<open>sbrk\<close> with a negative argument has moved the size of the
  process below a mapping that it still has.\<close>

theorem mmap_lazy:
  assumes inv: "kern_inv s" and c: "running s c" and nk: "\<not> killed (procs s ! c)"
    and m: "do_mmap n s c = Ret (Value v, s1)" "v \<noteq> -1"
    and va: "unat (PGROUNDUP (psz (procs s ! c))) \<le> unat va"
      "unat va < unat (PGROUNDUP (psz (procs s ! c))) + unat (PGROUNDUP (word_of_int n :: u32))"
    and new: "area s c va = None" "\<not> present (phys s) (pgdir (procs s ! c)) va" and mem: "free_pages s 1025"
  defines "d \<equiv> pgdir (procs s ! c)"
  shows "v = sint (PGROUNDUP (psz (procs s ! c))) \<and> phys s1 = phys s \<and>
    unat (psz (procs s1 ! c)) = unat (PGROUNDUP (psz (procs s ! c))) + unat (PGROUNDUP (word_of_int n :: u32)) \<and>
    (\<exists>s2. ustore 2 s1 c va b = Ret (Some (), s2) \<and> sys_inv s2 \<and> (\<forall>d' \<in> dirs s. \<forall>va'. user_load (phys s2) d' va' =
           (if d' = d \<and> va' = va then Some b
            else if d' = d \<and> PGROUNDDOWN va' = PGROUNDDOWN va then Some 0
            else user_load (phys s) d' va')))"
proof -
  let ?st = "PGROUNDUP (psz (procs s ! c))" and ?len = "PGROUNDUP (word_of_int n :: u32)"
  note I = kern_invD(1) [OF inv] and l = sys_slot [OF kern_invD(1) [OF inv] c]
  obtain i where i: "s1 = mmapped i ?st ?len c s" "i < MAX_VMAS" "v = sint ?st" "unat ?st + unat ?len \<le> unat KERNBASE"
    by (rule mmap_cases [OF I c, of n]) (use m in auto)
  let ?v = "\<lparr>vstart = ?st, vlength = ?len, vprot = PROT_READ OR PROT_WRITE, vused = True\<rparr>"
  have k1: "kern_inv s1" using mmap_safe [OF inv c m(1)] by blast
  have p1: "procs s1 ! c = (procs s ! c)\<lparr>vmas := (vmas (procs s ! c))[i := ?v], psz := ?st + ?len\<rparr>" and ph: "phys s1 = phys s"
    using l by (simp_all add: i(1) mmapped_def)
  have c1: "running s1 c" using c by (simp add: running_def p1)
  have lv: "length (vmas (procs s ! c)) = MAX_VMAS" using I c proc_invD(7) [of s c] by (auto simp: sys_inv_def running_def proc_ok_def)
  have "in_vma ?v va" using va by (simp add: in_vma_def)
  then have ar: "area s1 c va = Some ?v"
    using vma_find_at [of "vmas (procs s ! c)" va i ?v] new(1) i(2) lv by (simp add: area_def p1)
  have vk: "va < KERNBASE" using va(2) i(4) by (simp add: word_less_nat_alt)
  have "map key (procs s1) = map key (procs s)"
    using l by (simp add: i(1) mmapped_def map_update key_def used_def list_update_same_conv)
  then have d1: "dirs s1 = dirs s" using key_images(1) [of "procs s1" "procs s"] by (simp add: dirs_def i(1) mmapped_def)
  have fp: "free_pages s1 1025" using mem mcore_cong(4) [of s1 s] by (simp add: i(1) mmapped_def)
  have "unat (psz (procs s1 ! c)) = unat ?st + unat ?len" using range_end(1) [OF i(4)] by (simp add: p1)
  moreover have "\<exists>s2. ustore 2 s1 c va b = Ret (Some (), s2) \<and> sys_inv s2 \<and> (\<forall>d' \<in> dirs s. \<forall>va'. user_load (phys s2) d' va' =
           (if d' = d \<and> va' = va then Some b else if d' = d \<and> PGROUNDDOWN va' = PGROUNDDOWN va then Some 0
            else user_load (phys s) d' va'))"
    using store_demand [OF kern_invD(1) [OF k1] c1 _ vk _ ar _ fp, of b] nk new(2) by (auto simp: p1 ph d1 d_def flag_def PROT_READ_def PROT_WRITE_def)
  ultimately show ?thesis using i(3) ph by simp
qed

text \<open>A process that has mapped one page, which it has not touched.\<close>

lemma init_mapped:
  "\<exists>(s :: kern) c. kern_inv s \<and> running s c \<and> \<not> killed (procs s ! c) \<and> free_pages s 2000 \<and> psz (procs s ! c) = PGSIZE \<and>
     do_mmap 4096 s c = Ret (Value 4096, mmapped 0 PGSIZE PGSIZE c s) \<and> (\<forall>va. area s c va = None) \<and>
     vmas (procs s ! c) = replicate MAX_VMAS vma_zero \<and>
     (\<forall>va < KERNBASE. PGROUNDDOWN va \<noteq> 0 \<longrightarrow> \<not> present (phys s) (pgdir (procs s ! c)) va)"
proof -
  obtain s :: kern and c where s: "kern_inv s" "running s c" "\<not> killed (procs s ! c)" "free_pages s 2000" "psz (procs s ! c) = PGSIZE"
      "vmas (procs s ! c) = replicate MAX_VMAS vma_zero"
      "\<forall>va < KERNBASE. PGROUNDDOWN va \<noteq> 0 \<longrightarrow> \<not> present (phys s) (pgdir (procs s ! c)) va"
    using init_kern by blast
  have "vma_find (vmas (procs s ! c)) va = None" for va
    unfolding vma_find_None s(6) by (simp add: in_vma_def vma_zero_def)
  then have "\<forall>va. area s c va = None" by (simp add: area_def)
  moreover have "do_mmap 4096 s c = Ret (Value 4096, mmapped 0 PGSIZE PGSIZE c s)"
  proof -
    have "first_from (\<lambda>v. \<not> vused v) (vmas (procs s ! c)) 0 = Some 0" unfolding s(6)
      by (simp add: MAX_VMAS_def vma_zero_def numeral_eq_Suc)
    moreover have "PGROUNDUP PGSIZE = PGSIZE" "PGROUNDUP 4096 = PGSIZE" "sint PGSIZE = 4096" "PGSIZE \<noteq> 0" "PGSIZE < KERNBASE"
        "PGSIZE \<le> KERNBASE - PGSIZE"
      by (simp_all add: PGROUNDUP_def PGSIZE_def KERNBASE_def)
    ultimately show ?thesis by (simp add: do_mmap_def Let_def mmapped_def s(5) not_le not_less)
  qed
  ultimately show ?thesis using s by blast
qed

theorem mmap_lazy_witness:
  "\<exists>(s :: kern) c s1 s2. kern_inv s \<and> running s c \<and> do_mmap 4096 s c = Ret (Value 4096, s1) \<and>
     ustore 2 s1 c (PGSIZE + 1) 7 = Ret (Some (), s2) \<and> user_load (phys s2) (pgdir (procs s ! c)) (PGSIZE + 1) = Some 7 \<and>
     user_load (phys s2) (pgdir (procs s ! c)) PGSIZE = Some 0"
proof -
  obtain s :: kern and c where s: "kern_inv s" "running s c" "\<not> killed (procs s ! c)" "free_pages s 2000" "psz (procs s ! c) = PGSIZE"
      "do_mmap 4096 s c = Ret (Value 4096, mmapped 0 PGSIZE PGSIZE c s)" "\<forall>va. area s c va = None"
      "\<forall>va < KERNBASE. PGROUNDDOWN va \<noteq> 0 \<longrightarrow> \<not> present (phys s) (pgdir (procs s ! c)) va"
    using init_mapped by blast
  have n: "PGROUNDUP PGSIZE = PGSIZE" "unat PGSIZE = 4096" "unat (PGSIZE + 1) = 4097" "PGROUNDUP (word_of_int 4096) = PGSIZE"
      "PGSIZE + 1 < KERNBASE" "PGROUNDDOWN (PGSIZE + 1) = PGSIZE" "PGROUNDDOWN PGSIZE = PGSIZE" "PGSIZE \<noteq> 0"
    by (simp_all add: PGROUNDUP_def PGROUNDDOWN_def PGSIZE_def KERNBASE_def)
  have np: "\<not> present (phys s) (pgdir (procs s ! c)) (PGSIZE + 1)" using s(8) n by simp
  have fp: "free_pages s 1025" using free_pages_mono [OF s(4)] by simp
  have d: "pgdir (procs s ! c) \<in> dirs s" by (rule sys_dir [OF kern_invD(1) [OF s(1)] s(2)])
  obtain s2 where s2: "ustore 2 (mmapped 0 PGSIZE PGSIZE c s) c (PGSIZE + 1) 7 = Ret (Some (), s2)"
      "\<forall>d' \<in> dirs s. \<forall>va'. user_load (phys s2) d' va' =
         (if d' = pgdir (procs s ! c) \<and> va' = PGSIZE + 1 then Some 7
          else if d' = pgdir (procs s ! c) \<and> PGROUNDDOWN va' = PGROUNDDOWN (PGSIZE + 1) then Some 0
          else user_load (phys s) d' va')"
    using mmap_lazy [OF s(1-3,6) _ _ _ _ np fp, of 7] s(5,7) n by auto
  have "user_load (phys s2) (pgdir (procs s ! c)) (PGSIZE + 1) = Some 7" "user_load (phys s2) (pgdir (procs s ! c)) PGSIZE = Some 0"
    using s2(2) d n by simp_all
  then show ?thesis using s2(1) s(1,2,6) by blast
qed
text \<open>An address without a page and without an area: a store there ends the process.\<close>

lemma unmapped_store:
  assumes inv: "kern_inv s" and c: "running s c" and np: "\<not> present (phys s) (pgdir (procs s ! c)) va" and a: "area s c va = None"
  shows "\<exists>s'. ustore 2 s c va b = Ret (None, s') \<and> killed (procs s' ! c)"
proof -
  have "user_store (phys s) (pgdir (procs s ! c)) va b = None" using np by (simp add: user_store_def writable_def)
  then have "ustore 2 s c va b = Ret (None, set_killed c s)"
    using ustore_killed [of s c va b s 1] sys_slot [OF kern_invD(1) [OF inv] c] np a not_in_kernel
    by (simp add: pgfault_simp area_def numeral_2_eq_2)
  then show ?thesis using sys_slot [OF kern_invD(1) [OF inv] c] by (simp add: set_killed_def)
qed

lemma areas_length: "sys_inv s \<Longrightarrow> running s c \<Longrightarrow> length (vmas (procs s ! c)) = MAX_VMAS"
  using proc_invD(7) [of s c] by (auto simp: sys_inv_def running_def proc_ok_def)

lemma area_reset:
  assumes "vmas (procs s' ! c) = vs[i := vma_zero]" "length vs = MAX_VMAS" "\<forall>j < MAX_VMAS. j \<noteq> i \<longrightarrow> \<not> in_vma (vs ! j) va"
  shows "area s' c va = None"
proof -
  have "\<not> in_vma (vs[i := vma_zero] ! j) va" if "j < MAX_VMAS" for j
    using that assms(2,3) by (cases "j = i") (auto simp: in_vma_def vma_zero_def)
  then have "vma_find (vs[i := vma_zero]) va = None" using assms(2) by (auto simp: vma_find_None in_set_conv_nth)
  then show ?thesis by (simp add: area_def assms(1))
qed

text \<open>C20. \<^verbatim>\<open>munmap\<close> of a mapping removes exactly that mapping: its entry in the table of areas is cleared and
  nothing else of the process changes; no address of it can be read, and a store to one that no other
  area covers ends the process. Every other address of the process reads as before, and the memory of the
  other processes and the kernel's invariant are untouched.\<close>

theorem munmap_exact:
  assumes inv: "kern_inv s" and c: "running s c" and r: "do_munmap addr n s c = Ret (Value 0, s')"
  defines "d \<equiv> pgdir (procs s ! c)"
  shows "kern_inv s' \<and> isolated c s s' \<and> psz (procs s' ! c) = psz (procs s ! c) \<and>
    (\<forall>va. user_load (phys s') d va =
       (if addr \<le> va \<and> va < addr + PGROUNDUP (word_of_int n) then None else user_load (phys s) d va)) \<and>
    (\<exists>i. named_area s c addr n = Some i \<and> procs s' ! c = (procs s ! c)\<lparr>vmas := (vmas (procs s ! c))[i := vma_zero]\<rparr> \<and>
       (\<forall>va. addr \<le> va \<longrightarrow> va < addr + PGROUNDUP (word_of_int n) \<longrightarrow>
          (\<forall>j < MAX_VMAS. j \<noteq> i \<longrightarrow> \<not> in_vma (vmas (procs s ! c) ! j) va) \<longrightarrow>
          area s' c va = None \<and> (\<forall>b. \<exists>s''. ustore 2 s' c va b = Ret (None, s'') \<and> killed (procs s'' ! c))))"
proof (rule munmap_cases [OF inv c, of addr n])
  fix i t assume t: "named_area s c addr n = Some i" "do_munmap addr n s c = Ret (Value 0, unmapped i c t)" "sys_inv t" "moved c s t"
    "vm_frame s (dirs s) t (dirs s) (pages (pgdir (procs s ! c)) addr (addr + PGROUNDUP (word_of_int n))) {}"
    "\<forall>va. addr \<le> va \<longrightarrow> va < addr + PGROUNDUP (word_of_int n) \<longrightarrow> \<not> present (phys t) (pgdir (procs s ! c)) va"
  let ?len = "PGROUNDUP (word_of_int n) :: u32"
  have s': "s' = unmapped i c t" using r t(2) by simp
  have D: "d \<in> dirs s" unfolding d_def by (rule sys_dir [OF kern_invD(1) [OF inv] c])
  note na = named_area_Some [OF t(1)]
  note v = area_nth [OF inv c na(1,2), unfolded na(3,4)]
  have al: "aligned (addr + ?len)" using v(1,2) by (rule aligned_add)
  have "user_load (phys t) d va = (if addr \<le> va \<and> va < addr + ?len then None else user_load (phys s) d va)" for va
  proof (cases "addr \<le> va \<and> va < addr + ?len")
    case True
    then show ?thesis using t(6) by (simp add: user_load_def d_def)
  next
    case False
    have "(d, PGROUNDDOWN va) \<notin> pages d addr (addr + ?len)"
    proof
      assume "(d, PGROUNDDOWN va) \<in> pages d addr (addr + ?len)"
      then have p: "addr \<le> PGROUNDDOWN va" "PGROUNDDOWN va < addr + ?len" by (auto simp: pages_def)
      then have "addr \<le> va" using PGROUNDDOWN_le [of va] by simp
      moreover have "va < addr + ?len" using p(2) PGROUNDDOWN_mono [OF al, of va] by (meson not_le)
      ultimately show False using False by simp
    qed
    then show ?thesis using frame_load [OF t(5) D D] False by (auto simp: d_def)
  qed
  moreover have ph: "phys s' = phys t" by (simp add: s' unmapped_def)
  moreover have "procs t = procs s" using t(4) by (simp add: moved_def)
  then have p: "procs s' ! c = (procs s ! c)\<lparr>vmas := (vmas (procs s ! c))[i := vma_zero]\<rparr>"
    using sys_slot [OF kern_invD(1) [OF inv] c] by (simp add: s' unmapped_def)
  moreover have "area s' c va = None \<and> (\<forall>b. \<exists>s''. ustore 2 s' c va b = Ret (None, s'') \<and> killed (procs s'' ! c))"
    if va: "addr \<le> va" "va < addr + ?len" and o: "\<forall>j < MAX_VMAS. j \<noteq> i \<longrightarrow> \<not> in_vma (vmas (procs s ! c) ! j) va" for va
  proof -
    have np: "\<not> present (phys s') (pgdir (procs s' ! c)) va" using t(6) va by (simp add: p ph)
    have a: "area s' c va = None" by (rule area_reset [OF _ areas_length [OF kern_invD(1) [OF inv] c] o]) (simp add: p)
    show ?thesis using unmapped_store [OF munmap_safe [OF inv c r, THEN conjunct1] _ np a] c by (auto simp: a running_def p)
  qed
  ultimately show ?thesis using munmap_safe [OF inv c r] t(1) by auto
qed (use r in simp)
text \<open>A process with one mapping, of one page, untouched.\<close>

lemma init_mapping:
  "\<exists>(s :: kern) c. kern_inv s \<and> running s c \<and> \<not> killed (procs s ! c) \<and> free_pages s 2000 \<and> psz (procs s ! c) = 2 * PGSIZE \<and>
     vmas (procs s ! c) = (replicate MAX_VMAS vma_zero)[0 := \<lparr>vstart = PGSIZE, vlength = PGSIZE, vprot = PROT_READ OR PROT_WRITE, vused = True\<rparr>] \<and>
     named_area s c PGSIZE 4096 = Some 0 \<and> \<not> present (phys s) (pgdir (procs s ! c)) PGSIZE"
proof -
  obtain s :: kern and c where s: "kern_inv s" "running s c" "\<not> killed (procs s ! c)" "free_pages s 2000" "psz (procs s ! c) = PGSIZE"
      "do_mmap 4096 s c = Ret (Value 4096, mmapped 0 PGSIZE PGSIZE c s)" "vmas (procs s ! c) = replicate MAX_VMAS vma_zero"
      "\<forall>va < KERNBASE. PGROUNDDOWN va \<noteq> 0 \<longrightarrow> \<not> present (phys s) (pgdir (procs s ! c)) va"
    using init_mapped by blast
  let ?s = "mmapped 0 PGSIZE PGSIZE c s"
  note l = sys_slot [OF kern_invD(1) [OF s(1)] s(2)]
  have n: "PGROUNDUP 4096 = PGSIZE" "PGROUNDDOWN PGSIZE = PGSIZE" "PGSIZE \<noteq> 0" "PGSIZE < KERNBASE" "PGSIZE mod PGSIZE = 0"
    by (simp_all add: PGROUNDUP_def PGROUNDDOWN_def PGSIZE_def KERNBASE_def)
  have k: "kern_inv ?s" using mmap_safe [OF s(1,2,6)] by blast
  have p: "procs ?s ! c = (procs s ! c)\<lparr>vmas := (vmas (procs s ! c))[0 :=
      \<lparr>vstart = PGSIZE, vlength = PGSIZE, vprot = PROT_READ OR PROT_WRITE, vused = True\<rparr>], psz := PGSIZE + PGSIZE\<rparr>" "phys ?s = phys s"
    using l by (simp_all add: mmapped_def)
  have "replicate MAX_VMAS vma_zero = vma_zero # replicate (MAX_VMAS - 1) vma_zero" by (simp add: MAX_VMAS_def numeral_eq_Suc)
  then have "named_area ?s c PGSIZE 4096 = Some 0"
    by (simp add: named_area_def p s(7) n Let_def vma_find_exact_def)
  moreover have "free_pages ?s 2000" using s(4) mcore_cong(4) [of ?s s] by (simp add: mmapped_def)
  moreover have "\<not> present (phys ?s) (pgdir (procs ?s ! c)) PGSIZE" using s(8) n by (simp add: p)
  ultimately show ?thesis using k s(2,3,7) p by (intro exI [of _ ?s] exI [of _ c]) (simp add: running_def)
qed

lemma init_unmapped:
  "\<exists>(s :: kern) c s'. kern_inv s \<and> running s c \<and> do_munmap PGSIZE 4096 s c = Ret (Value 0, s') \<and> running s' c \<and>
     vmas (procs s' ! c) = replicate MAX_VMAS vma_zero \<and> psz (procs s' ! c) = 2 * PGSIZE"
proof -
  obtain s :: kern and c where s: "kern_inv s" "running s c" "named_area s c PGSIZE 4096 = Some 0" "psz (procs s ! c) = 2 * PGSIZE"
    "vmas (procs s ! c) = (replicate MAX_VMAS vma_zero)[0 := \<lparr>vstart = PGSIZE, vlength = PGSIZE, vprot = PROT_READ OR PROT_WRITE, vused = True\<rparr>]"
    using init_mapping by blast
  show ?thesis
  proof (rule munmap_cases [OF s(1,2), of PGSIZE 4096])
    fix i t assume t: "named_area s c PGSIZE 4096 = Some i" "do_munmap PGSIZE 4096 s c = Ret (Value 0, unmapped i c t)" "moved c s t"
    have i: "i = 0" using t(1) s(3) by simp
    have p: "procs t = procs s" using t(3) by (simp add: moved_def)
    have "procs (unmapped i c t) ! c = (procs s ! c)\<lparr>vmas := (vmas (procs s ! c))[i := vma_zero]\<rparr>"
      using sys_slot [OF kern_invD(1) [OF s(1)] s(2)] by (simp add: unmapped_def p)
    then have "running (unmapped i c t) c" "vmas (procs (unmapped i c t) ! c) = replicate MAX_VMAS vma_zero"
      "psz (procs (unmapped i c t) ! c) = 2 * PGSIZE"
      using s(2,4,5) by (simp_all add: running_def i list_update_same_conv MAX_VMAS_def)
    then show ?thesis using s(1,2) t(2) by blast
  qed (use s(3) in simp)
qed

theorem munmap_exact_witness:
  "\<exists>(s :: kern) c s'. kern_inv s \<and> running s c \<and> do_munmap PGSIZE 4096 s c = Ret (Value 0, s') \<and> kern_inv s' \<and>
     user_load (phys s') (pgdir (procs s ! c)) PGSIZE = None"
proof -
  obtain s :: kern and c s' where s: "kern_inv s" "running s c" "do_munmap PGSIZE 4096 s c = Ret (Value 0, s')" using init_unmapped by blast
  have "PGSIZE < PGSIZE + PGROUNDUP (word_of_int 4096)" by (simp add: PGSIZE_def PGROUNDUP_def)
  then have "kern_inv s' \<and> user_load (phys s') (pgdir (procs s ! c)) PGSIZE = None" using munmap_exact [OF s] by simp
  then show ?thesis using s by blast
qed

text \<open>C23. The system call interface checks an argument's address against the size of the process only, and
  \<^verbatim>\<open>munmap\<close> leaves a hole below that size. When a process passes an address in the hole (here: the
  stack pointer, or any pointer that fetchint follows), the kernel's own access faults, finds no
  mapping, and panics: a user program can stop the machine.\<close>

theorem munmap_hole_panics:
  assumes inv: "kern_inv s" and c: "running s c" and r: "do_munmap addr n s c = Ret (Value 0, s')"
    and a: "addr \<le> a" "a < addr + PGROUNDUP (word_of_int n)" "area s' c a = None" and sz: "a + 4 \<le> psz (procs s' ! c)" "a < psz (procs s' ! c)"
  shows "fetchint s' c a = Panic ''page fault''"
proof (rule munmap_cases [OF inv c, of addr n])
  fix i t assume t: "do_munmap addr n s c = Ret (Value 0, unmapped i c t)" "moved c s t"
    "\<forall>va. addr \<le> va \<longrightarrow> va < addr + PGROUNDUP (word_of_int n) \<longrightarrow> \<not> present (phys t) (pgdir (procs s ! c)) va"
  have s': "s' = unmapped i c t" using r t(1) by simp
  have "procs t = procs s" using t(2) by (simp add: moved_def)
  then have "pgdir (procs s' ! c) = pgdir (procs s ! c)" "phys s' = phys t"
    using sys_slot [OF kern_invD(1) [OF inv] c] by (simp_all add: s' unmapped_def)
  then have "\<not> present (phys s') (pgdir (procs s' ! c)) a" using t(3) a by simp
  then have "kuload s' c a = Panic ''page fault''"
    using a(3) by (simp add: kuload_def Let_def pgfault_simp in_kernel_def KERNEL_CS_def)
  then show ?thesis using sz by (simp add: fetchint_def numeral_eq_Suc not_le not_less)
qed (use r in simp)

theorem munmap_hole_panics_witness:
  "\<exists>(s :: kern) c s'. kern_inv s \<and> running s c \<and> do_munmap PGSIZE 4096 s c = Ret (Value 0, s') \<and> fetchint s' c PGSIZE = Panic ''page fault''"
proof -
  obtain s :: kern and c s' where s: "kern_inv s" "running s c" "do_munmap PGSIZE 4096 s c = Ret (Value 0, s')"
      "vmas (procs s' ! c) = replicate MAX_VMAS vma_zero" "psz (procs s' ! c) = 2 * PGSIZE"
    using init_unmapped by blast
  have "vma_find (vmas (procs s' ! c)) PGSIZE = None" unfolding vma_find_None s(4) by (simp add: in_vma_def vma_zero_def)
  then have a: "area s' c PGSIZE = None" by (simp add: area_def)
  have "fetchint s' c PGSIZE = Panic ''page fault''"
    by (rule munmap_hole_panics [OF s(1-3) _ _ a]) (simp_all add: s(5) PGSIZE_def PGROUNDUP_def)
  then show ?thesis using s by blast
qed
section \<open>Checks on arguments\<close>

text \<open>C21. A block that \<^verbatim>\<open>argptr\<close> accepts lies inside the address space of the process: the sum of the
  start and the length, computed on 32 bits by the code, does not wrap around, and the block ends
  at or below the size of the process, which is at most KERNBASE.\<close>

theorem argptr_bounds:
  assumes inv: "kern_inv s" and c: "running s c" and n: "len < 2 ^ 31" and r: "argptr s c k len = Ret (Some p, s')"
  shows "0 \<le> len \<and> unat p + nat len \<le> unat (psz (procs s' ! c)) \<and> psz (procs s' ! c) \<le> KERNBASE \<and>
    kern_inv s' \<and> isolated c s s'"
proof -
  obtain i where i: "argint s c k = Ret (i, s')"
    using r by (auto simp: argptr_def rbind_eq_Ret split: option.splits if_splits)
  have m: "sys_inv s' \<and> moved c s s'" by (rule argint_moved [OF kern_invD(1) [OF inv] c i])
  have p: "procs s' = procs s" using m by (simp add: moved_def)
  have b: "0 \<le> len" "p < psz (procs s' ! c)" "p + word_of_int len \<le> psz (procs s' ! c)"
    using r i by (auto simp: argptr_def rbind_eq_Ret not_less not_le split: option.splits if_splits)
  have z: "psz (procs s' ! c) \<le> KERNBASE" using sys_psz [OF kern_invD(1) [OF inv] c] by (simp add: p)
  have u: "unat (word_of_int len :: u32) = nat len" using n b(1) by (simp add: unsigned_of_int take_bit_int_eq_self)
  have "unat p < 2147483648" using b(2) z by (simp add: word_less_nat_alt word_le_nat_alt KERNBASE_def)
  then have "unat (p + word_of_int len) = unat p + nat len"
    using n b(1) unat_add_no_wrap [of p "word_of_int len"] by (simp add: u)
  then show ?thesis using b z kern_moved [OF inv c] m by (simp add: word_le_nat_alt)
qed

text \<open>C22. Time in \<^verbatim>\<open>sleep\<close> is counted modulo 2^32, and the wrap-around of the tick counter does no harm:
  after k ticks (for every k below 2^32, wherever the counter started) a sleeper for n ticks
  returns exactly when n is at most k as an unsigned number. In particular, a negative argument
  is a sleep of more than 2^31 ticks.\<close>

theorem sleep_ticks:
  assumes "ticks s = t0 + of_nat k" "k < 2 ^ 32" "\<not> killed (procs s ! c)"
  shows "sleep_pass t0 n s c = (if unat n \<le> k then Ret (Value 0, s) else Ret (Sleeps, sleep_on c TicksChan s))"
proof -
  have "unat (of_nat k :: u32) = k" using assms(2) by (simp add: unsigned_of_nat take_bit_nat_eq_self)
  then have "ticks s - t0 < n \<longleftrightarrow> k < unat n" using assms(1) by (simp add: word_less_nat_alt)
  then show ?thesis using assms(3) by (simp add: sleep_pass_def)
qed

text \<open>C25. The kernel stores into user memory (the results of read, fstat and pipe) with the
  processor's write protection on. If the address is in a mapping that \<^verbatim>\<open>mprotect\<close> made read-only, the
  fault handler marks the process killed and returns to the instruction, which faults again: the
  handler changes nothing any more, the page is never writable, and the system call never ends.\<close>

theorem kernel_store_livelock:
  assumes inv: "kern_inv s" and c: "running s c" and a: "read_only (area s c va)" "\<not> writable (phys s) (pgdir (procs s ! c)) va"
  defines "d \<equiv> pgdir (procs s ! c)"
  shows "kustore s c va b = Refault \<and>
    pgfault s (Some c) (fault_code (phys s) d va True False) KERNEL_CS va = Ret (set_killed c s) \<and>
    pgfault (set_killed c s) (Some c) (fault_code (phys s) d va True False) KERNEL_CS va = Ret (set_killed c s) \<and>
    \<not> writable (phys (set_killed c s)) d va"
proof -
  note l = sys_slot [OF kern_invD(1) [OF inv] c]
  let ?k = "set_killed c s"
  have e: "procs ?k ! c = (procs s ! c)\<lparr>killed := True\<rparr>" "phys ?k = phys s" using l by simp_all
  have ar: "area ?k c va = area s c va" using l by (simp add: area_def)
  have kk: "set_killed c ?k = ?k" using l by (simp add: set_killed_def setproc_def)
  obtain v where v: "area s c va = Some v" using a(1) by (auto simp: read_only_def split: option.splits)
  have f: "pgfault s (Some c) (fault_code (phys s) d va True False) KERNEL_CS va = Ret ?k"
    using a(1) v by (auto simp: pgfault_simp)
  have "pgfault ?k (Some c) (fault_code (phys ?k) d va True False) KERNEL_CS va = Ret (set_killed c ?k)"
    unfolding pgfault_simp using a(1) v ar by auto
  then have g: "pgfault ?k (Some c) (fault_code (phys s) d va True False) KERNEL_CS va = Ret ?k" by (simp only: kk e(2))
  have "kustore s c va b = Refault" using a(2) f e by (simp add: kustore_def Let_def d_def)
  then show ?thesis using f g a(2) e by (simp add: d_def)
qed

section \<open>Growing over a mapping\<close>

text \<open>C24. \<^verbatim>\<open>sbrk\<close> can move the end of a process down below a mapping, which stays usable. If the process
  touches it and grows again, the new heap page collides with the mapped one and the kernel panics
  with "remap" instead of refusing the call.\<close>

theorem sbrk_remap_panics:
  assumes inv: "kern_inv s" and c: "running s c" and n: "0 < n" "n < 2 ^ 31" "psz (procs s ! c) + word_of_int n < KERNBASE"
    and p: "PGROUNDUP (psz (procs s ! c)) < psz (procs s ! c) + word_of_int n"
      "present (phys s) (pgdir (procs s ! c)) (PGROUNDUP (psz (procs s ! c)))"
    and mem: "free_pages s 1"
  shows "do_sbrk n s c = Panic ''remap''"
proof -
  let ?d = "pgdir (procs s ! c)" and ?sz = "psz (procs s ! c)" and ?new = "psz (procs s ! c) + word_of_int n"
  note I = kern_invD(1) [OF inv]
  have z: "?sz \<le> KERNBASE" by (rule sys_psz [OF I c])
  have "unat (word_of_int n :: u32) = nat n" using n by (simp add: unsigned_of_int take_bit_int_eq_self)
  moreover have "unat ?sz \<le> 2147483648" using z by (simp add: word_le_nat_alt KERNBASE_def)
  ultimately have "unat ?new = unat ?sz + nat n" using n unat_add_no_wrap [of ?sz "word_of_int n"] by simp
  then have le: "?sz \<le> ?new" by (simp add: word_le_nat_alt)
  obtain xs where xs: "kmem_rel s xs" "1 \<le> length xs" using mem by (auto simp: free_pages_def)
  have nk: "kalloc s \<noteq> Ret (0, s)"
  proof (cases xs)
    case (Cons x ys)
    have "x \<noteq> 0" using xs(1) Cons by (auto simp: kmem_rel_def)
    then show ?thesis using kalloc_Cons [of s x ys] xs(1) Cons by auto
  qed (use xs(2) in simp)
  have ak: "PGROUNDUP ?sz < KERNBASE" using p(1) n(3) by simp
  have "allocuvm_step ?d ?sz ?new (PGROUNDUP ?sz) s = Panic ''remap''"
    using allocuvm_step_present [OF sys_vm [OF I] sys_dir [OF I c] roundup_aligned ak p(2) le n(3)] nk by blast
  then have "allocuvm s ?d ?sz ?new = Panic ''remap''"
    using n(3) le p(1) by (simp add: allocuvm_def page_loop.simps not_le not_less)
  then show ?thesis using n(1) by (simp add: do_sbrk_def growproc_def Let_def)
qed
lemma touch:
  assumes inv: "sys_inv s" and c: "running s c" and nk: "\<not> killed (procs s ! c)" and va: "va < KERNBASE"
    and p: "\<not> present (phys s) (pgdir (procs s ! c)) va" "area s c va = Some a" and mem: "free_pages s (1025 + k)"
  defines "d \<equiv> pgdir (procs s ! c)"
  shows "\<exists>s1. uload 1 s c va = Ret (Some 0, s1) \<and> sys_inv s1 \<and> procs s1 = procs s \<and> room s1 d k \<and> dirs s1 = dirs s \<and> moved c s s1 \<and>
    (\<forall>va'. PGROUNDDOWN va' = PGROUNDDOWN va \<longrightarrow> user_load (phys s1) d va' = Some 0)"
proof -
  have r: "room s d (Suc k)"
    using mem card_missing [of "phys s" d] unfolding room_def free_pages_def by auto
  show ?thesis
  proof (rule pgfault_demand [OF inv c va p, folded d_def, of False True USER_CS])
    fix s1 assume s1: "pgfault s (Some c) (fault_code (phys s) d va False True) USER_CS va = Ret s1" "sys_inv s1" "procs s1 = procs s"
      "vm_frame s (dirs s) s1 (dirs s) {(d, PGROUNDDOWN va)} {}" "present (phys s1) d va" "flag (lookup (phys s1) d va) PTE_U"
      "zero_page (phys s1) d (PGROUNDDOWN va)" "dirs s1 = dirs s"
    obtain x t where t: "vm_alloc_mmap_page s d (PGROUNDDOWN va) (vprot a) = Ret (x, t)" "(if x < 0 then Ret (set_killed c t) else Ret t) = Ret s1"
      using s1(1) p by (auto simp: pgfault_simp d_def rbind_eq_Ret)
    have "x = 0 \<and> room t d k" by (rule demand_room [OF sys_vm [OF inv] sys_dir [OF inv c, folded d_def] r t(1)])
    then have rm: "room s1 d k" using t(2) by simp
    have ld: "user_load (phys s1) d va' = Some 0" if "PGROUNDDOWN va' = PGROUNDDOWN va" for va'
      using that s1(5-7) same_page_lookup [of va' va] same_page_user [of va' va] va by (simp add: user_load_def present_def zero_page_def)
    have "uload 0 s1 c va = Ret (Some 0, s1)" using ld [of va] s1(3) by (subst uload.simps) (simp add: d_def)
    moreover have "user_load (phys s) d va = None" using p(1) by (simp add: user_load_def d_def)
    ultimately have "uload 1 s c va = Ret (Some 0, s1)" using s1(1,3) nk by (subst uload.simps) (simp add: d_def)
    then show ?thesis using s1 rm ld moved_paged [OF paged_in_demand [OF s1(4) p(1) [folded d_def] s1(5-7), unfolded d_def] s1(3,8)] by blast
  next
    fix s1 assume x: "vm_alloc_mmap_page s d (PGROUNDDOWN va) (vprot a) = Ret (-1, s1)"
    show ?thesis using demand_room [OF sys_vm [OF inv] sys_dir [OF inv c, folded d_def] r x] by simp
  qed simp
qed

lemma shrink_one:
  assumes inv: "kern_inv s" and c: "running s c" and z: "psz (procs s ! c) = 2 * PGSIZE"
    and np: "\<not> present (phys s) (pgdir (procs s ! c)) PGSIZE"
  shows "\<exists>s'. do_sbrk (-4096) s c = Ret (Value 8192, s') \<and> kern_inv s' \<and> running s' c \<and>
    procs s' ! c = (procs s ! c)\<lparr>psz := PGSIZE\<rparr> \<and> phys s' = phys s \<and> (\<forall>n. free_pages s n \<longrightarrow> free_pages s' n)"
proof -
  let ?d = "pgdir (procs s ! c)" and ?t = "setproc c (\<lambda>p. p\<lparr>psz := PGSIZE\<rparr>) s"
  note I = kern_invD(1) [OF inv] and l = sys_slot [OF kern_invD(1) [OF inv] c]
  have n: "2 * PGSIZE + word_of_int (-4096) = PGSIZE" "\<not> PGSIZE \<ge> 2 * PGSIZE" "PGROUNDUP PGSIZE = PGSIZE" "PGSIZE < 2 * PGSIZE"
      "\<not> PGSIZE + PGSIZE \<le> PGSIZE" "PGSIZE + PGSIZE = 2 * PGSIZE" "PGSIZE \<noteq> 0" "sint (2 * PGSIZE) = 8192"
    by (simp_all add: PGSIZE_def PGROUNDUP_def)
  have b: "PGADDR (PDX PGSIZE + 1) 0 0 = 0x400000" "(0x400000 :: u32) - PGSIZE + PGSIZE = 0x400000"
      "\<not> (0x400000 :: u32) \<le> PGSIZE" "\<not> (0x400000 :: u32) < 2 * PGSIZE"
    by (simp_all add: PGSIZE_def PGADDR_def PDX_def)
  have lp: "deallocuvm_loop s ?d PGSIZE (2 * PGSIZE) = Ret s"
  proof (rule walk_find [OF sys_vm [OF I] sys_dir [OF I c], of PGSIZE])
    fix p assume p: "walkpgdir s ?d PGSIZE False = Ret (p, s)" "p = 0"
    have "deallocuvm_loop s ?d 0x400000 (2 * PGSIZE) = Ret s" using b by (subst deallocuvm_loop.simps) simp
    then show ?thesis using p b n by (subst deallocuvm_loop.simps) (simp add: Let_def)
  next
    fix p assume p: "walkpgdir s ?d PGSIZE False = Ret (p, s)" "p \<noteq> 0" "kload s p = lookup (phys s) ?d PGSIZE"
    have "deallocuvm_loop s ?d (2 * PGSIZE) (2 * PGSIZE) = Ret s" by (subst deallocuvm_loop.simps) simp
    then show ?thesis using p n np by (subst deallocuvm_loop.simps) (simp add: present_def)
  qed
  have k: "kstack (procs s ! c) \<noteq> 0" "?d \<noteq> 0"
  proof -
    have pi: "proc_inv s" and cu: "c < NPROC" "used (procs s ! c)" using I c by (auto simp: sys_inv_def running_def used_def)
    show "kstack (procs s ! c) \<noteq> 0" by (rule used_stack(4) [OF pi cu])
    show "?d \<noteq> 0" by (rule kpage_nonzero [OF tables_ok_D(2) [OF vm_invD(2) [OF proc_invD(4) [OF pi]] used_dir [OF pi cu]]])
  qed
  have g: "growproc s c (-4096) = Ret (0, lcr3 ?t (V2P ?d))"
    using n lp k l by (simp add: growproc_def Let_def z deallocuvm_def switchuvm_def)
  then have "do_sbrk (-4096) s c = Ret (Value 8192, lcr3 ?t (V2P ?d))" using n(8) by (simp add: do_sbrk_def z)
  moreover have "free_pages (lcr3 ?t (V2P ?d)) m \<longleftrightarrow> free_pages s m" for m
    using mcore_cong(4) [of ?t s m] by (simp add: free_pages_def kmem_rel_def)
  moreover have "procs (lcr3 ?t (V2P ?d)) ! c = (procs s ! c)\<lparr>psz := PGSIZE\<rparr>" using l by (simp add: lcr3_def)
  ultimately show ?thesis using growproc_keeps [OF inv c g] by auto
qed

theorem sbrk_remap_panics_witness:
  "\<exists>(s0 :: kern) s1 s2 c. kern_inv s0 \<and> running s0 c \<and> do_sbrk (-4096) s0 c = Ret (Value 8192, s1) \<and>
     uload 1 s1 c PGSIZE = Ret (Some 0, s2) \<and> do_sbrk 4096 s2 c = Panic ''remap''"
proof -
  obtain s :: kern and c where s: "kern_inv s" "running s c" "\<not> killed (procs s ! c)" "free_pages s 2000" "psz (procs s ! c) = 2 * PGSIZE"
      "vmas (procs s ! c) = (replicate MAX_VMAS vma_zero)[0 := \<lparr>vstart = PGSIZE, vlength = PGSIZE, vprot = PROT_READ OR PROT_WRITE, vused = True\<rparr>]"
      "\<not> present (phys s) (pgdir (procs s ! c)) PGSIZE"
    using init_mapping by blast
  obtain s1 where s1: "do_sbrk (-4096) s c = Ret (Value 8192, s1)" "kern_inv s1" "running s1 c"
      "procs s1 ! c = (procs s ! c)\<lparr>psz := PGSIZE\<rparr>" "phys s1 = phys s" "free_pages s1 2000"
    using shrink_one [OF s(1,2,5,7)] s(4) by blast
  have "replicate MAX_VMAS vma_zero = vma_zero # replicate (MAX_VMAS - 1) vma_zero" by (simp add: MAX_VMAS_def numeral_eq_Suc)
  then have ar: "\<exists>a. area s1 c PGSIZE = Some a" by (simp add: area_def s1(4) s(6) vma_find_def PGSIZE_def)
  then obtain a where ar: "area s1 c PGSIZE = Some a" by blast
  have n: "PGSIZE < KERNBASE" "PGROUNDUP PGSIZE = PGSIZE" "PGSIZE + word_of_int 4096 < KERNBASE" "PGSIZE < PGSIZE + word_of_int 4096"
    by (simp_all add: PGSIZE_def KERNBASE_def PGROUNDUP_def)
  have fp: "free_pages s1 (1025 + 1)" using free_pages_mono [OF s1(6), of "1025 + 1"] by simp
  obtain s2 where s2: "uload 1 s1 c PGSIZE = Ret (Some 0, s2)" "sys_inv s2" "procs s2 = procs s1" "room s2 (pgdir (procs s1 ! c)) 1"
      "moved c s1 s2" "\<forall>va'. PGROUNDDOWN va' = PGROUNDDOWN PGSIZE \<longrightarrow> user_load (phys s2) (pgdir (procs s1 ! c)) va' = Some 0"
    using touch [OF kern_invD(1) [OF s1(2)] s1(3) _ n(1) _ ar fp] s1(4,5) s(3,7) by auto
  have k2: "kern_inv s2" by (rule moved_kern [OF s1(2) s2(2,5)])
  have r2: "running s2 c" by (rule moved_running [OF s2(5) s1(3)])
  have "present (phys s2) (pgdir (procs s2 ! c)) PGSIZE" using s2(3,6) by (auto simp: user_load_def split: if_splits)
  moreover have "free_pages s2 1" using s2(4) by (auto simp: room_def free_pages_def)
  ultimately have "do_sbrk 4096 s2 c = Panic ''remap''"
    using sbrk_remap_panics [OF k2 r2, of 4096] n s2(3) s1(4) by simp
  then show ?thesis using s(1,2) s1(1) s2(1) by blast
qed
section \<open>Instances of the checks\<close>

theorem sleep_ticks_witness:
  "\<exists>s :: kern. ticks s = 3 \<and> sleep_pass (-2) 5 s 0 = Ret (Value 0, s) \<and> sleep_pass (-2) (-1) s 0 = Ret (Sleeps, sleep_on 0 TicksChan s)"
proof -
  let ?s = "(kern_bss (\<lambda>_. 0) 0 0 [])\<lparr>ticks := 3\<rparr> :: kern"
  have p: "\<not> killed (procs ?s ! 0)" by (simp add: kern_bss_def NPROC_def proc_zero_def)
  have t: "ticks ?s = -2 + of_nat 5" by simp
  have m: "\<not> unat (-1 :: u32) \<le> 5" by (simp add: unsigned_minus_1_eq_mask mask_eq_exp_minus_1)
  show ?thesis
    using sleep_ticks [OF t _ p, of 5] sleep_ticks [OF t _ p, of "-1"] m by (intro exI [of _ ?s]) simp
qed

theorem kernel_store_livelock_witness:
  "\<exists>(s :: kern) c s'. kern_inv s \<and> running s c \<and> do_mprotect PGSIZE 4096 1 s c = Ret (Value 0, s') \<and> kustore s' c PGSIZE 7 = Refault"
proof -
  obtain s :: kern and c where s: "kern_inv s" "running s c" "named_area s c PGSIZE 4096 = Some 0"
      "vmas (procs s ! c) = (replicate MAX_VMAS vma_zero)[0 := \<lparr>vstart = PGSIZE, vlength = PGSIZE, vprot = PROT_READ OR PROT_WRITE, vused = True\<rparr>]"
      "\<not> present (phys s) (pgdir (procs s ! c)) PGSIZE"
    using init_mapping by blast
  note l = sys_slot [OF kern_invD(1) [OF s(1)] s(2)]
  show ?thesis
  proof (rule mprotect_cases [OF s(1,2), of PGSIZE 4096 1])
    fix i t assume t: "named_area s c PGSIZE 4096 = Some i" "do_mprotect PGSIZE 4096 1 s c = Ret (Value 0, t)" "kern_inv t"
      "moved c (set_prot c i (word_of_int 1) s) t"
      "\<forall>va. PGSIZE \<le> va \<longrightarrow> va < PGSIZE + PGROUNDUP (word_of_int 4096) \<longrightarrow> protected (phys s) (phys t) (pgdir (procs s ! c)) (word_of_int 1) va"
    have i: "i = 0" using t(1) s(3) by simp
    have p: "procs t = procs (set_prot c 0 1 s)" using t(4) by (simp add: moved_def i)
    have pc: "procs t ! c = (procs s ! c)\<lparr>vmas := (vmas (procs s ! c))[0 := (vmas (procs s ! c) ! 0)\<lparr>vprot := 1\<rparr>]\<rparr>"
      using l by (simp add: p set_prot_def)
    have rt: "running t c" using s(2) by (simp add: running_def pc)
    have "replicate MAX_VMAS vma_zero = vma_zero # replicate (MAX_VMAS - 1) vma_zero" by (simp add: MAX_VMAS_def numeral_eq_Suc)
    then have ro: "read_only (area t c PGSIZE)"
      by (simp add: area_def pc s(4) vma_find_def PGSIZE_def read_only_def flag_def PROT_WRITE_def)
    have "PGSIZE < PGSIZE + PGROUNDUP (word_of_int 4096)" by (simp add: PGSIZE_def PGROUNDUP_def)
    then have "protected (phys s) (phys t) (pgdir (procs s ! c)) 1 PGSIZE" using t(5) by simp
    then have "\<not> writable (phys t) (pgdir (procs t ! c)) PGSIZE" using s(5) by (simp add: pc protected_def present_def writable_def)
    then have "kustore t c PGSIZE 7 = Refault" using kernel_store_livelock [OF t(3) rt ro] by blast
    then show ?thesis using s(1,2) t(2) by blast
  qed (use s(3) in auto)
qed

theorem argptr_bounds_witness:
  "\<exists>(s :: kern) c s'. kern_inv s \<and> running s c \<and> argptr s c 0 8 = Ret (Some 0, s') \<and> unat (0 :: u32) + nat 8 \<le> unat (psz (procs s' ! c)) \<and>
     psz (procs s' ! c) \<le> KERNBASE"
proof -
  obtain s :: kern and c where s: "kern_inv s" "running s c" "\<not> killed (procs s ! c)" "free_pages s 2000" "psz (procs s ! c) = 2 * PGSIZE"
      "vmas (procs s ! c) = (replicate MAX_VMAS vma_zero)[0 := \<lparr>vstart = PGSIZE, vlength = PGSIZE, vprot = PROT_READ OR PROT_WRITE, vused = True\<rparr>]"
      "\<not> present (phys s) (pgdir (procs s ! c)) PGSIZE"
    using init_mapping by blast
  have "replicate MAX_VMAS vma_zero = vma_zero # replicate (MAX_VMAS - 1) vma_zero" by (simp add: MAX_VMAS_def numeral_eq_Suc)
  then have "\<exists>a. area s c PGSIZE = Some a" by (simp add: area_def s(6) vma_find_def PGSIZE_def)
  then obtain a where ar: "area s c PGSIZE = Some a" by blast
  have n: "PGSIZE < KERNBASE" by (simp add: PGSIZE_def KERNBASE_def)
  have fp: "free_pages s (1025 + 1)" using free_pages_mono [OF s(4), of "1025 + 1"] by simp
  obtain t where t: "sys_inv t" "procs t = procs s" "moved c s t"
      "\<forall>va'. PGROUNDDOWN va' = PGROUNDDOWN PGSIZE \<longrightarrow> user_load (phys t) (pgdir (procs s ! c)) va' = Some 0"
    using touch [OF kern_invD(1) [OF s(1)] s(2,3) n s(7) ar fp] by auto
  have kt: "kern_inv t" "running t c" by (rule moved_kern [OF s(1) t(1,3)], rule moved_running [OF t(3) s(2)])
  define u where "u = setproc c (\<lambda>p. p\<lparr>tf := (tf p)\<lparr>tf_esp := PGSIZE - 4\<rparr>\<rparr>) t"
  note l = sys_slot [OF kern_invD(1) [OF kt(1)] kt(2)]
  have ku: "kern_inv u" unfolding u_def by (rule conjunct1, rule kern_setproc [OF kt(1) _ _ _ kt(2)]) (use kt(2) in \<open>auto simp: quiet_simps\<close>)
  have ru: "running u c" unfolding u_def by (rule running_setproc [OF kt(2) kern_invD(1) [OF kt(1)]]) simp
  have pu: "procs u ! c = (procs s ! c)\<lparr>tf := (tf (procs s ! c))\<lparr>tf_esp := PGSIZE - 4\<rparr>\<rparr>" and fu: "phys u = phys t" using l by (simp_all add: u_def t(2))
  have ld: "kuload u c va = Ret (0, u)" if "PGROUNDDOWN va = PGROUNDDOWN PGSIZE" for va
    using t(4) that by (auto simp: kuload_def Let_def pu fu user_load_def split: if_splits)
  have "kuloads 4 u c PGSIZE = Ret ([0, 0, 0, 0], u)"
    using ld [of PGSIZE] ld [of "PGSIZE + 1"] ld [of "PGSIZE + 2"] ld [of "PGSIZE + 3"]
    by (simp add: numeral_eq_Suc PGSIZE_def PGROUNDDOWN_def)
  then have "argint u c 0 = Ret (Some 0, u)"
    by (simp add: argint_def fetchint_def pu s(5) PGSIZE_def word_rcat_def horner_sum_foldr)
  then have r: "argptr u c 0 8 = Ret (Some 0, u)" by (simp add: argptr_def pu s(5) PGSIZE_def)
  show ?thesis using argptr_bounds [OF ku ru _ r] ku ru r by auto
qed

end
