(* ===== verification/Locks.thy ===== *)
theory Locks
  imports Xv6_Prelude
begin

text \<open>
  Spin locks and sleep locks: \<^verbatim>\<open>spinlock.c\<close>, \<^verbatim>\<open>sleeplock.c\<close>, and the checks of \<^verbatim>\<open>sched\<close> in
  \<^verbatim>\<open>proc.c\<close>. A processor has its interrupt flag and the two counters of \<^verbatim>\<open>struct cpu\<close>; the routines
  take the number of the processor that runs them. The call stack kept for debugging is left out.
  Processors interleave between any two accesses to a lock: \<^verbatim>\<open>holding\<close>, \<^verbatim>\<open>acquire\<close> and \<^verbatim>\<open>release\<close>
  are cut into steps with at most one load, store or exchange of a field of the lock each.
\<close>

section \<open>Processors\<close>

record cpu =
  fl_if :: bool
  ncli :: int
  intena :: bool

record spinlock =
  locked :: bool
  lcpu :: "nat option"

record lockst =
  cpus :: "nat \<Rightarrow> cpu"
  locks :: "nat \<Rightarrow> spinlock"

definition initlock :: spinlock where
  "initlock = \<lparr>locked = False, lcpu = None\<rparr>"

definition setcpu :: "nat \<Rightarrow> (cpu \<Rightarrow> cpu) \<Rightarrow> lockst \<Rightarrow> lockst" where
  "setcpu c f s = s\<lparr>cpus := (cpus s)(c := f (cpus s c))\<rparr>"

definition mycpu :: "nat \<Rightarrow> lockst \<Rightarrow> cpu res" where
  "mycpu c s = (if fl_if (cpus s c) then Panic ''mycpu called with interrupts enabled'' else Ret (cpus s c))"

definition pushcli :: "nat \<Rightarrow> lockst \<Rightarrow> lockst res" where
  "pushcli c s =
     (let eflags = fl_if (cpus s c); s = setcpu c (\<lambda>p. p\<lparr>fl_if := False\<rparr>) s
      in rbind (mycpu c s) (\<lambda>p.
        let s = (if ncli p = 0 then setcpu c (\<lambda>p. p\<lparr>intena := eflags\<rparr>) s else s)
        in Ret (setcpu c (\<lambda>p. p\<lparr>ncli := ncli p + 1\<rparr>) s)))"

definition popcli :: "nat \<Rightarrow> lockst \<Rightarrow> lockst res" where
  "popcli c s =
     (if fl_if (cpus s c) then Panic ''popcli - interruptible''
      else
        let s = setcpu c (\<lambda>p. p\<lparr>ncli := ncli p - 1\<rparr>) s
        in rbind (mycpu c s) (\<lambda>p.
          if ncli p < 0 then Panic ''popcli''
          else if ncli p = 0 \<and> intena p then Ret (setcpu c (\<lambda>p. p\<lparr>fl_if := True\<rparr>) s)
          else Ret s))"

section \<open>Spin locks\<close>

definition setlk :: "nat \<Rightarrow> (spinlock \<Rightarrow> spinlock) \<Rightarrow> lockst \<Rightarrow> lockst" where
  "setlk l f s = s\<lparr>locks := (locks s)(l := f (locks s l))\<rparr>"

text \<open>\<^verbatim>\<open>holding\<close> up to its load of \<^verbatim>\<open>locked\<close>, and from the load of \<^verbatim>\<open>cpu\<close> on.\<close>

definition holding_locked :: "nat \<Rightarrow> nat \<Rightarrow> lockst \<Rightarrow> (bool \<times> lockst) res" where
  "holding_locked c l s = rbind (pushcli c s) (\<lambda>s. Ret (locked (locks s l), s))"

definition holding_cpu :: "nat \<Rightarrow> nat \<Rightarrow> bool \<Rightarrow> lockst \<Rightarrow> (bool \<times> lockst) res" where
  "holding_cpu c l r s =
     rbind (if r then rbind (mycpu c s) (\<lambda>_. Ret (lcpu (locks s l) = Some c)) else Ret False) (\<lambda>r.
       rbind (popcli c s) (\<lambda>s. Ret (r, s)))"

definition holding :: "nat \<Rightarrow> nat \<Rightarrow> lockst \<Rightarrow> (bool \<times> lockst) res" where
  "holding c l s = rbind (holding_locked c l s) (\<lambda>(r, s). holding_cpu c l r s)"

text \<open>
  \<^verbatim>\<open>acquire\<close>: the check for a lock that is already held, one exchange of the loop (its result is
  whether the lock was taken already), and the store of the owner.
\<close>

definition acquire_check :: "nat \<Rightarrow> nat \<Rightarrow> bool \<Rightarrow> lockst \<Rightarrow> lockst res" where
  "acquire_check c l r s = rbind (holding_cpu c l r s) (\<lambda>(r, s). if r then Panic ''acquire'' else Ret s)"

definition acquire_xchg :: "nat \<Rightarrow> lockst \<Rightarrow> bool \<times> lockst" where
  "acquire_xchg l s = (locked (locks s l), setlk l (\<lambda>k. k\<lparr>locked := True\<rparr>) s)"

definition acquire_own :: "nat \<Rightarrow> nat \<Rightarrow> lockst \<Rightarrow> lockst res" where
  "acquire_own c l s = rbind (mycpu c s) (\<lambda>_. Ret (setlk l (\<lambda>k. k\<lparr>lcpu := Some c\<rparr>) s))"

text \<open>\<^verbatim>\<open>release\<close>: the check that the lock is held, the store of no owner, the store that frees the lock.\<close>

definition release_check :: "nat \<Rightarrow> nat \<Rightarrow> bool \<Rightarrow> lockst \<Rightarrow> lockst res" where
  "release_check c l r s = rbind (holding_cpu c l r s) (\<lambda>(r, s). if \<not> r then Panic ''release'' else Ret s)"

definition release_disown :: "nat \<Rightarrow> lockst \<Rightarrow> lockst" where
  "release_disown l s = setlk l (\<lambda>k. k\<lparr>lcpu := None\<rparr>) s"

definition release_unlock :: "nat \<Rightarrow> nat \<Rightarrow> lockst \<Rightarrow> lockst res" where
  "release_unlock c l s = popcli c (setlk l (\<lambda>k. k\<lparr>locked := False\<rparr>) s)"

text \<open>The checks at the beginning of \<^verbatim>\<open>sched\<close>; \<open>ptable\<close> is the lock of the process table.\<close>

definition sched_checks :: "nat \<Rightarrow> nat \<Rightarrow> bool \<Rightarrow> lockst \<Rightarrow> lockst res" where
  "sched_checks ptable c running s =
     rbind (holding c ptable s) (\<lambda>(r, s).
       if \<not> r then Panic ''sched ptable.lock''
       else rbind (mycpu c s) (\<lambda>p.
         if ncli p \<noteq> 1 then Panic ''sched locks''
         else if running then Panic ''sched running''
         else if fl_if p then Panic ''sched interruptible''
         else Ret s))"

section \<open>Sleep locks\<close>

record sleeplock =
  slocked :: bool
  spid :: int

definition initsleeplock :: sleeplock where
  "initsleeplock = \<lparr>slocked = False, spid = 0\<rparr>"

text \<open>One pass of the loop: \<open>None\<close> is going to sleep.\<close>

definition acquiresleep :: "int \<Rightarrow> sleeplock \<Rightarrow> sleeplock option" where
  "acquiresleep pid lk = (if slocked lk then None else Some \<lparr>slocked = True, spid = pid\<rparr>)"

definition releasesleep :: "sleeplock \<Rightarrow> sleeplock" where
  "releasesleep lk = \<lparr>slocked = False, spid = 0\<rparr>"

definition holdingsleep :: "int \<Rightarrow> sleeplock \<Rightarrow> bool" where
  "holdingsleep pid lk \<longleftrightarrow> slocked lk \<and> spid lk = pid"

end
