(* ===== verification/Lock_Machine.thy ===== *)
theory Lock_Machine
  imports Locks
begin

text \<open>
  Any number of processors that use the spin locks of \<^verbatim>\<open>spinlock.c\<close> at the same time, interleaved
  between any two accesses to a lock, with the invariant of this machine and mutual exclusion.
\<close>

section \<open>The machine\<close>

text \<open>
  Where a processor is: outside, in \<^verbatim>\<open>acquire\<close> (before and inside \<^verbatim>\<open>holding\<close>, in the loop, after
  the exchange that succeeded), or in \<^verbatim>\<open>release\<close> (inside \<^verbatim>\<open>holding\<close>, before the store to \<^verbatim>\<open>cpu\<close>,
  before the store to \<^verbatim>\<open>locked\<close>). Inside \<^verbatim>\<open>holding\<close> it remembers what it loaded.
\<close>

datatype pc = Outside | Entered nat | Checking nat bool | Spinning nat | Taken nat |
  Testing nat bool | Disowning nat | Unlocking nat

record lockm =
  mem :: lockst
  pcs :: "nat \<Rightarrow> pc"
  has :: "nat \<Rightarrow> nat set"

text \<open>
  In a step one processor goes on by one access. \<open>has c\<close> are the locks for which \<^verbatim>\<open>acquire\<close> has returned on
  processor \<open>c\<close> and that it has not released since; the code does not see it. Locks are used
  correctly: a processor calls \<^verbatim>\<open>acquire\<close> for a lock that it does not have and \<^verbatim>\<open>release\<close> for one that it
  has. Locks are numbered below \<open>n\<close>.
\<close>

inductive lock_step :: "nat \<Rightarrow> lockm \<Rightarrow> lockm \<Rightarrow> bool" for n where
  acquire: "pcs m c = Outside \<Longrightarrow> l < n \<Longrightarrow> l \<notin> has m c \<Longrightarrow> pushcli c (mem m) = Ret s \<Longrightarrow>
    lock_step n m (m\<lparr>mem := s, pcs := (pcs m)(c := Entered l)\<rparr>)"
| check: "pcs m c = Entered l \<Longrightarrow> holding_locked c l (mem m) = Ret (r, s) \<Longrightarrow>
    lock_step n m (m\<lparr>mem := s, pcs := (pcs m)(c := Checking l r)\<rparr>)"
| spin: "pcs m c = Checking l r \<Longrightarrow> acquire_check c l r (mem m) = Ret s \<Longrightarrow>
    lock_step n m (m\<lparr>mem := s, pcs := (pcs m)(c := Spinning l)\<rparr>)"
| busy: "pcs m c = Spinning l \<Longrightarrow> acquire_xchg l (mem m) = (True, s) \<Longrightarrow> lock_step n m (m\<lparr>mem := s\<rparr>)"
| take: "pcs m c = Spinning l \<Longrightarrow> acquire_xchg l (mem m) = (False, s) \<Longrightarrow>
    lock_step n m (m\<lparr>mem := s, pcs := (pcs m)(c := Taken l)\<rparr>)"
| own: "pcs m c = Taken l \<Longrightarrow> acquire_own c l (mem m) = Ret s \<Longrightarrow>
    lock_step n m (m\<lparr>mem := s, pcs := (pcs m)(c := Outside), has := (has m)(c := insert l (has m c))\<rparr>)"
| release: "pcs m c = Outside \<Longrightarrow> l \<in> has m c \<Longrightarrow> holding_locked c l (mem m) = Ret (r, s) \<Longrightarrow>
    lock_step n m (m\<lparr>mem := s, pcs := (pcs m)(c := Testing l r)\<rparr>)"
| test: "pcs m c = Testing l r \<Longrightarrow> release_check c l r (mem m) = Ret s \<Longrightarrow>
    lock_step n m (m\<lparr>mem := s, pcs := (pcs m)(c := Disowning l)\<rparr>)"
| disown: "pcs m c = Disowning l \<Longrightarrow>
    lock_step n m (m\<lparr>mem := release_disown l (mem m), pcs := (pcs m)(c := Unlocking l)\<rparr>)"
| unlock: "pcs m c = Unlocking l \<Longrightarrow> release_unlock c l (mem m) = Ret s \<Longrightarrow>
    lock_step n m (m\<lparr>mem := s, pcs := (pcs m)(c := Outside), has := (has m)(c := has m c - {l})\<rparr>)"

definition lock_init :: "(nat \<Rightarrow> bool) \<Rightarrow> lockm" where
  "lock_init ifs = \<lparr>mem = \<lparr>cpus = \<lambda>c. \<lparr>fl_if = ifs c, ncli = 0, intena = False\<rparr>, locks = \<lambda>_. initlock\<rparr>,
     pcs = \<lambda>_. Outside, has = \<lambda>_. {}\<rparr>"

inductive lock_reach :: "nat \<Rightarrow> (nat \<Rightarrow> bool) \<Rightarrow> lockm \<Rightarrow> bool" for n ifs where
  init: "lock_reach n ifs (lock_init ifs)"
| step: "lock_reach n ifs m \<Longrightarrow> lock_step n m m' \<Longrightarrow> lock_reach n ifs m'"

section \<open>Its invariant\<close>

text \<open>Calls of \<^verbatim>\<open>pushcli\<close> that the position accounts for, besides one for each lock of \<open>has c\<close>.\<close>

fun depth :: "pc \<Rightarrow> nat" where
  "depth Outside = 0" | "depth (Entered l) = 1" | "depth (Checking l r) = 2" | "depth (Spinning l) = 1" | "depth (Taken l) = 1"
| "depth (Testing l r) = 1" | "depth (Disowning l) = 0" | "depth (Unlocking l) = 0"

definition pc_ok :: "nat \<Rightarrow> nat set \<Rightarrow> pc \<Rightarrow> bool" where
  "pc_ok n L p \<longleftrightarrow> (case p of Outside \<Rightarrow> True | Entered l \<Rightarrow> l < n \<and> l \<notin> L | Checking l r \<Rightarrow> l < n \<and> l \<notin> L | Spinning l \<Rightarrow> l < n \<and> l \<notin> L
     | Taken l \<Rightarrow> l < n \<and> l \<notin> L | Testing l r \<Rightarrow> l \<in> L \<and> r | Disowning l \<Rightarrow> l \<in> L | Unlocking l \<Rightarrow> l \<in> L)"

definition cpu_ok :: "bool \<Rightarrow> nat \<Rightarrow> cpu \<Rightarrow> bool" where
  "cpu_ok i k p \<longleftrightarrow> ncli p = int k \<and> (if k = 0 then fl_if p = i else \<not> fl_if p \<and> intena p = i)"

definition holder :: "lockm \<Rightarrow> nat \<Rightarrow> nat \<Rightarrow> bool" where
  "holder m c l \<longleftrightarrow> l \<in> has m c \<or> pcs m c = Taken l"

definition lock_inv :: "nat \<Rightarrow> (nat \<Rightarrow> bool) \<Rightarrow> lockm \<Rightarrow> bool" where
  "lock_inv n ifs m \<longleftrightarrow>
     (\<forall>c. has m c \<subseteq> {..<n} \<and> pc_ok n (has m c) (pcs m c) \<and> cpu_ok (ifs c) (card (has m c) + depth (pcs m c)) (cpus (mem m) c)) \<and>
     (\<forall>l. locked (locks (mem m) l) \<longleftrightarrow> (\<exists>c. holder m c l)) \<and>
     (\<forall>c d l. holder m c l \<longrightarrow> holder m d l \<longrightarrow> c = d) \<and>
     (\<forall>c l. lcpu (locks (mem m) l) = Some c \<longleftrightarrow> l \<in> has m c \<and> pcs m c \<noteq> Unlocking l)"

lemma setlk_simps [simp]: "cpus (setlk l f s) = cpus s" "locks (setlk l f s) = (locks s)(l := f (locks s l))"
  by (simp_all add: setlk_def)

lemma mycpu_Ret: "cpu_ok i (Suc k) (cpus s c) \<Longrightarrow> mycpu c s = Ret (cpus s c)"
  by (simp add: mycpu_def cpu_ok_def)

lemma pushcli_Ret:
  assumes "cpu_ok i k (cpus s c)"
  obtains p where "pushcli c s = Ret (s\<lparr>cpus := (cpus s)(c := p)\<rparr>)" "cpu_ok i (Suc k) p"
proof -
  let ?p = "(cpus s c)\<lparr>fl_if := False, intena := (if ncli (cpus s c) = 0 then fl_if (cpus s c) else intena (cpus s c)), ncli := ncli (cpus s c) + 1\<rparr>"
  have "pushcli c s = Ret (s\<lparr>cpus := (cpus s)(c := ?p)\<rparr>)" by (cases "cpus s c") (simp add: pushcli_def Let_def mycpu_def setcpu_def)
  moreover have "cpu_ok i (Suc k) ?p" using assms by (auto simp: cpu_ok_def split: if_splits)
  ultimately show thesis by (rule that)
qed

lemma popcli_Ret:
  assumes "cpu_ok i (Suc k) (cpus s c)"
  obtains p where "popcli c s = Ret (s\<lparr>cpus := (cpus s)(c := p)\<rparr>)" "cpu_ok i k p"
proof -
  let ?p = "(cpus s c)\<lparr>fl_if := (k = 0 \<and> i), ncli := int k\<rparr>"
  have "popcli c s = Ret (s\<lparr>cpus := (cpus s)(c := ?p)\<rparr>)"
    using assms by (cases "cpus s c") (auto simp: cpu_ok_def popcli_def Let_def mycpu_def setcpu_def)
  moreover have "cpu_ok i k ?p" using assms by (auto simp: cpu_ok_def)
  ultimately show thesis by (rule that)
qed

lemma holding_locked_Ret:
  assumes "cpu_ok i k (cpus s c)"
  obtains p where "holding_locked c l s = Ret (locked (locks s l), s\<lparr>cpus := (cpus s)(c := p)\<rparr>)" "cpu_ok i (Suc k) p"
  by (rule pushcli_Ret [OF assms]) (simp add: holding_locked_def that)

lemma holding_cpu_Ret:
  assumes "cpu_ok i (Suc k) (cpus s c)"
  obtains p where "holding_cpu c l r s = Ret (r \<and> lcpu (locks s l) = Some c, s\<lparr>cpus := (cpus s)(c := p)\<rparr>)" "cpu_ok i k p"
  by (rule popcli_Ret [OF assms]) (use that in \<open>cases r; auto simp: holding_cpu_def mycpu_Ret [OF assms]\<close>)

lemma lock_invD:
  assumes "lock_inv n ifs m"
  shows "has m c \<subseteq> {..<n}" "pc_ok n (has m c) (pcs m c)" "cpu_ok (ifs c) (card (has m c) + depth (pcs m c)) (cpus (mem m) c)"
    "locked (locks (mem m) l) \<longleftrightarrow> (\<exists>c. holder m c l)" "holder m c l \<Longrightarrow> holder m d l \<Longrightarrow> c = d"
    "lcpu (locks (mem m) l) = Some c \<longleftrightarrow> l \<in> has m c \<and> pcs m c \<noteq> Unlocking l" "finite (has m c)"
  using assms finite_subset [of "has m c" "{..<n}"] by (auto simp: lock_inv_def)

text \<open>A step that moves one processor and changes no lock.\<close>

lemma lock_inv_move:
  assumes inv: "lock_inv n ifs m" and c: "\<And>l. pcs m c \<noteq> Taken l" "\<And>l. pcs m c \<noteq> Unlocking l"
    and q: "\<And>l. q \<noteq> Taken l" "\<And>l. q \<noteq> Unlocking l" "pc_ok n (has m c) q" "cpu_ok (ifs c) (card (has m c) + depth q) p"
  shows "lock_inv n ifs (m\<lparr>mem := (mem m)\<lparr>cpus := (cpus (mem m))(c := p)\<rparr>, pcs := (pcs m)(c := q)\<rparr>)" (is "lock_inv n ifs ?m")
proof -
  have h: "holder ?m d l = holder m d l" for d l using c q by (auto simp: holder_def)
  show ?thesis unfolding lock_inv_def h using lock_invD [OF inv] c q by auto
qed

lemma inv_acquire:
  assumes inv: "lock_inv n ifs m" and c: "pcs m c = Outside" "l < n" "l \<notin> has m c"
  shows "\<exists>s. pushcli c (mem m) = Ret s \<and> lock_inv n ifs (m\<lparr>mem := s, pcs := (pcs m)(c := Entered l)\<rparr>)"
proof -
  have "cpu_ok (ifs c) (card (has m c)) (cpus (mem m) c)" using lock_invD(3) [OF inv, of c] c by simp
  then obtain p where "pushcli c (mem m) = Ret ((mem m)\<lparr>cpus := (cpus (mem m))(c := p)\<rparr>)" "cpu_ok (ifs c) (Suc (card (has m c))) p"
    by (rule pushcli_Ret)
  then show ?thesis using lock_inv_move [OF inv, of c "Entered l" p] c by (auto simp: pc_ok_def)
qed

lemma inv_check:
  assumes inv: "lock_inv n ifs m" and c: "pcs m c = Entered l"
  shows "\<exists>s. holding_locked c l (mem m) = Ret (locked (locks (mem m) l), s) \<and>
    lock_inv n ifs (m\<lparr>mem := s, pcs := (pcs m)(c := Checking l (locked (locks (mem m) l)))\<rparr>)"
proof -
  have "cpu_ok (ifs c) (Suc (card (has m c))) (cpus (mem m) c)" using lock_invD(3) [OF inv, of c] c by simp
  then obtain p where "holding_locked c l (mem m) = Ret (locked (locks (mem m) l), (mem m)\<lparr>cpus := (cpus (mem m))(c := p)\<rparr>)"
      "cpu_ok (ifs c) (Suc (Suc (card (has m c)))) p"
    by (rule holding_locked_Ret)
  then show ?thesis using lock_inv_move [OF inv, of c _ p] lock_invD(2) [OF inv, of c] c by (auto simp: pc_ok_def)
qed

lemma inv_spin:
  assumes inv: "lock_inv n ifs m" and c: "pcs m c = Checking l r"
  shows "\<exists>s. acquire_check c l r (mem m) = Ret s \<and> lock_inv n ifs (m\<lparr>mem := s, pcs := (pcs m)(c := Spinning l)\<rparr>)"
proof -
  have no: "lcpu (locks (mem m) l) \<noteq> Some c" using lock_invD(2) [OF inv, of c] lock_invD(6) [OF inv, of l c] c by (auto simp: pc_ok_def)
  have "cpu_ok (ifs c) (Suc (Suc (card (has m c)))) (cpus (mem m) c)" using lock_invD(3) [OF inv, of c] c by simp
  then obtain p where "holding_cpu c l r (mem m) = Ret (r \<and> lcpu (locks (mem m) l) = Some c, (mem m)\<lparr>cpus := (cpus (mem m))(c := p)\<rparr>)"
      "cpu_ok (ifs c) (Suc (card (has m c))) p"
    by (rule holding_cpu_Ret)
  then show ?thesis using lock_inv_move [OF inv, of c "Spinning l" p] lock_invD(2) [OF inv, of c] c no
    by (auto simp: pc_ok_def acquire_check_def)
qed

lemma inv_release:
  assumes inv: "lock_inv n ifs m" and c: "pcs m c = Outside" "l \<in> has m c"
  shows "\<exists>s. holding_locked c l (mem m) = Ret (True, s) \<and> lock_inv n ifs (m\<lparr>mem := s, pcs := (pcs m)(c := Testing l True)\<rparr>)"
proof -
  have l: "locked (locks (mem m) l)" using lock_invD(4) [OF inv, of l] c by (auto simp: holder_def)
  have "cpu_ok (ifs c) (card (has m c)) (cpus (mem m) c)" using lock_invD(3) [OF inv, of c] c by simp
  then obtain p where "holding_locked c l (mem m) = Ret (locked (locks (mem m) l), (mem m)\<lparr>cpus := (cpus (mem m))(c := p)\<rparr>)"
      "cpu_ok (ifs c) (Suc (card (has m c))) p"
    by (rule holding_locked_Ret)
  then show ?thesis using lock_inv_move [OF inv, of c "Testing l True" p] l c by (auto simp: pc_ok_def)
qed

lemma inv_test:
  assumes inv: "lock_inv n ifs m" and c: "pcs m c = Testing l r"
  shows "\<exists>s. release_check c l r (mem m) = Ret s \<and> lock_inv n ifs (m\<lparr>mem := s, pcs := (pcs m)(c := Disowning l)\<rparr>)"
proof -
  have o: "lcpu (locks (mem m) l) = Some c" "r" using lock_invD(2) [OF inv, of c] lock_invD(6) [OF inv, of l c] c by (auto simp: pc_ok_def)
  have "cpu_ok (ifs c) (Suc (card (has m c))) (cpus (mem m) c)" using lock_invD(3) [OF inv, of c] c by simp
  then obtain p where "holding_cpu c l r (mem m) = Ret (r \<and> lcpu (locks (mem m) l) = Some c, (mem m)\<lparr>cpus := (cpus (mem m))(c := p)\<rparr>)"
      "cpu_ok (ifs c) (card (has m c)) p"
    by (rule holding_cpu_Ret)
  then show ?thesis using lock_inv_move [OF inv, of c "Disowning l" p] lock_invD(2) [OF inv, of c] c o
    by (auto simp: pc_ok_def release_check_def)
qed

lemma inv_busy:
  assumes inv: "lock_inv n ifs m" and c: "acquire_xchg l (mem m) = (True, s)"
  shows "lock_inv n ifs (m\<lparr>mem := s\<rparr>)"
proof -
  have "s = mem m" using c by (cases "mem m") (auto simp: acquire_xchg_def setlk_def fun_eq_iff)
  then show ?thesis using inv by simp
qed

lemma inv_take:
  assumes inv: "lock_inv n ifs m" and c: "pcs m c = Spinning l" "acquire_xchg l (mem m) = (False, s)"
  shows "lock_inv n ifs (m\<lparr>mem := s, pcs := (pcs m)(c := Taken l)\<rparr>)" (is "lock_inv n ifs ?m")
proof -
  note I = lock_invD [OF inv]
  have s: "s = setlk l (\<lambda>k. k\<lparr>locked := True\<rparr>) (mem m)" "\<not> locked (locks (mem m) l)" using c(2) by (auto simp: acquire_xchg_def)
  then have no: "\<not> holder m d l" for d using I(4) [of l] by blast
  have h: "holder ?m d k \<longleftrightarrow> d = c \<and> k = l \<or> holder m d k" for d k using c(1) by (auto simp: holder_def)
  have q: "pc_ok n (has m c) (Taken l)" "cpu_ok (ifs c) (card (has m c) + depth (Taken l)) (cpus (mem m) c)"
    using I(2,3) [of c] c(1) by (auto simp: pc_ok_def)
  show ?thesis unfolding lock_inv_def h using I no s q c(1) by auto
qed

lemma inv_own:
  assumes inv: "lock_inv n ifs m" and c: "pcs m c = Taken l"
  shows "\<exists>s. acquire_own c l (mem m) = Ret s \<and>
    lock_inv n ifs (m\<lparr>mem := s, pcs := (pcs m)(c := Outside), has := (has m)(c := insert l (has m c))\<rparr>)"
proof -
  note I = lock_invD [OF inv]
  let ?s = "setlk l (\<lambda>k. k\<lparr>lcpu := Some c\<rparr>) (mem m)"
  let ?m = "m\<lparr>mem := ?s, pcs := (pcs m)(c := Outside), has := (has m)(c := insert l (has m c))\<rparr>"
  have r: "acquire_own c l (mem m) = Ret ?s" using I(3) [of c] c by (simp add: acquire_own_def mycpu_Ret)
  have l: "l < n" "l \<notin> has m c" using I(2) [of c] c by (auto simp: pc_ok_def)
  have one: "holder m d l \<longleftrightarrow> d = c" for d using I(5) [of c l d] c by (auto simp: holder_def)
  have h: "holder ?m d k = holder m d k" for d k using c by (auto simp: holder_def)
  have no: "l \<notin> has m d" for d using one [of d] l(2) by (auto simp: holder_def)
  have k: "card (insert l (has m c)) = Suc (card (has m c))" using l I(7) [of c] by simp
  have "cpu_ok (ifs c) (Suc (card (has m c))) (cpus (mem m) c)" using I(3) [of c] c by simp
  then have "lock_inv n ifs ?m" unfolding lock_inv_def h using I l c no k by (auto simp: pc_ok_def)
  then show ?thesis using r by blast
qed

lemma inv_disown:
  assumes inv: "lock_inv n ifs m" and c: "pcs m c = Disowning l"
  shows "lock_inv n ifs (m\<lparr>mem := release_disown l (mem m), pcs := (pcs m)(c := Unlocking l)\<rparr>)" (is "lock_inv n ifs ?m")
proof -
  note I = lock_invD [OF inv]
  have l: "l \<in> has m c" using I(2) [of c] c by (auto simp: pc_ok_def)
  have one: "l \<in> has m d \<longleftrightarrow> d = c" for d using I(5) [of c l d] l by (auto simp: holder_def)
  have h: "holder ?m d k = holder m d k" for d k using c by (auto simp: holder_def)
  have "cpu_ok (ifs c) (card (has m c)) (cpus (mem m) c)" using I(3) [of c] c by simp
  then show ?thesis unfolding lock_inv_def h using I l c one by (auto simp: pc_ok_def release_disown_def)
qed

lemma inv_unlock:
  assumes inv: "lock_inv n ifs m" and c: "pcs m c = Unlocking l"
  shows "\<exists>s. release_unlock c l (mem m) = Ret s \<and>
    lock_inv n ifs (m\<lparr>mem := s, pcs := (pcs m)(c := Outside), has := (has m)(c := has m c - {l})\<rparr>)"
proof -
  note I = lock_invD [OF inv]
  let ?u = "setlk l (\<lambda>k. k\<lparr>locked := False\<rparr>) (mem m)"
  have l: "l \<in> has m c" using I(2) [of c] c by (auto simp: pc_ok_def)
  have k: "card (has m c) = Suc (card (has m c - {l}))" using l I(7) [of c] by (metis card_Suc_Diff1)
  then have "cpu_ok (ifs c) (Suc (card (has m c - {l}))) (cpus ?u c)" using I(3) [of c] c by simp
  then obtain p where r: "popcli c ?u = Ret (?u\<lparr>cpus := (cpus ?u)(c := p)\<rparr>)" "cpu_ok (ifs c) (card (has m c - {l})) p" by (rule popcli_Ret)
  let ?m = "m\<lparr>mem := ?u\<lparr>cpus := (cpus ?u)(c := p)\<rparr>, pcs := (pcs m)(c := Outside), has := (has m)(c := has m c - {l})\<rparr>"
  have one: "holder m d l \<longleftrightarrow> d = c" for d using I(5) [of c l d] l by (auto simp: holder_def)
  have h: "holder ?m d j \<longleftrightarrow> j \<noteq> l \<and> holder m d j" for d j using c one [of d] by (auto simp: holder_def)
  have "l \<notin> has m d" if "d \<noteq> c" for d using that one [of d] by (auto simp: holder_def)
  moreover have "lcpu (locks (mem m) l) \<noteq> Some d" for d using I(6) [of l d] one [of d] c by (auto simp: holder_def)
  ultimately have "lock_inv n ifs ?m" unfolding lock_inv_def h using I r(2) c by (auto simp: pc_ok_def)
  then show ?thesis using r(1) unfolding release_unlock_def by blast
qed

lemma lock_reach_inv: "lock_reach n ifs m \<Longrightarrow> lock_inv n ifs m"
proof (induction rule: lock_reach.induct)
  case init
  then show ?case by (simp add: lock_inv_def lock_init_def initlock_def holder_def pc_ok_def cpu_ok_def)
next
  case (step m m')
  note inv = step.IH
  from step.hyps(2) show ?case
  proof cases
    case (release c l r s)
    then show ?thesis using inv_release [OF inv, of c l] by auto
  next
    case (check c l r s)
    then show ?thesis using inv_check [OF inv, of c l] by auto
  qed (use inv_acquire [OF inv] inv_spin [OF inv] inv_busy [OF inv] inv_take [OF inv] inv_own [OF inv] inv_test [OF inv]
      inv_disown [OF inv] inv_unlock [OF inv] in fastforce)+
qed

text \<open>What the two checks are for.\<close>

lemma acquire_twice:
  assumes inv: "lock_inv n ifs m" and c: "pcs m c = Outside" "l \<in> has m c"
  shows "rbind (pushcli c (mem m)) (\<lambda>s. rbind (holding_locked c l s) (\<lambda>(r, s). acquire_check c l r s)) = Panic ''acquire''"
proof -
  let ?s = "\<lambda>p. (mem m)\<lparr>cpus := (cpus (mem m))(c := p)\<rparr>"
  have l: "locked (locks (mem m) l)" "lcpu (locks (mem m) l) = Some c"
    using lock_invD(4) [OF inv, of l] lock_invD(6) [OF inv, of l c] c by (auto simp: holder_def)
  have "cpu_ok (ifs c) (card (has m c)) (cpus (mem m) c)" using lock_invD(3) [OF inv, of c] c by simp
  then obtain p where p: "pushcli c (mem m) = Ret (?s p)" "cpu_ok (ifs c) (Suc (card (has m c))) (cpus (?s p) c)"
    by (rule pushcli_Ret) simp
  obtain q where q: "holding_locked c l (?s p) = Ret (True, ?s q)" "cpu_ok (ifs c) (Suc (Suc (card (has m c)))) (cpus (?s q) c)"
    by (rule holding_locked_Ret [OF p(2), of l]) (use l in simp)
  obtain x where "holding_cpu c l True (?s q) = Ret (True, ?s x)" by (rule holding_cpu_Ret [OF q(2), of l True]) (use l in simp)
  then show ?thesis using p q by (simp add: acquire_check_def)
qed

lemma release_unheld:
  assumes inv: "lock_inv n ifs m" and c: "pcs m c = Outside" "l \<notin> has m c"
  shows "rbind (holding_locked c l (mem m)) (\<lambda>(r, s). release_check c l r s) = Panic ''release''"
proof -
  let ?s = "\<lambda>p. (mem m)\<lparr>cpus := (cpus (mem m))(c := p)\<rparr>"
  let ?r = "locked (locks (mem m) l)"
  have l: "lcpu (locks (mem m) l) \<noteq> Some c" using lock_invD(6) [OF inv, of l c] c by auto
  have "cpu_ok (ifs c) (card (has m c)) (cpus (mem m) c)" using lock_invD(3) [OF inv, of c] c by simp
  then obtain p where p: "holding_locked c l (mem m) = Ret (?r, ?s p)" "cpu_ok (ifs c) (Suc (card (has m c))) (cpus (?s p) c)"
    by (rule holding_locked_Ret) simp
  obtain x where "holding_cpu c l ?r (?s p) = Ret (False, ?s x)" by (rule holding_cpu_Ret [OF p(2), of l ?r]) (use l in simp)
  then show ?thesis using p by (simp add: release_check_def)
qed

text \<open>A processor that is alone at a free lock takes it.\<close>

lemma acquire_run:
  assumes r: "lock_reach n ifs m" and c: "pcs m c = Outside" "l < n" "\<And>d. \<not> holder m d l"
  obtains m' where "lock_reach n ifs m'" "pcs m' = pcs m" "has m' = (has m)(c := insert l (has m c))"
proof -
  have no: "l \<notin> has m d" "pcs m d \<noteq> Taken l" for d using c(3) [of d] by (auto simp: holder_def)
  obtain m1 where 1: "lock_reach n ifs m1" "pcs m1 = (pcs m)(c := Entered l)" "has m1 = has m"
    using inv_acquire [OF lock_reach_inv [OF r] c(1,2) no(1)] lock_reach.step [OF r lock_step.acquire [OF c(1,2) no(1)]] by auto
  have p1: "pcs m1 c = Entered l" using 1(2) by simp
  obtain q m2 where 2: "lock_reach n ifs m2" "pcs m2 = (pcs m)(c := Checking l q)" "has m2 = has m"
    using inv_check [OF lock_reach_inv [OF 1(1)] p1] lock_reach.step [OF 1(1) lock_step.check [OF p1]] 1(2,3) by auto
  have p2: "pcs m2 c = Checking l q" using 2(2) by simp
  obtain m3 where 3: "lock_reach n ifs m3" "pcs m3 = (pcs m)(c := Spinning l)" "has m3 = has m"
    using inv_spin [OF lock_reach_inv [OF 2(1)] p2] lock_reach.step [OF 2(1) lock_step.spin [OF p2]] 2(2,3) by auto
  have p3: "pcs m3 c = Spinning l" using 3(2) by simp
  have "\<not> locked (locks (mem m3) l)" using lock_invD(4) [OF lock_reach_inv [OF 3(1)], of l] 3(2,3) no by (auto simp: holder_def split: if_splits)
  then have x: "acquire_xchg l (mem m3) = (False, snd (acquire_xchg l (mem m3)))" by (simp add: acquire_xchg_def)
  obtain m4 where 4: "lock_reach n ifs m4" "pcs m4 = (pcs m)(c := Taken l)" "has m4 = has m"
    using lock_reach.step [OF 3(1) lock_step.take [OF p3 x]] 3(2,3) by auto
  have p4: "pcs m4 c = Taken l" using 4(2) by simp
  obtain m5 where "lock_reach n ifs m5" "pcs m5 = (pcs m)(c := Outside)" "has m5 = (has m)(c := insert l (has m c))"
    using inv_own [OF lock_reach_inv [OF 4(1)] p4] lock_reach.step [OF 4(1) lock_step.own [OF p4]] 4(2,3) by auto
  then show thesis using that c(1) by (metis fun_upd_triv)
qed

text \<open>C30. Spin locks give mutual exclusion on any number of processors, in every interleaving of their
  accesses to the locks. No two processors have the same lock, one that has a lock cannot be
  interrupted, and while a lock is taken every exchange on it fails. No step of \<^verbatim>\<open>acquire\<close> for a lock that
  the processor does not have and of \<^verbatim>\<open>release\<close> for one that it has panics; \<^verbatim>\<open>acquire\<close> for a lock that the
  processor has and \<^verbatim>\<open>release\<close> for one that it does not have do. An exchange on a lock that nobody has
  taken succeeds. A processor that has no lock and is in neither routine has its original interrupt flag.\<close>

theorem lock_exclusion:
  assumes "lock_reach n ifs m"
  shows "(\<forall>c d l. l \<in> has m c \<longrightarrow> l \<in> has m d \<longrightarrow> c = d) \<and>
    (\<forall>c l. l \<in> has m c \<longrightarrow> \<not> fl_if (cpus (mem m) c) \<and> fst (acquire_xchg l (mem m))) \<and>
    (\<forall>l. (\<forall>c. l \<notin> has m c \<and> pcs m c \<noteq> Taken l) \<longrightarrow> \<not> fst (acquire_xchg l (mem m))) \<and>
    (\<forall>c. case pcs m c of
        Outside \<Rightarrow> (has m c = {} \<longrightarrow> fl_if (cpus (mem m) c) = ifs c) \<and>
          (\<forall>l. if l \<in> has m c
             then rbind (pushcli c (mem m)) (\<lambda>s. rbind (holding_locked c l s) (\<lambda>(r, s). acquire_check c l r s)) = Panic ''acquire'' \<and>
               (\<exists>s. holding_locked c l (mem m) = Ret (True, s))
             else (\<exists>s. pushcli c (mem m) = Ret s) \<and> rbind (holding_locked c l (mem m)) (\<lambda>(r, s). release_check c l r s) = Panic ''release'')
      | Entered l \<Rightarrow> \<exists>x. holding_locked c l (mem m) = Ret x
      | Checking l r \<Rightarrow> \<exists>s. acquire_check c l r (mem m) = Ret s
      | Spinning l \<Rightarrow> True
      | Taken l \<Rightarrow> \<exists>s. acquire_own c l (mem m) = Ret s
      | Testing l r \<Rightarrow> \<exists>s. release_check c l r (mem m) = Ret s
      | Disowning l \<Rightarrow> True
      | Unlocking l \<Rightarrow> \<exists>s. release_unlock c l (mem m) = Ret s)"
proof -
  note inv = lock_reach_inv [OF assms]
  note I = lock_invD [OF inv]
  have out: "(has m c = {} \<longrightarrow> fl_if (cpus (mem m) c) = ifs c) \<and>
          (\<forall>l. if l \<in> has m c
             then rbind (pushcli c (mem m)) (\<lambda>s. rbind (holding_locked c l s) (\<lambda>(r, s). acquire_check c l r s)) = Panic ''acquire'' \<and>
               (\<exists>s. holding_locked c l (mem m) = Ret (True, s))
             else (\<exists>s. pushcli c (mem m) = Ret s) \<and> rbind (holding_locked c l (mem m)) (\<lambda>(r, s). release_check c l r s) = Panic ''release'')"
    if c: "pcs m c = Outside"  for c
  proof -
    have "\<exists>s. pushcli c (mem m) = Ret s" using I(3) [of c] by (meson pushcli_Ret)
    moreover have "has m c = {} \<longrightarrow> fl_if (cpus (mem m) c) = ifs c" using I(3) [of c] c by (auto simp: cpu_ok_def)
    moreover have "\<exists>s. holding_locked c l (mem m) = Ret (True, s)" if "l \<in> has m c" for l using inv_release [OF inv c that] by blast
    ultimately show ?thesis using acquire_twice [OF inv c] release_unheld [OF inv c] by simp
  qed
  have one: "\<forall>c d l. l \<in> has m c \<longrightarrow> l \<in> has m d \<longrightarrow> c = d" using I(5) by (auto simp: holder_def)
  have taken: "\<not> fl_if (cpus (mem m) c) \<and> fst (acquire_xchg l (mem m))" if "l \<in> has m c" for c l
  proof -
    have "0 < card (has m c)" using that I(7) [of c] by (auto simp: card_gt_0_iff)
    then show ?thesis using I(3) [of c] I(4) [of l] that by (auto simp: cpu_ok_def holder_def acquire_xchg_def)
  qed
  have unlocked: "\<not> fst (acquire_xchg l (mem m))" if "\<forall>c. l \<notin> has m c \<and> pcs m c \<noteq> Taken l" for l
    using that I(4) [of l] by (auto simp: holder_def acquire_xchg_def)
  have pos: "\<exists>x. holding_locked c l (mem m) = Ret x" if "pcs m c = Entered l" for c l using inv_check [OF inv that] by blast
  show ?thesis
  proof (intro conjI)
    show "\<forall>c l. l \<in> has m c \<longrightarrow> \<not> fl_if (cpus (mem m) c) \<and> fst (acquire_xchg l (mem m))" using taken by blast
    show "\<forall>l. (\<forall>c. l \<notin> has m c \<and> pcs m c \<noteq> Taken l) \<longrightarrow> \<not> fst (acquire_xchg l (mem m))" using unlocked by blast
  qed (rule one, rule allI, split pc.split, intro conjI allI impI TrueI,
      (use out in auto)[2], (use pos inv_spin [OF inv] inv_own [OF inv] inv_test [OF inv] inv_unlock [OF inv] in fast)+)
qed

theorem lock_exclusion_witness:
  "\<exists>m. lock_reach 1 (\<lambda>_. True) m \<and> 0 \<in> has m 0 \<and> fst (acquire_xchg 0 (mem m)) \<and> 0 \<notin> has m 1"
proof -
  have "\<not> holder (lock_init (\<lambda>_. True)) d 0" for d by (simp add: holder_def lock_init_def)
  then obtain m where m: "lock_reach 1 (\<lambda>_. True) m" "has m = (\<lambda>_. {})(0 := {0})"
    by (rule acquire_run [OF lock_reach.init, of "\<lambda>_. True" 0 0 1, rotated 2]) (auto simp: lock_init_def)
  have "0 \<in> has m 0" "0 \<notin> has m 1" using m(2) by auto
  then show ?thesis using m(1) lock_exclusion [OF m(1)] by blast
qed

end
