(* ===== verification/Pipe_Spec.thy ===== *)
theory Pipe_Spec
  imports File
begin

text \<open>
  The ring buffer of \<^verbatim>\<open>pipe.c\<close> is a bounded queue of bytes. The interface \<open>bounded_fifo\<close> says what a
  queue promises; the two counters that run freely modulo \<open>2 ^ 32\<close> provide it, and whole histories
  of reads and writes by any number of processes deliver the bytes in the order they were
  written.
\<close>

section \<open>Bounded queues\<close>

locale bounded_fifo =
  fixes items :: "'q \<Rightarrow> 'a list" and invar :: "'q \<Rightarrow> bool" and put :: "'q \<Rightarrow> 'a \<Rightarrow> 'q" and get :: "'q \<Rightarrow> 'a \<times> 'q"
    and full :: "'q \<Rightarrow> bool" and void :: "'q \<Rightarrow> bool" and cap :: nat
  assumes bound: "invar q \<Longrightarrow> length (items q) \<le> cap"
    and full_iff: "invar q \<Longrightarrow> full q \<longleftrightarrow> length (items q) = cap"
    and void_iff: "invar q \<Longrightarrow> void q \<longleftrightarrow> items q = []"
    and put_law: "invar q \<Longrightarrow> \<not> full q \<Longrightarrow> invar (put q x) \<and> items (put q x) = items q @ [x]"
    and get_law: "invar q \<Longrightarrow> \<not> void q \<Longrightarrow> invar (snd (get q)) \<and> items q = fst (get q) # items (snd (get q))"
begin

fun take_upto :: "nat \<Rightarrow> 'q \<Rightarrow> 'a list \<times> 'q" where
  "take_upto 0 q = ([], q)"
| "take_upto (Suc n) q = (if void q then ([], q) else let (x, q) = get q; (xs, q) = take_upto n q in (x # xs, q))"

lemma take_upto_spec:
  "invar q \<Longrightarrow> invar (snd (take_upto n q)) \<and> fst (take_upto n q) = take n (items q) \<and> items (snd (take_upto n q)) = drop n (items q)"
proof (induction n arbitrary: q)
  case (Suc n)
  show ?case
  proof (cases "void q")
    case True
    then show ?thesis using Suc.prems void_iff by simp
  next
    case False
    obtain x r where g: "get q = (x, r)" by (cases "get q")
    obtain xs r' where t: "take_upto n r = (xs, r')" by (cases "take_upto n r")
    show ?thesis using Suc.IH [of r] get_law [OF Suc.prems False] False by (simp add: g t)
  qed
qed simp

fun fill :: "'a list \<Rightarrow> 'q \<Rightarrow> 'a list \<times> 'q" where
  "fill [] q = ([], q)"
| "fill (x # xs) q = (if full q then (x # xs, q) else fill xs (put q x))"

lemma fill_spec:
  "invar q \<Longrightarrow> \<exists>acc. xs = acc @ fst (fill xs q) \<and> items (snd (fill xs q)) = items q @ acc \<and> invar (snd (fill xs q)) \<and>
     (fst (fill xs q) \<noteq> [] \<longrightarrow> full (snd (fill xs q)))"
proof (induction xs arbitrary: q)
  case (Cons x xs)
  show ?case
  proof (cases "full q")
    case False
    note p = put_law [OF Cons.prems False, of x]
    obtain acc where "xs = acc @ fst (fill xs (put q x))" "items (snd (fill xs (put q x))) = items (put q x) @ acc"
        "invar (snd (fill xs (put q x)))" "fst (fill xs (put q x)) \<noteq> [] \<longrightarrow> full (snd (fill xs (put q x)))"
      using Cons.IH [of "put q x"] p by blast
    then show ?thesis using False p by (intro exI [of _ "x # acc"]) auto
  qed (use Cons.prems in simp)
qed simp

end

section \<open>The ring buffer\<close>

definition pipe_ok :: "pipe \<Rightarrow> bool" where
  "pipe_ok p \<longleftrightarrow> length (pdata p) = PIPESIZE \<and> unat (nwrite p - nread p) \<le> PIPESIZE"

definition pipe_items :: "pipe \<Rightarrow> u8 list" where
  "pipe_items p = map (\<lambda>k. pdata p ! (unat (nread p + of_nat k) mod PIPESIZE)) [0..<unat (nwrite p - nread p)]"

definition pipe_void :: "pipe \<Rightarrow> bool" where
  "pipe_void p \<longleftrightarrow> nread p = nwrite p"

lemma ring_index: "unat (a mod of_nat PIPESIZE) = unat (a :: u32) mod PIPESIZE"
  by (simp add: unat_mod PIPESIZE_def)

lemma unat_add_mod: "unat (a + of_nat k :: u32) mod PIPESIZE = (unat a + k) mod PIPESIZE"
proof -
  have "(2::nat) ^ 32 = 512 * 2 ^ 23" by simp
  then have "(x mod 2 ^ 32) mod 512 = x mod (512 :: nat)" for x by (metis mod_mod_cancel dvd_triv_left)
  then show ?thesis by (simp add: unat_word_ariths unsigned_of_nat PIPESIZE_def take_bit_eq_mod mod_simps)
qed

lemma pipe_full_iff: "pipe_ok p \<Longrightarrow> pipe_full p \<longleftrightarrow> unat (nwrite p - nread p) = PIPESIZE"
proof -
  have "nwrite p = nread p + 512 \<longleftrightarrow> nwrite p - nread p = 512" by (metis add.commute add_diff_cancel_right' diff_add_cancel)
  also have "\<dots> \<longleftrightarrow> unat (nwrite p - nread p) = 512" by (simp add: word_unat_eq_iff)
  finally show ?thesis by (simp add: pipe_full_def PIPESIZE_def)
qed

lemma pipe_put_law:
  assumes ok: "pipe_ok p" and f: "\<not> pipe_full p"
  shows "pipe_ok (pipe_put p b)" "pipe_items (pipe_put p b) = pipe_items p @ [b]"
proof -
  let ?n = "unat (nwrite p - nread p)"
  have n: "?n < PIPESIZE" using ok f pipe_full_iff [OF ok] by (simp add: pipe_ok_def)
  then have s: "unat (nwrite p + 1 - nread p) = Suc ?n"
    using unat_add_no_wrap [of "nwrite p - nread p" 1] by (simp add: PIPESIZE_def algebra_simps)
  show "pipe_ok (pipe_put p b)" using ok n s by (simp add: pipe_ok_def pipe_put_def)
  have w: "unat (nwrite p) mod PIPESIZE = (unat (nread p) + ?n) mod PIPESIZE"
    using unat_add_mod [of "nread p" ?n] by simp
  have "(unat (nread p) + k) mod PIPESIZE \<noteq> (unat (nread p) + ?n) mod PIPESIZE" if "k < ?n" for k
  proof
    assume "(unat (nread p) + k) mod PIPESIZE = (unat (nread p) + ?n) mod PIPESIZE"
    then have "PIPESIZE dvd unat (nread p) + ?n - (unat (nread p) + k)" using that by (intro mod_eq_dvd_iff_nat [THEN iffD1]) simp_all
    then show False using that n nat_dvd_not_less [of "?n - k" PIPESIZE] by simp
  qed
  then have o: "(pdata p)[unat (nwrite p) mod PIPESIZE := b] ! ((unat (nread p) + k) mod PIPESIZE) = pdata p ! ((unat (nread p) + k) mod PIPESIZE)"
    if "k < ?n" for k using that w by (metis nth_list_update_neq)
  have l: "unat (nwrite p) mod PIPESIZE < length (pdata p)" using ok by (simp add: pipe_ok_def PIPESIZE_def)
  show "pipe_items (pipe_put p b) = pipe_items p @ [b]"
    using o l w by (simp add: pipe_items_def pipe_put_def s ring_index unat_add_mod del: of_nat_add)
qed

lemma pipe_get_law:
  assumes ok: "pipe_ok p" and f: "\<not> pipe_void p"
  shows "pipe_ok (snd (pipe_get p))" "pipe_items p = fst (pipe_get p) # pipe_items (snd (pipe_get p))"
proof -
  let ?n = "unat (nwrite p - nread p)"
  have "nwrite p - nread p \<noteq> 0" using f by (simp add: pipe_void_def)
  then obtain m where m: "?n = Suc m" by (metis unat_eq_zero not0_implies_Suc)
  have e: "nwrite p - (nread p + 1) = nwrite p - nread p - 1" by simp
  have d: "unat (nwrite p - (nread p + 1)) = m" unfolding e using m unat_minus_one [OF \<open>nwrite p - nread p \<noteq> 0\<close>] by simp
  show "pipe_ok (snd (pipe_get p))" using ok m d by (simp add: pipe_ok_def pipe_get_def)
  have n: "(unat (nread p + 1) + k) mod PIPESIZE = Suc (unat (nread p) + k) mod PIPESIZE" for k
    using unat_add_mod [of "nread p + 1" k] unat_add_mod [of "nread p" "Suc k"] by (simp add: ac_simps)
  show "pipe_items p = fst (pipe_get p) # pipe_items (snd (pipe_get p))"
    unfolding pipe_items_def m
    by (simp add: pipe_get_def d ring_index upt_conv_Cons map_Suc_upt [symmetric] unat_add_mod n del: upt_Suc)
qed

interpretation ring: bounded_fifo pipe_items pipe_ok pipe_put pipe_get pipe_full pipe_void PIPESIZE
proof unfold_locales
  fix q :: pipe and x assume q: "pipe_ok q"
  have len: "length (pipe_items q) = unat (nwrite q - nread q)" by (simp add: pipe_items_def)
  then show "length (pipe_items q) \<le> PIPESIZE" "pipe_full q \<longleftrightarrow> length (pipe_items q) = PIPESIZE"
    using q pipe_full_iff [OF q] by (simp_all add: pipe_ok_def)
  have "pipe_items q = [] \<longleftrightarrow> nwrite q - nread q = 0" using len by (metis length_0_conv unat_eq_zero)
  then show "pipe_void q \<longleftrightarrow> pipe_items q = []" by (auto simp: pipe_void_def)
  show "pipe_ok (pipe_put q x) \<and> pipe_items (pipe_put q x) = pipe_items q @ [x]" if "\<not> pipe_full q"
    using pipe_put_law [OF q that] by simp
  show "pipe_ok (snd (pipe_get q)) \<and> pipe_items q = fst (pipe_get q) # pipe_items (snd (pipe_get q))" if "\<not> pipe_void q"
    using pipe_get_law [OF q that] by simp
qed

section \<open>Reading and writing\<close>

text \<open>The loops of \<^verbatim>\<open>piperead\<close> and \<^verbatim>\<open>pipewrite\<close> are the ones of the interface.\<close>

lemma pipe_take_fifo: "pipe_take n p = ring.take_upto n p"
  by (induction n arbitrary: p) (simp_all add: pipe_void_def)

definition unsent :: "u8 list io \<Rightarrow> u8 list" where
  "unsent r = (case r of Done _ bs \<Rightarrow> bs | Asleep bs \<Rightarrow> bs)"

lemma wakeup_pipes [simp]: "pipes (wakeup c s) = pipes s"
  by (simp add: wakeup_def wakeup1_def)

lemma sleep_on_pipes [simp]: "pipes (sleep_on i c s) = pipes s"
  by (simp add: sleep_on_def setproc_def)

lemma pipewrite_fifo:
  "pipes s a = Some p \<Longrightarrow> \<exists>r s'. pipewrite cur a n bs s = Ret (r, s') \<and> unsent r = fst (ring.fill bs p) \<and>
     pipes s' a = Some (snd (ring.fill bs p)) \<and> (\<forall>b. b \<noteq> a \<longrightarrow> pipes s' b = pipes s b) \<and>
     (unsent r = [] \<longrightarrow> r = Done n []) \<and>
     (unsent r \<noteq> [] \<longrightarrow> r = (if readopen p \<and> \<not> killed (procs s ! cur) then Asleep (unsent r) else Done (-1) (unsent r)))"
proof (induction bs arbitrary: s p)
  case Nil
  then show ?case by (simp add: unsent_def)
next
  case (Cons b bs)
  show ?case
  proof (cases "pipe_full p")
    case True
    then show ?thesis using Cons.prems by (auto simp: unsent_def)
  next
    case False
    let ?s = "s\<lparr>pipes := (pipes s)(a \<mapsto> pipe_put p b)\<rparr>"
    have "pipewrite cur a n (b # bs) s = pipewrite cur a n bs ?s" using Cons.prems False by simp
    moreover have "ring.fill (b # bs) p = ring.fill bs (pipe_put p b)" using False by simp
    moreover have "readopen (pipe_put p b) = readopen p" by (simp add: pipe_put_def)
    ultimately show ?thesis using Cons.IH [of ?s "pipe_put p b"] by simp
  qed
qed

lemma piperead_fifo:
  assumes "pipes s a = Some p"
  shows "\<exists>r s'. piperead cur a n s = Ret (r, s') \<and> (\<forall>b. b \<noteq> a \<longrightarrow> pipes s' b = pipes s b) \<and>
     (if pipe_void p \<and> writeopen p then pipes s' a = Some p \<and> r = (if killed (procs s ! cur) then Done (-1) [] else Asleep [])
      else pipes s' a = Some (snd (ring.take_upto n p)) \<and> r = Done (int (length (fst (ring.take_upto n p)))) (fst (ring.take_upto n p)))"
  using assms by (simp add: piperead_def pipe_take_fifo pipe_void_def split: prod.splits)

text \<open>A history of calls on the pipe \<open>a\<close>: the bytes that went in and the bytes that came out.\<close>

inductive pipe_run :: "u32 \<Rightarrow> 'z kern_scheme \<Rightarrow> u8 list \<Rightarrow> u8 list \<Rightarrow> 'z kern_scheme \<Rightarrow> bool" for a s where
  pipe_start: "pipe_run a s [] [] s"
| pipe_write: "pipe_run a s ins outs t \<Longrightarrow> pipewrite cur a n bs t = Ret (r, u) \<Longrightarrow> bs = acc @ unsent r \<Longrightarrow> pipe_run a s (ins @ acc) outs u"
| pipe_read: "pipe_run a s ins outs t \<Longrightarrow> piperead cur a n t = Ret (r, u) \<Longrightarrow> pipe_run a s ins (outs @ unsent r) u"

lemma pipe_run_fifo:
  "pipe_run a s ins outs t \<Longrightarrow> pipes s a = Some p \<Longrightarrow> pipe_ok p \<Longrightarrow>
     \<exists>q. pipes t a = Some q \<and> pipe_ok q \<and> pipe_items p @ ins = outs @ pipe_items q"
proof (induction rule: pipe_run.induct)
  case (pipe_write ins outs t cur n bs r u acc)
  then obtain q where q: "pipes t a = Some q" "pipe_ok q" "pipe_items p @ ins = outs @ pipe_items q" by blast
  obtain acc' where f: "bs = acc' @ fst (ring.fill bs q)" "pipe_items (snd (ring.fill bs q)) = pipe_items q @ acc'" "pipe_ok (snd (ring.fill bs q))"
    using ring.fill_spec [OF q(2), of bs] by blast
  have "unsent r = fst (ring.fill bs q)" "pipes u a = Some (snd (ring.fill bs q))"
    using pipewrite_fifo [OF q(1), of cur n bs] pipe_write.hyps(2) by auto
  then show ?case using f q(3) pipe_write.hyps(3) by (metis append.assoc append_same_eq)
next
  case (pipe_read ins outs t cur n r u)
  then obtain q where q: "pipes t a = Some q" "pipe_ok q" "pipe_items p @ ins = outs @ pipe_items q" by blast
  note f = piperead_fifo [OF q(1), of cur n] and g = ring.take_upto_spec [OF q(2), of n]
  show ?case
  proof (cases "pipe_void q \<and> writeopen q")
    case True
    then have "unsent r = []" "pipes u a = Some q" using f pipe_read.hyps(2) by (auto simp: unsent_def split: if_splits)
    then show ?thesis using q by simp
  next
    case False
    then have "unsent r = take n (pipe_items q)" "pipes u a = Some (snd (ring.take_upto n q))"
      using f g pipe_read.hyps(2) by (auto simp: unsent_def)
    then show ?thesis using q g by simp
  qed
qed auto

text \<open>C31. A pipe is a bounded first-in first-out queue. Whatever calls of read and write any processes make on it
  after it was created, the bytes read so far followed by the bytes still inside are exactly the
  bytes accepted so far, in order, also when the counters wrap around; at most 512 are inside. In
  every such state a write is accepted completely or stops at a full pipe (where it sleeps, or
  fails when no reader is left or the process was killed), and a read takes the oldest bytes, or
  sleeps when the pipe is empty and still has a writer.\<close>

theorem pipe_fifo:
  assumes "pipe_run a s ins outs t" and "pipes s a = Some pipe_new"
  shows "\<exists>q. pipes t a = Some q \<and> ins = outs @ pipe_items q \<and> length (pipe_items q) \<le> PIPESIZE \<and>
    (\<exists>r u p' acc. pipewrite cur a n bs t = Ret (r, u) \<and> pipes u a = Some p' \<and> bs = acc @ unsent r \<and> pipe_items p' = pipe_items q @ acc \<and>
      (unsent r = [] \<and> r = Done n [] \<or> unsent r \<noteq> [] \<and> length (pipe_items p') = PIPESIZE \<and>
        r = (if readopen q \<and> \<not> killed (procs t ! cur) then Asleep (unsent r) else Done (-1) (unsent r)))) \<and>
    (\<exists>r u p'. piperead cur a k t = Ret (r, u) \<and> pipes u a = Some p' \<and>
      (if pipe_items q = [] \<and> writeopen q then p' = q \<and> r = (if killed (procs t ! cur) then Done (-1) [] else Asleep [])
       else r = Done (int (min k (length (pipe_items q)))) (take k (pipe_items q)) \<and> pipe_items p' = drop k (pipe_items q)))"
proof -
  have n: "pipe_ok pipe_new" "pipe_items pipe_new = []" by (simp_all add: pipe_ok_def pipe_new_def pipe_items_def)
  obtain q where q: "pipes t a = Some q" "pipe_ok q" "ins = outs @ pipe_items q"
    using pipe_run_fifo [OF assms n(1)] n(2) by auto
  obtain acc where f: "bs = acc @ fst (ring.fill bs q)" "pipe_items (snd (ring.fill bs q)) = pipe_items q @ acc" "pipe_ok (snd (ring.fill bs q))"
      "fst (ring.fill bs q) \<noteq> [] \<longrightarrow> pipe_full (snd (ring.fill bs q))"
    using ring.fill_spec [OF q(2), of bs] by blast
  obtain r u where w: "pipewrite cur a n bs t = Ret (r, u)" "unsent r = fst (ring.fill bs q)" "pipes u a = Some (snd (ring.fill bs q))"
      "unsent r = [] \<longrightarrow> r = Done n []"
      "unsent r \<noteq> [] \<longrightarrow> r = (if readopen q \<and> \<not> killed (procs t ! cur) then Asleep (unsent r) else Done (-1) (unsent r))"
    using pipewrite_fifo [OF q(1), of cur n bs] by blast
  have "unsent r \<noteq> [] \<longrightarrow> length (pipe_items (snd (ring.fill bs q))) = PIPESIZE" using f(3,4) w(2) ring.full_iff by simp
  then have W: "\<exists>r u p' acc. pipewrite cur a n bs t = Ret (r, u) \<and> pipes u a = Some p' \<and> bs = acc @ unsent r \<and> pipe_items p' = pipe_items q @ acc \<and>
      (unsent r = [] \<and> r = Done n [] \<or> unsent r \<noteq> [] \<and> length (pipe_items p') = PIPESIZE \<and>
        r = (if readopen q \<and> \<not> killed (procs t ! cur) then Asleep (unsent r) else Done (-1) (unsent r)))"
    using w f(1,2) by metis
  note g = ring.take_upto_spec [OF q(2), of k] and v = ring.void_iff [OF q(2)]
  obtain r u where "piperead cur a k t = Ret (r, u)"
      "if pipe_void q \<and> writeopen q then pipes u a = Some q \<and> r = (if killed (procs t ! cur) then Done (-1) [] else Asleep [])
       else pipes u a = Some (snd (ring.take_upto k q)) \<and> r = Done (int (length (fst (ring.take_upto k q)))) (fst (ring.take_upto k q))"
    using piperead_fifo [OF q(1), of cur k] by blast
  then have R: "\<exists>r u p'. piperead cur a k t = Ret (r, u) \<and> pipes u a = Some p' \<and>
      (if pipe_items q = [] \<and> writeopen q then p' = q \<and> r = (if killed (procs t ! cur) then Done (-1) [] else Asleep [])
       else r = Done (int (min k (length (pipe_items q)))) (take k (pipe_items q)) \<and> pipe_items p' = drop k (pipe_items q))"
    using g v by (cases "pipe_items q = [] \<and> writeopen q") (auto simp: min.commute)
  show ?thesis using q(1,3) ring.bound [OF q(2)] W R by blast
qed

theorem pipe_fifo_witness:
  "\<forall>z :: kern. \<exists>t q r u. pipe_run 4096 (z\<lparr>pipes := [4096 \<mapsto> pipe_new]\<rparr>) [7, 9] [] t \<and> pipes t 4096 = Some q \<and>
    pipe_items q = [7, 9] \<and> piperead 0 4096 10 t = Ret (r, u) \<and> r = Done 2 [7, 9]"
proof
  fix z :: kern
  let ?s = "z\<lparr>pipes := [4096 \<mapsto> pipe_new]\<rparr>"
  have f: "ring.fill [7, 9] pipe_new = ([], pipe_put (pipe_put pipe_new 7) 9)"
  proof -
    have p: "nwrite (pipe_put p b) = nwrite p + 1" "nread (pipe_put p b) = nread p" for p b by (simp_all add: pipe_put_def)
    have "nwrite pipe_new = 0" "nread pipe_new = 0" by (simp_all add: pipe_new_def)
    then have "\<not> pipe_full pipe_new" "\<not> pipe_full (pipe_put pipe_new 7)" by (simp_all add: pipe_full_def p PIPESIZE_def)
    then show ?thesis by simp
  qed
  have s: "pipes ?s 4096 = Some pipe_new" by simp
  obtain r t where r: "pipewrite 0 4096 2 [7, 9] ?s = Ret (r, t)" "unsent r = fst (ring.fill [7, 9] pipe_new)"
    using pipewrite_fifo [OF s, of 0 2 "[7, 9]"] by blast
  have "[7, 9] = [7, 9] @ unsent r" using r(2) unfolding f by simp
  from pipe_run.pipe_write [OF pipe_run.pipe_start r(1) this] have t: "pipe_run 4096 ?s [7, 9] [] t" by simp
  obtain q where q: "pipes t 4096 = Some q" "[7, 9] = [] @ pipe_items q"
      "\<exists>r u p'. piperead 0 4096 10 t = Ret (r, u) \<and> pipes u 4096 = Some p' \<and>
      (if pipe_items q = [] \<and> writeopen q then p' = q \<and> r = (if killed (procs t ! 0) then Done (-1) [] else Asleep [])
       else r = Done (int (min 10 (length (pipe_items q)))) (take 10 (pipe_items q)) \<and> pipe_items p' = drop 10 (pipe_items q))"
    using pipe_fifo [OF t s, of 0 0 "[]" 10] by blast
  have i: "pipe_items q = [7, 9]" using q(2) by simp
  obtain r u where "piperead 0 4096 10 t = Ret (r, u)" "r = Done 2 [7, 9]" using q(3) unfolding i by auto
  then show "\<exists>t q r u. pipe_run 4096 ?s [7, 9] [] t \<and> pipes t 4096 = Some q \<and>
    pipe_items q = [7, 9] \<and> piperead 0 4096 10 t = Ret (r, u) \<and> r = Done 2 [7, 9]"
    using t q(1) i by blast
qed

end
