(* ===== verification/Kstring.thy ===== *)
theory Kstring
  imports Phys_Mem
begin

text \<open>
  The string and memory routines of \<^verbatim>\<open>string.c\<close>, on a byte memory. The instructions
  \<^verbatim>\<open>rep stosb\<close> and \<^verbatim>\<open>rep stosl\<close> of \<^verbatim>\<open>x86.h\<close> are the loops they run. A loop that ends at a NUL byte
  is a partial function: \<open>None\<close> is a loop that never finds one.
\<close>

section \<open>The routines\<close>

fun stosb :: "nat \<Rightarrow> pmem \<Rightarrow> u32 \<Rightarrow> u8 \<Rightarrow> pmem" where
  "stosb 0 m addr c = m"
| "stosb (Suc n) m addr c = stosb n (m(addr := c)) (addr + 1) c"

fun stosl :: "nat \<Rightarrow> pmem \<Rightarrow> u32 \<Rightarrow> u32 \<Rightarrow> pmem" where
  "stosl 0 m addr v = m"
| "stosl (Suc n) m addr v = stosl n (store32 m addr v) (addr + 4) v"

definition memset :: "pmem \<Rightarrow> u32 \<Rightarrow> int \<Rightarrow> u32 \<Rightarrow> pmem" where
  "memset m dst c n =
     (if dst mod 4 = 0 \<and> n mod 4 = 0 then
        let c = word_of_int c AND 0xFF
        in stosl (unat (n div 4)) m dst (push_bit 24 c OR push_bit 16 c OR push_bit 8 c OR c)
      else stosb (unat n) m dst (word_of_int c))"

fun memcmp_loop :: "nat \<Rightarrow> pmem \<Rightarrow> u32 \<Rightarrow> u32 \<Rightarrow> int" where
  "memcmp_loop 0 m p q = 0"
| "memcmp_loop (Suc n) m p q = (if m p \<noteq> m q then uint (m p) - uint (m q) else memcmp_loop n m (p + 1) (q + 1))"

definition memcmp :: "pmem \<Rightarrow> u32 \<Rightarrow> u32 \<Rightarrow> u32 \<Rightarrow> int" where
  "memcmp m v1 v2 n = memcmp_loop (unat n) m v1 v2"

fun memmove_down :: "nat \<Rightarrow> pmem \<Rightarrow> u32 \<Rightarrow> u32 \<Rightarrow> pmem" where
  "memmove_down 0 m d s = m"
| "memmove_down (Suc n) m d s = memmove_down n (m(d - 1 := m (s - 1))) (d - 1) (s - 1)"

fun memmove_up :: "nat \<Rightarrow> pmem \<Rightarrow> u32 \<Rightarrow> u32 \<Rightarrow> pmem" where
  "memmove_up 0 m d s = m"
| "memmove_up (Suc n) m d s = memmove_up n (m(d := m s)) (d + 1) (s + 1)"

definition memmove :: "pmem \<Rightarrow> u32 \<Rightarrow> u32 \<Rightarrow> u32 \<Rightarrow> pmem" where
  "memmove m dst src n =
     (if src < dst \<and> src + n > dst then memmove_down (unat n) m (dst + n) (src + n)
      else memmove_up (unat n) m dst src)"

definition memcpy :: "pmem \<Rightarrow> u32 \<Rightarrow> u32 \<Rightarrow> u32 \<Rightarrow> pmem" where
  "memcpy m dst src n = memmove m dst src n"

fun strncmp_loop :: "nat \<Rightarrow> pmem \<Rightarrow> u32 \<Rightarrow> u32 \<Rightarrow> int" where
  "strncmp_loop 0 m p q = 0"
| "strncmp_loop (Suc n) m p q =
     (if m p \<noteq> 0 \<and> m p = m q then strncmp_loop n m (p + 1) (q + 1) else uint (m p) - uint (m q))"

definition strncmp :: "pmem \<Rightarrow> u32 \<Rightarrow> u32 \<Rightarrow> u32 \<Rightarrow> int" where
  "strncmp m p q n = strncmp_loop (unat n) m p q"

text \<open>The first loop of \<^verbatim>\<open>strncpy\<close>; the result is the count that is left and where it stopped.\<close>

fun strncpy_copy :: "nat \<Rightarrow> pmem \<Rightarrow> u32 \<Rightarrow> u32 \<Rightarrow> nat \<times> u32 \<times> pmem" where
  "strncpy_copy 0 m s t = (0, s, m)"
| "strncpy_copy (Suc n) m s t =
     (if m t = 0 then (n, s + 1, m(s := 0)) else strncpy_copy n (m(s := m t)) (s + 1) (t + 1))"

definition strncpy :: "pmem \<Rightarrow> u32 \<Rightarrow> u32 \<Rightarrow> int \<Rightarrow> pmem" where
  "strncpy m s t n = (let (k, s, m) = strncpy_copy (nat n) m s t in stosb k m s 0)"

fun safestrcpy_copy :: "nat \<Rightarrow> pmem \<Rightarrow> u32 \<Rightarrow> u32 \<Rightarrow> u32 \<times> pmem" where
  "safestrcpy_copy 0 m s t = (s, m)"
| "safestrcpy_copy (Suc n) m s t =
     (if m t = 0 then (s + 1, m(s := 0)) else safestrcpy_copy n (m(s := m t)) (s + 1) (t + 1))"

definition safestrcpy :: "pmem \<Rightarrow> u32 \<Rightarrow> u32 \<Rightarrow> int \<Rightarrow> pmem" where
  "safestrcpy m s t n =
     (if n \<le> 0 then m else let (s, m) = safestrcpy_copy (nat (n - 1)) m s t in m(s := 0))"

partial_function (option) strlen_loop :: "pmem \<Rightarrow> u32 \<Rightarrow> int \<Rightarrow> int option" where
  "strlen_loop m s n = (if m (s + word_of_int n) = 0 then Some n else strlen_loop m s (n + 1))"

definition strlen :: "pmem \<Rightarrow> u32 \<Rightarrow> int option" where
  "strlen m s = strlen_loop m s 0"

section \<open>Filling\<close>

text \<open>Offsets from an address, as numbers.\<close>

lemma unat_from: "a \<noteq> d \<Longrightarrow> unat (a - d) = Suc (unat (a - (d + 1)))" for a d :: u32
proof -
  assume "a \<noteq> d"
  then have "a - d \<noteq> 0" by simp
  then have "unat (a - d) = Suc (unat (a - d - 1))" by (simp add: unat_minus_one unat_gt_0)
  then show ?thesis by (simp add: algebra_simps)
qed

lemma unat_last: "unat (d - (d + 1) :: u32) = 4294967295" for d :: u32
proof -
  have "d - (d + 1) = (-1 :: u32)" by simp
  then show ?thesis by (simp add: unsigned_minus_1_eq_mask mask_eq_exp_minus_1)
qed

lemma stosb_nth: "n < 2 ^ 32 \<Longrightarrow> stosb n m d c a = (if unat (a - d) < n then c else m a)"
proof (induction n m d c rule: stosb.induct)
  case (2 n m d c)
  have "stosb n (m(d := c)) (d + 1) c a = (if unat (a - (d + 1)) < n then c else (m(d := c)) a)"
    by (rule "2.IH") (use "2.prems" in simp)
  then show ?case using unat_from [of a d] unat_last [of d] "2.prems" by (cases "a = d") auto
qed simp

lemma stosb_set: "stosb (unat n) m dst c = mem_set m dst c n"
  using unat_less_2p32 [of n] by (simp add: fun_eq_iff stosb_nth mem_set_def word_less_nat_alt)

text \<open>Four bytes at a time is the same as one byte at a time.\<close>

lemma store32_same:
  fixes c :: u32
  assumes "c AND 0xFF = c"
  shows "store32 m a (push_bit 24 c OR push_bit 16 c OR push_bit 8 c OR c) =
    m(a := ucast c, a + 1 := ucast c, a + 2 := ucast c, a + 3 := ucast c)"
proof -
  have "(0xFF :: u32) = mask 8" by (simp add: mask_eq_exp_minus_1)
  then have "c = take_bit 8 c" using assms by (simp add: take_bit_eq_mask)
  then have b: "i < 8" if "bit c i" for i using that by (metis bit_take_bit_iff)
  have "(ucast (drop_bit 8 (push_bit 24 c OR push_bit 16 c OR push_bit 8 c OR c)) :: u8) = ucast c"
    "(ucast (drop_bit 16 (push_bit 24 c OR push_bit 16 c OR push_bit 8 c OR c)) :: u8) = ucast c"
    "(ucast (drop_bit 24 (push_bit 24 c OR push_bit 16 c OR push_bit 8 c OR c)) :: u8) = ucast c"
    "(ucast (push_bit 24 c OR push_bit 16 c OR push_bit 8 c OR c) :: u8) = ucast c"
    by (rule bit_word_eqI, use b in \<open>force simp: bit_simps\<close>)+
  then show ?thesis by (simp add: store32_def)
qed

lemma stosl_stosb:
  fixes c :: u32
  assumes "c AND 0xFF = c"
  shows "stosl n m a (push_bit 24 c OR push_bit 16 c OR push_bit 8 c OR c) = stosb (4 * n) m a (ucast c)"
proof (induction n arbitrary: m a)
  case (Suc n)
  have "4 * Suc n = Suc (Suc (Suc (Suc (4 * n))))" "a + 1 + 1 = a + 2" "a + 2 + 1 = a + 3" "a + 3 + 1 = a + 4" by simp_all
  then show ?case by (simp only: stosl.simps stosb.simps Suc store32_same [OF assms])
qed simp

text \<open>\<^verbatim>\<open>memset\<close> fills the block, whichever instruction it chooses.\<close>

lemma memset_set: "memset m dst c n = mem_set m dst (word_of_int c) n"
proof (cases "dst mod 4 = 0 \<and> n mod 4 = 0")
  case True
  let ?c = "word_of_int c AND 0xFF :: u32"
  have "4 * unat (n div 4) = unat n"
  proof -
    have "unat n mod 4 = 0" using True unat_mod [of n 4] by simp
    then show ?thesis using unat_div [of n 4] by (simp add: mult_div_mod_eq [symmetric] minus_mod_eq_mult_div [symmetric])
  qed
  moreover have "(ucast ?c :: u8) = word_of_int c"
  proof (rule bit_word_eqI)
    fix i assume i: "i < LENGTH(8)"
    have "(0xFF :: u32) = mask 8" by (simp add: mask_eq_exp_minus_1)
    then have "bit (0xFF :: u32) i" using i by (simp only: bit_mask_iff) simp
    then show "bit (ucast ?c :: u8) i = bit (word_of_int c :: u8) i" using i by (simp add: bit_simps)
  qed
  moreover have "?c AND 0xFF = ?c" by simp
  ultimately have "stosl (unat (n div 4)) m dst (push_bit 24 ?c OR push_bit 16 ?c OR push_bit 8 ?c OR ?c) = mem_set m dst (word_of_int c) n"
    using stosl_stosb [of ?c "unat (n div 4)" m dst] by (simp only: stosb_set)
  then show ?thesis using True by (simp only: memset_def Let_def simp_thms if_True)
next
  case False
  then show ?thesis unfolding memset_def stosb_set by (simp only: if_False)
qed

section \<open>Moving\<close>

lemma memmove_up_nth:
  assumes "n < 2 ^ 32" "\<And>i. i < n \<Longrightarrow> 0 < i \<Longrightarrow> \<forall>j < n - i. d + of_nat j \<noteq> s + of_nat (j + i)"
  shows "memmove_up n m d s a = (if unat (a - d) < n then m (s + (a - d)) else m a)"
  using assms
proof (induction n m d s rule: memmove_up.induct)
  case (2 n m d s)
  have IH: "memmove_up n (m(d := m s)) (d + 1) (s + 1) a =
      (if unat (a - (d + 1)) < n then (m(d := m s)) (s + 1 + (a - (d + 1))) else (m(d := m s)) a)"
  proof (rule "2.IH")
    fix i assume i: "i < n" "0 < i"
    show "\<forall>j < n - i. d + 1 + of_nat j \<noteq> s + 1 + of_nat (j + i)"
    proof (intro allI impI)
      fix j assume "j < n - i"
      then have "Suc j < Suc n - i" using i by simp
      then have "d + of_nat (Suc j) \<noteq> s + of_nat (Suc j + i)" using "2.prems"(2) [of i] i less_SucI by blast
      then show "d + 1 + of_nat j \<noteq> s + 1 + of_nat (j + i)" by (simp add: add.commute add.left_commute)
    qed
  qed (use "2.prems"(1) in simp)
  show ?case
  proof (cases "a = d")
    case True
    then show ?thesis using IH unat_last [of d] "2.prems"(1) by simp
  next
    case False
    have e: "s + 1 + (a - (d + 1)) = s + (a - d)" by simp
    have "s + (a - d) \<noteq> d" if "unat (a - (d + 1)) < n"
    proof -
      have "unat (a - d) < Suc n" "0 < unat (a - d)" using unat_from [OF False] that by simp_all
      moreover have "0 < Suc n - unat (a - d)" using calculation(1) by simp
      ultimately have "d + of_nat 0 \<noteq> s + of_nat (0 + unat (a - d))" using "2.prems"(2) [of "unat (a - d)"] by blast
      then show ?thesis by auto
    qed
    then show ?thesis using IH False unat_from [OF False] by (auto simp: e)
  qed
qed simp

text \<open>The loop that runs downwards is the other one on a memory with its addresses negated.\<close>

lemma memmove_down_up: "memmove_down n m d s a = memmove_up n (\<lambda>x. m (- x)) (1 - d) (1 - s) (- a)"
proof (induction n m d s rule: memmove_down.induct)
  case (2 n m d s)
  have n: "- x = d - 1 \<longleftrightarrow> x = 1 - d" for x by (metis minus_diff_eq minus_minus)
  have e: "(\<lambda>x. (m(d - 1 := m (s - 1))) (- x)) = (\<lambda>x. m (- x))(1 - d := m (- (1 - s)))"
    by (simp add: fun_eq_iff n)
  have "1 - (d - 1) = 1 - d + 1" "1 - (s - 1) = 1 - s + 1" by simp_all
  then show ?case using 2 by (simp only: memmove_down.simps memmove_up.simps e)
qed simp

lemma of_nat_32: "k < 2 ^ 32 \<Longrightarrow> unat (of_nat k :: u32) = k"
  by (simp add: unsigned_of_nat take_bit_nat_eq_self)

lemma rev_offset: "0 < unat n \<Longrightarrow> unat (n - 1 - b) < unat n \<longleftrightarrow> b < n" for n b :: u32
  by unat_arith

text \<open>C34. \<^verbatim>\<open>memmove\<close> is correct for every overlap of the two blocks, in both directions: each byte of
  the destination is the byte that the source had before the call, and no other byte changes. The
  only condition is that the source block does not reach the last byte of the address space and the
  destination does not go past it.\<close>

theorem memmove_correct:
  assumes "unat src + unat n < 2 ^ 32" "unat dst + unat n \<le> 2 ^ 32"
  shows "memmove m dst src n = mem_move m dst src n"
proof (cases "src < dst \<and> src + n > dst")
  case True
  have u: "unat (src + n) = unat src + unat n" by (rule unat_add_no_wrap [OF assms(1)])
  define k where "k = unat (dst - src)"
  have "src \<le> dst" using True by (blast intro: order.strict_implies_order)
  then have ks: "k = unat dst - unat src" by (simp add: k_def unat_sub)
  then have k: "dst = src + of_nat k" "0 < k" "k < unat n" using True u by (auto simp: k_def word_less_nat_alt)
  have "memmove m dst src n a = mem_move m dst src n a" for a
  proof -
    have "memmove_up (unat n) (\<lambda>x. m (- x)) (1 - (dst + n)) (1 - (src + n)) (- a) =
      (if unat (- a - (1 - (dst + n))) < unat n then m (- (1 - (src + n) + (- a - (1 - (dst + n))))) else m (- (- a)))"
    proof (rule memmove_up_nth)
      show "unat n < 2 ^ 32" using unat_less_2p32 [of n] by simp
      fix i assume i: "i < unat n" "0 < i"
      show "\<forall>j < unat n - i. 1 - (dst + n) + of_nat j \<noteq> 1 - (src + n) + of_nat (j + i)"
      proof (intro allI impI notI)
        fix j assume "1 - (dst + n) + of_nat j = 1 - (src + n) + of_nat (j + i)"
        then have "of_nat i + of_nat k = (0 :: u32)" using k(1) by (simp add: algebra_simps)
        then have "(of_nat (i + k) :: u32) = 0" by simp
        moreover have "0 < i + k" "i + k < 2 ^ 32" using i k(2) assms(2) unat_less_2p32 [of dst] ks by auto
        ultimately show False using of_nat_32 [of "i + k"] by simp
      qed
    qed
    moreover have "- a - (1 - (dst + n)) = dst + n - 1 - a" "- (1 - (src + n) + (- a - (1 - (dst + n)))) = src + (a - dst)"
      by (simp_all add: algebra_simps)
    moreover have "unat (dst + n - 1 - a) < unat n \<longleftrightarrow> a - dst < n"
      using rev_offset [of n "a - dst"] k(3) by (simp add: algebra_simps)
    ultimately have "memmove_down (unat n) m (dst + n) (src + n) a = (if a - dst < n then m (src + (a - dst)) else m a)"
      by (simp only: memmove_down_up minus_minus)
    then show ?thesis using True by (simp only: memmove_def mem_move_def if_True simp_thms)
  qed
  then show ?thesis by (simp add: fun_eq_iff)
next
  case False
  have "memmove_up (unat n) m dst src a = (if unat (a - dst) < unat n then m (src + (a - dst)) else m a)" for a
  proof (rule memmove_up_nth)
    show "unat n < 2 ^ 32" using unat_less_2p32 [of n] by simp
    fix i assume i: "i < unat n" "0 < i"
    show "\<forall>j < unat n - i. dst + of_nat j \<noteq> src + of_nat (j + i)"
    proof (intro allI impI notI)
      fix j assume "dst + of_nat j = src + of_nat (j + i)"
      then have d: "dst = src + of_nat i" by simp
      have "unat (of_nat i :: u32) = i" using i unat_less_2p32 [of n] by (intro of_nat_32) simp
      then have "unat dst = unat src + i" using unat_add_no_wrap [of src "of_nat i"] assms(1) i d by simp
      then show False using False i unat_add_no_wrap [OF assms(1)] by (auto simp: word_less_nat_alt)
    qed
  qed
  then show ?thesis using False by (auto simp: fun_eq_iff memmove_def mem_move_def word_less_nat_alt)
qed

theorem memmove_correct_witness:
  "memmove (\<lambda>a. ucast a) 12 10 5 = mem_move (\<lambda>a. ucast a) 12 10 5 \<and> memmove (\<lambda>a. ucast a) 12 10 5 16 = 14"
  using memmove_correct [of 10 5 12 "\<lambda>a. ucast a"] by (simp add: mem_move_def)

section \<open>Strings\<close>

lemma strlen_loop_finds:
  "k \<le> n \<Longrightarrow> (\<And>i. k \<le> i \<Longrightarrow> i < n \<Longrightarrow> m (s + of_nat i) \<noteq> 0) \<Longrightarrow> m (s + of_nat n) = 0 \<Longrightarrow> strlen_loop m s (int k) = Some (int n)"
proof (induction "n - k" arbitrary: k)
  case 0
  then show ?case by (subst strlen_loop.simps) simp
next
  case (Suc d)
  have "strlen_loop m s (int (Suc k)) = Some (int n)" by (rule Suc.hyps(1)) (use Suc in auto)
  moreover have "m (s + of_nat k) \<noteq> 0" using Suc by auto
  ultimately show ?case by (subst strlen_loop.simps) (simp add: add.commute)
qed

text \<open>\<^verbatim>\<open>strlen\<close> returns the number of bytes before the first NUL, if there is one.\<close>

lemma strlen_finds:
  "(\<And>i. i < n \<Longrightarrow> m (s + of_nat i) \<noteq> 0) \<Longrightarrow> m (s + of_nat n) = 0 \<Longrightarrow> strlen m s = Some (int n)"
  using strlen_loop_finds [of 0 n m s] by (simp add: strlen_def)

lemma safestrcpy_copy_end:
  assumes "safestrcpy_copy n m s t = (s', m')" "n < 2 ^ 32"
  shows "\<exists>k \<le> n. s' = s + of_nat k" "\<not> unat (a - s) < n \<Longrightarrow> m' a = m a"
  using assms
proof (induction n m s t rule: safestrcpy_copy.induct)
  case (2 n m s t)
  {
    case 1
    then show ?case
    proof (cases "m t = 0")
      case False
      then have c: "safestrcpy_copy n (m(s := m t)) (s + 1) (t + 1) = (s', m')" using 1 by simp
      obtain k where "k \<le> n" "s' = s + 1 + of_nat k" using "2.IH"(1) [OF False c] 1 by auto
      then show ?thesis by (intro exI [of _ "Suc k"]) simp
    qed (auto intro: exI [of _ 1])
  next
    case 2
    then have ne: "a \<noteq> s" by auto
    then have "\<not> unat (a - (s + 1)) < n" using 2(1) unat_from [of a s] by simp
    then have l: "m' a = (m(s := m t)) a" if "m t \<noteq> 0" "safestrcpy_copy n (m(s := m t)) (s + 1) (t + 1) = (s', m')"
      using "2.IH"(2) [OF that(1) _ that(2)] 2(3) by simp
    show ?case using l 2(2) ne by (cases "m t = 0") auto
  }
qed auto

text \<open>\<^verbatim>\<open>safestrcpy\<close> writes into its block only and always leaves a NUL in it.\<close>

lemma safestrcpy_safe:
  assumes "0 < n" "nat n < 2 ^ 32"
  shows "\<not> unat (a - s) < nat n \<Longrightarrow> safestrcpy m s t n a = m a" "\<exists>k < nat n. safestrcpy m s t n (s + of_nat k) = 0"
proof -
  obtain s' m' where c: "safestrcpy_copy (nat (n - 1)) m s t = (s', m')" by (cases "safestrcpy_copy (nat (n - 1)) m s t")
  have "nat (n - 1) < 2 ^ 32" using assms by simp
  note e = safestrcpy_copy_end [OF c this]
  obtain k where k: "k \<le> nat (n - 1)" "s' = s + of_nat k" using e(1) by blast
  have r: "safestrcpy m s t n = m'(s' := 0)" using assms(1) c by (simp add: safestrcpy_def)
  show "\<exists>k < nat n. safestrcpy m s t n (s + of_nat k) = 0" using k assms(1) by (intro exI [of _ k]) (auto simp: r)
  assume a: "\<not> unat (a - s) < nat n"
  have "unat (of_nat k :: u32) = k" using k(1) assms by (intro of_nat_32) simp
  then have "a \<noteq> s'" using a k assms(1) by auto
  moreover have "m' a = m a" by (rule e(2)) (use a in simp)
  ultimately show "safestrcpy m s t n a = m a" by (simp add: r)
qed

end
