(* ===== verification/Ulib.thy ===== *)
theory Ulib
  imports Kstring "HOL-Library.Monad_Syntax"
begin

text \<open>
  The C library of the user programs: \<^verbatim>\<open>ulib.c\<close> and \<^verbatim>\<open>printf.c\<close>, on the byte memory of a
  process. Loops that run to a NUL byte, or to the end of a number, are partial functions. System
  calls are arguments: \<open>read1\<close> reads one byte from standard input (\<open>None\<close> at the end or on an error)
  in some outside world. What is printed is the list of bytes written.
\<close>

section \<open>Strings\<close>

partial_function (option) ustrcpy :: "pmem \<Rightarrow> u32 \<Rightarrow> u32 \<Rightarrow> pmem option" where
  "ustrcpy m s t = (if m t = 0 then Some (m(s := m t)) else ustrcpy (m(s := m t)) (s + 1) (t + 1))"

partial_function (option) ustrcmp :: "pmem \<Rightarrow> u32 \<Rightarrow> u32 \<Rightarrow> int option" where
  "ustrcmp m p q =
     (if m p \<noteq> 0 \<and> m p = m q then ustrcmp m (p + 1) (q + 1) else Some (uint (m p) - uint (m q)))"

definition ustrlen :: "pmem \<Rightarrow> u32 \<Rightarrow> u32 option" where
  "ustrlen m s = map_option word_of_int (strlen_loop m s 0)"

definition umemset :: "pmem \<Rightarrow> u32 \<Rightarrow> int \<Rightarrow> u32 \<Rightarrow> pmem" where
  "umemset m dst c n = stosb (unat n) m dst (word_of_int c)"

text \<open>The result is the address of the character, or 0.\<close>

partial_function (option) ustrchr :: "pmem \<Rightarrow> u32 \<Rightarrow> u8 \<Rightarrow> u32 option" where
  "ustrchr m s c = (if m s = 0 then Some 0 else if m s = c then Some s else ustrchr m (s + 1) c)"

text \<open>\<open>k\<close> is what is left of \<^verbatim>\<open>max - 1 - i\<close>.\<close>

fun gets_loop :: "('w \<Rightarrow> u8 option \<times> 'w) \<Rightarrow> nat \<Rightarrow> 'w \<Rightarrow> pmem \<Rightarrow> u32 \<Rightarrow> u32 \<Rightarrow> (u32 \<times> pmem) \<times> 'w" where
  "gets_loop read1 0 w m buf i = ((i, m), w)"
| "gets_loop read1 (Suc k) w m buf i =
     (case read1 w of
        (None, w) \<Rightarrow> ((i, m), w)
      | (Some c, w) \<Rightarrow>
          if c = 10 \<or> c = 13 then ((i + 1, m(buf + i := c)), w)
          else gets_loop read1 k w (m(buf + i := c)) buf (i + 1))"

definition gets :: "('w \<Rightarrow> u8 option \<times> 'w) \<Rightarrow> 'w \<Rightarrow> pmem \<Rightarrow> u32 \<Rightarrow> int \<Rightarrow> pmem \<times> 'w" where
  "gets read1 w m buf n =
     (let ((i, m), w) = gets_loop read1 (nat (n - 1)) w m buf 0 in (m(buf + i := 0), w))"

definition ustat :: "('w \<Rightarrow> int \<times> 'w) \<Rightarrow> (int \<Rightarrow> 'w \<Rightarrow> int \<times> 'w) \<Rightarrow> (int \<Rightarrow> 'w \<Rightarrow> 'w) \<Rightarrow> 'w \<Rightarrow> int \<times> 'w" where
  "ustat open_n fstat_st close w =
     (let (fd, w) = open_n w
      in if fd < 0 then (-1, w)
         else let (r, w) = fstat_st fd w in (r, close fd w))"

text \<open>A char is signed; the sum is a 32-bit one.\<close>

partial_function (option) atoi_loop :: "pmem \<Rightarrow> u32 \<Rightarrow> u32 \<Rightarrow> u32 option" where
  "atoi_loop m s n =
     (if 48 \<le> sint (m s) \<and> sint (m s) \<le> 57 then atoi_loop m (s + 1) (n * 10 + word_of_int (sint (m s)) - 48) else Some n)"

definition atoi :: "pmem \<Rightarrow> u32 \<Rightarrow> u32 option" where
  "atoi m s = atoi_loop m s 0"

definition umemmove :: "pmem \<Rightarrow> u32 \<Rightarrow> u32 \<Rightarrow> int \<Rightarrow> pmem" where
  "umemmove m vdst vsrc n = memmove_up (nat n) m vdst vsrc"

section \<open>Printing\<close>

definition digits :: "u8 list" where
  "digits = map of_char ''0123456789ABCDEF''"

text \<open>The digits of a number, the last one first, as they are put into \<^verbatim>\<open>buf\<close>.\<close>

partial_function (option) printint_buf :: "u32 \<Rightarrow> u32 \<Rightarrow> u8 list option" where
  "printint_buf x base =
     (if x div base = 0 then Some [digits ! unat (x mod base)]
      else printint_buf (x div base) base \<bind> (\<lambda>ds. Some (digits ! unat (x mod base) # ds)))"

definition printint :: "u32 \<Rightarrow> u32 \<Rightarrow> bool \<Rightarrow> u8 list option" where
  "printint xx base sg =
     (let neg = sg \<and> sint xx < 0; x = if neg then - xx else xx
      in printint_buf x base \<bind> (\<lambda>buf. Some (rev (if neg then buf @ [45] else buf))))"

partial_function (option) putstr :: "pmem \<Rightarrow> u32 \<Rightarrow> u8 list option" where
  "putstr m s = (if m s = 0 then Some [] else putstr m (s + 1) \<bind> (\<lambda>out. Some (m s # out)))"

text \<open>One conversion: the character after the percent sign, the argument, and what is printed; the
  flag says whether the argument is used up.\<close>

definition printf_conv :: "pmem \<Rightarrow> u8 \<Rightarrow> u32 \<Rightarrow> (u8 list \<times> bool) option" where
  "printf_conv m c a =
     (if c = 100 then printint a 10 True \<bind> (\<lambda>out. Some (out, True))
      else if c = 120 \<or> c = 112 then printint a 16 False \<bind> (\<lambda>out. Some (out, True))
      else if c = 115 then
        (if a = 0 then Some (map of_char ''(null)'', True) else putstr m a \<bind> (\<lambda>out. Some (out, True)))
      else if c = 99 then Some ([ucast a], True)
      else if c = 37 then Some ([c], False)
      else Some ([37, c], False))"

partial_function (option) printf_loop :: "pmem \<Rightarrow> u32 \<Rightarrow> u32 \<Rightarrow> bool \<Rightarrow> u8 list option" where
  "printf_loop m fmt ap percent =
     (let c = m fmt
      in if c = 0 then Some []
         else if \<not> percent then
           (if c = 37 then printf_loop m (fmt + 1) ap True
            else printf_loop m (fmt + 1) ap False \<bind> (\<lambda>out. Some (c # out)))
         else printf_conv m c (load32 m ap) \<bind> (\<lambda>(o1, used).
           printf_loop m (fmt + 1) (if used then ap + 4 else ap) False \<bind> (\<lambda>out. Some (o1 @ out))))"

definition printf :: "pmem \<Rightarrow> u32 \<Rightarrow> u32 \<Rightarrow> u8 list option" where
  "printf m fmt ap = printf_loop m fmt ap False"

section \<open>Numbers\<close>

lemma digit: "k < 10 \<Longrightarrow> digits ! k = 48 + of_nat k"
  by (auto simp: digits_def less_Suc_eq numeral_eq_Suc)

definition is_digit :: "u8 \<Rightarrow> bool" where
  "is_digit c \<longleftrightarrow> 48 \<le> sint c \<and> sint c \<le> 57"

definition add_digit :: "u32 \<Rightarrow> u8 \<Rightarrow> u32" where
  "add_digit n c = n * 10 + word_of_int (sint c) - 48"

lemma sint_digit: "k < 10 \<Longrightarrow> sint (48 + of_nat k :: u8) = 48 + int k"
  by (auto simp: less_Suc_eq numeral_eq_Suc)

lemma digit_ok: "k < 10 \<Longrightarrow> is_digit (digits ! k) \<and> add_digit n (digits ! k) = n * 10 + of_nat k"
  by (simp add: is_digit_def add_digit_def digit sint_digit)

text \<open>The bytes of a list, at an address.\<close>

definition bytes_at :: "pmem \<Rightarrow> u32 \<Rightarrow> u8 list \<Rightarrow> bool" where
  "bytes_at m s cs \<longleftrightarrow> (\<forall>i < length cs. m (s + of_nat i) = cs ! i)"

lemma bytes_at_Nil [simp]: "bytes_at m s []"
  by (simp add: bytes_at_def)

lemma bytes_at_Cons [simp]: "bytes_at m s (c # cs) \<longleftrightarrow> m s = c \<and> bytes_at m (s + 1) cs"
  by (auto simp: bytes_at_def less_Suc_eq_0_disj add.assoc)

lemma atoi_digits:
  "bytes_at m s cs \<Longrightarrow> (\<And>c. c \<in> set cs \<Longrightarrow> is_digit c) \<Longrightarrow>
    atoi_loop m s n = atoi_loop m (s + of_nat (length cs)) (foldl add_digit n cs)"
proof (induction cs arbitrary: s n)
  case (Cons c cs)
  have "atoi_loop m s n = atoi_loop m (s + 1) (add_digit n c)"
    using Cons.prems by (subst atoi_loop.simps) (simp add: is_digit_def add_digit_def)
  then show ?case using Cons by (simp add: add.assoc)
qed simp

lemma printint_buf_ten:
  "\<exists>ds. printint_buf x 10 = Some ds \<and> (\<forall>c \<in> set ds. is_digit c) \<and> foldl add_digit 0 (rev ds) = x"
proof (induction "unat x" arbitrary: x rule: less_induct)
  case less
  have u: "unat (x mod 10) < 10" using unat_mod [of x 10] by simp
  note d = digit_ok [OF this]
  show ?case
  proof (cases "x div 10 = 0")
    case True
    then have "x mod 10 = x" using div_mult_mod_eq [of x 10] by simp
    then show ?thesis using True d by (subst printint_buf.simps) simp
  next
    case False
    then have "x \<noteq> 0" by auto
    then have "0 < unat x" by (simp add: unat_gt_0)
    then have "unat (x div 10) < unat x" using unat_div [of x 10] by simp
    then obtain ds where ds: "printint_buf (x div 10) 10 = Some ds" "\<forall>c \<in> set ds. is_digit c" "foldl add_digit 0 (rev ds) = x div 10"
      using less by blast
    have "printint_buf x 10 = Some (digits ! unat (x mod 10) # ds)"
      using False ds(1) by (subst printint_buf.simps) simp
    moreover have "foldl add_digit 0 (rev (digits ! unat (x mod 10) # ds)) = x" using d ds(3) div_mult_mod_eq [of x 10] by simp
    ultimately show ?thesis using ds(2) d by auto
  qed
qed

text \<open>C38. Printing and reading numbers fit together: what \<^verbatim>\<open>printf\<close> writes for the format "%d" and an
  argument that is not negative, \<^verbatim>\<open>atoi\<close> reads back as the same number, wherever the bytes are
  placed, if the byte after them is not a digit. Both loops end.\<close>

theorem printf_atoi:
  assumes "m fmt = of_char CHR ''%''" "m (fmt + 1) = of_char CHR ''d''" "m (fmt + 2) = 0" "0 \<le> sint (load32 m ap)"
  shows "\<exists>out. printf m fmt ap = Some out \<and>
    (\<forall>m' s. bytes_at m' s out \<longrightarrow> \<not> is_digit (m' (s + of_nat (length out))) \<longrightarrow> atoi m' s = Some (load32 m ap))"
proof -
  let ?x = "load32 m ap"
  obtain ds where ds: "printint_buf ?x 10 = Some ds" "\<forall>c \<in> set ds. is_digit c" "foldl add_digit 0 (rev ds) = ?x"
    using printint_buf_ten by blast
  have pi: "printint ?x 10 True = Some (rev ds)" using ds(1) assms(4) by (simp add: printint_def not_less [symmetric])
  have "printf_loop m (fmt + 1 + 1) (ap + 4) False = Some []" using assms(3) by (subst printf_loop.simps) (simp add: add.assoc)
  then have "printf_loop m (fmt + 1) ap True = Some (rev ds)"
    using assms(2) pi by (subst printf_loop.simps) (simp add: printf_conv_def)
  then have "printf m fmt ap = Some (rev ds)" using assms(1) unfolding printf_def by (subst printf_loop.simps) simp
  moreover have "atoi m' s = Some ?x" if "bytes_at m' s (rev ds)" "\<not> is_digit (m' (s + of_nat (length (rev ds))))" for m' s
  proof -
    have "atoi_loop m' s 0 = atoi_loop m' (s + of_nat (length (rev ds))) ?x"
      using atoi_digits [OF that(1), of 0] ds(2,3) by simp
    also have "\<dots> = Some ?x" using that(2) by (subst atoi_loop.simps) (auto simp: is_digit_def)
    finally show ?thesis by (simp add: atoi_def)
  qed
  ultimately show ?thesis by blast
qed

theorem printf_atoi_witness:
  "\<exists>out. printf (\<lambda>a. if a = 0 then 37 else if a = 1 then 100 else if a = 4 then 42 else 0) 0 4 = Some out \<and>
     atoi (\<lambda>a. if unat a < length out then out ! unat a else 0) 0 = Some 42"
proof -
  let ?m = "\<lambda>a :: u32. if a = 0 then 37 else if a = 1 then 100 else if a = 4 then 42 else 0 :: u8"
  have l: "load32 ?m 4 = 42" by (simp add: load32_def)
  obtain out where out: "printf ?m 0 4 = Some out"
      "\<And>m' s. bytes_at m' s out \<Longrightarrow> \<not> is_digit (m' (s + of_nat (length out))) \<Longrightarrow> atoi m' s = Some 42"
    using printf_atoi [of ?m 0 4] l by auto
  have "printf_loop ?m (1 + 1) 8 False = Some []" by (subst printf_loop.simps) simp
  moreover have "printint 42 10 True = Some [52, 50]"
    by (simp add: printint_def printint_buf.simps [of 42] printint_buf.simps [of 4] digits_def)
  ultimately have "printf_loop ?m 1 4 True = Some [52, 50]" by (subst printf_loop.simps) (simp add: l printf_conv_def)
  then have "printf ?m 0 4 = Some [52, 50]" unfolding printf_def by (subst printf_loop.simps) simp
  then have o2: "out = [52, 50]" using out(1) by simp
  let ?m' = "\<lambda>a :: u32. if unat a < length out then out ! unat a else 0"
  have "atoi ?m' 0 = Some 42" by (rule out(2)) (simp_all add: o2 is_digit_def)
  then show ?thesis using out(1) by blast
qed

end
