(* ===== verification/Umalloc.thy ===== *)
theory Umalloc
  imports Xv6_Prelude "HOL-Library.Monad_Syntax"
begin

text \<open>
  The allocator of the user programs, \<^verbatim>\<open>umalloc.c\<close>: a circular list of free blocks, each with a
  header of eight bytes. The two fields of a header are two maps from addresses, \<^verbatim>\<open>base\<close> is at the
  address \<open>bs\<close>, and \<^verbatim>\<open>sbrk\<close> is an argument that acts on an outside world and may not return. Walking the
  list may not end, so the loops are partial functions.
\<close>

record heap =
  hptr :: "u32 \<Rightarrow> u32"
  hsize :: "u32 \<Rightarrow> u32"
  freep :: u32

section \<open>Freeing\<close>

partial_function (option) free_find :: "heap \<Rightarrow> u32 \<Rightarrow> u32 \<Rightarrow> u32 option" where
  "free_find h bp p =
     (if bp > p \<and> bp < hptr h p then Some p
      else if p \<ge> hptr h p \<and> (bp > p \<or> bp < hptr h p) then Some p
      else free_find h bp (hptr h p))"

text \<open>Linking the block \<open>bp\<close> in after \<open>p\<close>: joined with the block above, then with the one below.\<close>

definition join_upper :: "heap \<Rightarrow> u32 \<Rightarrow> u32 \<Rightarrow> heap" where
  "join_upper h bp p =
     (if bp + 8 * hsize h bp = hptr h p then
        let h = h\<lparr>hsize := (hsize h)(bp := hsize h bp + hsize h (hptr h p))\<rparr>
        in h\<lparr>hptr := (hptr h)(bp := hptr h (hptr h p))\<rparr>
      else h\<lparr>hptr := (hptr h)(bp := hptr h p)\<rparr>)"

definition join_lower :: "heap \<Rightarrow> u32 \<Rightarrow> u32 \<Rightarrow> heap" where
  "join_lower h bp p =
     (if p + 8 * hsize h p = bp then
        let h = h\<lparr>hsize := (hsize h)(p := hsize h p + hsize h bp)\<rparr>
        in h\<lparr>hptr := (hptr h)(p := hptr h bp)\<rparr>
      else h\<lparr>hptr := (hptr h)(p := bp)\<rparr>)"

definition free :: "heap \<Rightarrow> u32 \<Rightarrow> heap option" where
  "free h ap =
     (let bp = ap - 8
      in free_find h bp (freep h) \<bind> (\<lambda>p.
        let h = join_lower (join_upper h bp p) bp p in Some (h\<lparr>freep := p\<rparr>)))"

section \<open>Allocating\<close>

text \<open>The result 0 is failure.\<close>

definition morecore :: "(u32 \<Rightarrow> 'w \<Rightarrow> (u32 \<times> 'w) option) \<Rightarrow> u32 \<Rightarrow> heap \<Rightarrow> 'w \<Rightarrow> ((u32 \<times> heap) \<times> 'w) option" where
  "morecore sbrk nu h w =
     (let nu = if nu < 4096 then 4096 else nu
      in sbrk (nu * 8) w \<bind> (\<lambda>(p, w).
        if p = -1 then Some ((0, h), w)
        else free (h\<lparr>hsize := (hsize h)(p := nu)\<rparr>) (p + 8) \<bind> (\<lambda>h. Some ((freep h, h), w))))"

text \<open>A block that is large enough: all of it, or its upper end.\<close>

definition malloc_take :: "heap \<Rightarrow> u32 \<Rightarrow> u32 \<Rightarrow> u32 \<Rightarrow> u32 \<times> heap" where
  "malloc_take h prevp p nunits =
     (let (p, h) =
        (if hsize h p = nunits then (p, h\<lparr>hptr := (hptr h)(prevp := hptr h p)\<rparr>)
         else
           let h = h\<lparr>hsize := (hsize h)(p := hsize h p - nunits)\<rparr>;
               p = p + 8 * hsize h p
           in (p, h\<lparr>hsize := (hsize h)(p := nunits)\<rparr>))
      in (p + 8, h\<lparr>freep := prevp\<rparr>))"

partial_function (option) malloc_loop ::
    "(u32 \<Rightarrow> 'w \<Rightarrow> (u32 \<times> 'w) option) \<Rightarrow> u32 \<Rightarrow> heap \<Rightarrow> 'w \<Rightarrow> u32 \<Rightarrow> u32 \<Rightarrow> ((u32 \<times> heap) \<times> 'w) option" where
  "malloc_loop sbrk nunits h w prevp p =
     (if hsize h p \<ge> nunits then Some (malloc_take h prevp p nunits, w)
      else if p = freep h then
        morecore sbrk nunits h w \<bind> (\<lambda>((p, h), w).
          if p = 0 then Some ((0, h), w) else malloc_loop sbrk nunits h w p (hptr h p))
      else malloc_loop sbrk nunits h w p (hptr h p))"

definition malloc :: "u32 \<Rightarrow> (u32 \<Rightarrow> 'w \<Rightarrow> (u32 \<times> 'w) option) \<Rightarrow> heap \<Rightarrow> 'w \<Rightarrow> u32 \<Rightarrow> ((u32 \<times> heap) \<times> 'w) option" where
  "malloc bs sbrk h w nbytes =
     (let nunits = (nbytes + 8 - 1) div 8 + 1;
          h = (if freep h = 0 then h\<lparr>hptr := (hptr h)(bs := bs), freep := bs, hsize := (hsize h)(bs := 0)\<rparr> else h);
          prevp = freep h
      in malloc_loop sbrk nunits h w prevp (hptr h prevp))"

lemma nunits_enough: "unat n < 2 ^ 32 - 7 \<Longrightarrow> unat ((n + 8 - 1) div 8 + 1 :: u32) = (unat n + 7) div 8 + 1"
proof -
  assume n: "unat n < 2 ^ 32 - 7"
  then have "unat (n + 7) = unat n + 7" using unat_add_no_wrap [of n 7] by simp
  then have "unat ((n + 7) div 8) = (unat n + 7) div 8" using unat_div [of "n + 7" 8] by simp
  moreover have "(unat n + 7) div 8 + 1 < 2 ^ 32" using n by simp
  ultimately show ?thesis using unat_add_no_wrap [of "(n + 7) div 8" 1] by (simp add: add.commute)
qed

end
