(* ===== verification/Umalloc_Spec.thy ===== *)
theory Umalloc_Spec
  imports Umalloc
begin

text \<open>
  What the allocator of \<^verbatim>\<open>umalloc.c\<close> promises: the blocks it has handed out and the blocks on its free
  list never overlap and lie in memory that \<^verbatim>\<open>sbrk\<close> delivered. The proofs follow the free list as a list of
  addresses: putting a block in, joining two neighbours, taking a block out, cutting one.
\<close>

section \<open>The free list\<close>

fun linked :: "heap \<Rightarrow> u32 list \<Rightarrow> u32 \<Rightarrow> bool" where
  "linked h [] z \<longleftrightarrow> True"
| "linked h (x # xs) z \<longleftrightarrow> hptr h x = hd (xs @ [z]) \<and> linked h xs z"

definition block :: "heap \<Rightarrow> u32 \<Rightarrow> nat set" where
  "block h b = {unat b ..< unat b + 8 * unat (hsize h b)}"

text \<open>
  The list starts at \<^verbatim>\<open>base\<close>, an empty block, and goes up through the blocks \<open>bl\<close>. With the blocks \<open>A\<close> that
  are handed out they are disjoint, and all of them are between \<^verbatim>\<open>base\<close> and the break \<open>B\<close>.
\<close>

definition free_list :: "u32 \<Rightarrow> nat \<Rightarrow> u32 set \<Rightarrow> heap \<Rightarrow> u32 list \<Rightarrow> bool" where
  "free_list bs B A h bl \<longleftrightarrow>
     linked h (bs # bl) bs \<and> sorted_wrt (<) (bs # bl) \<and> hsize h bs = 0 \<and> bs \<noteq> 0 \<and> set bl \<inter> A = {} \<and>
     (\<forall>b \<in> set bl \<union> A. 0 < hsize h b \<and> unat bs + 8 \<le> unat b \<and> unat b + 8 * unat (hsize h b) \<le> B) \<and>
     (\<forall>a \<in> set bl \<union> A. \<forall>b \<in> set bl \<union> A. a \<noteq> b \<longrightarrow> block h a \<inter> block h b = {})"

text \<open>\<open>F\<close> are the bytes of the free blocks; \<^verbatim>\<open>freep\<close> is null before the first call.\<close>

definition heap_ok :: "u32 \<Rightarrow> nat \<Rightarrow> u32 set \<Rightarrow> nat set \<Rightarrow> heap \<Rightarrow> bool" where
  "heap_ok bs B A F h \<longleftrightarrow> unat bs + 8 \<le> B \<and> B \<le> 2 ^ 31 \<and> bs \<noteq> 0 \<and>
     (if freep h = 0 then A = {} \<and> F = {}
      else \<exists>bl. free_list bs B A h bl \<and> freep h \<in> set (bs # bl) \<and> F = \<Union> (block h ` set bl))"

lemma unat_times8: "8 * unat x < 2 ^ 32 \<Longrightarrow> unat (8 * x) = 8 * unat x" for x :: u32
  by (simp add: unat_word_ariths)

lemma linked_append: "linked h (xs @ y # ys) z \<longleftrightarrow> linked h xs y \<and> linked h (y # ys) z"
  by (induction xs) (auto simp: hd_append)

lemma linked_cong: "(\<And>x. x \<in> set xs \<Longrightarrow> hptr h x = hptr h' x) \<Longrightarrow> linked h xs z = linked h' xs z"
  by (induction xs) auto

lemma linked_map: "linked h (x # xs) z \<longleftrightarrow> map (hptr h) (x # xs) = xs @ [z]"
  by (induction xs arbitrary: x) auto

lemma linked_inj: "linked h (x # xs) x \<Longrightarrow> distinct (x # xs) \<Longrightarrow> inj_on (hptr h) (set (x # xs))"
proof -
  assume "linked h (x # xs) x" "distinct (x # xs)"
  then have "map (hptr h) (x # xs) = xs @ [x]" "distinct (xs @ [x])" unfolding linked_map by auto
  then have "distinct (map (hptr h) (x # xs))" by simp
  then show ?thesis unfolding distinct_map by (rule conjunct2)
qed

lemma block_start: "0 < hsize h b \<Longrightarrow> unat b \<in> block h b"
  by (simp add: block_def word_less_nat_alt)

lemma block_cong: "hsize h b = hsize h' b \<Longrightarrow> block h b = block h' b"
  by (simp add: block_def)

lemma free_listD:
  assumes "free_list bs B A h bl"
  shows "linked h (bs # bl) bs" "sorted_wrt (<) (bs # bl)" "hsize h bs = 0" "bs \<noteq> 0" "set bl \<inter> A = {}"
    "b \<in> set bl \<union> A \<Longrightarrow> 0 < hsize h b" "b \<in> set bl \<union> A \<Longrightarrow> unat bs + 8 \<le> unat b"
    "b \<in> set bl \<union> A \<Longrightarrow> unat b + 8 * unat (hsize h b) \<le> B"
    "a \<in> set bl \<union> A \<Longrightarrow> b \<in> set bl \<union> A \<Longrightarrow> a \<noteq> b \<Longrightarrow> block h a \<inter> block h b = {}"
  using assms by (simp_all only: free_list_def Ball_def) (simp, metis)

lemma free_list_base: "free_list bs B A h bl \<Longrightarrow> b \<in> set bl \<union> A \<Longrightarrow> b \<noteq> bs"
  using free_listD(7) [of bs B A h bl b] by auto

text \<open>The place of an address in the list.\<close>

lemma free_list_split:
  assumes f: "free_list bs B A h bl" and b: "b \<in> A"
  obtains xs p ys where "bs # bl = xs @ p # ys" "\<And>x. x \<in> set (xs @ [p]) \<Longrightarrow> x < b" "\<And>y. y \<in> set ys \<Longrightarrow> b < y"
proof -
  note F = free_listD [OF f]
  have s: "sorted_wrt (<) (bs # bl)" by (rule F(2))
  have lt: "bs < b" using F(7) [of b] b by (simp add: word_less_nat_alt)
  have ne: "b \<noteq> x" if "x \<in> set (bs # bl)" for x using that F(5) free_list_base [OF f, of b] b by auto
  let ?l = "takeWhile (\<lambda>x. x < b) (bs # bl)" and ?r = "dropWhile (\<lambda>x. x < b) (bs # bl)"
  have l: "?l \<noteq> []" using lt by simp
  have r: "b < y" if "y \<in> set ?r" for y
  proof -
    have "?r \<noteq> []" using that by (metis empty_iff list.set(1))
    then obtain z zs where z: "?r = z # zs" by (meson list.exhaust)
    then have "\<not> z < b" using hd_dropWhile [of "\<lambda>x. x < b" "bs # bl"] by (metis list.distinct(1) list.sel(1))
    moreover have "z \<in> set (bs # bl)" using z by (metis list.set_intros(1) set_dropWhileD)
    ultimately have "b < z" using ne [of z] by simp
    moreover have "sorted_wrt (<) (z # zs)" using s sorted_wrt_dropWhile z by metis
    ultimately show ?thesis using that z by auto
  qed
  show thesis
  proof (rule that)
    show "bs # bl = butlast ?l @ last ?l # ?r" using l by (metis append_butlast_last_id append_Cons append_Nil append_assoc takeWhile_dropWhile_id)
    show "x < b" if "x \<in> set (butlast ?l @ [last ?l])" for x using that l by (metis append_butlast_last_id set_takeWhileD)
  qed (rule r)
qed

lemma walk_up:
  assumes "linked h (zs @ p # ys) z" "sorted_wrt (<) (zs @ [p])" "\<And>x. x \<in> set (zs @ [p]) \<Longrightarrow> x < b" "\<And>y. y \<in> set ys \<Longrightarrow> b < y" "ys = [] \<longrightarrow> z \<le> p"
  shows "free_find h b (hd (zs @ [p])) = Some p"
  using assms
proof (induction zs)
  case Nil
  show ?case
  proof (cases ys)
    case Nil
    then show ?thesis using Nil.prems by (subst free_find.simps) auto
  next
    case (Cons y ys')
    then show ?thesis using Nil.prems by (subst free_find.simps) auto
  qed
next
  case (Cons x zs)
  let ?n = "hd (zs @ [p])"
  have n: "hptr h x = ?n" using Cons.prems(1) by (cases zs) auto
  have m: "?n \<in> set (zs @ [p])" by (cases zs) auto
  then have "?n < b" "x < ?n" using Cons.prems(2,3) by auto
  moreover have "free_find h b ?n = Some p" using Cons.IH Cons.prems by auto
  ultimately show ?case by (subst free_find.simps) (auto simp: n)
qed

text \<open>The search of \<^verbatim>\<open>free\<close> ends at the block below, wherever it starts.\<close>

lemma free_find_found:
  assumes l: "linked h (xs @ p # ys) z" "z = hd (xs @ [p])" and s: "sorted_wrt (<) (xs @ p # ys)"
    and b: "\<And>x. x \<in> set (xs @ [p]) \<Longrightarrow> x < b" "\<And>y. y \<in> set ys \<Longrightarrow> b < y" and q: "q \<in> set (xs @ p # ys)"
  shows "free_find h b q = Some p"
proof -
  have zin: "z \<in> set (xs @ [p])" using l(2) by (cases xs) auto
  have zp: "z \<le> p" using l(2) s by (cases xs) (auto simp: sorted_wrt_append)
  have up: "free_find h b (hd (zs @ [p])) = Some p" if x: "xs = us @ zs" for us zs
  proof (rule walk_up)
    show "linked h (zs @ p # ys) z" using l(1) x by (cases zs) (auto simp: linked_append)
    show "sorted_wrt (<) (zs @ [p])" using s x by (auto simp: sorted_wrt_append)
  qed (use b x zp in auto)
  have wrap: "free_find h b (hd vs) = Some p" if "ys = us @ vs" "vs \<noteq> []" for us vs
    using that
  proof (induction vs arbitrary: us)
    case (Cons v vs)
    have v: "b < v" "z < v" using b(2) [of v] b(1) [OF zin] Cons.prems by auto
    have n: "hptr h v = hd (vs @ [z])" using l(1) Cons.prems by (auto simp: linked_append)
    have "v < hd vs" if "vs \<noteq> []" using s Cons.prems that by (cases vs) (auto simp: sorted_wrt_append)
    moreover have "free_find h b (hd (vs @ [z])) = Some p"
    proof (cases vs)
      case Nil
      then show ?thesis using up [of "[]" xs] l(2) by simp
    qed (use Cons.IH [of "us @ [v]"] Cons.prems in auto)
    ultimately show ?case using v b(1) [OF zin] by (subst free_find.simps) (cases vs; auto simp: n)
  qed simp
  consider us zs where "xs = us @ q # zs" | "q = p" | us zs where "ys = us @ q # zs" using q by (auto dest: split_list)
  then show ?thesis
  proof cases
    case 1
    then show ?thesis using up [of us "q # zs"] by simp
  next
    case 2
    then show ?thesis using up [of xs "[]"] by simp
  next
    case 3
    then show ?thesis using wrap [of us "q # zs"] by simp
  qed
qed

section \<open>Changes of the list\<close>

text \<open>A block that was handed out goes into the list.\<close>

lemma free_list_insert:
  assumes f: "free_list bs B A h bl" and b: "b \<in> A" and l: "bs # bl = xs @ p # ys"
    and xs: "\<And>x. x \<in> set (xs @ [p]) \<Longrightarrow> x < b" and ys: "\<And>y. y \<in> set ys \<Longrightarrow> b < y"
  shows "free_list bs B (A - {b}) (h\<lparr>hptr := (hptr h)(b := hptr h p, p := b)\<rparr>) (tl (xs @ p # b # ys))" (is "free_list _ _ _ ?h ?bl")
proof -
  note F = free_listD [OF f]
  have s: "set ?bl = insert b (set bl)" using l by (cases xs) auto
  have hd: "bs = hd (xs @ [p])" using l by (cases xs) auto
  have bl: "bs # ?bl = xs @ p # b # ys" using l by (cases xs) auto
  have d: "distinct (xs @ p # ys)" using F(2) unfolding l strict_sorted_iff by simp
  have nb: "b \<notin> set (xs @ p # ys)" using xs ys by fastforce
  have "linked h (xs @ p # ys) bs" using F(1) l by simp
  then have k: "linked h xs p" "hptr h p = hd (ys @ [bs])" "linked h ys bs" by (auto simp: linked_append)
  have "linked ?h xs p" using k(1) d nb by (subst linked_cong [of xs _ h]) auto
  moreover have "linked ?h ys bs" using k(3) d nb by (subst linked_cong [of ys _ h]) auto
  ultimately have "linked ?h (xs @ p # b # ys) bs" using k(2) nb by (auto simp: linked_append)
  moreover have "sorted_wrt (<) (xs @ p # b # ys)"
    using F(2) xs ys unfolding l by (auto simp: sorted_wrt_append)
  moreover have "set ?bl \<union> (A - {b}) = set bl \<union> A" using b unfolding s by blast
  moreover have "set ?bl \<inter> (A - {b}) = {}" using F(5) unfolding s by blast
  moreover have "block ?h = block h" by (simp add: fun_eq_iff block_def)
  ultimately show ?thesis using f unfolding free_list_def bl by simp
qed

text \<open>Two neighbours that touch become one.\<close>

lemma free_list_join:
  assumes f: "free_list bs B A h bl" and B: "B \<le> 2 ^ 31" and l: "bs # bl = xs @ a # b # ys" and a: "a \<noteq> bs" "a + 8 * hsize h a = b"
  shows "free_list bs B A (h\<lparr>hsize := (hsize h)(a := hsize h a + hsize h b), hptr := (hptr h)(a := hptr h b)\<rparr>) (tl (xs @ a # ys))"
      (is "free_list _ _ _ ?h ?bl")
    and "block (h\<lparr>hsize := (hsize h)(a := hsize h a + hsize h b), hptr := (hptr h)(a := hptr h b)\<rparr>) a = block h a \<union> block h b"
proof -
  note F = free_listD [OF f]
  have xs: "xs = bs # tl xs" using l a(1) by (cases xs) auto
  have bl: "bl = tl xs @ a # b # ys" "?bl = tl xs @ a # ys" using l xs by (cases xs; auto)+
  have ab: "a \<in> set bl \<union> A" "b \<in> set bl \<union> A" unfolding bl by auto
  have d: "distinct (bs # bl)" using F(2) unfolding strict_sorted_iff by simp
  have Aa: "set bl \<inter> A = {}" by (rule F(5))
  have e: "unat a + 8 * unat (hsize h a) \<le> B" "unat b + 8 * unat (hsize h b) \<le> B" using F(8) ab by auto
  have u8: "unat (8 * hsize h a) = 8 * unat (hsize h a)" using e B by (simp add: unat_word_ariths)
  have ub: "unat b = unat a + 8 * unat (hsize h a)" using a(2) u8 e B unat_add_no_wrap [of a "8 * hsize h a"] by auto
  have us: "unat (hsize h a + hsize h b) = unat (hsize h a) + unat (hsize h b)" using ub e B by (intro unat_add_no_wrap) auto
  show ba: "block ?h a = block h a \<union> block h b" unfolding block_def using ub us by (auto simp: algebra_simps)
  have bo: "block ?h c = block h c" if "c \<noteq> a" for c using that by (simp add: block_def)
  have k: "linked h xs a" "hptr h b = hd (ys @ [bs])" "linked h ys bs" using F(1) unfolding l by (auto simp: linked_append)
  have da: "a \<notin> set xs" "a \<notin> set ys" "b \<notin> set xs" "b \<notin> set ys" "a \<noteq> b" using d unfolding l by auto
  have "linked ?h xs a" using k(1) da by (subst linked_cong [of xs _ h]) auto
  moreover have "linked ?h ys bs" using k(3) da by (subst linked_cong [of ys _ h]) auto
  ultimately have "linked ?h (xs @ a # ys) bs" using k(2) by (auto simp: linked_append)
  then have 1: "linked ?h (bs # ?bl) bs" using bl(2) xs by (metis append_Cons)
  have 2: "sorted_wrt (<) (bs # ?bl)" using F(2) unfolding bl by (auto simp: sorted_wrt_append)
  have sub: "set ?bl \<union> A \<subseteq> set bl \<union> A - {b}" using d Aa da xs unfolding bl by auto
  have 3: "0 < hsize ?h c \<and> unat bs + 8 \<le> unat c \<and> unat c + 8 * unat (hsize ?h c) \<le> B" if c: "c \<in> set ?bl \<union> A" for c
  proof (cases "c = a")
    case True
    then show ?thesis using F(6,7) [OF ab(1)] e ub us by (simp add: word_less_nat_alt)
  next
    case False
    then show ?thesis using F(6,7,8) [of c] c sub by auto
  qed
  have 4: "block ?h c \<inter> block ?h c' = {}" if c: "c \<in> set ?bl \<union> A" "c' \<in> set ?bl \<union> A" "c \<noteq> c'" for c c'
  proof -
    have o: "block h x \<inter> block ?h a = {}" if "x \<in> set ?bl \<union> A" "x \<noteq> a" for x
      using F(9) [of x a] F(9) [of x b] that sub ab unfolding ba by blast
    show ?thesis using o [of c] o [of c'] bo [of c] bo [of c'] F(9) [of c c'] c sub by (cases "c = a"; cases "c' = a") blast+
  qed
  show "free_list bs B A ?h ?bl" unfolding free_list_def using 1 2 3 4 F(3,4,5) a(1) sub bl by auto
qed

lemma join_covers:
  assumes f: "free_list bs B A h bl" and B: "B \<le> 2 ^ 31" and l: "bs # bl = xs @ a # b # ys" and a: "a \<noteq> bs" "a + 8 * hsize h a = b"
  defines "h' \<equiv> h\<lparr>hsize := (hsize h)(a := hsize h a + hsize h b), hptr := (hptr h)(a := hptr h b)\<rparr>"
  shows "\<Union> (block h' ` set (tl (xs @ a # ys))) = \<Union> (block h ` set bl)"
    and "c \<in> set bl \<Longrightarrow> \<exists>c' \<in> set (tl (xs @ a # ys)). block h c \<subseteq> block h' c'"
proof -
  have xs: "xs = bs # tl xs" using l a(1) by (cases xs) auto
  have bl: "bl = tl xs @ a # b # ys" "tl (xs @ a # ys) = tl xs @ a # ys" using l xs by (cases xs; auto)+
  have ba: "block h' a = block h a \<union> block h b" unfolding h'_def by (rule free_list_join(2) [OF f B l a])
  have bo: "block h' c = block h c" if "c \<noteq> a" for c using that by (simp add: block_def h'_def)
  have "distinct (bs # bl)" using free_listD(2) [OF f] unfolding strict_sorted_iff by simp
  then have "a \<notin> set (tl xs @ ys)" unfolding bl by auto
  then have "block h' c = block h c" if "c \<in> set (tl xs @ ys)" for c using that bo [of c] by auto
  then show "\<Union> (block h' ` set (tl (xs @ a # ys))) = \<Union> (block h ` set bl)" unfolding bl using ba by auto
  show "\<exists>c' \<in> set (tl (xs @ a # ys)). block h c \<subseteq> block h' c'" if "c \<in> set bl"
    using that ba bo [of c] unfolding bl by (cases "c = a"; cases "c = b") auto
qed

lemma free_list_freep [simp]: "free_list bs B A (h\<lparr>freep := x\<rparr>) bl = free_list bs B A h bl" "block (h\<lparr>freep := x\<rparr>) = block h"
proof -
  show b: "block (h\<lparr>freep := x\<rparr>) = block h" by (simp add: fun_eq_iff block_def)
  have "linked (h\<lparr>freep := x\<rparr>) xs z = linked h xs z" for xs z by (rule linked_cong) simp
  then show "free_list bs B A (h\<lparr>freep := x\<rparr>) bl = free_list bs B A h bl" by (simp add: free_list_def b)
qed

text \<open>\<^verbatim>\<open>free\<close> in terms of these changes.\<close>

definition link_in :: "heap \<Rightarrow> u32 \<Rightarrow> u32 \<Rightarrow> heap" where
  "link_in h b p = h\<lparr>hptr := (hptr h)(b := hptr h p, p := b)\<rparr>"

definition join_if :: "heap \<Rightarrow> u32 \<Rightarrow> u32 \<Rightarrow> heap" where
  "join_if h a b = (if a + 8 * hsize h a = b then h\<lparr>hsize := (hsize h)(a := hsize h a + hsize h b), hptr := (hptr h)(a := hptr h b)\<rparr> else h)"

lemma joins_eq:
  assumes "p \<noteq> b" "hptr h p \<noteq> b" "hptr h p = p \<longrightarrow> b + 8 * hsize h b \<noteq> p"
  shows "join_lower (join_upper h b p) b p = join_if (join_if (link_in h b p) b (hptr h p)) p b"
  using assms unfolding join_lower_def join_upper_def join_if_def link_in_def Let_def
  by (cases h) (auto simp: fun_eq_iff)

lemma join_if_hsize: "c \<noteq> a \<Longrightarrow> hsize (join_if h a b) c = hsize h c"
  by (simp add: join_if_def)

lemma join_if_spec:
  assumes f: "free_list bs B A h bl" and B: "B \<le> 2 ^ 31" and l: "bs # bl = xs @ a # b # ys"
  obtains bl' ys' where "bs # bl' = xs @ a # ys'" "free_list bs B A (join_if h a b) bl'"
    "\<Union> (block (join_if h a b) ` set bl') = \<Union> (block h ` set bl)"
    "\<And>c. c \<in> set bl \<Longrightarrow> \<exists>c' \<in> set bl'. block h c \<subseteq> block (join_if h a b) c'"
proof (cases "a + 8 * hsize h a = b")
  case True
  have d: "distinct (bs # bl)" using free_listD(2) [OF f] unfolding strict_sorted_iff by simp
  then have a: "a \<noteq> bs" using True free_listD(3) [OF f] unfolding l by auto
  have "bs # tl (xs @ a # ys) = xs @ a # ys" using l a by (cases xs) auto
  then show thesis
    using that [of "tl (xs @ a # ys)" ys] free_list_join(1) [OF f B l a True] join_covers [OF f B l a True] by (simp add: join_if_def True)
next
  case False
  then show thesis using that [of bl "b # ys"] f l by (auto simp: join_if_def)
qed

lemma free_spec:
  assumes f: "free_list bs B A h bl" "freep h \<in> set (bs # bl)" and B: "B \<le> 2 ^ 31" and b: "b \<in> A"
  obtains h' bl' where "free h (b + 8) = Some h'" "free_list bs B (A - {b}) h' bl'" "freep h' \<in> set (bs # bl')"
    "\<Union> (block h' ` set bl') = \<Union> (block h ` set bl) \<union> block h b" "\<exists>c \<in> set bl'. block h b \<subseteq> block h' c"
    "\<And>a. a \<in> A \<Longrightarrow> hsize h' a = hsize h a \<or> a = b"
proof -
  note F = free_listD [OF f(1)]
  obtain xs p ys where l: "bs # bl = xs @ p # ys" and xs: "\<And>x. x \<in> set (xs @ [p]) \<Longrightarrow> x < b" and ys: "\<And>y. y \<in> set ys \<Longrightarrow> b < y"
    by (rule free_list_split [OF f(1) b]) blast
  have hd: "bs = hd (xs @ [p])" using l by (cases xs) auto
  have fp: "free_find h b (freep h) = Some p"
    by (rule free_find_found [OF F(1) [unfolded l] hd F(2) [unfolded l] xs ys f(2) [unfolded l]])
  let ?g = "link_in h b p" and ?gl = "tl (xs @ p # b # ys)"
  have g: "free_list bs B (A - {b}) ?g ?gl" unfolding link_in_def by (rule free_list_insert [OF f(1) b l xs ys])
  have gb: "block ?g = block h" by (simp add: fun_eq_iff block_def link_in_def)
  have gs: "set ?gl = insert b (set bl)" using l by (cases xs) auto
  have gl: "bs # ?gl = xs @ p # b # ys" using l by (cases xs) auto
  have np: "hptr h p = hd (ys @ [bs])" using F(1) unfolding l by (simp add: linked_append)
  have nb: "p \<noteq> b" using xs by fastforce
  have bB: "b \<in> set bl \<union> A" using b by blast
  have "unat (b + 8 * hsize h b) = unat b + 8 * unat (hsize h b)"
    using F(8) [OF bB] B by (subst unat_add_no_wrap) (auto simp: unat_word_ariths)
  then have nw: "b + 8 * hsize h b \<noteq> bs" using F(7) [OF bB] by auto
  let ?h1 = "join_if ?g b (hptr h p)"
  obtain l1 zs where 1: "bs # l1 = xs @ p # b # zs" "free_list bs B (A - {b}) ?h1 l1"
      "\<Union> (block ?h1 ` set l1) = \<Union> (block h ` set bl) \<union> block h b" "\<exists>c \<in> set l1. block h b \<subseteq> block ?h1 c"
  proof (cases ys)
    case Nil
    then have "?h1 = ?g" using np nw by (simp add: join_if_def link_in_def)
    then show thesis using that [OF gl] g gs gb by auto
  next
    case (Cons y ys')
    have "bs # ?gl = (xs @ [p]) @ b # y # ys'" using gl Cons by simp
    then show thesis by (rule join_if_spec [OF g B]) (use that np Cons gb gs in \<open>auto simp: Un_commute\<close>)
  qed
  let ?h2 = "join_if ?h1 p b"
  obtain l2 vs where 2: "bs # l2 = xs @ p # vs" "free_list bs B (A - {b}) ?h2 l2" "\<Union> (block ?h2 ` set l2) = \<Union> (block ?h1 ` set l1)"
      "\<And>c. c \<in> set l1 \<Longrightarrow> \<exists>c' \<in> set l2. block ?h1 c \<subseteq> block ?h2 c'"
    by (rule join_if_spec [OF 1(2) B 1(1)]) (rule that; (assumption | simp))
  have pl: "p \<in> set (bs # l2)" unfolding 2(1) by simp
  have "hptr h p \<noteq> b" "hptr h p = p \<longrightarrow> b + 8 * hsize h b \<noteq> p"
    using np nb nw free_list_base [OF f(1) bB] xs [of p] ys by (cases ys; fastforce)+
  then have "free h (b + 8) = Some (?h2\<lparr>freep := p\<rparr>)" using nb fp by (simp add: free_def joins_eq)
  moreover have "hsize ?h2 a = hsize h a \<or> a = b" if "a \<in> A" for a
  proof -
    have "p \<in> insert bs (set bl)" using l by (metis in_set_conv_decomp list.simps(15))
    then have "a \<noteq> p" using that F(5) free_list_base [OF f(1), of a] by blast
    then show ?thesis by (metis join_if_hsize link_in_def heap.simps(1) heap.select_convs(2) heap.surjective heap.update_convs(1))
  qed
  moreover have "\<exists>c \<in> set l2. block h b \<subseteq> block ?h2 c" using 1(4) 2(4) by (meson order_trans)
  ultimately show thesis using that [of "?h2\<lparr>freep := p\<rparr>" l2] pl 2(2,3) 1(3) by auto
qed

text \<open>A block leaves the list.\<close>

lemma free_list_pred:
  assumes f: "free_list bs B A h bl" and q: "q \<in> set bl" "p \<in> set (bs # bl)" "hptr h p = q"
  obtains xs ys where "bs # bl = xs @ p # q # ys"
proof -
  note F = free_listD [OF f]
  have d: "distinct (bs # bl)" using F(2) unfolding strict_sorted_iff by simp
  obtain us ys where "bl = us @ q # ys" using q(1) by (auto dest: split_list)
  then have l: "bs # bl = butlast (bs # us) @ last (bs # us) # q # ys" by simp
  moreover have "hptr h (last (bs # us)) = q" using F(1) unfolding l by (simp add: linked_append)
  then have "last (bs # us) = p" using linked_inj [OF F(1) d] q l by (metis in_set_conv_decomp inj_onD)
  ultimately show thesis using that by metis
qed

lemma free_list_unlink:
  assumes f: "free_list bs B A h bl" and q: "q \<in> set bl" "p \<in> set (bs # bl)" "hptr h p = q"
  shows "free_list bs B (insert q A) (h\<lparr>hptr := (hptr h)(p := hptr h q)\<rparr>) (remove1 q bl)" (is "free_list _ _ _ ?h _")
    and "p \<in> set (bs # remove1 q bl)"
proof -
  note F = free_listD [OF f]
  obtain xs ys where l: "bs # bl = xs @ p # q # ys" by (rule free_list_pred [OF f q])
  have d: "distinct (bs # bl)" using F(2) unfolding strict_sorted_iff by simp
  then have dl: "q \<notin> set xs" "q \<notin> set ys" "p \<notin> set xs" "p \<notin> set ys" "p \<noteq> q" unfolding l by auto
  have qb: "q \<noteq> bs" using free_list_base [OF f, of q] q(1) by blast
  have r: "bs # remove1 q bl = xs @ p # ys"
  proof -
    have "remove1 q (bs # bl) = xs @ p # ys" unfolding l using dl by (simp add: remove1_append)
    then show ?thesis using qb by simp
  qed
  then show "p \<in> set (bs # remove1 q bl)" by simp
  have k: "linked h xs p" "hptr h q = hd (ys @ [bs])" "linked h ys bs" using F(1) unfolding l by (auto simp: linked_append)
  have "linked ?h xs p" using k(1) dl by (subst linked_cong [of xs _ h]) auto
  moreover have "linked ?h ys bs" using k(3) dl by (subst linked_cong [of ys _ h]) auto
  ultimately have "linked ?h (bs # remove1 q bl) bs" unfolding r using k(2) by (auto simp: linked_append)
  moreover have "sorted_wrt (<) (bs # remove1 q bl)" using F(2) unfolding r l by (auto simp: sorted_wrt_append)
  moreover have "set (remove1 q bl) = set bl - {q}" using d by (simp add: set_remove1_eq)
  moreover have "set bl - {q} \<union> insert q A = set bl \<union> A" using q(1) by blast
  moreover have "block ?h = block h" by (simp add: fun_eq_iff block_def)
  ultimately show "free_list bs B (insert q A) ?h (remove1 q bl)" using f unfolding free_list_def by auto
qed

text \<open>The upper end of a block is cut off.\<close>

lemma free_list_cut:
  assumes f: "free_list bs B A h bl" and B: "B \<le> 2 ^ 31" and q: "q \<in> set bl" and n: "0 < n" "n < hsize h q"
  defines "a \<equiv> q + 8 * (hsize h q - n)" 
  defines "h' \<equiv> h\<lparr>hsize := (hsize h)(q := hsize h q - n, a := n)\<rparr>"
  shows "free_list bs B (insert a A) h' bl" "a \<notin> A" "a \<notin> set bl" "block h q = block h' q \<union> block h' a" "block h' q \<inter> block h' a = {}"
proof -
  note F = free_listD [OF f]
  have qA: "q \<in> set bl \<union> A" using q by blast
  have us: "unat (hsize h q - n) = unat (hsize h q) - unat n" using n(2) by (simp add: unat_sub less_imp_le)
  have lt: "unat n < unat (hsize h q)" "0 < unat n" using n by (simp_all add: word_less_nat_alt)
  have "8 * unat (hsize h q - n) < 2 ^ 32" using F(8) [OF qA] B us by simp
  then have u8: "unat (8 * (hsize h q - n)) = 8 * (unat (hsize h q) - unat n)" unfolding us [symmetric] by (rule unat_times8)
  have ua: "unat a = unat q + 8 * (unat (hsize h q) - unat n)"
    unfolding a_def u8 [symmetric] by (rule unat_add_no_wrap) (simp only: u8, use F(8) [OF qA] B in simp)
  have aq: "a \<noteq> q" "unat a \<in> block h q" using ua lt by (auto simp: block_def)
  show b: "block h q = block h' q \<union> block h' a" "block h' q \<inter> block h' a = {}"
    unfolding block_def h'_def using ua us lt aq(1) by auto
  have out: "a \<notin> set bl \<union> A"
  proof
    assume "a \<in> set bl \<union> A"
    then show False using F(9) [OF _ qA aq(1)] block_start [OF F(6)] aq(2) by blast
  qed
  then show "a \<notin> A" "a \<notin> set bl" by auto
  have o: "block h' c = block h c" "hsize h' c = hsize h c" if "c \<noteq> q" "c \<noteq> a" for c using that by (simp_all add: block_def h'_def)
  have ab: "a \<noteq> bs" using ua F(7) [OF qA] by auto
  have "linked h' (bs # bl) bs" using F(1) by (subst linked_cong [of _ _ h]) (auto simp: h'_def)
  moreover have "hsize h' bs = 0" using o(2) [of bs] F(3) ab free_list_base [OF f qA] by auto
  moreover have "0 < hsize h' c \<and> unat bs + 8 \<le> unat c \<and> unat c + 8 * unat (hsize h' c) \<le> B" if c: "c \<in> set bl \<union> insert a A" for c
  proof -
    consider "c = q" | "c = a" | "c \<noteq> q" "c \<noteq> a" by blast
    then show ?thesis
    proof cases
      case 3
      then show ?thesis using F(6,7,8) [of c] c o(2) [of c] by auto
    qed (use F(7,8) [OF qA] us lt ua aq(1) in \<open>auto simp: h'_def word_less_nat_alt\<close>)
  qed
  moreover have "block h' c \<inter> block h' d = {}" if c: "c \<in> set bl \<union> insert a A" "d \<in> set bl \<union> insert a A" "c \<noteq> d" for c d
  proof -
    have o': "block h' x \<inter> block h' q = {} \<and> block h' x \<inter> block h' a = {}" if "x \<in> set bl \<union> A" "x \<noteq> q" for x
    proof -
      have "x \<noteq> a" using that out by blast
      then show ?thesis using F(9) [of x q] that qA o(1) [of x] b(1) by blast
    qed
    have both: "block h' c \<inter> block h' d = {}" if "c \<noteq> q" "c \<noteq> a" "d \<noteq> q" "d \<noteq> a" using that F(9) [of c d] c o(1) by auto
    have oc: "block h' c \<inter> block h' q = {}" "block h' c \<inter> block h' a = {}" if "c \<noteq> q" "c \<noteq> a" using o' [of c] that c(1) by auto
    have od: "block h' q \<inter> block h' d = {}" "block h' a \<inter> block h' d = {}" if "d \<noteq> q" "d \<noteq> a" using o' [of d] that c(2) by auto
    consider "c \<noteq> q" "c \<noteq> a" "d \<noteq> q" "d \<noteq> a" | "c \<noteq> q" "c \<noteq> a" "d = q \<or> d = a" | "c = q \<or> c = a" "d \<noteq> q" "d \<noteq> a" | "c = q \<or> c = a" "d = q \<or> d = a"
      by satx
    then show ?thesis
    proof cases
      case 1
      then show ?thesis by (rule both)
    next
      case 2
      then show ?thesis using oc by metis
    next
      case 3
      then show ?thesis using od by metis
    next
      case 4
      then show ?thesis using b(2) c(3) by (elim disjE) (simp_all add: Int_commute)
    qed
  qed
  moreover have "set bl \<inter> insert a A = {}" using F(5) out by blast
  ultimately show "free_list bs B (insert a A) h' bl" unfolding free_list_def using F(2,4) by simp
qed

section \<open>Allocating\<close>

lemma malloc_take_spec:
  assumes f: "free_list bs B A h bl" and B: "B \<le> 2 ^ 31" and q: "q \<in> set bl" "p \<in> set (bs # bl)" "hptr h p = q" and n: "0 < n" "n \<le> hsize h q"
  obtains a h' bl' where "malloc_take h p q n = (a + 8, h')" "free_list bs B (insert a A) h' bl'" "freep h' \<in> set (bs # bl')" "a \<notin> A"
    "hsize h' a = n" "\<Union> (block h' ` set bl') \<union> block h' a = \<Union> (block h ` set bl)" "\<And>c. c \<in> A \<Longrightarrow> hsize h' c = hsize h c"
proof (cases "hsize h q = n")
  case True
  let ?h = "h\<lparr>hptr := (hptr h)(p := hptr h q)\<rparr>"
  have d: "distinct bl" using free_listD(2) [OF f] unfolding strict_sorted_iff by simp
  have "block ?h = block h" by (simp add: fun_eq_iff block_def)
  then show thesis using that [of q "?h\<lparr>freep := p\<rparr>" "remove1 q bl"] True free_list_unlink [OF f q] free_listD(5) [OF f] q(1) d
    by (auto simp: malloc_take_def set_remove1_eq)
next
  case False
  then have n': "n < hsize h q" using n(2) by simp
  let ?a = "q + 8 * (hsize h q - n)"
  let ?h = "h\<lparr>hsize := (hsize h)(q := hsize h q - n, ?a := n)\<rparr>"
  note C = free_list_cut [OF f B q(1) n(1) n']
  have o: "block ?h c = block h c" if "c \<in> set bl" "c \<noteq> q" for c
  proof -
    have "c \<noteq> ?a" using that C(3) by metis
    then show ?thesis using that by (simp add: block_def)
  qed
  have "\<Union> (block ?h ` set bl) = block ?h q \<union> \<Union> (block ?h ` (set bl - {q}))" using q(1) by blast
  moreover have "\<Union> (block h ` set bl) = block h q \<union> \<Union> (block h ` (set bl - {q}))" using q(1) by blast
  moreover have "block ?h ` (set bl - {q}) = block h ` (set bl - {q})" using o by (intro image_cong) auto
  ultimately have u: "\<Union> (block ?h ` set bl) \<union> block ?h ?a = \<Union> (block h ` set bl)" unfolding C(4) by (simp only: Un_ac)
  have k: "hsize ?h c = hsize h c" if "c \<in> A" for c
  proof -
    have "c \<noteq> q" using that free_listD(5) [OF f] q(1) by blast
    moreover have "c \<noteq> ?a" using that C(2) by metis
    ultimately show ?thesis by simp
  qed
  have t: "malloc_take h p q n = (?a + 8, ?h\<lparr>freep := p\<rparr>)" using False by (simp add: malloc_take_def Let_def)
  show thesis by (rule that [OF t, of bl]) (use C u k q(2) in simp_all)
qed

text \<open>One round of the loop of \<^verbatim>\<open>malloc\<close>, that ends at \<^verbatim>\<open>freep\<close>.\<close>

lemma walk_found:
  assumes "linked h (p # ws) (freep h)" "freep h \<notin> set ws" "x \<in> set (ws @ [freep h])" "n \<le> hsize h x"
  shows "\<exists>p' \<in> set (p # ws). n \<le> hsize h (hptr h p') \<and> malloc_loop sbrk n h w p (hptr h p) = Some (malloc_take h p' (hptr h p') n, w)"
  using assms
proof (induction ws arbitrary: p)
  case Nil
  then show ?case by (simp add: malloc_loop.simps [of _ n h w p "freep h"])
next
  case (Cons y ws)
  have y: "hptr h p = y" using Cons.prems(1) by simp
  show ?case
  proof (cases "n \<le> hsize h y")
    case True
    then show ?thesis by (intro bexI [of _ p]) (simp_all add: y malloc_loop.simps [of _ n h w p y])
  next
    case False
    then have x: "x \<in> set (ws @ [freep h])" using Cons.prems(3,4) by auto
    have "linked h (y # ws) (freep h)" "freep h \<notin> set ws" using Cons.prems by auto
    then obtain p' where "p' \<in> set (y # ws)" "n \<le> hsize h (hptr h p')" "malloc_loop sbrk n h w y (hptr h y) = Some (malloc_take h p' (hptr h p') n, w)"
      using Cons.IH [OF _ _ x Cons.prems(4)] by blast
    then show ?thesis using False Cons.prems(2) by (intro bexI [of _ p']) (auto simp: y malloc_loop.simps [of _ n h w p y])
  qed
qed

lemma walk_none:
  assumes "linked h (p # ws) (freep h)" "freep h \<notin> set ws" "\<And>x. x \<in> set (ws @ [freep h]) \<Longrightarrow> \<not> n \<le> hsize h x"
  shows "malloc_loop sbrk n h w p (hptr h p) =
    morecore sbrk n h w \<bind> (\<lambda>((p, h), w). if p = 0 then Some ((0, h), w) else malloc_loop sbrk n h w p (hptr h p))"
  using assms
proof (induction ws arbitrary: p)
  case Nil
  then show ?case by (simp add: malloc_loop.simps [of _ n h w p "freep h"])
next
  case (Cons y ws)
  have y: "hptr h p = y" using Cons.prems(1) by simp
  have "malloc_loop sbrk n h w p y = malloc_loop sbrk n h w y (hptr h y)"
    using Cons.prems(2) Cons.prems(3) [of y] by (subst malloc_loop.simps) auto
  then show ?case using Cons.IH [of y] Cons.prems y by auto
qed

lemma free_list_round:
  assumes f: "free_list bs B A h bl" "freep h \<in> set (bs # bl)"
  obtains ws where "linked h (freep h # ws) (freep h)" "freep h \<notin> set ws" "set (ws @ [freep h]) = set (bs # bl)"
proof -
  note F = free_listD [OF f(1)]
  obtain xs ys where l: "bs # bl = xs @ freep h # ys" using f(2) by (meson split_list)
  have "distinct (bs # bl)" using F(2) unfolding strict_sorted_iff by simp
  then have d: "freep h \<notin> set (ys @ xs)" unfolding l by auto
  have k: "linked h xs (freep h)" "hptr h (freep h) = hd (ys @ [bs])" "linked h ys bs" using F(1) unfolding l by (auto simp: linked_append)
  have "linked h (freep h # ys @ xs) (freep h)"
  proof (cases xs)
    case Nil
    then show ?thesis using k l by simp
  next
    case (Cons x xs')
    then have "x = bs" using l by simp
    then show ?thesis using k Cons by (cases ys) (auto simp: linked_append hd_append)
  qed
  moreover have "set ((ys @ xs) @ [freep h]) = set (bs # bl)" unfolding l by auto
  ultimately show thesis using that d by blast
qed

text \<open>Taking a block from a list that has one.\<close>

lemma malloc_found:
  assumes f: "free_list bs B A h bl" "freep h \<in> set (bs # bl)" and B: "B \<le> 2 ^ 31" and x: "x \<in> set bl" "0 < n" "n \<le> hsize h x"
  obtains a h' bl' where "malloc_loop sbrk n h w (freep h) (hptr h (freep h)) = Some ((a + 8, h'), w)" "free_list bs B (insert a A) h' bl'"
    "freep h' \<in> set (bs # bl')" "a \<notin> A" "hsize h' a = n" "\<Union> (block h' ` set bl') \<union> block h' a = \<Union> (block h ` set bl)"
    "\<And>c. c \<in> A \<Longrightarrow> hsize h' c = hsize h c"
proof -
  note F = free_listD [OF f(1)]
  obtain ws where ws: "linked h (freep h # ws) (freep h)" "freep h \<notin> set ws" "set (ws @ [freep h]) = set (bs # bl)"
    by (rule free_list_round [OF f])
  have xw: "x \<in> set (ws @ [freep h])" using x(1) ws(3) by simp
  obtain p where p: "p \<in> set (freep h # ws)" "n \<le> hsize h (hptr h p)"
      "malloc_loop sbrk n h w (freep h) (hptr h (freep h)) = Some (malloc_take h p (hptr h p) n, w)"
    using walk_found [OF ws(1,2) xw x(3), of sbrk w] by (elim bexE conjE)
  have pl: "p \<in> set (bs # bl)" using p(1) ws(3) by auto
  have "hptr h ` set (bs # bl) = set (bs # bl)" using F(1) unfolding linked_map by (metis list.set_map set_rotate1 rotate1.simps(2))
  then have "hptr h p \<in> set (bs # bl)" using pl by blast
  moreover have "hptr h p \<noteq> bs" using p(2) x(2) F(3) by auto
  ultimately have q: "hptr h p \<in> set bl" by simp
  show thesis
    by (rule malloc_take_spec [OF f(1) B q pl refl x(2) p(2)]) (use that p(3) in auto)
qed

text \<open>Memory above the break becomes a block that is handed out.\<close>

lemma free_list_more:
  assumes f: "free_list bs B A h bl" and B: "unat p = B" "B + 8 * unat nu \<le> B'" "0 < nu" "unat bs + 8 \<le> B"
  shows "free_list bs B' (insert p A) (h\<lparr>hsize := (hsize h)(p := nu)\<rparr>) bl" (is "free_list _ _ _ ?h _")
    and "p \<notin> set bl \<union> A" "block (h\<lparr>hsize := (hsize h)(p := nu)\<rparr>) p = {B ..< B + 8 * unat nu}"
    and "c \<in> set bl \<Longrightarrow> block (h\<lparr>hsize := (hsize h)(p := nu)\<rparr>) c = block h c"
proof -
  note F = free_listD [OF f]
  have lt: "unat c < B" if "c \<in> set bl \<union> A" for c using F(6,8) [OF that] by (simp add: word_less_nat_alt)
  show out: "p \<notin> set bl \<union> A" using lt [of p] B(1) by auto
  have pb: "p \<noteq> bs" using B by auto
  have o: "block ?h c = block h c" if "c \<noteq> p" for c using that by (simp add: block_def)
  show "block ?h c = block h c" if "c \<in> set bl" by (rule o) (use out that in blast)
  show bp: "block ?h p = {B ..< B + 8 * unat nu}" using B(1) by (simp add: block_def)
  have up: "block h c \<inter> block ?h p = {}" if "c \<in> set bl \<union> A" for c using F(8) [OF that] unfolding bp by (auto simp: block_def)
  have "linked ?h (bs # bl) bs" using F(1) by (subst linked_cong [of _ _ h]) auto
  moreover have "0 < hsize ?h c \<and> unat bs + 8 \<le> unat c \<and> unat c + 8 * unat (hsize ?h c) \<le> B'" if c: "c \<in> set bl \<union> insert p A" for c
  proof (cases "c = p")
    case False
    then show ?thesis using F(6,7,8) [of c] c B(2) by auto
  qed (use B in simp)
  moreover have "block ?h c \<inter> block ?h d = {}" if c: "c \<in> set bl \<union> insert p A" "d \<in> set bl \<union> insert p A" "c \<noteq> d" for c d
  proof -
    consider "c = p" "d \<in> set bl \<union> A" "d \<noteq> p" | "d = p" "c \<in> set bl \<union> A" "c \<noteq> p" | "c \<noteq> p" "d \<noteq> p" "c \<in> set bl \<union> A" "d \<in> set bl \<union> A" using c by blast
    then show ?thesis
    proof cases
      case 1
      then show ?thesis using up [of d] o [of d] by (metis Int_commute)
    next
      case 2
      then show ?thesis using up [of c] o [of c] by metis
    next
      case 3
      then show ?thesis using F(9) [of c d] c(3) o by metis
    qed
  qed
  moreover have "set bl \<inter> insert p A = {}" using F(5) out by blast
  ultimately show "free_list bs B' (insert p A) ?h bl" unfolding free_list_def using F(2,3,4) pb by simp
qed

lemma free_list_above: "free_list bs B A h bl \<Longrightarrow> B \<le> B' \<Longrightarrow> free_list bs B' A h bl"
  unfolding free_list_def by (meson order_trans)

lemma heap_okI:
  "free_list bs B A h bl \<Longrightarrow> freep h \<in> set (bs # bl) \<Longrightarrow> unat bs + 8 \<le> B \<Longrightarrow> B \<le> 2 ^ 31 \<Longrightarrow> heap_ok bs B A (\<Union> (block h ` set bl)) h"
proof -
  assume f: "free_list bs B A h bl" "freep h \<in> set (bs # bl)" "unat bs + 8 \<le> B" "B \<le> 2 ^ 31"
  have "freep h \<noteq> 0" using f(2) free_listD(4) [OF f(1)] free_listD(7) [OF f(1)] by fastforce
  then show ?thesis using f free_listD(4) [OF f(1)] by (auto simp: heap_ok_def)
qed

text \<open>
  What \<^verbatim>\<open>malloc\<close> relies on: \<^verbatim>\<open>sbrk\<close> with a positive argument fails and changes nothing, or moves the break up
  by that many bytes and answers the old break; the break stays below the kernel.
\<close>

locale break =
  fixes sbrk :: "u32 \<Rightarrow> 'w \<Rightarrow> (u32 \<times> 'w) option"
    and brk :: "'w \<Rightarrow> nat"
    and good :: "'w \<Rightarrow> bool"
  assumes low: "good w \<Longrightarrow> brk w \<le> 2 ^ 31"
    and grows: "good w \<Longrightarrow> 0 < unat n \<Longrightarrow> unat n < 2 ^ 31 \<Longrightarrow> sbrk n w = Some (p, w') \<Longrightarrow>
      good w' \<and> (if p = -1 then brk w' = brk w else unat p = brk w \<and> brk w' = brk w + unat n)"
begin

lemma morecore_spec:
  assumes w: "good w" and f: "free_list bs (brk w) A h bl" "freep h \<in> set (bs # bl)" "unat bs + 8 \<le> brk w"
    and n: "0 < n" "unat n < 2 ^ 28" "nu = (if n < 4096 then 4096 else n)" "sbrk (nu * 8) w = Some (p, w')"
  shows "if p = -1 then morecore sbrk n h w = Some ((0, h), w') \<and> good w' \<and> brk w' = brk w
    else \<exists>h' bl'. morecore sbrk n h w = Some ((freep h', h'), w') \<and> good w' \<and> brk w' = brk w + 8 * unat nu \<and>
      free_list bs (brk w') A h' bl' \<and> freep h' \<in> set (bs # bl') \<and> (\<exists>x \<in> set bl'. n \<le> hsize h' x) \<and>
      \<Union> (block h' ` set bl') = \<Union> (block h ` set bl) \<union> {brk w ..< brk w'} \<and> (\<forall>c \<in> A. hsize h' c = hsize h c)"
proof -
  have nu: "n \<le> nu" "0 < nu" "unat nu < 2 ^ 28" using n(1,2,3) by (auto simp: word_less_nat_alt word_le_nat_alt)
  then have u8: "unat (nu * 8) = 8 * unat nu" using unat_times8 [of nu] by (simp add: mult.commute)
  have g: "good w' \<and> (if p = -1 then brk w' = brk w else unat p = brk w \<and> brk w' = brk w + 8 * unat nu)"
    using grows [OF w _ _ n(4)] nu unfolding u8 by (simp add: word_less_nat_alt)
  show ?thesis
  proof (cases "p = -1")
    case True
    then show ?thesis using g n(4) unfolding morecore_def n(3) [symmetric] by simp
  next
    case False
    have p: "unat p = brk w" "brk w' = brk w + 8 * unat nu" "good w'" using g False by auto
    have le: "brk w + 8 * unat nu \<le> brk w'" using p(2) by simp
    let ?h = "h\<lparr>hsize := (hsize h)(p := nu)\<rparr>"
    note M = free_list_more [OF f(1) p(1) le nu(2) f(3)]
    have "freep ?h \<in> set (bs # bl)" using f(2) by simp
    then obtain h' bl' where h': "free ?h (p + 8) = Some h'" "free_list bs (brk w') (insert p A - {p}) h' bl'" "freep h' \<in> set (bs # bl')"
        "\<Union> (block h' ` set bl') = \<Union> (block ?h ` set bl) \<union> block ?h p" "\<exists>c \<in> set bl'. block ?h p \<subseteq> block h' c"
        "\<And>a. a \<in> insert p A \<Longrightarrow> hsize h' a = hsize ?h a \<or> a = p"
      by (rule free_spec [OF M(1) _ low [OF p(3)], of p]) blast+
    have A: "insert p A - {p} = A" using M(2) by blast
    have u: "\<Union> (block h' ` set bl') = \<Union> (block h ` set bl) \<union> {brk w ..< brk w'}"
      unfolding h'(4) M(3) p(2) using M(4) by simp
    obtain c where c: "c \<in> set bl'" "{brk w ..< brk w + 8 * unat nu} \<subseteq> block h' c" using h'(5) unfolding M(3) by blast
    have "card {brk w ..< brk w + 8 * unat nu} \<le> card (block h' c)" by (rule card_mono) (use c(2) in \<open>simp_all add: block_def\<close>)
    then have "nu \<le> hsize h' c" by (simp add: block_def word_le_nat_alt)
    then have x: "\<exists>x \<in> set bl'. n \<le> hsize h' x" using c(1) nu(1) by (meson order_trans)
    have k: "\<forall>a \<in> A. hsize h' a = hsize h a"
    proof
      fix a
      assume a: "a \<in> A"
      then have "a \<noteq> p" using M(2) by blast
      then show "hsize h' a = hsize h a" using h'(6) [of a] a by simp
    qed
    have m: "morecore sbrk n h w = Some ((freep h', h'), w')" using n(4) h'(1) False unfolding morecore_def n(3) [symmetric] by simp
    show ?thesis using m p h'(2,3) u x k False unfolding A by auto
  qed
qed

text \<open>The whole of \<^verbatim>\<open>malloc\<close> for \<open>n\<close> units.\<close>

definition malloc_post :: "u32 \<Rightarrow> u32 set \<Rightarrow> nat set \<Rightarrow> heap \<Rightarrow> 'w \<Rightarrow> u32 \<Rightarrow> u32 \<times> heap \<Rightarrow> 'w \<Rightarrow> bool" where
  "malloc_post bs A F h w n x w' \<longleftrightarrow> (case x of (r, h') \<Rightarrow>
     good w' \<and> (\<forall>c \<in> A. hsize h' c = hsize h c) \<and>
     (if r = 0 then brk w' = brk w \<and> heap_ok bs (brk w') A F h'
      else r - 8 \<notin> A \<and> hsize h' (r - 8) = n \<and>
        (\<exists>F'. heap_ok bs (brk w') (insert (r - 8) A) F' h' \<and> F' \<union> block h' (r - 8) = F \<union> {brk w ..< brk w'})))"

lemma malloc_found_post:
  assumes f: "free_list bs (brk w') A h bl" "freep h \<in> set (bs # bl)" and x: "x \<in> set bl" "0 < n" "n \<le> hsize h x"
    and w: "good w'" "unat bs + 8 \<le> brk w'" "brk w \<le> brk w'" "\<Union> (block h ` set bl) = F \<union> {brk w ..< brk w'}" "\<forall>c \<in> A. hsize h c = hsize h0 c"
  shows "\<exists>y. malloc_loop sbrk n h w' (freep h) (hptr h (freep h)) = Some (y, w') \<and> malloc_post bs A F h0 w n y w' \<and> fst y \<noteq> 0"
proof -
  obtain a h' bl' where a: "malloc_loop sbrk n h w' (freep h) (hptr h (freep h)) = Some ((a + 8, h'), w')" "free_list bs (brk w') (insert a A) h' bl'"
    "freep h' \<in> set (bs # bl')" "a \<notin> A" "hsize h' a = n" "\<Union> (block h' ` set bl') \<union> block h' a = \<Union> (block h ` set bl)"
    "\<And>c. c \<in> A \<Longrightarrow> hsize h' c = hsize h c"
    by (rule malloc_found [OF f low [OF w(1)] x, of sbrk w']) (rule that; (assumption | simp))
  have au: "unat a + 8 < 2 ^ 32"
    using free_listD(6,8) [OF a(2), of a] low [OF w(1)] by (simp add: word_less_nat_alt)
  then have "unat (a + 8) = unat a + 8" using unat_add_no_wrap [of a 8] by simp
  then have "a + 8 \<noteq> 0" by auto
  then show ?thesis using a heap_okI [OF a(2,3) w(2) low [OF w(1)]] w(1,4,5) by (auto simp: malloc_post_def)
qed

lemma malloc_units:
  assumes w: "good w" and h: "heap_ok bs (brk w) A F h" and n: "0 < n" "unat n < 2 ^ 28" "n = (nbytes + 8 - 1) div 8 + 1"
    and s: "sbrk ((if n < 4096 then 4096 else n) * 8) w = Some (p, w1)"
  shows "\<exists>y w'. malloc bs sbrk h w nbytes = Some (y, w') \<and> malloc_post bs A F h w n y w' \<and> (fst y = 0 \<longrightarrow> p = -1)"
proof -
  define h0 where "h0 = (if freep h = 0 then h\<lparr>hptr := (hptr h)(bs := bs), freep := bs, hsize := (hsize h)(bs := 0)\<rparr> else h)"
  have m: "malloc bs sbrk h w nbytes = malloc_loop sbrk n h0 w (freep h0) (hptr h0 (freep h0))"
    unfolding malloc_def h0_def n(3) by (simp only: Let_def)
  have b: "unat bs + 8 \<le> brk w" "bs \<noteq> 0" using h by (auto simp: heap_ok_def)
  obtain bl where f: "free_list bs (brk w) A h0 bl" "freep h0 \<in> set (bs # bl)" "F = \<Union> (block h0 ` set bl)" "\<forall>c \<in> A. hsize h0 c = hsize h c"
  proof (cases "freep h = 0")
    case True
    then have "A = {}" "F = {}" using h by (auto simp: heap_ok_def)
    then show thesis using that [of "[]"] True b(2) by (auto simp: h0_def free_list_def)
  next
    case False
    then show thesis using that h by (auto simp: h0_def heap_ok_def)
  qed
  show ?thesis
  proof (cases "\<exists>x \<in> set bl. n \<le> hsize h0 x")
    case True
    then obtain x where x: "x \<in> set bl" "n \<le> hsize h0 x" by blast
    then show ?thesis using malloc_found_post [OF f(1,2) x(1) n(1) x(2) w b(1) order_refl _ f(4), of F] f(3) m by auto
  next
    case False
    obtain ws where ws: "linked h0 (freep h0 # ws) (freep h0)" "freep h0 \<notin> set ws" "set (ws @ [freep h0]) = set (bs # bl)"
      by (rule free_list_round [OF f(1,2)])
    have "\<not> n \<le> hsize h0 x" if "x \<in> set (ws @ [freep h0])" for x
      using that False n(1) free_listD(3) [OF f(1)] unfolding ws(3) by auto
    then have l: "malloc bs sbrk h w nbytes =
        morecore sbrk n h0 w \<bind> (\<lambda>((p, h), w). if p = 0 then Some ((0, h), w) else malloc_loop sbrk n h w p (hptr h p))"
      unfolding m by (rule walk_none [OF ws(1,2)])
    note M = morecore_spec [OF w f(1,2) b(1) n(1,2) refl s]
    show ?thesis
    proof (cases "p = -1")
      case True
      then show ?thesis using M l heap_okI [OF f(1,2) b(1) low [OF w]] f(3,4) by (auto simp: malloc_post_def)
    next
      case False
      then obtain h' bl' x where h': "morecore sbrk n h0 w = Some ((freep h', h'), w1)" "good w1" "brk w \<le> brk w1"
          "free_list bs (brk w1) A h' bl'" "freep h' \<in> set (bs # bl')" "x \<in> set bl'" "n \<le> hsize h' x"
          "\<Union> (block h' ` set bl') = F \<union> {brk w ..< brk w1}" "\<forall>c \<in> A. hsize h' c = hsize h c"
        using M f(3,4) by auto
      have nz: "freep h' \<noteq> 0" using heap_okI [OF h'(4,5) _ low [OF h'(2)]] b(1) h'(3) free_listD(4,7) [OF h'(4)] h'(5) by fastforce
      have b': "unat bs + 8 \<le> brk w1" using b(1) h'(3) by simp
      show ?thesis using malloc_found_post [OF h'(4,5,6) n(1) h'(7,2) b' h'(3,8,9)] l h'(1) nz by auto
    qed
  qed
qed

end

end
