(* ===== verification/Umalloc_Props.thy ===== *)
theory Umalloc_Props
  imports Umalloc_Spec Trap_Props
begin

text \<open>
  The allocator of the user programs on top of the kernel: \<^verbatim>\<open>sbrk\<close> is the system call, so \<^verbatim>\<open>malloc\<close> runs in a
  process whose memory the kernel grows.
\<close>

text \<open>The value that the system call leaves in \<^verbatim>\<open>eax\<close>.\<close>

definition user_sbrk :: "nat \<Rightarrow> u32 \<Rightarrow> 'z kern_scheme \<Rightarrow> (u32 \<times> 'z kern_scheme) option" where
  "user_sbrk c n s = (case do_sbrk (sint n) s c of Ret (Value v, s) \<Rightarrow> Some (word_of_int v, s) | _ \<Rightarrow> None)"

lemma growproc_size:
  assumes inv: "kern_inv s" and c: "running s c" and n: "0 < n" "n < 2 ^ 31" and g: "growproc s c n = Ret (r, s')"
  shows "if r < 0 then psz (procs s' ! c) = psz (procs s ! c)
    else unat (psz (procs s' ! c)) = unat (psz (procs s ! c)) + nat n \<and> unat (psz (procs s ! c)) + nat n < 2 ^ 31"
proof -
  have i: "sys_inv s" using inv by (simp add: kern_inv_def)
  let ?d = "pgdir (procs s ! c)" and ?sz = "psz (procs s ! c)"
  let ?new = "?sz + word_of_int n"
  note V = sys_vm [OF i] and D = sys_dir [OF i c] and K = sys_psz [OF i c]
  have un: "unat (word_of_int n :: u32) = nat n" using n by (simp add: unsigned_of_int take_bit_int_eq_self)
  have sz: "unat ?sz \<le> 2 ^ 31" using K by (simp add: word_le_nat_alt KERNBASE_def)
  have new: "unat ?new = unat ?sz + nat n" using unat_add_no_wrap [of ?sz "word_of_int n"] un sz n by simp
  then have ge: "?sz \<le> ?new" "?new \<noteq> 0" using n by (auto simp: word_le_nat_alt unat_eq_0 [symmetric])
  obtain z t where t: "allocuvm s ?d ?sz ?new = Ret (z, t)"
    "(if z = 0 then Ret (-1, t) else rbind (switchuvm (setproc c (\<lambda>p. p\<lparr>psz := z\<rparr>) t) c) (\<lambda>s. Ret (0, s))) = Ret (r, s')"
    using g n by (auto simp: growproc_def Let_def rbind_eq_Ret)
  have zt: "procs t = procs s \<and> (z = 0 \<or> z = ?new \<and> ?new < KERNBASE)"
  proof (cases "?new < KERNBASE")
    case True
    then show ?thesis using allocuvm_ret [OF V D ge(1) True t(1)] frame_moved [OF i c] by (auto simp: moved_def)
  next
    case False
    then show ?thesis using t(1) by (simp add: allocuvm_def not_less)
  qed
  show ?thesis
  proof (cases "z = 0")
    case True
    then show ?thesis using t(2) zt by auto
  next
    case False
    have l: "c < length (procs t)" using sys_slot [OF i c] zt by simp
    then have "psz (procs s' ! c) = z" "r = 0" using t(2) False by (auto simp: rbind_eq_Ret switchuvm_def lcr3_def split: if_splits)
    then show ?thesis using zt False new by (auto simp: word_less_nat_alt KERNBASE_def)
  qed
qed

lemma sint_positive: "unat n < 2 ^ 31 \<Longrightarrow> sint (n :: u32) = int (unat n)"
proof -
  assume "unat n < 2 ^ 31"
  then have "n < 0x80000000" by (simp add: word_less_nat_alt)
  then have "uint n < 2 ^ 31" by (simp add: word_less_def)
  moreover have "0 \<le> uint n" by simp
  ultimately have "signed_take_bit 31 (uint n) = uint n" by (intro signed_take_bit_int_eq_self) linarith+
  then show ?thesis by (simp add: sint_uint)
qed

interpretation user_break: break "user_sbrk c" "\<lambda>s. unat (psz (procs s ! c))" "\<lambda>s. kern_inv s \<and> running s c" for c
proof
  fix w :: "'z kern_scheme"
  assume w: "kern_inv w \<and> running w c"
  then show b: "unat (psz (procs w ! c)) \<le> 2 ^ 31" using sys_psz [of w c] by (auto simp: kern_inv_def word_le_nat_alt KERNBASE_def)
  fix n :: u32 and p and w' :: "'z kern_scheme"
  assume n: "0 < unat n" "unat n < 2 ^ 31" and s: "user_sbrk c n w = Some (p, w')"
  obtain r where g: "growproc w c (int (unat n)) = Ret (r, w')" "p = (if r < 0 then -1 else psz (procs w ! c))"
    using s by (auto simp: user_sbrk_def do_sbrk_def fails_def Let_def rbind_def sint_positive [OF n(2)] split: res.splits outcome.splits if_splits)
  have i: "0 < int (unat n)" "int (unat n) < 2 ^ 31" using n(1) of_nat_less_iff [of "unat n" "2 ^ 31", where 'a = int] n(2)
    unfolding of_nat_power of_nat_numeral by (simp_all only: of_nat_0_less_iff)
  have "psz (procs w ! c) \<noteq> -1" using b by (auto simp: unsigned_minus_1_eq_mask mask_eq_exp_minus_1)
  then show "(kern_inv w' \<and> running w' c) \<and> (if p = - 1 then unat (psz (procs w' ! c)) = unat (psz (procs w ! c))
      else unat p = unat (psz (procs w ! c)) \<and> unat (psz (procs w' ! c)) = unat (psz (procs w ! c)) + unat n)"
    using growproc_keeps [OF _ _ g(1)] growproc_size [OF conjunct1 [OF w] conjunct2 [OF w] i g(1)] w g(2) by (cases "r < 0") auto
qed

lemma heap_okD:
  assumes "heap_ok bs B A F h" "a \<in> A"
  shows "unat bs + 8 \<le> unat a" "unat a + 8 * unat (hsize h a) \<le> B" "block h a \<inter> F = {}" "b \<in> A \<Longrightarrow> b \<noteq> a \<Longrightarrow> block h a \<inter> block h b = {}"
proof -
  obtain bl where f: "free_list bs B A h bl" "F = \<Union> (block h ` set bl)" using assms by (auto simp: heap_ok_def split: if_splits)
  note L = free_listD [OF f(1)]
  have a: "a \<in> set bl \<union> A" using assms(2) by blast
  show "unat bs + 8 \<le> unat a" "unat a + 8 * unat (hsize h a) \<le> B" using L(7,8) [OF a] by simp_all
  have "block h a \<inter> block h c = {}" if "c \<in> set bl" for c
    by (rule L(9) [OF a]) (use that assms(2) L(5) in auto)
  then show "block h a \<inter> F = {}" unfolding f(2) by blast
  show "block h a \<inter> block h b = {}" if "b \<in> A" "b \<noteq> a" using L(9) [OF a, of b] that by blast
qed

text \<open>The number of units, with the wrap-around of the largest requests.\<close>

lemma nunits_cases:
  fixes nbytes :: u32
  assumes "unat nbytes < 2 ^ 31 - 16 \<or> 2 ^ 32 - 7 \<le> unat nbytes"
  defines "n \<equiv> (nbytes + 8 - 1) div 8 + 1"
  shows "0 < n" "unat n < 2 ^ 28" "if 2 ^ 32 - 7 \<le> unat nbytes then n = 1 else unat nbytes + 8 \<le> 8 * unat n"
proof -
  have "0 < n \<and> unat n < 2 ^ 28 \<and> (if 2 ^ 32 - 7 \<le> unat nbytes then n = 1 else unat nbytes + 8 \<le> 8 * unat n)"
  proof (cases "2 ^ 32 - 7 \<le> unat nbytes")
    case True
    then have "unat (nbytes + 7) < 8" using unat_less_2p32 [of nbytes] by (simp add: unat_word_ariths mod_if) linarith
    then have "(nbytes + 7) div 8 = 0" using unat_div [of "nbytes + 7" 8] by (simp add: unat_eq_0 [symmetric] del: unat_eq_0)
    then show ?thesis using True by (simp add: n_def add.commute)
  next
    case False
    then have "unat n = (unat nbytes + 7) div 8 + 1" unfolding n_def by (intro nunits_enough) simp
    then show ?thesis using False assms(1) by (simp add: word_less_nat_alt) linarith
  qed
  then show "0 < n" "unat n < 2 ^ 28" "if 2 ^ 32 - 7 \<le> unat nbytes then n = 1 else unat nbytes + 8 \<le> 8 * unat n" by blast+
qed

text \<open>C39. \<^verbatim>\<open>malloc\<close> in a user process is correct. In every state of the allocator in which the blocks handed out
  (\<open>A\<close>) and the free blocks (with the bytes \<open>F\<close>) are disjoint and below the break, it ends, and either answers
  0, which it does only when \<^verbatim>\<open>sbrk\<close> fails, or hands out a block that it had not handed out before, that
  overlaps no other block and no free memory, lies below the break, and was free memory or memory that
  \<^verbatim>\<open>sbrk\<close> has just added; the rest of that memory stays free, and no other block changes its size. The
  block has room for the request. This is for requests below 2^31 - 16 bytes, and for those above 2^32 - 8: there
  the computation of the number of units wraps around, and the caller gets a block of eight bytes, all
  of them header. It is assumed that the call of \<^verbatim>\<open>sbrk\<close> returns; it panics if the process has a page mapped
  above its size.\<close>

theorem malloc_correct:
  assumes "kern_inv s" "running s c" "heap_ok bs (unat (psz (procs s ! c))) A F h"
    and "unat nbytes < 2 ^ 31 - 16 \<or> 2 ^ 32 - 7 \<le> unat nbytes"
    and "user_sbrk c (max 4096 ((nbytes + 8 - 1) div 8 + 1) * 8) s = Some (p, s1)"
  shows "\<exists>r h' s'. malloc bs (user_sbrk c) h s nbytes = Some ((r, h'), s') \<and> kern_inv s' \<and> running s' c \<and>
    (\<forall>a \<in> A. hsize h' a = hsize h a) \<and>
    (if r = 0 then p = -1 \<and> heap_ok bs (unat (psz (procs s' ! c))) A F h'
     else r - 8 \<notin> A \<and> (\<exists>F'. heap_ok bs (unat (psz (procs s' ! c))) (insert (r - 8) A) F' h' \<and>
         F' \<union> block h' (r - 8) = F \<union> {unat (psz (procs s ! c)) ..< unat (psz (procs s' ! c))} \<and> block h' (r - 8) \<inter> F' = {}) \<and>
       (\<forall>a \<in> A. block h' (r - 8) \<inter> block h' a = {}) \<and>
       (if 2 ^ 32 - 7 \<le> unat nbytes then block h' (r - 8) = {unat r - 8 ..< unat r}
        else {unat r ..< unat r + unat nbytes} \<subseteq> block h' (r - 8)))"
proof -
  let ?n = "(nbytes + 8 - 1) div 8 + 1 :: u32"
  have mx: "max 4096 ?n = (if ?n < 4096 then 4096 else ?n)" by (auto simp: max_def)
  note N = nunits_cases [OF assms(4)]
  obtain r h' s' where m: "malloc bs (user_sbrk c) h s nbytes = Some ((r, h'), s')" "user_break.malloc_post c bs A F h s ?n (r, h') s'"
      "r = 0 \<longrightarrow> p = -1"
    using user_break.malloc_units [OF _ assms(3) N(1,2) refl assms(5) [unfolded mx]] assms(1,2) by fastforce
  show ?thesis
  proof (cases "r = 0")
    case True
    then show ?thesis using m by (auto simp: user_break.malloc_post_def)
  next
    case False
    obtain F' where F': "heap_ok bs (unat (psz (procs s' ! c))) (insert (r - 8) A) F' h'" "hsize h' (r - 8) = ?n" "r - 8 \<notin> A"
        "F' \<union> block h' (r - 8) = F \<union> {unat (psz (procs s ! c)) ..< unat (psz (procs s' ! c))}"
      using m(2) False by (auto simp: user_break.malloc_post_def)
    note D = heap_okD [OF F'(1) insertI1]
    have "unat (r - 8) + 8 < 2 ^ 32" using D(2) F'(1,2) N(1) by (auto simp: heap_ok_def word_less_nat_alt)
    then have ur: "unat r = unat (r - 8) + 8" using unat_add_no_wrap [of "r - 8" 8] by simp
    have "if 2 ^ 32 - 7 \<le> unat nbytes then block h' (r - 8) = {unat r - 8 ..< unat r} else {unat r ..< unat r + unat nbytes} \<subseteq> block h' (r - 8)"
      using N(3) ur F'(2) by (auto simp: block_def)
    moreover have "\<forall>a \<in> A. block h' (r - 8) \<inter> block h' a = {}" using D(4) F'(3) by blast
    ultimately show ?thesis using m False F' D(3) by (auto simp: user_break.malloc_post_def)
  qed
qed

lemma sbrk_returns:
  assumes inv: "kern_inv s" and c: "running s c" and z: "psz (procs s ! c) = PGSIZE" and mem: "free_pages s 2000"
    and np: "\<forall>va < KERNBASE. PGROUNDDOWN va \<noteq> 0 \<longrightarrow> \<not> present (phys s) (pgdir (procs s ! c)) va"
  shows "\<exists>s'. user_sbrk c 32768 s = Some (PGSIZE, s')"
proof -
  let ?d = "pgdir (procs s ! c)"
  note I = kern_invD(1) [OF inv] and l = sys_slot [OF kern_invD(1) [OF inv] c]
  have n: "PGSIZE \<le> PGSIZE + 32768" "PGSIZE + 32768 < KERNBASE" "PGROUNDUP PGSIZE = PGSIZE" "PGSIZE + 32768 \<noteq> 0" "sint PGSIZE = 4096" "word_of_int 4096 = PGSIZE"
    by (simp_all add: PGSIZE_def KERNBASE_def PGROUNDUP_def)
  have "\<not> present (phys s) ?d p" if p: "aligned p" "PGROUNDUP PGSIZE \<le> p" "p < PGSIZE + 32768" for p
  proof -
    have "PGROUNDDOWN p = p" using p(1) by (rule PGROUNDDOWN_aligned)
    moreover have "p \<noteq> 0" using p(2) by (auto simp: PGSIZE_def PGROUNDUP_def)
    ultimately show ?thesis using np p(3) n(2) by (metis order_less_trans)
  qed
  moreover have "room s ?d (0 + (unat (PGSIZE + 32768) + 4095 - unat (PGROUNDUP PGSIZE)) div 4096)"
    using mem card_missing [of "phys s" ?d] unfolding room_def free_pages_def by (auto simp: PGSIZE_def PGROUNDUP_def)
  ultimately obtain t where t: "allocuvm s ?d PGSIZE (PGSIZE + 32768) = Ret (PGSIZE + 32768, t)"
    using allocuvm_room [OF sys_vm [OF I] sys_dir [OF I c] n(1,2)] by blast
  have pt: "procs t = procs s" using allocuvm_ret [OF sys_vm [OF I] sys_dir [OF I c] n(1,2) t] frame_moved [OF I c] by (auto simp: moved_def)
  have pi: "proc_inv s" and cu: "c < NPROC" "used (procs s ! c)" using I c by (auto simp: sys_inv_def running_def used_def)
  have "kstack (procs s ! c) \<noteq> 0" by (rule used_stack(4) [OF pi cu])
  moreover have "?d \<noteq> 0" by (rule kpage_nonzero [OF tables_ok_D(2) [OF vm_invD(2) [OF proc_invD(4) [OF pi]] used_dir [OF pi cu]]])
  ultimately show ?thesis using t l pt n by (simp add: user_sbrk_def do_sbrk_def growproc_def z switchuvm_def Let_def)
qed

theorem malloc_correct_witness:
  "\<exists>(s :: kern) c h' s' r. kern_inv s \<and> running s c \<and>
     malloc 0x100 (user_sbrk c) \<lparr>hptr = \<lambda>_. 0, hsize = \<lambda>_. 0, freep = 0\<rparr> s 100 = Some ((r, h'), s') \<and> r \<noteq> 0 \<and>
     {unat r ..< unat r + 100} \<subseteq> block h' (r - 8)"
proof -
  obtain s :: kern and c where s: "kern_inv s" "running s c" "free_pages s 2000" "psz (procs s ! c) = PGSIZE"
      "\<forall>va < KERNBASE. PGROUNDDOWN va \<noteq> 0 \<longrightarrow> \<not> present (phys s) (pgdir (procs s ! c)) va"
    using init_kern by blast
  let ?h = "\<lparr>hptr = \<lambda>_. 0, hsize = \<lambda>_. 0, freep = 0\<rparr> :: heap"
  have h: "heap_ok 0x100 (unat (psz (procs s ! c))) {} {} ?h" by (simp add: heap_ok_def s(4) PGSIZE_def)
  have "max 4096 (((100 :: u32) + 8 - 1) div 8 + 1) * 8 = 32768" by (simp add: max_def)
  then obtain s1 where "user_sbrk c (max 4096 ((100 + 8 - 1) div 8 + 1) * 8) s = Some (PGSIZE, s1)"
    using sbrk_returns [OF s(1,2,4,3,5)] by auto
  moreover have "unat (100 :: u32) < 2 ^ 31 - 16 \<or> 2 ^ 32 - 7 \<le> unat (100 :: u32)" by simp
  ultimately have "\<exists>r h' s'. malloc 0x100 (user_sbrk c) ?h s 100 = Some ((r, h'), s') \<and>
      (if r = 0 then PGSIZE = -1 else {unat r ..< unat r + unat (100 :: u32)} \<subseteq> block h' (r - 8))"
    using malloc_correct [OF s(1,2) h, of 100] by fastforce
  moreover have "PGSIZE \<noteq> -1" by (simp add: PGSIZE_def)
  ultimately obtain r h' s' where r: "malloc 0x100 (user_sbrk c) ?h s 100 = Some ((r, h'), s')" "r \<noteq> 0" "{unat r ..< unat r + 100} \<subseteq> block h' (r - 8)"
    by (auto split: if_splits)
  show ?thesis by (intro exI conjI) (rule s(1) s(2) r)+
qed

text \<open>C40. \<^verbatim>\<open>free\<close> takes back a block that was handed out: its search of the free list ends wherever it starts, the
  bytes of the block join the free ones and nothing else does, all other blocks keep their
  place and size, and the free list is well formed again.\<close>

theorem free_correct:
  assumes "heap_ok bs B A F h" "a \<in> A"
  shows "\<exists>h'. free h (a + 8) = Some h' \<and> heap_ok bs B (A - {a}) (F \<union> block h a) h' \<and> (\<forall>c \<in> A - {a}. hsize h' c = hsize h c)"
proof -
  have b: "unat bs + 8 \<le> B" "B \<le> 2 ^ 31" using assms by (auto simp: heap_ok_def)
  obtain bl where f: "free_list bs B A h bl" "freep h \<in> set (bs # bl)" "F = \<Union> (block h ` set bl)" using assms by (auto simp: heap_ok_def split: if_splits)
  obtain h' bl' where "free h (a + 8) = Some h'" and h': "free_list bs B (A - {a}) h' bl'" "freep h' \<in> set (bs # bl')"
      "\<Union> (block h' ` set bl') = \<Union> (block h ` set bl) \<union> block h a" and k: "\<And>c. c \<in> A \<Longrightarrow> hsize h' c = hsize h c \<or> c = a"
    by (rule free_spec [OF f(1,2) b(2) assms(2)]) blast
  moreover have "heap_ok bs B (A - {a}) (F \<union> block h a) h'" using heap_okI [OF h'(1,2) b] h'(3) f(3) by simp
  moreover have "\<forall>c \<in> A - {a}. hsize h' c = hsize h c" using k by blast
  ultimately show ?thesis by blast
qed

theorem free_correct_witness:
  "\<exists>h'. free \<lparr>hptr = (\<lambda>_. 0)(0x100 := 0x100), hsize = (\<lambda>_. 0)(0x1000 := 16), freep = 0x100\<rparr> 0x1008 = Some h' \<and> heap_ok 0x100 0x2000 {} {0x1000 ..< 0x1080} h'"
proof -
  let ?h = "\<lparr>hptr = (\<lambda>_. 0)(0x100 := 0x100), hsize = (\<lambda>_. 0)(0x1000 := 16), freep = 0x100\<rparr> :: heap"
  have "free_list 0x100 0x2000 {0x1000} ?h []" by (simp add: free_list_def)
  then have "heap_ok 0x100 0x2000 {0x1000} {} ?h" unfolding heap_ok_def by (auto intro!: exI [of _ "[]"])
  from free_correct [OF this insertI1] show ?thesis by (simp add: block_def)
qed

end
