(* ===== verification/Grep.thy ===== *)
theory Grep
  imports Main "HOL-Library.Monad_Syntax" "HOL-Library.Sublist"
begin

text \<open>
  The programs \<^verbatim>\<open>grep.c\<close> and \<^verbatim>\<open>mygrep.c\<close>. A C string is the list of its characters before the
  NUL. Reading is an argument of \<^verbatim>\<open>grep\<close>: asked for at most \<open>k\<close> bytes, it returns some and a new
  state of the world, and the empty list at the end. What is written is a list of characters.
\<close>

section \<open>The matcher\<close>

function matchhere :: "string \<Rightarrow> string \<Rightarrow> bool"
  and matchstar :: "char \<Rightarrow> string \<Rightarrow> string \<Rightarrow> bool" where
  "matchhere re text =
     (case re of [] \<Rightarrow> True
      | c # re' \<Rightarrow>
          if re' \<noteq> [] \<and> hd re' = CHR ''*'' then matchstar c (tl re') text
          else if c = CHR ''$'' \<and> re' = [] then text = []
          else if text \<noteq> [] \<and> (c = CHR ''.'' \<or> c = hd text) then matchhere re' (tl text)
          else False)"
| "matchstar c re text =
     (if matchhere re text then True
      else if text \<noteq> [] \<and> (hd text = c \<or> c = CHR ''.'') then matchstar c re (tl text)
      else False)"
  by pat_completeness auto
termination
  by (relation "inv_image (less_than <*lex*> less_than <*lex*> less_than)
       (\<lambda>x. case x of Inl (re, text) \<Rightarrow> (length re, length text, 0 :: nat) | Inr (c, re, text) \<Rightarrow> (length re, length text, 1))")
     auto

declare matchhere.simps [simp del] matchstar.simps [simp del]

fun match_loop :: "string \<Rightarrow> string \<Rightarrow> bool" where
  "match_loop re text = (matchhere re text \<or> (case text of [] \<Rightarrow> False | _ # text \<Rightarrow> match_loop re text))"

declare match_loop.simps [simp del]

definition match :: "string \<Rightarrow> string \<Rightarrow> bool" where
  "match re text = (if re \<noteq> [] \<and> hd re = CHR ''^'' then matchhere (tl re) text else match_loop re text)"

section \<open>The loop of grep\<close>

text \<open>
  The inner loop on the bytes from \<^verbatim>\<open>p\<close>: what is written, and what is left when there is no newline
  before the first NUL.
\<close>

definition strchr_nl :: "string \<Rightarrow> nat option" where
  "strchr_nl p =
     (let s = takeWhile (\<lambda>c. c \<noteq> CHR 0x00) p; l = takeWhile (\<lambda>c. c \<noteq> CHR 0x0A) s
      in if length l < length s then Some (length l) else None)"

function grep_lines :: "string \<Rightarrow> string \<Rightarrow> string \<times> string" where
  "grep_lines pattern p =
     (case strchr_nl p of
        None \<Rightarrow> ([], p)
      | Some q \<Rightarrow>
          let (out, rest) = grep_lines pattern (drop (Suc q) p)
          in ((if match pattern (take q p) then take (Suc q) p else []) @ out, rest))"
  by pat_completeness auto
termination
proof (relation "measure (\<lambda>(pattern, p). length p)", simp)
  fix pattern p q assume "strchr_nl p = Some q"
  then have "p \<noteq> []" by (auto simp: strchr_nl_def)
  then show "((pattern, drop (Suc q) p), pattern, p) \<in> measure (\<lambda>(pattern, p). length p)" by simp
qed

declare grep_lines.simps [simp del]

text \<open>\<open>buf\<close> holds the \<^verbatim>\<open>m\<close> bytes kept from the last round; the array has 1024.\<close>

partial_function (option) grep :: "(nat \<Rightarrow> 'w \<Rightarrow> string \<times> 'w) \<Rightarrow> string \<Rightarrow> string \<Rightarrow> 'w \<Rightarrow> (string \<times> 'w) option" where
  "grep read pattern buf w =
     (case read (1024 - length buf - 1) w of (new, w) \<Rightarrow>
        if new = [] then Some ([], w)
        else case grep_lines pattern (buf @ new) of (out, rest) \<Rightarrow>
          grep read pattern (if rest = buf @ new then [] else rest) w \<bind> (\<lambda>(out', w). Some (out @ out', w)))"

text \<open>
  The main program; \<open>opn\<close> opens a file by name, standard input is \<open>stdin\<close>. The result is
  what is written to each descriptor.
\<close>

fun grep_files :: "(nat \<Rightarrow> 'f \<Rightarrow> string \<times> 'f) \<Rightarrow> (string \<Rightarrow> 'f option) \<Rightarrow> string \<Rightarrow> string list \<Rightarrow> (nat \<times> string) list option" where
  "grep_files read opn pattern [] = Some []"
| "grep_files read opn pattern (name # names) =
     (case opn name of
        None \<Rightarrow> Some [(1, ''grep: cannot open '' @ name @ [CHR 0x0A])]
      | Some f \<Rightarrow> grep read pattern [] f \<bind> (\<lambda>(out, _).
          grep_files read opn pattern names \<bind> (\<lambda>outs. Some ((1, out) # outs))))"

definition grep_main :: "(nat \<Rightarrow> 'f \<Rightarrow> string \<times> 'f) \<Rightarrow> (string \<Rightarrow> 'f option) \<Rightarrow> 'f \<Rightarrow> string list \<Rightarrow> (nat \<times> string) list option" where
  "grep_main read opn stdin argv =
     (if length argv \<le> 1 then Some [(2, ''usage: grep pattern [file ...]'' @ [CHR 0x0A])]
      else if length argv \<le> 2 then grep read (argv ! 1) [] stdin \<bind> (\<lambda>(out, _). Some [(1, out)])
      else grep_files read opn (argv ! 1) (drop 2 argv))"

section \<open>mygrep\<close>

definition MAXLINE :: nat where "MAXLINE = 1024"

fun contains_at :: "string \<Rightarrow> string \<Rightarrow> bool" where
  "contains_at text [] = True"
| "contains_at text (p # ps) = (case text of [] \<Rightarrow> False | t # ts \<Rightarrow> t = p \<and> contains_at ts ps)"

fun contains_loop :: "string \<Rightarrow> string \<Rightarrow> bool" where
  "contains_loop [] pattern = False"
| "contains_loop (t # ts) pattern = (contains_at (t # ts) pattern \<or> contains_loop ts pattern)"

definition contains :: "string \<Rightarrow> string \<Rightarrow> bool" where
  "contains text pattern = (pattern = [] \<or> contains_loop text pattern)"

text \<open>A line buffer read as a C string ends at the first NUL; it is written with its length.\<close>

definition mygrep_line :: "string \<Rightarrow> string \<Rightarrow> string" where
  "mygrep_line pattern line = (if contains (takeWhile (\<lambda>c. c \<noteq> CHR 0x00) line) pattern then line else [])"

fun mygrep_loop :: "string \<Rightarrow> string \<Rightarrow> string \<Rightarrow> string" where
  "mygrep_loop pattern line [] = (if length line > 0 then mygrep_line pattern line else [])"
| "mygrep_loop pattern line (c # input) =
     (let line = (if length line < MAXLINE - 1 then line @ [c] else line)
      in if c = CHR 0x0A then mygrep_line pattern line @ mygrep_loop pattern [] input
         else mygrep_loop pattern line input)"

definition mygrep_main :: "(string \<Rightarrow> string option) \<Rightarrow> string list \<Rightarrow> (nat \<times> string) list" where
  "mygrep_main opn argv =
     (if length argv \<noteq> 3 then [(2, ''usage: mygrep pattern file'' @ [CHR 0x0A])]
      else case opn (argv ! 2) of
        None \<Rightarrow> [(2, ''mygrep: cannot open '' @ argv ! 2 @ [CHR 0x0A])]
      | Some input \<Rightarrow> [(1, mygrep_loop (argv ! 1) [] input)])"

section \<open>What the patterns mean\<close>

text \<open>
  A pattern is a sequence of items: a character with a star, the end of the text, or a single
  character; a dot stands for any character. \<open>sem ts u rest\<close> says that the items match exactly the
  text \<open>u\<close> when \<open>rest\<close> follows it.
\<close>

datatype item = Star char | End | One char

fun items :: "string \<Rightarrow> item list" where
  "items [] = []"
| "items [c] = (if c = CHR ''$'' then [End] else [One c])"
| "items (c # d # re) = (if d = CHR ''*'' then Star c # items re else One c # items (d # re))"

definition fits :: "char \<Rightarrow> char \<Rightarrow> bool" where
  "fits c x \<longleftrightarrow> c = CHR ''.'' \<or> x = c"

fun sem :: "item list \<Rightarrow> string \<Rightarrow> string \<Rightarrow> bool" where
  "sem [] u rest \<longleftrightarrow> u = []"
| "sem (Star c # is) u rest \<longleftrightarrow> (\<exists>v w. u = v @ w \<and> (\<forall>x \<in> set v. fits c x) \<and> sem is w rest)"
| "sem (One c # is) u rest \<longleftrightarrow> (\<exists>x w. u = x # w \<and> fits c x \<and> sem is w rest)"
| "sem (End # is) u rest \<longleftrightarrow> u = [] \<and> rest = [] \<and> sem is u rest"

definition match_prefix :: "item list \<Rightarrow> string \<Rightarrow> bool" where
  "match_prefix is text \<longleftrightarrow> (\<exists>u rest. text = u @ rest \<and> sem is u rest)"

lemma prefix_Nil [simp]: "match_prefix [] text"
  by (auto simp: match_prefix_def)

lemma prefix_End [simp]: "match_prefix [End] text \<longleftrightarrow> text = []"
  by (auto simp: match_prefix_def)

lemma prefixI: "sem is u rest \<Longrightarrow> match_prefix is (u @ rest)"
  unfolding match_prefix_def by blast

lemma prefix_One: "match_prefix (One c # is) t \<longleftrightarrow> (\<exists>x ts. t = x # ts \<and> fits c x \<and> match_prefix is ts)"
proof
  assume "\<exists>x ts. t = x # ts \<and> fits c x \<and> match_prefix is ts"
  then obtain x u rest where x: "t = (x # u) @ rest" "fits c x" "sem is u rest" by (auto simp: match_prefix_def)
  show "match_prefix (One c # is) t" unfolding x(1) by (rule prefixI) (simp add: x)
next
  assume "match_prefix (One c # is) t"
  then obtain x u rest where "t = x # u @ rest" "fits c x" "sem is u rest" by (auto simp: match_prefix_def)
  then show "\<exists>x ts. t = x # ts \<and> fits c x \<and> match_prefix is ts" using prefixI by blast
qed

lemma sem_Star: "(\<forall>x \<in> set v. fits c x) \<Longrightarrow> sem is w rest \<Longrightarrow> match_prefix (Star c # is) (v @ w @ rest)"
  using prefixI [of "Star c # is" "v @ w" rest] by auto

lemma prefix_Star:
  "match_prefix (Star c # is) t \<longleftrightarrow>
     match_prefix is t \<or> (\<exists>x ts. t = x # ts \<and> fits c x \<and> match_prefix (Star c # is) ts)" (is "?l \<longleftrightarrow> ?r")
proof
  assume ?l
  then obtain v w rest where t: "t = v @ w @ rest" "\<forall>x \<in> set v. fits c x" "sem is w rest" by (auto simp: match_prefix_def)
  show ?r
  proof (cases v)
    case Nil
    then show ?thesis using t prefixI by simp
  next
    case (Cons x v')
    then show ?thesis using t sem_Star [of v' c "is" w rest] by simp
  qed
next
  assume ?r
  then show ?l
  proof (elim disjE exE conjE)
    assume "match_prefix is t"
    then obtain u rest where "t = u @ rest" "sem is u rest" by (auto simp: match_prefix_def)
    then show ?thesis using sem_Star [of "[]" c "is" u rest] by simp
  next
    fix x ts assume x: "t = x # ts" "fits c x" "match_prefix (Star c # is) ts"
    then obtain v w rest where "ts = v @ w @ rest" "\<forall>x \<in> set v. fits c x" "sem is w rest" by (auto simp: match_prefix_def)
    then show ?thesis using x sem_Star [of "x # v" c "is" w rest] by simp
  qed
qed

lemma matchhere_matchstar:
  "matchhere re t \<longleftrightarrow> match_prefix (items re) t"
  "matchstar c re t \<longleftrightarrow> match_prefix (Star c # items re) t"
proof (induction re t and c re t rule: matchhere_matchstar.induct)
  case (1 re t)
  show ?case
  proof (cases re rule: items.cases)
    case (2 c)
    have "matchhere [c] t = (if c = CHR ''$'' then t = [] else t \<noteq> [] \<and> (c = CHR ''.'' \<or> c = hd t))"
      by (subst matchhere.simps) (simp add: matchhere.simps [of "[]"])
    then show ?thesis by (cases t) (auto simp: 2 prefix_One fits_def)
  next
    case (3 c d re')
    show ?thesis
    proof (cases "d = CHR ''*''")
      case True
      have "matchhere re t = matchstar c re' t" by (subst matchhere.simps) (simp add: 3 True)
      then show ?thesis using 1(1) [OF 3] True by (simp add: 3)
    next
      case False
      have "matchhere re t = (t \<noteq> [] \<and> (c = CHR ''.'' \<or> c = hd t) \<and> matchhere (d # re') (tl t))"
        by (subst matchhere.simps) (simp add: 3 False)
      then show ?thesis using 1(2) [OF 3] False by (cases t) (auto simp: 3 prefix_One fits_def)
    qed
  qed (simp add: matchhere.simps)
next
  case (2 c re t)
  have "matchstar c re t \<longleftrightarrow> matchhere re t \<or> (\<exists>x ts. t = x # ts \<and> fits c x \<and> matchstar c re ts)"
    by (subst matchstar.simps) (cases t, auto simp: fits_def)
  then show ?case using 2 prefix_Star [of c "items re" t] by (cases t) (auto simp: fits_def)
qed

lemma match_loop_iff: "match_loop re t \<longleftrightarrow> (\<exists>pre t'. t = pre @ t' \<and> matchhere re t')"
proof (induction t)
  case Nil
  then show ?case by (simp add: match_loop.simps)
next
  case (Cons x t)
  have "(\<exists>pre t'. x # t = pre @ t' \<and> matchhere re t') \<longleftrightarrow> matchhere re (x # t) \<or> (\<exists>pre t'. t = pre @ t' \<and> matchhere re t')"
    by (auto simp: Cons_eq_append_conv)
  then show ?case using Cons by (subst match_loop.simps) simp
qed

text \<open>C35. The backtracking matcher of \<^verbatim>\<open>grep\<close> decides the meaning of its patterns: a text matches when
  some part of it is a string of the pattern, where a character stands for itself, a dot for any
  character, a starred one for any number of them, and a final dollar sign for the end of the text;
  after a leading caret the part must be at the beginning. The matcher always ends.\<close>

theorem match_meaning:
  "match re t \<longleftrightarrow>
     (if re \<noteq> [] \<and> hd re = CHR ''^'' then \<exists>u rest. t = u @ rest \<and> sem (items (tl re)) u rest
      else \<exists>pre u rest. t = pre @ u @ rest \<and> sem (items re) u rest)"
  unfolding match_def match_loop_iff matchhere_matchstar match_prefix_def by auto

section \<open>Lines\<close>

definition nl :: char where "nl = CHR 0x0A"

text \<open>The complete lines of a text, without their newlines, and the unfinished one.\<close>

fun lines :: "string \<Rightarrow> string list \<times> string" where
  "lines [] = ([], [])"
| "lines (c # s) = (let (ls, r) = lines s in if c = nl then ([] # ls, r)
     else case ls of [] \<Rightarrow> ([], c # r) | l # ls' \<Rightarrow> ((c # l) # ls', r))"

lemma lines_none: "nl \<notin> set s \<Longrightarrow> lines s = ([], s)"
  by (induction s) auto

lemma lines_app: "nl \<notin> set l \<Longrightarrow> lines (l @ nl # s) = (l # fst (lines s), snd (lines s))"
  by (induction l) (auto split: prod.splits)

lemma lines_unfinished: "fst (lines s) = [] \<Longrightarrow> snd (lines s) = s"
  by (induction s) (auto split: prod.splits if_splits list.splits)

lemma lines_rest:
  "set (snd (lines s)) \<subseteq> set s" "nl \<notin> set (snd (lines s))" "nl \<in> set s \<Longrightarrow> length (snd (lines s)) < length s"
proof -
  show "set (snd (lines s)) \<subseteq> set s" "nl \<notin> set (snd (lines s))"
    by (induction s) (auto split: prod.splits list.splits)
  show "nl \<in> set s \<Longrightarrow> length (snd (lines s)) < length s"
  proof (induction s)
    case (Cons c s)
    have "length (snd (lines s)) \<le> length s" by (induction s) (auto split: prod.splits list.splits)
    then show ?case using Cons lines_none [of s] by (auto split: prod.splits list.splits)
  qed simp
qed

lemma lines_append: "lines (s @ t) = (fst (lines s) @ fst (lines (snd (lines s) @ t)), snd (lines (snd (lines s) @ t)))"
proof (induction s)
  case (Cons c s)
  show ?case
  proof (cases "lines s")
    case (Pair ls r)
    show ?thesis
    proof (cases ls)
      case Nil
      then have "r = s" using Pair lines_unfinished [of s] by simp
      then show ?thesis using Cons Pair Nil by (auto split: prod.splits list.splits)
    next
      case (Cons l ls')
      then show ?thesis using Cons.IH Pair by (auto split: prod.splits list.splits)
    qed
  qed
qed simp

lemma lines_split:
  assumes "nl \<in> set p"
  shows "lines p = (takeWhile (\<lambda>c. c \<noteq> nl) p # fst (lines (drop (Suc (length (takeWhile (\<lambda>c. c \<noteq> nl) p))) p)),
    snd (lines (drop (Suc (length (takeWhile (\<lambda>c. c \<noteq> nl) p))) p)))"
    "p = takeWhile (\<lambda>c. c \<noteq> nl) p @ nl # drop (Suc (length (takeWhile (\<lambda>c. c \<noteq> nl) p))) p"
proof -
  obtain l r where p: "p = l @ nl # r" "nl \<notin> set l" using split_list_first [OF assms] by blast
  have t: "takeWhile (\<lambda>c. c \<noteq> nl) p = l" using p by (simp add: takeWhile_append2 takeWhile_tail)
       (metis (full_types) append_Nil2 takeWhile_append2 takeWhile_eq_all_conv)
  show "p = takeWhile (\<lambda>c. c \<noteq> nl) p @ nl # drop (Suc (length (takeWhile (\<lambda>c. c \<noteq> nl) p))) p" unfolding t by (simp add: p(1))
  show "lines p = (takeWhile (\<lambda>c. c \<noteq> nl) p # fst (lines (drop (Suc (length (takeWhile (\<lambda>c. c \<noteq> nl) p))) p)),
    snd (lines (drop (Suc (length (takeWhile (\<lambda>c. c \<noteq> nl) p))) p)))"
    unfolding t using lines_app [OF p(2), of r] by (simp add: p(1))
qed

lemma strchr_none: "CHR 0x00 \<notin> set p \<Longrightarrow>
    strchr_nl p = (if nl \<in> set p then Some (length (takeWhile (\<lambda>c. c \<noteq> nl) p)) else None)"
proof -
  assume "CHR 0x00 \<notin> set p"
  then have t: "takeWhile (\<lambda>c. c \<noteq> CHR 0x00) p = p" by (auto simp: takeWhile_eq_all_conv)
  have "length (takeWhile (\<lambda>c. c \<noteq> nl) p) < length p \<longleftrightarrow> nl \<in> set p"
    by (induction p) auto
  then show ?thesis unfolding strchr_nl_def Let_def t nl_def by simp
qed

definition selected :: "string \<Rightarrow> string list \<Rightarrow> string" where
  "selected pattern ls = concat (map (\<lambda>l. if match pattern l then l @ [nl] else []) ls)"

lemma grep_lines_spec:
  "CHR 0x00 \<notin> set p \<Longrightarrow> grep_lines pattern p = (selected pattern (fst (lines p)), snd (lines p))"
proof (induction pattern p rule: grep_lines.induct)
  case (1 pattern p)
  show ?case
  proof (cases "nl \<in> set p")
    case False
    then show ?thesis using 1(2) by (subst grep_lines.simps) (simp add: strchr_none lines_none selected_def)
  next
    case True
    let ?l = "takeWhile (\<lambda>c. c \<noteq> nl) p" and ?r = "drop (Suc (length (takeWhile (\<lambda>c. c \<noteq> nl) p))) p"
    note sp = lines_split [OF True]
    have q: "strchr_nl p = Some (length ?l)" using True strchr_none [OF 1(2)] by simp
    have "CHR 0x00 \<notin> set ?r" using 1(2) by (meson in_set_dropD)
    then have IH: "grep_lines pattern ?r = (selected pattern (fst (lines ?r)), snd (lines ?r))" using 1(1) [OF q] by blast
    have tk: "take (length ?l) p = ?l" "take (Suc (length ?l)) p = ?l @ [nl]"
    proof -
      show "take (length ?l) p = ?l" using arg_cong [OF sp(2), of "take (length ?l)"] by simp
      show "take (Suc (length ?l)) p = ?l @ [nl]" using arg_cong [OF sp(2), of "take (Suc (length ?l))"] by simp
    qed
    have "grep_lines pattern p = ((if match pattern ?l then ?l @ [nl] else []) @ selected pattern (fst (lines ?r)), snd (lines ?r))"
      by (subst grep_lines.simps) (simp add: q IH tk)
    then show ?thesis using sp(1) by (simp add: selected_def)
  qed
qed

text \<open>Reading a regular file from the beginning: as many bytes as asked for, until the end.\<close>

definition read_file :: "nat \<Rightarrow> string \<Rightarrow> string \<times> string" where
  "read_file k w = (take k w, drop k w)"

lemma lines_short:
  assumes "\<forall>l \<in> set (fst (lines (b @ w))). length l \<le> 1022" "length (snd (lines (b @ w))) \<le> 1022"
    and "nl \<notin> set (b @ take k w)" "k < length w"
  shows "length b + k \<le> 1022"
proof -
  have e: "b @ w = (b @ take k w) @ drop k w" by simp
  show ?thesis
  proof (cases "nl \<in> set w")
    case False
    then have "nl \<notin> set (b @ w)" using assms(3) by simp
    then show ?thesis using assms(2,4) by (simp add: lines_none)
  next
    case True
    then have "nl \<in> set (b @ w)" by simp
    note sp = lines_split [OF this]
    have "length (takeWhile (\<lambda>c. c \<noteq> nl) (b @ w)) \<le> 1022" using assms(1) sp(1) by simp
    moreover have "takeWhile (\<lambda>c. c \<noteq> nl) (b @ w) = (b @ take k w) @ takeWhile (\<lambda>c. c \<noteq> nl) (drop k w)"
      using assms(3) by (subst e) (rule takeWhile_append2, auto)
    moreover have "length (take k w) = k" using assms(4) by simp
    ultimately show ?thesis by simp
  qed
qed

lemma grep_file_loop:
  assumes "nl \<notin> set b" "length b \<le> 1022" "CHR 0x00 \<notin> set (b @ w)"
    and "\<forall>l \<in> set (fst (lines (b @ w))). length l \<le> 1022" "length (snd (lines (b @ w))) \<le> 1022"
  shows "grep read_file pattern b w = Some (selected pattern (fst (lines (b @ w))), [])"
  using assms
proof (induction "length w" arbitrary: b w rule: less_induct)
  case less
  let ?k = "1024 - length b - 1" and ?new = "take (1024 - length b - 1) w" and ?w = "drop (1024 - length b - 1) w"
  show ?case
  proof (cases "w = []")
    case True
    then show ?thesis using less.prems(1) by (subst grep.simps) (simp add: read_file_def lines_none selected_def)
  next
    case False
    have k: "0 < ?k" using less.prems(2) by simp
    have ne: "?new \<noteq> []" using False k by auto
    have "0 < length w" using False by simp
    then have sh: "length ?w < length w" using diff_less [OF k] by simp
    have nz: "CHR 0x00 \<notin> set (b @ ?new)" using less.prems(3) by (auto dest: in_set_takeD)
    then have nz2: "CHR 0x00 \<notin> set (snd (lines (b @ ?new)) @ ?w)"
      using less.prems(3) lines_rest(1) [of "b @ ?new"] by (auto dest: in_set_dropD)
    have gl: "grep_lines pattern (b @ ?new) = (selected pattern (fst (lines (b @ ?new))), snd (lines (b @ ?new)))"
      by (rule grep_lines_spec [OF nz])
    have la: "lines (b @ w) = (fst (lines (b @ ?new)) @ fst (lines (snd (lines (b @ ?new)) @ ?w)), snd (lines (snd (lines (b @ ?new)) @ ?w)))"
      using lines_append [of "b @ ?new" ?w] by simp
    show ?thesis
    proof (cases "nl \<in> set (b @ ?new)")
      case True
      have lr: "length (snd (lines (b @ ?new))) < length (b @ ?new)" by (rule lines_rest(3) [OF True])
      have IH: "grep read_file pattern (snd (lines (b @ ?new))) ?w = Some (selected pattern (fst (lines (snd (lines (b @ ?new)) @ ?w))), [])"
        by (rule less.hyps [OF sh]) (use lines_rest(2) lr nz2 la less.prems(2,4,5) in auto)
      have "snd (lines (b @ ?new)) \<noteq> b @ ?new" using lr by auto
      then show ?thesis using ne gl IH la by (subst grep.simps) (simp add: read_file_def selected_def)
    next
      case nn: False
      have "length w \<le> ?k"
      proof (rule ccontr)
        assume "\<not> length w \<le> ?k"
        then have "length b + ?k \<le> 1022" using lines_short [OF less.prems(4,5) nn] by simp
        then show False using less.prems(2) by simp
      qed
      then have w: "?new = w" "?w = []" by simp_all
      have "grep read_file pattern [] [] = Some ([], [])" by (subst grep.simps) (simp add: read_file_def)
      then show ?thesis using ne gl w nn by (subst grep.simps) (simp add: read_file_def lines_none selected_def)
    qed
  qed
qed

text \<open>C36. On a regular file without NUL bytes in which every line has at most 1022 characters, \<^verbatim>\<open>grep\<close> ends
  and writes exactly the lines that match, in order and complete, however its buffer of 1024 bytes
  cuts the file. Only lines that end in a newline are looked at: the last line of a file that does
  not end in a newline is never written.\<close>

theorem grep_file_lines:
  assumes "CHR 0x00 \<notin> set w" "\<forall>l \<in> set (fst (lines w)). length l \<le> 1022" "length (snd (lines w)) \<le> 1022"
  shows "grep read_file pattern [] w = Some (concat (map (\<lambda>l. if match pattern l then l @ [nl] else []) (fst (lines w))), [])"
  using grep_file_loop [of "[]" w pattern] assms by (simp add: selected_def)

theorem grep_file_lines_witness:
  "grep read_file ''a'' [] [CHR ''a'', nl, CHR ''b'', nl, CHR ''a''] = Some ([CHR ''a'', nl], [])"
proof -
  have l: "lines [CHR ''a'', nl, CHR ''b'', nl, CHR ''a''] = ([''a'', ''b''], ''a'')" by (simp add: nl_def)
  have m: "match ''a'' ''a''" "\<not> match ''a'' ''b''"
    by (simp_all add: match_def match_loop.simps matchhere.simps)
  show ?thesis using grep_file_lines [of "[CHR ''a'', nl, CHR ''b'', nl, CHR ''a'']" "''a''"] m unfolding l by (simp add: nl_def)
qed

section \<open>mygrep\<close>

lemma contains_at_prefix: "contains_at t p \<longleftrightarrow> prefix p t"
  by (induction t p rule: contains_at.induct) (auto split: list.splits)

lemma contains_sublist: "contains t p \<longleftrightarrow> sublist p t"
proof (cases "p = []")
  case False
  have "contains_loop t p \<longleftrightarrow> sublist p t"
    using False by (induction t) (auto simp: contains_at_prefix sublist_Cons_right)
  then show ?thesis using False by (simp add: contains_def)
qed (simp add: contains_def)

text \<open>The pieces that \<^verbatim>\<open>mygrep\<close> looks at: lines with their newline, and an unfinished last one.\<close>

definition pieces :: "string \<Rightarrow> string list" where
  "pieces s = map (\<lambda>l. l @ [nl]) (fst (lines s)) @ (if snd (lines s) = [] then [] else [snd (lines s)])"

lemma mygrep_loop_spec:
  assumes "nl \<notin> set b"
  shows "mygrep_loop pattern (take 1023 b) w = concat (map (\<lambda>l. mygrep_line pattern (take 1023 l)) (pieces (b @ w)))"
  using assms
proof (induction w arbitrary: b)
  case Nil
  then show ?case by (simp add: pieces_def lines_none)
next
  case (Cons c w)
  have ln: "(if length (take 1023 b) < MAXLINE - 1 then take 1023 b @ [c] else take 1023 b) = take 1023 (b @ [c])"
    by (auto simp: MAXLINE_def)
  show ?case
  proof (cases "c = nl")
    case True
    have "mygrep_loop pattern (take 1023 b) (c # w) = mygrep_line pattern (take 1023 (b @ [c])) @ mygrep_loop pattern (take 1023 []) w"
      using True unfolding mygrep_loop.simps Let_def ln by (simp add: nl_def)
    then show ?thesis using True Cons.IH [of "[]"] lines_app [OF Cons.prems, of w] by (simp add: pieces_def)
  next
    case False
    have "mygrep_loop pattern (take 1023 b) (c # w) = mygrep_loop pattern (take 1023 (b @ [c])) w"
      using False unfolding mygrep_loop.simps Let_def ln by (simp add: nl_def)
    then show ?thesis using False Cons.IH [of "b @ [c]"] Cons.prems by simp
  qed
qed

lemma pieces_set: "l \<in> set (pieces w) \<Longrightarrow> set l \<subseteq> set w"
proof -
  have "concat (pieces w) = w"
  proof (induction w)
    case (Cons c w)
    then show ?case by (auto simp: pieces_def split: prod.splits list.splits if_splits)
  qed (simp add: pieces_def)
  then show "l \<in> set (pieces w) \<Longrightarrow> set l \<subseteq> set w" by (metis UN_upper set_concat)
qed

text \<open>C37. What \<^verbatim>\<open>mygrep\<close> writes for any file without NUL bytes: of every line, with its newline and also of
  an unfinished last one, only the first 1023 characters are kept, and they are written if the
  pattern occurs in them. So short lines are handled exactly, and a longer line is cut, loses its
  newline in the output, and is not found if the pattern occurs after the cut.\<close>

theorem mygrep_exact:
  assumes "CHR 0x00 \<notin> set w"
  shows "mygrep_main (\<lambda>_. Some w) [prog, pattern, name] =
    [(1, concat (filter (sublist pattern) (map (take 1023) (pieces w))))]"
proof -
  have "mygrep_line pattern (take 1023 l) = (if sublist pattern (take 1023 l) then take 1023 l else [])" if "l \<in> set (pieces w)" for l
  proof -
    have "CHR 0x00 \<notin> set (take 1023 l)" using pieces_set [OF that] assms by (auto dest: in_set_takeD)
    then have t: "takeWhile (\<lambda>c. c \<noteq> CHR 0x00) (take 1023 l) = take 1023 l" by (auto simp: takeWhile_eq_all_conv)
    show ?thesis unfolding mygrep_line_def t contains_sublist ..
  qed
  then have "concat (map (\<lambda>l. mygrep_line pattern (take 1023 l)) ls) = concat (filter (sublist pattern) (map (take 1023) ls))"
    if "set ls \<subseteq> set (pieces w)" for ls
    using that by (induction ls) auto
  then show ?thesis using mygrep_loop_spec [of "[]" pattern w] by (simp add: mygrep_main_def numeral_eq_Suc)
qed

theorem mygrep_exact_witness:
  "mygrep_main (\<lambda>_. Some (replicate 1023 CHR ''a'' @ [nl])) [''mygrep'', ''a'', ''f''] = [(1, replicate 1023 CHR ''a'')]"
proof -
  have l: "lines (replicate 1023 CHR ''a'' @ [nl]) = ([replicate 1023 CHR ''a''], [])"
    using lines_app [of "replicate 1023 CHR ''a''" "[]"] by (simp add: nl_def)
  have p: "map (take 1023) (pieces (replicate 1023 CHR ''a'' @ [nl])) = [replicate 1023 CHR ''a'']" by (simp add: pieces_def l)
  have "sublist ''a'' (replicate 1023 CHR ''a'')"
    by (simp add: sublist_def) (metis append_Nil append_Cons replicate_Suc numeral_eq_Suc)
  then show ?thesis
    using mygrep_exact [of "replicate 1023 CHR ''a'' @ [nl]" "''mygrep''" "''a''" "''f''"] unfolding p by (simp add: nl_def)
qed

end
