(* ===== verification/Bio.thy ===== *)
theory Bio
  imports Locks Phys_Mem
begin

text \<open>
  The buffer cache of \<^verbatim>\<open>bio.c\<close> above the memory disk of \<^verbatim>\<open>memide.c\<close>. A block is a function from
  offsets to bytes. The buffers are an array; \<open>order\<close> is the doubly linked list of them, the most
  recently used first. Operations run one at a time, for the process \<open>pid\<close>: a process that waits
  for a buffer that is locked makes no progress (\<^const>\<open>Refault\<close>). \<open>wlog\<close> records the writes to the
  disk in their order; no operation looks at it.
\<close>

section \<open>Buffers and disk\<close>

type_synonym block = pmem

definition BSIZE :: u32 where "BSIZE = 512"
definition NBUF :: nat where "NBUF = 30"

record buf =
  bvalid :: bool
  bdirty :: bool
  bdev :: u32
  bno :: u32
  blk :: sleeplock
  brefcnt :: u32
  bdata :: block

record bcache =
  bufs :: "buf list"
  order :: "nat list"
  disk :: "u32 \<Rightarrow> block"
  disksize :: u32
  wlog :: "(u32 \<times> block) list"

definition setbuf :: "nat \<Rightarrow> (buf \<Rightarrow> buf) \<Rightarrow> 'z bcache_scheme \<Rightarrow> 'z bcache_scheme" where
  "setbuf i f s = s\<lparr>bufs := (bufs s)[i := f (bufs s ! i)]\<rparr>"

definition iderw :: "int \<Rightarrow> nat \<Rightarrow> 'z bcache_scheme \<Rightarrow> 'z bcache_scheme res" where
  "iderw pid i s =
     (let b = bufs s ! i
      in if \<not> holdingsleep pid (blk b) then Panic ''iderw: buf not locked''
         else if bvalid b \<and> \<not> bdirty b then Panic ''iderw: nothing to do''
         else if bdev b \<noteq> 1 then Panic ''iderw: request not for disk 1''
         else if bno b \<ge> disksize s then Panic ''iderw: block out of range''
         else if bdirty b then
           Ret (setbuf i (\<lambda>b. b\<lparr>bdirty := False, bvalid := True\<rparr>)
             (s\<lparr>disk := (disk s)(bno b := bdata b), wlog := wlog s @ [(bno b, bdata b)]\<rparr>))
         else Ret (setbuf i (\<lambda>b. b\<lparr>bdata := disk s (bno b), bvalid := True\<rparr>) s))"

section \<open>The cache\<close>

definition buf_zero :: buf where
  "buf_zero = \<lparr>bvalid = False, bdirty = False, bdev = 0, bno = 0, blk = initsleeplock, brefcnt = 0, bdata = \<lambda>_. 0\<rparr>"

definition binit :: "'z bcache_scheme \<Rightarrow> 'z bcache_scheme" where
  "binit s = s\<lparr>bufs := replicate NBUF buf_zero, order := rev [0..<NBUF]\<rparr>"

definition block_lock :: "int \<Rightarrow> nat \<Rightarrow> 'z bcache_scheme \<Rightarrow> (nat \<times> 'z bcache_scheme) res" where
  "block_lock pid i s =
     (case acquiresleep pid (blk (bufs s ! i)) of
        None \<Rightarrow> Refault
      | Some lk \<Rightarrow> Ret (i, setbuf i (\<lambda>b. b\<lparr>blk := lk\<rparr>) s))"

definition bget :: "int \<Rightarrow> u32 \<Rightarrow> u32 \<Rightarrow> 'z bcache_scheme \<Rightarrow> (nat \<times> 'z bcache_scheme) res" where
  "bget pid dev blockno s =
     (case find (\<lambda>i. bdev (bufs s ! i) = dev \<and> bno (bufs s ! i) = blockno) (order s) of
        Some i \<Rightarrow> block_lock pid i (setbuf i (\<lambda>b. b\<lparr>brefcnt := brefcnt b + 1\<rparr>) s)
      | None \<Rightarrow>
          (case find (\<lambda>i. brefcnt (bufs s ! i) = 0 \<and> \<not> bdirty (bufs s ! i)) (rev (order s)) of
             Some i \<Rightarrow> block_lock pid i (setbuf i (\<lambda>b. b\<lparr>bdev := dev, bno := blockno, bvalid := False, bdirty := False, brefcnt := 1\<rparr>) s)
           | None \<Rightarrow> Panic ''bget: no buffers''))"

definition bread :: "int \<Rightarrow> u32 \<Rightarrow> u32 \<Rightarrow> 'z bcache_scheme \<Rightarrow> (nat \<times> 'z bcache_scheme) res" where
  "bread pid dev blockno s =
     rbind (bget pid dev blockno s) (\<lambda>(i, s).
       if \<not> bvalid (bufs s ! i) then rbind (iderw pid i s) (\<lambda>s. Ret (i, s)) else Ret (i, s))"

definition bwrite :: "int \<Rightarrow> nat \<Rightarrow> 'z bcache_scheme \<Rightarrow> 'z bcache_scheme res" where
  "bwrite pid i s =
     (if \<not> holdingsleep pid (blk (bufs s ! i)) then Panic ''bwrite''
      else iderw pid i (setbuf i (\<lambda>b. b\<lparr>bdirty := True\<rparr>) s))"

definition brelse :: "int \<Rightarrow> nat \<Rightarrow> 'z bcache_scheme \<Rightarrow> 'z bcache_scheme res" where
  "brelse pid i s =
     (if \<not> holdingsleep pid (blk (bufs s ! i)) then Panic ''brelse''
      else
        let s = setbuf i (\<lambda>b. b\<lparr>blk := releasesleep (blk b), brefcnt := brefcnt b - 1\<rparr>) s
        in Ret (if brefcnt (bufs s ! i) = 0 then s\<lparr>order := i # remove1 i (order s)\<rparr> else s))"

section \<open>What the cache promises\<close>

text \<open>
  \<open>cur s b\<close> is what a reader of block \<open>b\<close> finds. In a consistent cache no block of disk 1 has two
  buffers, and a clean buffer that nobody holds agrees with the disk.
\<close>

definition cached :: "'z bcache_scheme \<Rightarrow> u32 \<Rightarrow> nat \<Rightarrow> bool" where
  "cached s b i \<longleftrightarrow> i < NBUF \<and> bdev (bufs s ! i) = 1 \<and> bno (bufs s ! i) = b"

definition cur :: "'z bcache_scheme \<Rightarrow> u32 \<Rightarrow> block" where
  "cur s b = (case find (\<lambda>i. cached s b i \<and> bvalid (bufs s ! i)) [0..<NBUF] of Some i \<Rightarrow> bdata (bufs s ! i) | None \<Rightarrow> disk s b)"

definition free_buf :: "buf \<Rightarrow> bool" where
  "free_buf b \<longleftrightarrow> brefcnt b = 0 \<and> \<not> slocked (blk b)"

definition binv :: "'z bcache_scheme \<Rightarrow> bool" where
  "binv s \<longleftrightarrow> length (bufs s) = NBUF \<and> distinct (order s) \<and> set (order s) = {..<NBUF} \<and>
     (\<forall>i j b. cached s b i \<longrightarrow> cached s b j \<longrightarrow> i = j) \<and>
     (\<forall>i < NBUF. (brefcnt (bufs s ! i) = 0 \<longleftrightarrow> \<not> slocked (blk (bufs s ! i))) \<and>
        (bdirty (bufs s ! i) \<longrightarrow> bvalid (bufs s ! i) \<and> bdev (bufs s ! i) = 1) \<and>
        (bvalid (bufs s ! i) \<longrightarrow> bdev (bufs s ! i) = 1) \<and>
        (free_buf (bufs s ! i) \<longrightarrow> bvalid (bufs s ! i) \<longrightarrow> \<not> bdirty (bufs s ! i) \<longrightarrow> bdata (bufs s ! i) = disk s (bno (bufs s ! i))))"
lemma setbuf_sel [simp]:
  "bufs (setbuf i f s) = (bufs s)[i := f (bufs s ! i)]" "order (setbuf i f s) = order s" "disk (setbuf i f s) = disk s"
  "disksize (setbuf i f s) = disksize s" "wlog (setbuf i f s) = wlog s" "bcache.more (setbuf i f s) = bcache.more s"
  by (simp_all add: setbuf_def)

lemma binvD:
  assumes "binv s"
  shows "length (bufs s) = NBUF" "distinct (order s)" "set (order s) = {..<NBUF}" "cached s b i \<Longrightarrow> cached s b j \<Longrightarrow> i = j"
    "i < NBUF \<Longrightarrow> brefcnt (bufs s ! i) = 0 \<longleftrightarrow> \<not> slocked (blk (bufs s ! i))"
    "i < NBUF \<Longrightarrow> bdirty (bufs s ! i) \<Longrightarrow> bvalid (bufs s ! i)" "i < NBUF \<Longrightarrow> bvalid (bufs s ! i) \<Longrightarrow> bdev (bufs s ! i) = 1"
    "i < NBUF \<Longrightarrow> brefcnt (bufs s ! i) = 0 \<Longrightarrow> bvalid (bufs s ! i) \<Longrightarrow> \<not> bdirty (bufs s ! i) \<Longrightarrow>
       bdata (bufs s ! i) = disk s (bno (bufs s ! i))"
  using assms unfolding binv_def free_buf_def by blast+

lemma find_upt: "find P [0..<n] = None \<longleftrightarrow> (\<forall>i < n. \<not> P i)"
  by (auto simp: find_None_iff)

lemma cur_cached:
  assumes "binv s" "cached s b i" "bvalid (bufs s ! i)"
  shows "cur s b = bdata (bufs s ! i)"
proof (cases "find (\<lambda>i. cached s b i \<and> bvalid (bufs s ! i)) [0..<NBUF]")
  case None
  then show ?thesis using assms by (auto simp: find_upt cached_def)
next
  case (Some j)
  then have "cached s b j" by (auto simp: find_Some_iff)
  then show ?thesis using Some binvD(4) [OF assms(1,2)] by (auto simp: cur_def)
qed

lemma cur_disk: "(\<And>i. cached s b i \<Longrightarrow> \<not> bvalid (bufs s ! i)) \<Longrightarrow> cur s b = disk s b"
proof -
  assume "\<And>i. cached s b i \<Longrightarrow> \<not> bvalid (bufs s ! i)"
  then have "find (\<lambda>i. cached s b i \<and> bvalid (bufs s ! i)) [0..<NBUF] = None" by (auto simp: find_upt)
  then show ?thesis by (simp add: cur_def)
qed

text \<open>A change of one buffer that keeps the rest.\<close>

lemma binv_setbuf:
  assumes inv: "binv s" and i: "i < NBUF" and s': "bufs s' = (bufs s)[i := x]" "distinct (order s')" "set (order s') = {..<NBUF}"
    and x: "brefcnt x = 0 \<longleftrightarrow> \<not> slocked (blk x)" "bdirty x \<Longrightarrow> bvalid x" "bvalid x \<Longrightarrow> bdev x = 1"
      "brefcnt x = 0 \<Longrightarrow> bvalid x \<Longrightarrow> \<not> bdirty x \<Longrightarrow> bdata x = disk s' (bno x)"
    and u: "\<And>j. bdev x = 1 \<Longrightarrow> cached s (bno x) j \<Longrightarrow> j = i"
    and d: "\<And>c. c = bno x \<and> bdev x = 1 \<or> disk s' c = disk s c"
  shows "binv s'"
proof -
  have l: "length (bufs s) = NBUF" using binvD(1) [OF inv] .
  have n: "bufs s' ! j = (if j = i then x else bufs s ! j)" if "j < NBUF" for j using that l i by (simp add: s')
  have ca: "cached s' c j \<longleftrightarrow> (if j = i then bdev x = 1 \<and> bno x = c else cached s c j)" for c j
    using i by (cases "j = i"; cases "j < NBUF") (simp_all add: cached_def n)
  have un: "j = k" if "cached s' c j" "cached s' c k" for c j k
    using that u [of j] u [of k] binvD(4) [OF inv, of c j k] ca [of c j] ca [of c k] by metis
  have dk: "bdata (bufs s' ! j) = disk s' (bno (bufs s' ! j))"
    if j: "j < NBUF" "brefcnt (bufs s' ! j) = 0" "bvalid (bufs s' ! j)" "\<not> bdirty (bufs s' ! j)" for j
  proof (cases "j = i")
    case True
    then show ?thesis using that x(4) by (simp add: n)
  next
    case False
    then have jn: "bufs s' ! j = bufs s ! j" using j(1) by (simp add: n)
    have dv: "bdev (bufs s ! j) = 1" using binvD(7) [OF inv j(1)] j(3) by (simp add: jn)
    have "disk s' (bno (bufs s ! j)) = disk s (bno (bufs s ! j))"
      using d [of "bno (bufs s ! j)"] u [of j] dv j(1) False by (auto simp: cached_def)
    then show ?thesis using binvD(8) [OF inv j(1)] that by (simp add: jn)
  qed
  have "(brefcnt (bufs s' ! j) = 0 \<longleftrightarrow> \<not> slocked (blk (bufs s' ! j))) \<and> (bdirty (bufs s' ! j) \<longrightarrow> bvalid (bufs s' ! j)) \<and>
      (bvalid (bufs s' ! j) \<longrightarrow> bdev (bufs s' ! j) = 1)" if "j < NBUF" for j
    using x(1-3) binvD(5-7) [OF inv that] n [OF that] by (cases "j = i") simp_all
  moreover have "length (bufs s') = NBUF" using l by (simp add: s'(1))
  ultimately show ?thesis unfolding binv_def free_buf_def using s'(2,3) un dk by blast
qed

lemma cur_setbuf:
  assumes inv: "binv s" and i: "i < NBUF" and s': "bufs s' = (bufs s)[i := x]" "binv s'" and x: "bdev x = 1" "bvalid x"
    and old: "bvalid (bufs s ! i) \<Longrightarrow> bno (bufs s ! i) = bno x \<or> bdata (bufs s ! i) = disk s (bno (bufs s ! i))"
    and d: "\<And>c. c = bno x \<or> disk s' c = disk s c"
  shows "cur s' c = (if c = bno x then bdata x else cur s c)"
proof -
  have l: "length (bufs s) = NBUF" using binvD(1) [OF inv] .
  have n: "bufs s' ! j = (if j = i then x else bufs s ! j)" if "j < NBUF" for j using that l i by (simp add: s')
  have ca: "cached s' c j \<longleftrightarrow> (if j = i then bno x = c else cached s c j)" for c j
    using i x by (cases "j = i"; cases "j < NBUF") (simp_all add: cached_def n)
  show ?thesis
  proof (cases "c = bno x")
    case True
    then have "cached s' c i" by (simp add: ca)
    then show ?thesis using cur_cached [OF s'(2), of c i] x i True by (simp add: n)
  next
    case False
    show ?thesis
    proof (cases "\<exists>j. cached s c j \<and> bvalid (bufs s ! j) \<and> j \<noteq> i")
      case True
      then obtain j where j: "cached s c j" "bvalid (bufs s ! j)" "j \<noteq> i" by blast
      then have "bufs s' ! j = bufs s ! j" by (auto simp: n cached_def)
      then show ?thesis using cur_cached [OF inv j(1,2)] cur_cached [OF s'(2), of c j] j False by (simp add: ca)
    next
      case nj: False
      have "cur s' c = disk s' c" by (rule cur_disk) (use nj False in \<open>auto simp: ca n cached_def split: if_splits\<close>)
      moreover have "disk s' c = disk s c" using d [of c] False by simp
      moreover have "cur s c = disk s c"
      proof (cases "cached s c i \<and> bvalid (bufs s ! i)")
        case True
        then show ?thesis using cur_cached [OF inv, of c i] old False by (auto simp: cached_def)
      next
        case False
        then show ?thesis using nj by (intro cur_disk) blast
      qed
      ultimately show ?thesis using False by simp
    qed
  qed
qed
section \<open>The operations\<close>

text \<open>A free buffer can be found unless all are in use or pinned; a block that is cached has to be unlocked.\<close>

definition can_get :: "'z bcache_scheme \<Rightarrow> u32 \<Rightarrow> bool" where
  "can_get s b \<longleftrightarrow> (\<forall>i. cached s b i \<longrightarrow> \<not> slocked (blk (bufs s ! i))) \<and>
     ((\<exists>i. cached s b i) \<or> (\<exists>i < NBUF. brefcnt (bufs s ! i) = 0 \<and> \<not> bdirty (bufs s ! i)))"

definition got :: "int \<Rightarrow> u32 \<Rightarrow> bool \<Rightarrow> bool \<Rightarrow> block \<Rightarrow> buf" where
  "got pid b v w x = \<lparr>bvalid = v, bdirty = w, bdev = 1, bno = b, blk = \<lparr>slocked = True, spid = pid\<rparr>, brefcnt = 1, bdata = x\<rparr>"

lemma find_SomeD: "find P xs = Some x \<Longrightarrow> x \<in> set xs \<and> P x"
  by (auto simp: find_Some_iff in_set_conv_nth)

lemma bget_spec:
  assumes inv: "binv s" and g: "can_get s b"
  obtains i where "i < NBUF" "brefcnt (bufs s ! i) = 0" "cached s b i \<or> (\<forall>j. \<not> cached s b j) \<and> \<not> bdirty (bufs s ! i)"
    "bget pid 1 b s = Ret (i, s\<lparr>bufs := (bufs s)[i := got pid b (cached s b i \<and> bvalid (bufs s ! i)) (cached s b i \<and> bdirty (bufs s ! i)) (bdata (bufs s ! i))]\<rparr>)"
proof -
  have o: "set (order s) = {..<NBUF}" by (rule binvD(3) [OF inv])
  have l: "length (bufs s) = NBUF" by (rule binvD(1) [OF inv])
  let ?f = "find (\<lambda>i. bdev (bufs s ! i) = 1 \<and> bno (bufs s ! i) = b) (order s)"
  show ?thesis
  proof (cases ?f)
    case (Some i)
    have i: "i < NBUF" "cached s b i" using find_SomeD [OF Some] o by (auto simp: cached_def)
    have lk: "\<not> slocked (blk (bufs s ! i))" using g i(2) by (simp add: can_get_def)
    then have rc: "brefcnt (bufs s ! i) = 0" using binvD(5) [OF inv i(1)] by simp
    have "got pid b (bvalid (bufs s ! i)) (bdirty (bufs s ! i)) (bdata (bufs s ! i)) =
        (bufs s ! i)\<lparr>brefcnt := brefcnt (bufs s ! i) + 1, blk := \<lparr>slocked = True, spid = pid\<rparr>\<rparr>"
      using i(2) rc by (cases "bufs s ! i") (simp add: got_def cached_def)
    then have "bget pid 1 b s = Ret (i, s\<lparr>bufs := (bufs s)[i := got pid b (bvalid (bufs s ! i)) (bdirty (bufs s ! i)) (bdata (bufs s ! i))]\<rparr>)"
      using Some lk i(1) l by (simp add: bget_def block_lock_def acquiresleep_def setbuf_def)
    then show ?thesis using that [OF i(1) rc] i(2) by simp
  next
    case None
    then have nc: "\<not> cached s b j" for j using o by (auto simp: find_None_iff cached_def)
    then obtain k where k: "k < NBUF" "brefcnt (bufs s ! k) = 0" "\<not> bdirty (bufs s ! k)" using g by (auto simp: can_get_def)
    then have "find (\<lambda>i. brefcnt (bufs s ! i) = 0 \<and> \<not> bdirty (bufs s ! i)) (rev (order s)) \<noteq> None" using o by (auto simp: find_None_iff)
    then obtain i where f: "find (\<lambda>i. brefcnt (bufs s ! i) = 0 \<and> \<not> bdirty (bufs s ! i)) (rev (order s)) = Some i" by auto
    have i: "i < NBUF" "brefcnt (bufs s ! i) = 0" "\<not> bdirty (bufs s ! i)" using find_SomeD [OF f] o by auto
    have lk: "\<not> slocked (blk (bufs s ! i))" using binvD(5) [OF inv i(1)] i(2) by simp
    have "got pid b False False (bdata (bufs s ! i)) =
        (bufs s ! i)\<lparr>bdev := 1, bno := b, bvalid := False, bdirty := False, brefcnt := 1, blk := \<lparr>slocked = True, spid = pid\<rparr>\<rparr>"
      by (cases "bufs s ! i") (simp add: got_def)
    then have "bget pid 1 b s = Ret (i, s\<lparr>bufs := (bufs s)[i := got pid b False False (bdata (bufs s ! i))]\<rparr>)"
      using None f lk i(1) l by (simp add: bget_def block_lock_def acquiresleep_def setbuf_def)
    then show ?thesis using that [OF i(1,2)] i(3) nc by simp
  qed
qed

lemma bread_spec:
  assumes inv: "binv s" and g: "can_get s b" and b: "b < disksize s"
  obtains i where "i < NBUF" "brefcnt (bufs s ! i) = 0" "bdirty (bufs s ! i) \<longrightarrow> cached s b i" "(\<exists>j. cached s b j) \<longrightarrow> cached s b i"
    "bdirty (bufs s ! i) \<or> cur s b = disk s b" "bread pid 1 b s = Ret (i, s\<lparr>bufs := (bufs s)[i := got pid b True (bdirty (bufs s ! i)) (cur s b)]\<rparr>)"
    "binv (s\<lparr>bufs := (bufs s)[i := got pid b True (bdirty (bufs s ! i)) (cur s b)]\<rparr>)"
    "cur (s\<lparr>bufs := (bufs s)[i := got pid b True (bdirty (bufs s ! i)) (cur s b)]\<rparr>) = cur s"
proof (rule bget_spec [OF inv g, of pid])
  fix i assume i: "i < NBUF" "brefcnt (bufs s ! i) = 0" "cached s b i \<or> (\<forall>j. \<not> cached s b j) \<and> \<not> bdirty (bufs s ! i)"
    "bget pid 1 b s = Ret (i, s\<lparr>bufs := (bufs s)[i := got pid b (cached s b i \<and> bvalid (bufs s ! i)) (cached s b i \<and> bdirty (bufs s ! i)) (bdata (bufs s ! i))]\<rparr>)"
  have l: "length (bufs s) = NBUF" by (rule binvD(1) [OF inv])
  let ?w = "bdirty (bufs s ! i)"
  let ?t = "s\<lparr>bufs := (bufs s)[i := got pid b True ?w (cur s b)]\<rparr>"
  have w: "(cached s b i \<and> ?w) = ?w" using i(3) by blast
  have r: "bread pid 1 b s = Ret (i, ?t)"
  proof (cases "cached s b i \<and> bvalid (bufs s ! i)")
    case True
    then have "cur s b = bdata (bufs s ! i)" using cur_cached [OF inv] by blast
    then show ?thesis using i(1,4) True l w by (simp add: bread_def got_def)
  next
    case False
    then have nv: "\<not> ?w" using w binvD(6) [OF inv i(1)] by blast
    have "cur s b = disk s b"
    proof (rule cur_disk)
      fix j assume "cached s b j"
      then show "\<not> bvalid (bufs s ! j)" using i(3) False binvD(4) [OF inv] by blast
    qed
    then show ?thesis using i(1,4) False l nv b
      by (auto simp: bread_def iderw_def got_def holdingsleep_def setbuf_def Let_def)
  qed
  have u: "j = i" if "cached s b j" for j using i(3) that binvD(4) [OF inv] by blast
  have it: "binv ?t"
    by (rule binv_setbuf [OF inv i(1)]) (use binvD(2,3) [OF inv] u in \<open>auto simp: got_def\<close>)
  have "cur ?t c = (if c = b then cur s b else cur s c)" for c
    using cur_setbuf [OF inv i(1) _ it, of "got pid b True ?w (cur s b)" c] i(2,3) binvD(8) [OF inv i(1,2)]
    by (auto simp: got_def cached_def)
  then have "cur ?t = cur s" by (simp add: fun_eq_iff)
  moreover have "?w \<or> cur s b = disk s b"
  proof (cases "cached s b i \<and> bvalid (bufs s ! i)")
    case True
    then show ?thesis using cur_cached [OF inv, of b i] binvD(8) [OF inv i(1,2)] by (auto simp: cached_def)
  next
    case False
    then have "cur s b = disk s b" using u by (intro cur_disk) blast
    then show ?thesis by simp
  qed
  ultimately show ?thesis using that [OF i(1,2) _ _ _ r it] i(3) by blast
qed

lemma brelse_spec:
  assumes inv: "binv s" and i: "i < NBUF" and x: "bufs s ! i = got pid b True w x" "w \<or> x = disk s b"
  obtains s' where "brelse pid i s = Ret s'" "binv s'" "bufs s' = (bufs s)[i := (got pid b True w x)\<lparr>blk := \<lparr>slocked = False, spid = 0\<rparr>, brefcnt := 0\<rparr>]"
    "disk s' = disk s" "disksize s' = disksize s" "wlog s' = wlog s" "bcache.more s' = bcache.more s" "cur s' = cur s"
proof -
  have l: "length (bufs s) = NBUF" by (rule binvD(1) [OF inv])
  let ?x = "(got pid b True w x)\<lparr>blk := \<lparr>slocked = False, spid = 0\<rparr>, brefcnt := 0\<rparr>"
  let ?s = "s\<lparr>bufs := (bufs s)[i := ?x], order := i # remove1 i (order s)\<rparr>"
  have r: "brelse pid i s = Ret ?s"
    using i l x(1) by (simp add: brelse_def holdingsleep_def got_def releasesleep_def Let_def setbuf_def)
  have u: "j = i" if "cached s b j" for j using that binvD(4) [OF inv, of b i j] i x(1) by (auto simp: cached_def got_def)
  have o: "set (order s) = {..<NBUF}" "distinct (order s)" by (rule binvD(3) [OF inv], rule binvD(2) [OF inv])
  have it: "binv ?s"
    by (rule binv_setbuf [OF inv i]) (use o i u x(2) in \<open>auto simp: got_def\<close>)
  have "cur s b = x" using cur_cached [OF inv, of b i] i x(1) by (simp add: cached_def got_def)
  then have "cur ?s c = cur s c" for c
    using cur_setbuf [OF inv i _ it, of ?x c] x(1) by (auto simp: got_def)
  then have "cur ?s = cur s" by (simp add: fun_eq_iff)
  then show ?thesis using that [OF r it] by simp
qed

lemma bwrite_spec:
  assumes inv: "binv s" and i: "i < NBUF" and x: "bufs s ! i = got pid b True w x" and b: "b < disksize s"
  defines "s' \<equiv> s\<lparr>bufs := (bufs s)[i := got pid b True False x], disk := (disk s)(b := x), wlog := wlog s @ [(b, x)]\<rparr>"
  shows "bwrite pid i s = Ret s'" "binv s'" "cur s' = cur s" "cur s b = x"
proof -
  have l: "length (bufs s) = NBUF" by (rule binvD(1) [OF inv])
  show r: "bwrite pid i s = Ret s'"
    using i l x(1) b by (simp add: s'_def bwrite_def iderw_def holdingsleep_def got_def Let_def setbuf_def)
  have u: "j = i" if "cached s b j" for j using that binvD(4) [OF inv, of b i j] i x(1) by (auto simp: cached_def got_def)
  show it: "binv s'"
    by (rule binv_setbuf [OF inv i]) (use binvD(2,3) [OF inv] u in \<open>auto simp: got_def s'_def\<close>)
  show cb: "cur s b = x" using cur_cached [OF inv, of b i] i x(1) by (simp add: cached_def got_def)
  then have "cur s' c = cur s c" for c
    using cur_setbuf [OF inv i _ it, of "got pid b True False x" c] x(1) by (auto simp: got_def s'_def)
  then show "cur s' = cur s" by (simp add: fun_eq_iff)
qed

lemma bdata_spec:
  assumes inv: "binv s" and i: "i < NBUF" and x: "bufs s ! i = got pid b True w x"
  shows "binv (setbuf i (\<lambda>b. b\<lparr>bdata := y\<rparr>) s)" "cur (setbuf i (\<lambda>b. b\<lparr>bdata := y\<rparr>) s) = (cur s)(b := y)"
    "bufs (setbuf i (\<lambda>b. b\<lparr>bdata := y\<rparr>) s) = (bufs s)[i := got pid b True w y]"
proof -
  show e: "bufs (setbuf i (\<lambda>b. b\<lparr>bdata := y\<rparr>) s) = (bufs s)[i := got pid b True w y]" using x by (simp add: got_def)
  have u: "j = i" if "cached s b j" for j using that binvD(4) [OF inv, of b i j] i x(1) by (auto simp: cached_def got_def)
  show it: "binv (setbuf i (\<lambda>b. b\<lparr>bdata := y\<rparr>) s)"
    by (rule binv_setbuf [OF inv i e]) (use binvD(2,3) [OF inv] u in \<open>auto simp: got_def\<close>)
  have "cur (setbuf i (\<lambda>b. b\<lparr>bdata := y\<rparr>) s) c = (if c = b then y else cur s c)" for c
    using cur_setbuf [OF inv i e it, of c] x by (auto simp: got_def)
  then show "cur (setbuf i (\<lambda>b. b\<lparr>bdata := y\<rparr>) s) = (cur s)(b := y)" by (simp add: fun_eq_iff)
qed

section \<open>The blocks in use\<close>

text \<open>
  The interface of the cache for the code above it. \<open>dirt s\<close> are the blocks that wait for a commit,
  \<open>hb s\<close> the ones that a process holds, and \<open>holds pid s i b\<close> says that the process holds block \<open>b\<close>
  in the buffer \<open>i\<close>.
\<close>

definition dirt :: "'z bcache_scheme \<Rightarrow> u32 set" where
  "dirt s = {b. \<exists>i. cached s b i \<and> bdirty (bufs s ! i)}"

definition hb :: "'z bcache_scheme \<Rightarrow> u32 set" where
  "hb s = {b. \<exists>i. cached s b i \<and> brefcnt (bufs s ! i) \<noteq> 0}"

definition bok :: "'z bcache_scheme \<Rightarrow> bool" where
  "bok s \<longleftrightarrow> binv s \<and> (\<forall>i < NBUF. brefcnt (bufs s ! i) \<noteq> 0 \<longrightarrow> bdev (bufs s ! i) = 1)"

definition holds :: "int \<Rightarrow> 'z bcache_scheme \<Rightarrow> nat \<Rightarrow> u32 \<Rightarrow> bool" where
  "holds pid s i b \<longleftrightarrow> i < NBUF \<and> bufs s ! i = got pid b True (b \<in> dirt s) (cur s b)"

text \<open>Everything that code above the cache can see.\<close>

definition view :: "'z bcache_scheme \<Rightarrow> (u32 \<Rightarrow> block) \<times> (u32 \<Rightarrow> block) \<times> u32 set \<times> u32 set \<times> (u32 \<times> block) list \<times> u32 \<times> 'z" where
  "view s = (cur s, disk s, dirt s, hb s, wlog s, disksize s, bcache.more s)"

lemma in_use_finite: "finite (dirt s \<union> hb s)"
proof (rule finite_subset)
  show "dirt s \<union> hb s \<subseteq> (\<lambda>i. bno (bufs s ! i)) ` {..<NBUF}" by (auto simp: dirt_def hb_def cached_def)
qed simp

lemma free_exists:
  assumes ok: "bok s" and c: "card (dirt s \<union> hb s) < NBUF"
  shows "\<exists>i < NBUF. brefcnt (bufs s ! i) = 0 \<and> \<not> bdirty (bufs s ! i)"
proof (rule ccontr)
  assume no: "\<not> ?thesis"
  have inv: "binv s" using ok by (simp add: bok_def)
  have dv: "bdev (bufs s ! i) = 1" if "i < NBUF" for i
    using that no ok binvD(6,7) [OF inv that] by (auto simp: bok_def)
  have "inj_on (\<lambda>i. bno (bufs s ! i)) {..<NBUF}"
    by (rule inj_onI) (use binvD(4) [OF inv] dv in \<open>auto simp: cached_def\<close>)
  then have "NBUF = card ((\<lambda>i. bno (bufs s ! i)) ` {..<NBUF})" by (simp add: card_image)
  also have "\<dots> \<le> card (dirt s \<union> hb s)"
    by (rule card_mono [OF in_use_finite]) (use no dv in \<open>auto simp: dirt_def hb_def cached_def\<close>)
  finally show False using c by simp
qed

text \<open>A buffer that gets or keeps block \<open>b\<close>.\<close>

lemma put_buf:
  assumes inv: "binv s" and i: "i < NBUF" and s': "bufs s' = (bufs s)[i := x]" and x: "bdev x = 1" "bno x = b"
    and old: "cached s b i \<or> (\<forall>j. \<not> cached s b j) \<and> \<not> bdirty (bufs s ! i) \<and> brefcnt (bufs s ! i) = 0"
  shows "cached s' c j \<longleftrightarrow> (if j = i then c = b else cached s c j)"
    "dirt s' = (if bdirty x then insert b (dirt s) else dirt s - {b})"
    "hb s' = (if brefcnt x \<noteq> 0 then insert b (hb s) else hb s - {b})"
proof -
  have l: "length (bufs s) = NBUF" using binvD(1) [OF inv] .
  have n: "bufs s' ! j = (if j = i then x else bufs s ! j)" if "j < NBUF" for j using that l i by (simp add: s')
  have ca: "cached s' c j \<longleftrightarrow> (if j = i then c = b else cached s c j)" for c j
    using i x by (cases "j = i"; cases "j < NBUF") (auto simp: cached_def n)
  then show "cached s' c j \<longleftrightarrow> (if j = i then c = b else cached s c j)" .
  have u: "j = i" if "cached s b j" for j using that old binvD(4) [OF inv] by blast
  have "(\<exists>j. cached s' c j \<and> P (bufs s' ! j)) \<longleftrightarrow> (if c = b then P x else \<exists>j. cached s c j \<and> P (bufs s ! j))"
    if P: "cached s b i \<or> \<not> P (bufs s ! i)" for c P
  proof (cases "c = b")
    case True
    then show ?thesis using ca [of c] u n [OF i] by auto
  next
    case False
    have "j \<noteq> i" if "cached s c j" "P (bufs s ! j)" for j
      using that P False by (auto simp: cached_def)
    moreover have "bufs s' ! j = bufs s ! j" if "cached s c j" "j \<noteq> i" for j using that n by (simp add: cached_def)
    ultimately show ?thesis using ca [of c] False by metis
  qed
  note e = this
  have "c \<in> dirt s' \<longleftrightarrow> c \<in> (if bdirty x then insert b (dirt s) else dirt s - {b})" for c
    using e [of bdirty c] old unfolding dirt_def by (cases "c = b") auto
  then show "dirt s' = (if bdirty x then insert b (dirt s) else dirt s - {b})" by blast
  have "c \<in> hb s' \<longleftrightarrow> c \<in> (if brefcnt x \<noteq> 0 then insert b (hb s) else hb s - {b})" for c
    using e [of "\<lambda>x. brefcnt x \<noteq> 0" c] old unfolding hb_def by (cases "c = b") auto
  then show "hb s' = (if brefcnt x \<noteq> 0 then insert b (hb s) else hb s - {b})" by blast
qed

lemma holds_dirty: "bok s \<Longrightarrow> i < NBUF \<Longrightarrow> bufs s ! i = got pid b True w x \<Longrightarrow> (b \<in> dirt s) = w \<and> cur s b = x"
proof -
  assume a: "bok s" "i < NBUF" "bufs s ! i = got pid b True w x"
  then have c: "cached s b i" "bvalid (bufs s ! i)" "bdirty (bufs s ! i) = w" "bdata (bufs s ! i) = x" by (simp_all add: cached_def got_def)
  have inv: "binv s" using a(1) by (simp add: bok_def)
  have "(b \<in> dirt s) = w" unfolding dirt_def using binvD(4) [OF inv c(1)] c(1,3) by blast
  then show ?thesis using cur_cached [OF inv c(1,2)] c(4) by simp
qed

lemma holdsI: "bok s \<Longrightarrow> i < NBUF \<Longrightarrow> bufs s ! i = got pid b True w x \<Longrightarrow> holds pid s i b"
  using holds_dirty by (fastforce simp: holds_def)

lemma holdsD:
  "holds pid s i b \<Longrightarrow> i < NBUF \<and> bdata (bufs s ! i) = cur s b \<and> bno (bufs s ! i) = b \<and> (bdirty (bufs s ! i) \<longleftrightarrow> b \<in> dirt s) \<and> cached s b i \<and> b \<in> hb s"
  by (auto simp: holds_def got_def cached_def hb_def)

lemma holds_keep: "holds pid s j c \<Longrightarrow> bok s' \<Longrightarrow> bufs s' ! j = bufs s ! j \<Longrightarrow> holds pid s' j c"
  unfolding holds_def [of pid s] by (metis holdsI)

lemma bread_holds:
  assumes ok: "bok s" and b: "b \<notin> hb s" "b < disksize s" and c: "b \<in> dirt s \<or> card (dirt s \<union> hb s) < NBUF"
  obtains i s' where "bread pid 1 b s = Ret (i, s')" "bok s'" "holds pid s' i b"
    "view s' = (cur s, disk s, dirt s, insert b (hb s), wlog s, disksize s, bcache.more s)"
    "b \<in> dirt s \<or> cur s b = disk s b" "\<And>j c. holds pid s j c \<Longrightarrow> holds pid s' j c"
proof -
  have inv: "binv s" using ok by (simp add: bok_def)
  have l: "length (bufs s) = NBUF" using binvD(1) [OF inv] .
  have g: "can_get s b" unfolding can_get_def
    using b(1) c free_exists [OF ok] binvD(5) [OF inv] by (auto simp: hb_def dirt_def cached_def)
  show ?thesis
  proof (rule bread_spec [OF inv g b(2), of pid])
    fix i
    let ?x = "got pid b True (bdirty (bufs s ! i)) (cur s b)"
    let ?t = "s\<lparr>bufs := (bufs s)[i := ?x]\<rparr>"
    assume i: "i < NBUF" "brefcnt (bufs s ! i) = 0" "bdirty (bufs s ! i) \<longrightarrow> cached s b i" "(\<exists>j. cached s b j) \<longrightarrow> cached s b i"
      "bdirty (bufs s ! i) \<or> cur s b = disk s b" "bread pid 1 b s = Ret (i, ?t)" "binv ?t" "cur ?t = cur s"
    have n: "bufs ?t ! j = (if j = i then ?x else bufs s ! j)" if "j < NBUF" for j using that l i(1) by simp
    have ot: "bok ?t" using ok i(7) n by (simp add: bok_def got_def)
    have old: "cached s b i \<or> (\<forall>j. \<not> cached s b j) \<and> \<not> bdirty (bufs s ! i) \<and> brefcnt (bufs s ! i) = 0" using i by blast
    note p = put_buf [OF inv i(1) _ _ _ old, of ?t ?x]
    have "b \<in> dirt s \<longleftrightarrow> bdirty (bufs s ! i)" using i(3,4) binvD(4) [OF inv, of b i] unfolding dirt_def by blast
    then have d: "dirt ?t = dirt s" using p(2) by (auto simp: got_def)
    have h: "hb ?t = insert b (hb s)" using p(3) by (simp add: got_def)
    have v: "view ?t = (cur s, disk s, dirt s, insert b (hb s), wlog s, disksize s, bcache.more s)"
      unfolding view_def d h i(8) by simp
    have "holds pid ?t j c" if "holds pid s j c" for j c
    proof (rule holds_keep [OF that ot])
      have "j < NBUF" "j \<noteq> i" using holdsD [OF that] i(2) that by (auto simp: holds_def got_def)
      then show "bufs ?t ! j = bufs s ! j" by (simp add: n)
    qed
    moreover have "b \<in> dirt s \<or> cur s b = disk s b" using i(1,3,5) by (auto simp: dirt_def)
    moreover have "holds pid ?t i b" using holdsI [OF ot i(1)] n [OF i(1)] by simp
    ultimately show ?thesis using that [OF i(6) ot _ v] by blast
  qed
qed

lemma set_holds:
  fixes y :: block
  assumes ok: "bok s" and h: "holds pid s i b"
  defines "s' \<equiv> setbuf i (\<lambda>x. x\<lparr>bdata := y\<rparr>) s"
  shows "bok s'" "holds pid s' i b" "view s' = ((cur s)(b := y), disk s, dirt s, hb s, wlog s, disksize s, bcache.more s)"
    "holds pid s j c \<Longrightarrow> holds pid s' j c"
proof -
  have inv: "binv s" using ok by (simp add: bok_def)
  have i: "i < NBUF" "bufs s ! i = got pid b True (b \<in> dirt s) (cur s b)" "cached s b i" "b \<in> hb s"
    using h holdsD [OF h] by (auto simp: holds_def)
  note d = bdata_spec [OF inv i(1,2), of y, folded s'_def]
  have l: "length (bufs s) = NBUF" using binvD(1) [OF inv] .
  have n: "bufs s' ! j = (if j = i then got pid b True (b \<in> dirt s) y else bufs s ! j)" if "j < NBUF" for j using that l i(1) d(3) by simp
  show o: "bok s'" using d(1) ok n by (simp add: bok_def got_def)
  show hi: "holds pid s' i b" using holdsI [OF o i(1)] n [OF i(1)] by simp
  note p = put_buf [OF inv i(1) d(3) _ _ disjI1 [OF i(3)]]
  have "dirt s' = dirt s" using p(2) by (auto simp: got_def)
  moreover have "hb s' = hb s" using p(3) i(4) by (auto simp: got_def)
  ultimately show "view s' = ((cur s)(b := y), disk s, dirt s, hb s, wlog s, disksize s, bcache.more s)"
    unfolding view_def d(2) by (simp add: s'_def)
  show "holds pid s' j c" if j: "holds pid s j c"
  proof (cases "j = i")
    case True
    then show ?thesis using hi j holdsD [OF j] holdsD [OF h] by simp
  next
    case False
    then show ?thesis using holds_keep [OF j o] n holdsD [OF j] by simp
  qed
qed

lemma dirty_holds:
  assumes ok: "bok s" and h: "holds pid s i b"
  defines "s' \<equiv> setbuf i (\<lambda>x. x\<lparr>bdirty := True\<rparr>) s"
  shows "bok s'" "holds pid s' i b" "view s' = (cur s, disk s, insert b (dirt s), hb s, wlog s, disksize s, bcache.more s)"
    "holds pid s j c \<Longrightarrow> holds pid s' j c"
proof -
  have inv: "binv s" using ok by (simp add: bok_def)
  have i: "i < NBUF" "bufs s ! i = got pid b True (b \<in> dirt s) (cur s b)" "cached s b i" "b \<in> hb s"
    using h holdsD [OF h] by (auto simp: holds_def)
  have l: "length (bufs s) = NBUF" using binvD(1) [OF inv] .
  let ?x = "got pid b True True (cur s b)"
  have e: "bufs s' = (bufs s)[i := ?x]" using i(2) by (simp add: s'_def got_def)
  have n: "bufs s' ! j = (if j = i then ?x else bufs s ! j)" if "j < NBUF" for j using that l i(1) e by simp
  have u: "j = i" if "cached s b j" for j using that binvD(4) [OF inv] i(3) by blast
  have it: "binv s'"
    by (rule binv_setbuf [OF inv i(1) e]) (use binvD(2,3) [OF inv] u in \<open>auto simp: got_def s'_def\<close>)
  show o: "bok s'" using it ok n by (simp add: bok_def got_def)
  show hi: "holds pid s' i b" using holdsI [OF o i(1)] n [OF i(1)] by simp
  have "cur s' c = cur s c" for c
    using cur_setbuf [OF inv i(1) e it, of c] i(2) by (auto simp: got_def s'_def)
  then have "cur s' = cur s" by blast
  moreover note p = put_buf [OF inv i(1) e _ _ disjI1 [OF i(3)]]
  have "dirt s' = insert b (dirt s)" using p(2) by (simp add: got_def)
  moreover have "hb s' = hb s" using p(3) i(4) by (auto simp: got_def)
  ultimately show "view s' = (cur s, disk s, insert b (dirt s), hb s, wlog s, disksize s, bcache.more s)"
    unfolding view_def by (simp add: s'_def)
  show "holds pid s' j c" if j: "holds pid s j c"
  proof (cases "j = i")
    case True
    then show ?thesis using hi j holdsD [OF j] holdsD [OF h] by simp
  next
    case False
    then show ?thesis using holds_keep [OF j o] n holdsD [OF j] by simp
  qed
qed

lemma bwrite_holds:
  assumes ok: "bok s" and h: "holds pid s i b" and b: "b < disksize s"
  obtains s' where "bwrite pid i s = Ret s'" "bok s'" "holds pid s' i b"
    "view s' = (cur s, (disk s)(b := cur s b), dirt s - {b}, hb s, wlog s @ [(b, cur s b)], disksize s, bcache.more s)"
    "\<And>j c. holds pid s j c \<Longrightarrow> holds pid s' j c"
proof -
  have inv: "binv s" using ok by (simp add: bok_def)
  have i: "i < NBUF" "bufs s ! i = got pid b True (b \<in> dirt s) (cur s b)" "cached s b i" "b \<in> hb s"
    using h holdsD [OF h] by (auto simp: holds_def)
  have l: "length (bufs s) = NBUF" using binvD(1) [OF inv] .
  let ?x = "got pid b True False (cur s b)"
  let ?t = "s\<lparr>bufs := (bufs s)[i := ?x], disk := (disk s)(b := cur s b), wlog := wlog s @ [(b, cur s b)]\<rparr>"
  note w = bwrite_spec [OF inv i(1,2) b]
  have n: "bufs ?t ! j = (if j = i then ?x else bufs s ! j)" if "j < NBUF" for j using that l i(1) by simp
  have o: "bok ?t" using w(2) ok n by (simp add: bok_def got_def)
  have hi: "holds pid ?t i b" using holdsI [OF o i(1)] n [OF i(1)] by simp
  note p = put_buf [OF inv i(1) _ _ _ disjI1 [OF i(3)], of ?t ?x]
  have "dirt ?t = dirt s - {b}" using p(2) by (simp add: got_def)
  moreover have "hb ?t = hb s" using p(3) i(4) by (auto simp: got_def)
  ultimately have v: "view ?t = (cur s, (disk s)(b := cur s b), dirt s - {b}, hb s, wlog s @ [(b, cur s b)], disksize s, bcache.more s)"
    unfolding view_def w(3) by simp
  have "holds pid ?t j c" if j: "holds pid s j c" for j c
  proof (cases "j = i")
    case True
    then show ?thesis using hi j holdsD [OF j] holdsD [OF h] by simp
  next
    case False
    then show ?thesis using holds_keep [OF j o] n holdsD [OF j] by simp
  qed
  then show ?thesis using that [OF w(1) o hi v] by blast
qed

lemma brelse_holds:
  assumes ok: "bok s" and h: "holds pid s i b" and d: "b \<in> dirt s \<or> cur s b = disk s b"
  obtains s' where "brelse pid i s = Ret s'" "bok s'"
    "view s' = (cur s, disk s, dirt s, hb s - {b}, wlog s, disksize s, bcache.more s)"
    "\<And>j c. holds pid s j c \<Longrightarrow> c \<noteq> b \<Longrightarrow> holds pid s' j c"
proof -
  have inv: "binv s" using ok by (simp add: bok_def)
  have i: "i < NBUF" "bufs s ! i = got pid b True (b \<in> dirt s) (cur s b)" "cached s b i" "b \<in> hb s"
    using h holdsD [OF h] by (auto simp: holds_def)
  have l: "length (bufs s) = NBUF" using binvD(1) [OF inv] .
  let ?x = "(got pid b True (b \<in> dirt s) (cur s b))\<lparr>blk := \<lparr>slocked = False, spid = 0\<rparr>, brefcnt := 0\<rparr>"
  show ?thesis
  proof (rule brelse_spec [OF inv i(1,2) d])
    fix t assume t: "brelse pid i s = Ret t" "binv t" "bufs t = (bufs s)[i := ?x]"
      "disk t = disk s" "disksize t = disksize s" "wlog t = wlog s" "bcache.more t = bcache.more s" "cur t = cur s"
    have n: "bufs t ! j = (if j = i then ?x else bufs s ! j)" if "j < NBUF" for j using that l i(1) by (simp add: t(3))
    have o: "bok t" using t(2) ok n by (simp add: bok_def got_def)
    note p = put_buf [OF inv i(1) t(3) _ _ disjI1 [OF i(3)]]
    have "dirt t = dirt s" using p(2) by (auto simp: got_def)
    moreover have "hb t = hb s - {b}" using p(3) by (simp add: got_def)
    ultimately have v: "view t = (cur s, disk s, dirt s, hb s - {b}, wlog s, disksize s, bcache.more s)"
      unfolding view_def t by simp
    have "holds pid t j c" if j: "holds pid s j c" "c \<noteq> b" for j c
    proof (rule holds_keep [OF j(1) o])
      have "j < NBUF" "j \<noteq> i" using holdsD [OF j(1)] holdsD [OF h] j(2) by auto
      then show "bufs t ! j = bufs s ! j" by (simp add: n)
    qed
    then show ?thesis using that [OF t(1) o v] by blast
  qed
qed

section \<open>Copying a block\<close>

definition copy_out :: "int \<Rightarrow> nat \<Rightarrow> nat \<Rightarrow> 'z bcache_scheme \<Rightarrow> 'z bcache_scheme res" where
  "copy_out pid i j s =
     rbind (bwrite pid j (setbuf j (\<lambda>b. b\<lparr>bdata := bdata (bufs s ! i)\<rparr>) s)) (\<lambda>s.
       rbind (brelse pid i s) (brelse pid j))"

lemma copy_out_holds:
  assumes ok: "bok s" and h: "holds pid s i a" "holds pid s j b" "a \<noteq> b" and d: "a \<in> dirt s \<or> cur s a = disk s a" and b: "b < disksize s"
  shows "\<exists>s'. copy_out pid i j s = Ret s' \<and> bok s' \<and>
    view s' = ((cur s)(b := cur s a), (disk s)(b := cur s a), dirt s - {b}, hb s - {a} - {b}, wlog s @ [(b, cur s a)], disksize s, bcache.more s)"
proof -
  define t where "t = setbuf j (\<lambda>x. x\<lparr>bdata := cur s a\<rparr>) s"
  note t = set_holds [OF ok h(2), where y = "cur s a", folded t_def]
  have vt: "cur t = (cur s)(b := cur s a)" "disk t = disk s" "dirt t = dirt s" "hb t = hb s" "wlog t = wlog s" "disksize t = disksize s" "bcache.more t = bcache.more s"
    using t(3) by (simp_all add: view_def)
  have bt: "b < disksize t" using b vt by simp
  obtain u where u: "bwrite pid j t = Ret u" "bok u" "holds pid u j b"
    "view u = (cur t, (disk t)(b := cur t b), dirt t - {b}, hb t, wlog t @ [(b, cur t b)], disksize t, bcache.more t)"
    "\<And>j c. holds pid t j c \<Longrightarrow> holds pid u j c"
    by (rule bwrite_holds [OF t(1,2) bt]) blast
  have ui: "holds pid u i a" by (rule u(5), rule t(4), rule h(1))
  have "a \<in> dirt u \<or> cur u a = disk u a" using u(4) d h(3) vt by (auto simp: view_def)
  then obtain v where v: "brelse pid i u = Ret v" "bok v" "view v = (cur u, disk u, dirt u, hb u - {a}, wlog u, disksize u, bcache.more u)"
      "\<And>j c. holds pid u j c \<Longrightarrow> c \<noteq> a \<Longrightarrow> holds pid v j c"
    by (rule brelse_holds [OF u(2) ui]) blast
  have vj: "holds pid v j b" using v(4) u(3) h(3) by blast
  have "b \<in> dirt v \<or> cur v b = disk v b" using u(4) v(3) by (simp add: view_def)
  then obtain w where w: "brelse pid j v = Ret w" "bok w" "view w = (cur v, disk v, dirt v, hb v - {b}, wlog v, disksize v, bcache.more v)"
    by (rule brelse_holds [OF v(2) vj]) blast
  have "copy_out pid i j s = Ret w" using u(1) v(1) w(1) holdsD [OF h(1)] by (simp add: copy_out_def t_def)
  then show ?thesis using w(2,3) v(3) u(4) vt by (simp add: view_def)
qed

end
