(* ===== verification/Log.thy ===== *)
theory Log
  imports Bio
begin

text \<open>
  The write-ahead log of \<^verbatim>\<open>log.c\<close> above the buffer cache. The header block holds the number of
  logged blocks and their home addresses; block \<open>t\<close> of the transaction is stored in the block
  \<open>t + 1\<close> after it. The array \<^verbatim>\<open>log.lh.block\<close> is a function. Sleeping for log space and the lock of the
  log are left out: \<open>begin_op\<close> is one pass of its loop, and \<open>end_op\<close> runs to its end. A header on the
  disk that claims more than \<open>LOGSIZE\<close> blocks makes \<open>read_head\<close> write past the array: a fault.
\<close>

section \<open>The log\<close>

definition MAXOPBLOCKS :: int where "MAXOPBLOCKS = 10"
definition LOGSIZE :: int where "LOGSIZE = MAXOPBLOCKS * 3"

record log = bcache +
  lstart :: u32
  lsize :: int
  outstanding :: int
  committing :: bool
  ldev :: u32
  lhn :: int
  lhblock :: "nat \<Rightarrow> u32"

text \<open>The fields of the super block that the log needs, at their offsets.\<close>

definition readsb :: "int \<Rightarrow> u32 \<Rightarrow> 'z bcache_scheme \<Rightarrow> (block \<times> 'z bcache_scheme) res" where
  "readsb pid dev s =
     rbind (bread pid dev 1 s) (\<lambda>(i, s). let sb = bdata (bufs s ! i) in rbind (brelse pid i s) (\<lambda>s. Ret (sb, s)))"

fun install_loop :: "int \<Rightarrow> nat list \<Rightarrow> 'z log_scheme \<Rightarrow> 'z log_scheme res" where
  "install_loop pid [] s = Ret s"
| "install_loop pid (t # ts) s =
     rbind (rbind (bread pid (ldev s) (lstart s + of_nat t + 1) s) (\<lambda>(lbuf, s).
       rbind (bread pid (ldev s) (lhblock s t) s) (\<lambda>(dbuf, s). copy_out pid lbuf dbuf s))) (install_loop pid ts)"

definition install_trans :: "int \<Rightarrow> 'z log_scheme \<Rightarrow> 'z log_scheme res" where
  "install_trans pid s = install_loop pid [0..<nat (lhn s)] s"

definition read_head :: "int \<Rightarrow> 'z log_scheme \<Rightarrow> 'z log_scheme res" where
  "read_head pid s =
     rbind (bread pid (ldev s) (lstart s) s) (\<lambda>(i, s).
       let d = bdata (bufs s ! i); n = sint (load32 d 0)
       in if n > LOGSIZE then Fault
          else brelse pid i (s\<lparr>lhn := n,
            lhblock := \<lambda>t. if int t < n then load32 d (4 + 4 * of_nat t) else lhblock s t\<rparr>))"

fun put_blocks :: "(nat \<Rightarrow> u32) \<Rightarrow> nat list \<Rightarrow> block \<Rightarrow> block" where
  "put_blocks f [] d = d"
| "put_blocks f (t # ts) d = put_blocks f ts (store32 d (4 + 4 * of_nat t) (f t))"

definition header :: "int \<Rightarrow> (nat \<Rightarrow> u32) \<Rightarrow> block \<Rightarrow> block" where
  "header n f d = put_blocks f [0..<nat n] (store32 d 0 (word_of_int n))"

definition write_head :: "int \<Rightarrow> 'z log_scheme \<Rightarrow> 'z log_scheme res" where
  "write_head pid s =
     rbind (bread pid (ldev s) (lstart s) s) (\<lambda>(i, s).
       rbind (bwrite pid i (setbuf i (\<lambda>b. b\<lparr>bdata := header (lhn s) (lhblock s) (bdata (bufs s ! i))\<rparr>) s)) (brelse pid i))"

definition recover_from_log :: "int \<Rightarrow> 'z log_scheme \<Rightarrow> 'z log_scheme res" where
  "recover_from_log pid s =
     rbind (read_head pid s) (\<lambda>s. rbind (install_trans pid s) (\<lambda>s. write_head pid (s\<lparr>lhn := 0\<rparr>)))"

definition initlog :: "int \<Rightarrow> u32 \<Rightarrow> 'z log_scheme \<Rightarrow> 'z log_scheme res" where
  "initlog pid dev s =
     rbind (readsb pid dev s) (\<lambda>(sb, s).
       recover_from_log pid (s\<lparr>lstart := load32 sb 16, lsize := sint (load32 sb 12), ldev := dev\<rparr>))"

section \<open>Transactions\<close>

text \<open>The flag says whether the operation may begin; otherwise the process sleeps.\<close>

definition begin_op :: "'z log_scheme \<Rightarrow> bool \<times> 'z log_scheme" where
  "begin_op s =
     (if committing s then (False, s)
      else if lhn s + (outstanding s + 1) * MAXOPBLOCKS > LOGSIZE then (False, s)
      else (True, s\<lparr>outstanding := outstanding s + 1\<rparr>))"

fun write_log_loop :: "int \<Rightarrow> nat list \<Rightarrow> 'z log_scheme \<Rightarrow> 'z log_scheme res" where
  "write_log_loop pid [] s = Ret s"
| "write_log_loop pid (t # ts) s =
     rbind (rbind (bread pid (ldev s) (lstart s + of_nat t + 1) s) (\<lambda>(to, s).
       rbind (bread pid (ldev s) (lhblock s t) s) (\<lambda>(from, s). copy_out pid from to s))) (write_log_loop pid ts)"

definition write_log :: "int \<Rightarrow> 'z log_scheme \<Rightarrow> 'z log_scheme res" where
  "write_log pid s = write_log_loop pid [0..<nat (lhn s)] s"

definition commit :: "int \<Rightarrow> 'z log_scheme \<Rightarrow> 'z log_scheme res" where
  "commit pid s =
     (if lhn s > 0 then
        rbind (write_log pid s) (\<lambda>s. rbind (write_head pid s) (\<lambda>s. rbind (install_trans pid s) (\<lambda>s. write_head pid (s\<lparr>lhn := 0\<rparr>))))
      else Ret s)"

definition end_op :: "int \<Rightarrow> 'z log_scheme \<Rightarrow> 'z log_scheme res" where
  "end_op pid s =
     (let s = s\<lparr>outstanding := outstanding s - 1\<rparr>
      in if committing s then Panic ''log.committing''
         else if outstanding s = 0 then
           rbind (commit pid (s\<lparr>committing := True\<rparr>)) (\<lambda>s. Ret (s\<lparr>committing := False\<rparr>))
         else Ret s)"

definition log_slot :: "u32 \<Rightarrow> 'z log_scheme \<Rightarrow> nat" where
  "log_slot b s = (case find (\<lambda>t. lhblock s t = b) [0..<nat (lhn s)] of Some t \<Rightarrow> t | None \<Rightarrow> nat (lhn s))"

definition log_write :: "nat \<Rightarrow> 'z log_scheme \<Rightarrow> 'z log_scheme res" where
  "log_write i s =
     (if lhn s \<ge> LOGSIZE \<or> lhn s \<ge> lsize s - 1 then Panic ''too big a transaction''
      else if outstanding s < 1 then Panic ''log_write outside of trans''
      else
        let b = bno (bufs s ! i); t = log_slot b s;
            s = s\<lparr>lhblock := (lhblock s)(t := b), lhn := (if int t = lhn s then lhn s + 1 else lhn s)\<rparr>
        in Ret (setbuf i (\<lambda>b. b\<lparr>bdirty := True\<rparr>) s))"

section \<open>The header block\<close>

lemma head_entry: "t < 30 \<Longrightarrow> aligned4 (4 + 4 * of_nat t)" "t < 30 \<Longrightarrow> unat (4 + 4 * of_nat t :: u32) = 4 + 4 * t"
proof -
  assume "t < 30"
  then have "t \<in> {..<30}" by simp
  then show u: "unat (4 + 4 * of_nat t :: u32) = 4 + 4 * t" by (auto simp: lessThan_nat_numeral lessThan_Suc)
  show "aligned4 (4 + 4 * of_nat t)" unfolding aligned4_def u by simp
qed

lemma head_entry_inj: "t < 30 \<Longrightarrow> u < 30 \<Longrightarrow> (4 + 4 * of_nat t :: u32) = 4 + 4 * of_nat u \<longleftrightarrow> t = u"
  using head_entry(2) [of t] head_entry(2) [of u] by (auto simp: word_unat_eq_iff)

lemma put_blocks_load:
  "(\<And>t. t \<in> set ts \<Longrightarrow> t < 30) \<Longrightarrow> distinct ts \<Longrightarrow>
     load32 (put_blocks f ts d) 0 = load32 d 0 \<and>
     (\<forall>u < 30. load32 (put_blocks f ts d) (4 + 4 * of_nat u) = (if u \<in> set ts then f u else load32 d (4 + 4 * of_nat u)))"
proof (induction ts arbitrary: d)
  case (Cons t ts)
  have t: "t < 30" using Cons.prems(1) by simp
  let ?d = "store32 d (4 + 4 * of_nat t) (f t)"
  have "(4 + 4 * of_nat t :: u32) \<noteq> 0" using head_entry(2) [OF t] by (auto simp: word_unat_eq_iff)
  then have z: "load32 ?d 0 = load32 d 0" using head_entry(1) [OF t] by simp
  have e: "load32 ?d (4 + 4 * of_nat u) = (if u = t then f t else load32 d (4 + 4 * of_nat u))" if "u < 30" for u
    using head_entry(1) [OF t] head_entry(1) [OF that] head_entry_inj [OF t that] by (cases "u = t") auto
  have IH: "load32 (put_blocks f ts ?d) 0 = load32 ?d 0 \<and>
     (\<forall>u < 30. load32 (put_blocks f ts ?d) (4 + 4 * of_nat u) = (if u \<in> set ts then f u else load32 ?d (4 + 4 * of_nat u)))"
    by (rule Cons.IH) (use Cons.prems in auto)
  then show ?case using z e Cons.prems(2) by auto
qed simp

lemma header_load:
  assumes "0 \<le> n" "n \<le> 30"
  shows "sint (load32 (header n f d) 0) = n" "int t < n \<Longrightarrow> load32 (header n f d) (4 + 4 * of_nat t) = f t"
proof -
  have s: "\<And>t. t \<in> set [0..<nat n] \<Longrightarrow> t < 30" "distinct [0..<nat n]" using assms by auto
  note p = put_blocks_load [OF s, of f "store32 d 0 (word_of_int n)"]
  have "sint (word_of_int n :: u32) = n" using assms by (simp add: signed_of_int signed_take_bit_int_eq_self)
  then show "sint (load32 (header n f d) 0) = n" using p by (simp add: header_def)
  show "load32 (header n f d) (4 + 4 * of_nat t) = f t" if "int t < n"
  proof -
    have "t < 30" "t \<in> set [0..<nat n]" using that assms by auto
    then show ?thesis using p unfolding header_def by auto
  qed
qed

section \<open>Copies\<close>

lemma log_more:
  assumes "bcache.more s' = bcache.more s"
  shows "lstart s' = lstart s" "lsize s' = lsize s" "outstanding s' = outstanding s" "committing s' = committing s"
    "ldev s' = ldev s" "lhn s' = lhn s" "lhblock s' = lhblock s" "log.more s' = log.more s"
  using assms by (cases s; cases s'; simp)+

lemma view_cong:
  assumes "bufs s' = bufs s" "order s' = order s" "disk s' = disk s"
  shows "bok s' = bok s" "cur s' = cur s" "dirt s' = dirt s" "hb s' = hb s" "holds pid s' i b = holds pid s i b"
proof -
  have c: "cached s' = cached s" by (simp add: fun_eq_iff cached_def assms)
  show "bok s' = bok s" by (simp add: bok_def binv_def c assms)
  have "cur s' b = cur s b" for b unfolding cur_def c assms ..
  then show "cur s' = cur s" by (rule ext)
  then show "holds pid s' i b = holds pid s i b" by (simp add: holds_def dirt_def c assms)
  show "dirt s' = dirt s" "hb s' = hb s" by (simp_all add: dirt_def hb_def c assms)
qed

lemma log_upd [simp]:
  "bok (s\<lparr>lhn := n\<rparr>) = bok s" "cur (s\<lparr>lhn := n\<rparr>) = cur s" "dirt (s\<lparr>lhn := n\<rparr>) = dirt s" "hb (s\<lparr>lhn := n\<rparr>) = hb s"
  "holds pid (s\<lparr>lhn := n\<rparr>) i b = holds pid s i b"
  "bok (s\<lparr>lhblock := f\<rparr>) = bok s" "cur (s\<lparr>lhblock := f\<rparr>) = cur s" "dirt (s\<lparr>lhblock := f\<rparr>) = dirt s" "hb (s\<lparr>lhblock := f\<rparr>) = hb s"
  "holds pid (s\<lparr>lhblock := f\<rparr>) i b = holds pid s i b"
  "bok (s\<lparr>lstart := st\<rparr>) = bok s" "cur (s\<lparr>lstart := st\<rparr>) = cur s" "dirt (s\<lparr>lstart := st\<rparr>) = dirt s" "hb (s\<lparr>lstart := st\<rparr>) = hb s"
  "bok (s\<lparr>lsize := sz\<rparr>) = bok s" "cur (s\<lparr>lsize := sz\<rparr>) = cur s" "dirt (s\<lparr>lsize := sz\<rparr>) = dirt s" "hb (s\<lparr>lsize := sz\<rparr>) = hb s"
  "bok (s\<lparr>ldev := dv\<rparr>) = bok s" "cur (s\<lparr>ldev := dv\<rparr>) = cur s" "dirt (s\<lparr>ldev := dv\<rparr>) = dirt s" "hb (s\<lparr>ldev := dv\<rparr>) = hb s"
  "bok (s\<lparr>outstanding := k\<rparr>) = bok s" "cur (s\<lparr>outstanding := k\<rparr>) = cur s" "dirt (s\<lparr>outstanding := k\<rparr>) = dirt s" "hb (s\<lparr>outstanding := k\<rparr>) = hb s"
  "holds pid (s\<lparr>outstanding := k\<rparr>) i b = holds pid s i b"
  "bok (s\<lparr>committing := c\<rparr>) = bok s" "cur (s\<lparr>committing := c\<rparr>) = cur s" "dirt (s\<lparr>committing := c\<rparr>) = dirt s" "hb (s\<lparr>committing := c\<rparr>) = hb s"
  by (rule view_cong, simp_all)+

lemma viewD:
  assumes "view s = (c, d, w, h, l, z, m)"
  shows "cur s = c" "disk s = d" "dirt s = w" "hb s = h" "wlog s = l" "disksize s = z" "bcache.more s = m"
  using assms by (simp_all add: view_def)

text \<open>Two blocks are read, in either order.\<close>

lemma two_reads:
  assumes ok: "bok s" "hb s = {}" and ab: "a < disksize s" "b < disksize s" "a \<noteq> b"
    and c: "a \<in> dirt s \<or> card (dirt s) < NBUF" "b \<in> dirt s \<or> card (insert a (dirt s)) < NBUF"
  obtains i t j u where "bread pid 1 a s = Ret (i, t)" "bread pid 1 b t = Ret (j, u)" "bok u" "holds pid u i a" "holds pid u j b"
    "view u = (cur s, disk s, dirt s, {a, b}, wlog s, disksize s, bcache.more s)" "bcache.more t = bcache.more s"
    "a \<in> dirt s \<or> cur s a = disk s a" "b \<in> dirt s \<or> cur s b = disk s b"
proof -
  obtain i t where t: "bread pid 1 a s = Ret (i, t)" "bok t" "holds pid t i a"
      "view t = (cur s, disk s, dirt s, insert a (hb s), wlog s, disksize s, bcache.more s)" "a \<in> dirt s \<or> cur s a = disk s a"
    by (rule bread_holds [OF ok(1), of a]) (use ok ab c in auto)
  note vt = viewD [OF t(4)]
  obtain j u where u: "bread pid 1 b t = Ret (j, u)" "bok u" "holds pid u j b"
      "view u = (cur t, disk t, dirt t, insert b (hb t), wlog t, disksize t, bcache.more t)" "b \<in> dirt t \<or> cur t b = disk t b"
      "\<And>j c. holds pid t j c \<Longrightarrow> holds pid u j c"
    by (rule bread_holds [OF t(2), of b]) (use ok ab c vt in auto)
  have "holds pid u i a" by (rule u(6), rule t(3))
  then show ?thesis using that [OF t(1) u(1,2) _ u(3)] u(4,5) t(5) vt ok(2) by (simp add: insert_commute)
qed

lemma copy_block:
  assumes ok: "bok s" "hb s = {}" and ab: "a < disksize s" "b < disksize s" "a \<noteq> b"
  shows "a \<in> dirt s \<or> card (dirt s) < NBUF \<Longrightarrow> b \<in> dirt s \<or> card (insert a (dirt s)) < NBUF \<Longrightarrow>
      \<exists>s'. rbind (bread pid 1 a s) (\<lambda>(i, s). rbind (bread pid 1 b s) (\<lambda>(j, s). copy_out pid i j s)) = Ret s' \<and> bok s' \<and>
        view s' = ((cur s)(b := cur s a), (disk s)(b := cur s a), dirt s - {b}, {}, wlog s @ [(b, cur s a)], disksize s, bcache.more s)"
    and "b \<in> dirt s \<or> card (dirt s) < NBUF \<Longrightarrow> a \<in> dirt s \<or> card (insert b (dirt s)) < NBUF \<Longrightarrow>
      \<exists>s'. rbind (bread pid 1 b s) (\<lambda>(j, s). rbind (bread pid 1 a s) (\<lambda>(i, s). copy_out pid i j s)) = Ret s' \<and> bok s' \<and>
        view s' = ((cur s)(b := cur s a), (disk s)(b := cur s a), dirt s - {b}, {}, wlog s @ [(b, cur s a)], disksize s, bcache.more s)"
proof -
  assume c: "a \<in> dirt s \<or> card (dirt s) < NBUF" "b \<in> dirt s \<or> card (insert a (dirt s)) < NBUF"
  obtain i t j u where u: "bread pid 1 a s = Ret (i, t)" "bread pid 1 b t = Ret (j, u)" "bok u" "holds pid u i a" "holds pid u j b"
    "view u = (cur s, disk s, dirt s, {a, b}, wlog s, disksize s, bcache.more s)" "a \<in> dirt s \<or> cur s a = disk s a"
    by (rule two_reads [OF ok ab c, of pid]) blast
  note v = viewD [OF u(6)]
  have e: "{a, b} - {a} - {b} = {}" by blast
  show "\<exists>s'. rbind (bread pid 1 a s) (\<lambda>(i, s). rbind (bread pid 1 b s) (\<lambda>(j, s). copy_out pid i j s)) = Ret s' \<and> bok s' \<and>
        view s' = ((cur s)(b := cur s a), (disk s)(b := cur s a), dirt s - {b}, {}, wlog s @ [(b, cur s a)], disksize s, bcache.more s)"
    using copy_out_holds [OF u(3,4,5) ab(3)] u(1,2,7) ab(2) unfolding v e by simp
next
  assume c: "b \<in> dirt s \<or> card (dirt s) < NBUF" "a \<in> dirt s \<or> card (insert b (dirt s)) < NBUF"
  obtain i t j u where u: "bread pid 1 b s = Ret (i, t)" "bread pid 1 a t = Ret (j, u)" "bok u" "holds pid u i b" "holds pid u j a"
    "view u = (cur s, disk s, dirt s, {b, a}, wlog s, disksize s, bcache.more s)" "a \<in> dirt s \<or> cur s a = disk s a"
    by (rule two_reads [OF ok ab(2,1) ab(3) [symmetric] c, of pid]) blast
  note v = viewD [OF u(6)]
  have e: "{b, a} - {a} - {b} = {}" by blast
  show "\<exists>s'. rbind (bread pid 1 b s) (\<lambda>(j, s). rbind (bread pid 1 a s) (\<lambda>(i, s). copy_out pid i j s)) = Ret s' \<and> bok s' \<and>
        view s' = ((cur s)(b := cur s a), (disk s)(b := cur s a), dirt s - {b}, {}, wlog s @ [(b, cur s a)], disksize s, bcache.more s)"
    using copy_out_holds [OF u(3,5,4) ab(3)] u(1,2,7) ab(2) unfolding v e by simp
qed

text \<open>The disk after a sequence of writes.\<close>

definition put :: "(u32 \<times> block) list \<Rightarrow> (u32 \<Rightarrow> block) \<Rightarrow> u32 \<Rightarrow> block" where
  "put ws d = fold (\<lambda>(b, x) d. d(b := x)) ws d"

lemma put_simps [simp]: "put [] d = d" "put ((b, x) # ws) d = put ws (d(b := x))" "put (vs @ ws) d = put ws (put vs d)"
  by (simp_all add: put_def)

lemma put_other: "b \<notin> fst ` set ws \<Longrightarrow> put ws d b = d b"
  by (induction ws arbitrary: d) auto

lemma put_same: "put (map (\<lambda>t. (f t, g (f t))) ts) d b = (if b \<in> f ` set ts then g b else d b)"
  by (induction ts arbitrary: d) auto

lemma put_inj: "inj_on f (set ts) \<Longrightarrow> t \<in> set ts \<Longrightarrow> put (map (\<lambda>t. (f t, g t)) ts) d (f t) = g t"
proof (induction ts arbitrary: d)
  case (Cons a ts)
  show ?case
  proof (cases "t \<in> set ts")
    case True
    then show ?thesis using Cons.IH Cons.prems(1) by (simp add: inj_on_insert)
  next
    case False
    then have "f t \<notin> f ` set ts" using Cons.prems by (auto simp: inj_on_def)
    then show ?thesis using Cons.prems(2) False put_other [of "f t" "map (\<lambda>t. (f t, g t)) ts"] by (auto simp: image_image)
  qed
qed simp

section \<open>The loops\<close>

abbreviation slot_of :: "'z log_scheme \<Rightarrow> nat \<Rightarrow> u32" where
  "slot_of s t \<equiv> lstart s + of_nat t + 1"

lemma bread_more: "bread pid d b s = Ret (i, t) \<Longrightarrow> bcache.more t = bcache.more s"
  by (auto simp: bread_def bget_def block_lock_def iderw_def rbind_eq_Ret Let_def split: option.splits if_splits)

lemma second_read:
  "rbind (bread pid (ldev s) a s) (\<lambda>(i, u). rbind (bread pid (ldev u) (lhblock u t) u) (g i)) =
   rbind (bread pid (ldev s) a s) (\<lambda>(i, u). rbind (bread pid (ldev s) (lhblock s t) u) (g i))"
proof (cases "bread pid (ldev s) a s")
  case (Ret r)
  obtain i u where r: "r = (i, u)" by (cases r)
  note m = log_more [OF bread_more [OF Ret [unfolded r]]]
  show ?thesis by (simp add: Ret r m)
qed simp_all

lemma write_log_loop_spec:
  "bok s \<Longrightarrow> hb s = {} \<Longrightarrow> ldev s = 1 \<Longrightarrow> card (dirt s) < NBUF \<Longrightarrow>
     (\<And>t. t \<in> set ts \<Longrightarrow> slot_of s t < disksize s \<and> lhblock s t < disksize s \<and> lhblock s t \<in> dirt s \<and> slot_of s t \<notin> dirt s) \<Longrightarrow>
     \<exists>s'. write_log_loop pid ts s = Ret s' \<and> bok s' \<and>
       (let ws = map (\<lambda>t. (slot_of s t, cur s (lhblock s t))) ts
        in view s' = (put ws (cur s), put ws (disk s), dirt s, {}, wlog s @ ws, disksize s, bcache.more s))"
proof (induction ts arbitrary: s)
  case Nil
  then show ?case by (simp add: view_def)
next
  case (Cons t ts)
  let ?L = "slot_of s t" and ?B = "lhblock s t"
  have t: "?L < disksize s" "?B < disksize s" "?B \<in> dirt s" "?L \<notin> dirt s" using Cons.prems(5) by auto
  then have ne: "?B \<noteq> ?L" by metis
  have ne2: "lhblock s x \<noteq> ?L" if "x \<in> set ts" for x using Cons.prems(5) [of x] t(4) that by (metis list.set_intros(2))
  obtain s1 where s1: "rbind (bread pid 1 ?L s) (\<lambda>(j, s). rbind (bread pid 1 ?B s) (\<lambda>(i, s). copy_out pid i j s)) = Ret s1" "bok s1"
      "view s1 = ((cur s)(?L := cur s ?B), (disk s)(?L := cur s ?B), dirt s - {?L}, {}, wlog s @ [(?L, cur s ?B)], disksize s, bcache.more s)"
    using copy_block(2) [OF Cons.prems(1,2) t(2,1) ne] t(3) Cons.prems(4) by blast
  note v = viewD [OF s1(3)]
  note m = log_more [OF v(7)]
  have d: "dirt s - {?L} = dirt s" using t(4) by blast
  have h: "\<exists>s'. write_log_loop pid ts s1 = Ret s' \<and> bok s' \<and>
       (let ws = map (\<lambda>t. (slot_of s1 t, cur s1 (lhblock s1 t))) ts
        in view s' = (put ws (cur s1), put ws (disk s1), dirt s1, {}, wlog s1 @ ws, disksize s1, bcache.more s1))"
    by (rule Cons.IH) (use s1(2) v m d Cons.prems in auto)
  have e: "map (\<lambda>t. (slot_of s1 t, cur s1 (lhblock s1 t))) ts = map (\<lambda>t. (slot_of s t, cur s (lhblock s t))) ts"
    by (rule map_cong) (use ne2 in \<open>simp_all add: v m\<close>)
  have r: "write_log_loop pid (t # ts) s = write_log_loop pid ts s1"
    unfolding install_loop.simps write_log_loop.simps second_read unfolding Cons.prems(3) s1(1) by simp
  show ?case using h unfolding r e unfolding v d by (simp add: Let_def)
qed

lemma install_loop_spec:
  "bok s \<Longrightarrow> hb s = {} \<Longrightarrow> ldev s = 1 \<Longrightarrow> dirt s = {} \<or> card (dirt s) < NBUF \<and> (\<forall>t \<in> set ts. lhblock s t \<in> dirt s) \<Longrightarrow>
     distinct (map (lhblock s) ts) \<or> dirt s = {} \<Longrightarrow>
     (\<And>t u. t \<in> set ts \<Longrightarrow> u \<in> set ts \<Longrightarrow> slot_of s t < disksize s \<and> lhblock s t < disksize s \<and> lhblock s u \<noteq> slot_of s t) \<Longrightarrow>
     \<exists>s'. install_loop pid ts s = Ret s' \<and> bok s' \<and>
       (let ws = map (\<lambda>t. (lhblock s t, cur s (slot_of s t))) ts
        in view s' = (put ws (cur s), put ws (disk s), dirt s - lhblock s ` set ts, {}, wlog s @ ws, disksize s, bcache.more s))"
proof (induction ts arbitrary: s)
  case Nil
  then show ?case by (simp add: view_def)
next
  case (Cons t ts)
  let ?L = "slot_of s t" and ?B = "lhblock s t"
  have t: "?L < disksize s" "?B < disksize s" "?L \<noteq> ?B" using Cons.prems(6) [of t t] by auto
  have "card (dirt s) < NBUF" "?B \<in> dirt s \<or> card (insert ?L (dirt s)) < NBUF" using Cons.prems(4) by (auto simp: NBUF_def)
  then obtain s1 where s1: "rbind (bread pid 1 ?L s) (\<lambda>(i, s). rbind (bread pid 1 ?B s) (\<lambda>(j, s). copy_out pid i j s)) = Ret s1" "bok s1"
      "view s1 = ((cur s)(?B := cur s ?L), (disk s)(?B := cur s ?L), dirt s - {?B}, {}, wlog s @ [(?B, cur s ?L)], disksize s, bcache.more s)"
    using copy_block(1) [OF Cons.prems(1,2) t] by blast
  note v = viewD [OF s1(3)]
  note m = log_more [OF v(7)]
  have c: "card (dirt s - {?B}) \<le> card (dirt s)" by (rule card_mono) (use in_use_finite [of s] in auto)
  have h: "\<exists>s'. install_loop pid ts s1 = Ret s' \<and> bok s' \<and>
       (let ws = map (\<lambda>t. (lhblock s1 t, cur s1 (slot_of s1 t))) ts
        in view s' = (put ws (cur s1), put ws (disk s1), dirt s1 - lhblock s1 ` set ts, {}, wlog s1 @ ws, disksize s1, bcache.more s1))"
  proof (rule Cons.IH [OF s1(2)])
    show "hb s1 = {}" "ldev s1 = 1" using v m Cons.prems(3) by simp_all
    show "distinct (map (lhblock s1) ts) \<or> dirt s1 = {}" using Cons.prems(5) v m by auto
    show "dirt s1 = {} \<or> card (dirt s1) < NBUF \<and> (\<forall>t \<in> set ts. lhblock s1 t \<in> dirt s1)"
    proof (cases "dirt s = {}")
      case False
      then have "?B \<notin> lhblock s ` set ts" using Cons.prems(5) by auto
      then show ?thesis using Cons.prems(4) c False unfolding v m by (metis (no_types, lifting) Diff_iff empty_iff image_eqI insert_iff le_less_trans list.set_intros(2))
    qed (simp add: v)
    show "slot_of s1 x < disksize s1 \<and> lhblock s1 x < disksize s1 \<and> lhblock s1 y \<noteq> slot_of s1 x" if "x \<in> set ts" "y \<in> set ts" for x y
      using Cons.prems(6) [of x y] that unfolding v m by simp
  qed
  have e: "map (\<lambda>t. (lhblock s1 t, cur s1 (slot_of s1 t))) ts = map (\<lambda>t. (lhblock s t, cur s (slot_of s t))) ts"
  proof (rule map_cong)
    fix x assume "x \<in> set ts"
    then have "?B \<noteq> slot_of s x" using Cons.prems(6) [of x t] by simp
    then show "(lhblock s1 x, cur s1 (slot_of s1 x)) = (lhblock s x, cur s (slot_of s x))" unfolding v m by simp
  qed simp
  have r: "install_loop pid (t # ts) s = install_loop pid ts s1"
    unfolding install_loop.simps write_log_loop.simps second_read unfolding Cons.prems(3) s1(1) by simp
  have d: "dirt s - lhblock s ` set (t # ts) = dirt s - {?B} - lhblock s ` set ts" by auto
  show ?case using h unfolding r e d unfolding v m by (simp add: Let_def)
qed

lemma read_head_spec:
  assumes ok: "bok s" "hb s = {}" "dirt s = {}" "ldev s = 1" "lstart s < disksize s"
  defines "n \<equiv> sint (load32 (cur s (lstart s)) 0)"
  assumes n: "n \<le> LOGSIZE"
  shows "\<exists>s'. read_head pid s = Ret s' \<and> bok s' \<and>
    view s' = (cur s, disk s, {}, {}, wlog s, disksize s, bcache.more (s\<lparr>lhn := n,
      lhblock := \<lambda>t. if int t < n then load32 (cur s (lstart s)) (4 + 4 * of_nat t) else lhblock s t\<rparr>))"
proof -
  obtain i t where t: "bread pid 1 (lstart s) s = Ret (i, t)" "bok t" "holds pid t i (lstart s)"
      "view t = (cur s, disk s, dirt s, insert (lstart s) (hb s), wlog s, disksize s, bcache.more s)" "lstart s \<in> dirt s \<or> cur s (lstart s) = disk s (lstart s)"
    by (rule bread_holds [OF ok(1), of "lstart s"]) (use ok in \<open>auto simp: NBUF_def\<close>)
  note v = viewD [OF t(4)]
  let ?u = "t\<lparr>lhn := n, lhblock := \<lambda>k. if int k < n then load32 (cur s (lstart s)) (4 + 4 * of_nat k) else lhblock t k\<rparr>"
  have "bok ?u" "holds pid ?u i (lstart s)" "lstart s \<in> dirt ?u \<or> cur ?u (lstart s) = disk ?u (lstart s)" using t v by simp_all
  then obtain w where w: "brelse pid i ?u = Ret w" "bok w"
      "view w = (cur ?u, disk ?u, dirt ?u, hb ?u - {lstart s}, wlog ?u, disksize ?u, bcache.more ?u)"
    by (rule brelse_holds) blast
  have "bcache.more ?u = bcache.more (s\<lparr>lhn := n,
      lhblock := \<lambda>t. if int t < n then load32 (cur s (lstart s)) (4 + 4 * of_nat t) else lhblock s t\<rparr>)"
    unfolding log_more [OF v(7)] using v(7) by (cases s; cases t) simp
  moreover have db: "bdata (bufs t ! i) = cur s (lstart s)" using holdsD [OF t(3)] v(1) by simp
  have "read_head pid s = Ret w"
    using t(1) w(1) ok(4) n unfolding read_head_def n_def by (simp add: Let_def db cong del: if_weak_cong)
  ultimately show ?thesis using w v ok by (simp add: view_def)
qed

lemma write_head_spec:
  assumes ok: "bok s" "hb s = {}" "card (dirt s) < NBUF" "ldev s = 1" "lstart s < disksize s"
  defines "y \<equiv> header (lhn s) (lhblock s) (cur s (lstart s))"
  shows "\<exists>s'. write_head pid s = Ret s' \<and> bok s' \<and>
    view s' = ((cur s)(lstart s := y), (disk s)(lstart s := y), dirt s - {lstart s}, {}, wlog s @ [(lstart s, y)], disksize s, bcache.more s)"
proof -
  obtain i t where t: "bread pid 1 (lstart s) s = Ret (i, t)" "bok t" "holds pid t i (lstart s)"
      "view t = (cur s, disk s, dirt s, insert (lstart s) (hb s), wlog s, disksize s, bcache.more s)"
    by (rule bread_holds [OF ok(1), of "lstart s"]) (use ok in auto)
  note v = viewD [OF t(4)]
  define u where "u = setbuf i (\<lambda>x. x\<lparr>bdata := y\<rparr>) t"
  note u = set_holds [OF t(2,3), where y = y, folded u_def]
  note uv = viewD [OF u(3)]
  have "lstart s < disksize u" using ok(5) uv v by simp
  then obtain w where w: "bwrite pid i u = Ret w" "bok w" "holds pid w i (lstart s)"
    "view w = (cur u, (disk u)(lstart s := cur u (lstart s)), dirt u - {lstart s}, hb u, wlog u @ [(lstart s, cur u (lstart s))], disksize u, bcache.more u)"
    by (rule bwrite_holds [OF u(1,2)]) blast
  note wv = viewD [OF w(4)]
  have "lstart s \<in> dirt w \<or> cur w (lstart s) = disk w (lstart s)" using wv by simp
  then obtain x where x: "brelse pid i w = Ret x" "bok x" "view x = (cur w, disk w, dirt w, hb w - {lstart s}, wlog w, disksize w, bcache.more w)"
    by (rule brelse_holds [OF w(2,3)]) blast
  have "write_head pid s = Ret x"
    using t(1) w(1) x(1) holdsD [OF t(3)] ok(4) v(1) log_more [OF v(7)] by (simp add: write_head_def u_def y_def)
  then show ?thesis using x(2,3) wv uv v ok(2) by simp
qed

section \<open>The invariant\<close>

definition in_log :: "u32 \<Rightarrow> int \<Rightarrow> u32 \<Rightarrow> bool" where
  "in_log a z b \<longleftrightarrow> unat a \<le> unat b \<and> unat b < unat a + nat z"

text \<open>The log lies on the disk behind the super block and has room for at most \<open>LOGSIZE - 1\<close> blocks, as \<^verbatim>\<open>mkfs.c\<close> makes it.\<close>

definition geometry :: "u32 \<Rightarrow> int \<Rightarrow> u32 \<Rightarrow> bool" where
  "geometry a z N \<longleftrightarrow> 1 \<le> z \<and> z \<le> LOGSIZE \<and> unat a + nat z \<le> unat N \<and> 1 < N \<and> \<not> in_log a z 1"

definition sb_ok :: "(u32 \<Rightarrow> block) \<Rightarrow> u32 \<Rightarrow> int \<Rightarrow> bool" where
  "sb_ok d a z \<longleftrightarrow> load32 (d 1) 16 = a \<and> sint (load32 (d 1) 12) = z"

definition home :: "u32 \<Rightarrow> int \<Rightarrow> u32 \<Rightarrow> u32 \<Rightarrow> bool" where
  "home a z N b \<longleftrightarrow> b < N \<and> \<not> in_log a z b \<and> b \<noteq> 1"

definition lset :: "'z log_scheme \<Rightarrow> u32 set" where
  "lset s = lhblock s ` {..<nat (lhn s)}"

text \<open>
  The blocks of the transaction are exactly the pinned ones, the log on the disk is empty, and
  blocks outside the transaction are as on the disk.
\<close>

definition linv :: "'z log_scheme \<Rightarrow> bool" where
  "linv s \<longleftrightarrow> bok s \<and> ldev s = 1 \<and> geometry (lstart s) (lsize s) (disksize s) \<and> sb_ok (disk s) (lstart s) (lsize s) \<and>
     0 \<le> lhn s \<and> lhn s < lsize s \<and> inj_on (lhblock s) {..<nat (lhn s)} \<and> (\<forall>b \<in> lset s. home (lstart s) (lsize s) (disksize s) b) \<and>
     sint (load32 (disk s (lstart s)) 0) = 0 \<and> dirt s = lset s \<and> (\<forall>b. b \<notin> lset s \<longrightarrow> cur s b = disk s b)"

lemma linvD:
  assumes "linv s"
  shows "bok s" "ldev s = 1" "geometry (lstart s) (lsize s) (disksize s)" "sb_ok (disk s) (lstart s) (lsize s)"
    "0 \<le> lhn s" "lhn s < lsize s" "inj_on (lhblock s) {..<nat (lhn s)}" "b \<in> lset s \<Longrightarrow> home (lstart s) (lsize s) (disksize s) b"
    "sint (load32 (disk s (lstart s)) 0) = 0" "dirt s = lset s" "b \<notin> lset s \<Longrightarrow> cur s b = disk s b"
  using assms unfolding linv_def by blast+

lemma slot_unat:
  assumes "geometry a z N" "int t < z - 1"
  shows "unat (a + of_nat t + 1) = unat a + t + 1"
proof -
  have "unat a + t + 1 < unat N" using assms unfolding geometry_def by linarith
  then have "unat a + t + 1 < 2 ^ 32" using unsigned_less [of N, where ?'a = nat] by simp
  then have "a + of_nat t + 1 = of_nat (unat a + t + 1)" by simp
  then show ?thesis using \<open>unat a + t + 1 < 2 ^ 32\<close> by (simp only: unsigned_of_nat) (simp add: take_bit_nat_eq_self)
qed

lemma slot_facts:
  assumes g: "geometry a z N" and t: "int t < z - 1"
  shows "a + of_nat t + 1 < N" "in_log a z (a + of_nat t + 1)" "a + of_nat t + 1 \<noteq> a" "a + of_nat t + 1 \<noteq> 1"
    "int u < z - 1 \<Longrightarrow> a + of_nat t + 1 = a + of_nat u + 1 \<longleftrightarrow> t = u"
proof -
  have z: "unat a + nat z \<le> unat N" "int t < z - 1" using g t by (simp_all add: geometry_def)
  note e = slot_unat [OF g t]
  show "a + of_nat t + 1 < N" unfolding word_less_nat_alt e using z by linarith
  show l: "in_log a z (a + of_nat t + 1)" unfolding in_log_def e using z by linarith
  show "a + of_nat t + 1 \<noteq> a" using e by (metis add.assoc add_cancel_right_right add_eq_0_iff_both_eq_0 one_neq_zero)
  show "a + of_nat t + 1 \<noteq> 1" using l g unfolding geometry_def by metis
  show "a + of_nat t + 1 = a + of_nat u + 1 \<longleftrightarrow> t = u" if "int u < z - 1"
    using e slot_unat [OF g that] by (metis add_left_cancel add_right_cancel)
qed

lemma start_facts: "geometry a z N \<Longrightarrow> a < N \<and> in_log a z a \<and> a \<noteq> 1"
  unfolding geometry_def in_log_def word_less_nat_alt by auto

lemma lset_card: "linv s \<Longrightarrow> card (dirt s) < NBUF"
proof -
  assume l: "linv s"
  have "card (dirt s) = nat (lhn s)" using linvD(7,10) [OF l] by (simp add: lset_def card_image)
  then show ?thesis using linvD(3,5,6) [OF l] unfolding geometry_def NBUF_def LOGSIZE_def MAXOPBLOCKS_def by linarith
qed

definition commit_writes :: "'z log_scheme \<Rightarrow> (u32 \<times> block) list" where
  "commit_writes s =
     (if lhn s > 0 then
        let ts = [0..<nat (lhn s)]; h = header (lhn s) (lhblock s) (disk s (lstart s))
        in map (\<lambda>t. (slot_of s t, cur s (lhblock s t))) ts @ (lstart s, h) #
           map (\<lambda>t. (lhblock s t, cur s (lhblock s t))) ts @ [(lstart s, header 0 (lhblock s) h)]
      else [])"

lemma commit_spec:
  assumes l: "linv s" and h: "hb s = {}"
  shows "\<exists>s'. commit pid s = Ret s' \<and> bok s' \<and>
    view s' = (put (commit_writes s) (cur s), put (commit_writes s) (disk s), {}, {}, wlog s @ commit_writes s, disksize s, bcache.more (s\<lparr>lhn := 0\<rparr>))"
proof (cases "lhn s > 0")
  case False
  then have z: "lhn s = 0" using linvD(5) [OF l] by simp
  then have "bcache.more (s\<lparr>lhn := 0\<rparr>) = bcache.more s" by (cases s) simp
  moreover have "dirt s = {}" using linvD(10) [OF l] z by (simp add: lset_def)
  ultimately show ?thesis using z linvD(1) [OF l] h by (simp add: commit_def commit_writes_def view_def)
next
  case True
  let ?n = "nat (lhn s)" and ?a = "lstart s" and ?z = "lsize s"
  let ?ts = "[0..<?n]"
  note g = linvD(3) [OF l]
  have tz: "int t < ?z - 1" if "t \<in> set ?ts" for t using that linvD(5,6) [OF l] by auto
  have hm: "home ?a ?z (disksize s) (lhblock s t) \<and> lhblock s t \<in> dirt s" if "t \<in> set ?ts" for t
    using that linvD(8,10) [OF l] by (auto simp: lset_def)
  have nin: "b \<notin> dirt s" if "in_log ?a ?z b" for b using that linvD(8,10) [OF l] by (auto simp: home_def)
  have sd: "?a \<notin> dirt s" "cur s ?a = disk s ?a" using nin start_facts [OF g] linvD(10,11) [OF l] by auto
  let ?w1 = "map (\<lambda>t. (slot_of s t, cur s (lhblock s t))) ?ts"
  have "slot_of s t < disksize s \<and> lhblock s t < disksize s \<and> lhblock s t \<in> dirt s \<and> slot_of s t \<notin> dirt s" if "t \<in> set ?ts" for t
    using slot_facts(1,2) [OF g tz [OF that]] hm [OF that] nin by (auto simp: home_def)
  then obtain s1 where s1: "write_log pid s = Ret s1" "bok s1"
      "view s1 = (put ?w1 (cur s), put ?w1 (disk s), dirt s, {}, wlog s @ ?w1, disksize s, bcache.more s)"
    using write_log_loop_spec [OF linvD(1) [OF l] h linvD(2) [OF l] lset_card [OF l], of ?ts pid] by (auto simp: write_log_def Let_def)
  note v1 = viewD [OF s1(3)]
  note m1 = log_more [OF v1(7)]
  have pa: "put ?w1 d ?a = d ?a" for d
    by (rule put_other) (use slot_facts(3) [OF g tz] in \<open>fastforce simp: image_image\<close>)
  let ?h = "header (lhn s) (lhblock s) (disk s ?a)"
  obtain s2 where s2: "write_head pid s1 = Ret s2" "bok s2"
      "view s2 = ((cur s1)(?a := ?h), (disk s1)(?a := ?h), dirt s1 - {?a}, {}, wlog s1 @ [(?a, ?h)], disksize s1, bcache.more s1)"
    using write_head_spec [OF s1(2), of pid] v1 m1 pa sd lset_card [OF l] linvD(2) [OF l] start_facts [OF g] by auto
  note v2 = viewD [OF s2(3)]
  have m2m: "bcache.more s2 = bcache.more s" using v2(7) v1(7) by simp
  note m2 = log_more [OF m2m]
  have d2: "dirt s2 = dirt s" using v2(3) v1(3) sd(1) by simp
  have dist: "distinct (map (lhblock s) ?ts)" using linvD(7) [OF l] by (simp add: distinct_map atLeast0LessThan)
  have "slot_of s t < disksize s \<and> lhblock s t < disksize s \<and> lhblock s u \<noteq> slot_of s t" if "t \<in> set ?ts" "u \<in> set ?ts" for t u
    using slot_facts(1,2) [OF g tz [OF that(1)]] hm [OF that(1)] hm [OF that(2)] by (auto simp: home_def)
  note rng = this
  let ?w2 = "map (\<lambda>t. (lhblock s t, cur s (lhblock s t))) ?ts"
  have w2: "map (\<lambda>t. (lhblock s2 t, cur s2 (slot_of s2 t))) ?ts = ?w2"
  proof (rule map_cong)
    fix t assume t: "t \<in> set ?ts"
    have "inj_on (slot_of s) (set ?ts)"
    proof (rule inj_onI)
      fix x y assume "x \<in> set ?ts" "y \<in> set ?ts" "slot_of s x = slot_of s y"
      then show "x = y" using slot_facts(5) [OF g tz tz] by simp
    qed
    then have "put ?w1 (cur s) (slot_of s t) = cur s (lhblock s t)" using t by (rule put_inj)
    then show "(lhblock s2 t, cur s2 (slot_of s2 t)) = (lhblock s t, cur s (lhblock s t))"
      using slot_facts(3) [OF g tz [OF t]] unfolding v2 m2 v1 by simp
  qed simp
  have e: "dirt s - lhblock s ` set ?ts = {}" using linvD(10) [OF l] by (simp add: lset_def atLeast0LessThan)
  have "\<exists>s3. install_loop pid ?ts s2 = Ret s3 \<and> bok s3 \<and>
       (let ws = map (\<lambda>t. (lhblock s2 t, cur s2 (slot_of s2 t))) ?ts
        in view s3 = (put ws (cur s2), put ws (disk s2), dirt s2 - lhblock s2 ` set ?ts, {}, wlog s2 @ ws, disksize s2, bcache.more s2))"
  proof (rule install_loop_spec [OF s2(2) v2(4)])
    show "ldev s2 = 1" using m2 linvD(2) [OF l] by simp
    show "dirt s2 = {} \<or> card (dirt s2) < NBUF \<and> (\<forall>t \<in> set ?ts. lhblock s2 t \<in> dirt s2)"
      using hm lset_card [OF l] unfolding d2 m2 by simp
    show "distinct (map (lhblock s2) ?ts) \<or> dirt s2 = {}" using dist unfolding m2 by blast
    show "slot_of s2 t < disksize s2 \<and> lhblock s2 t < disksize s2 \<and> lhblock s2 u \<noteq> slot_of s2 t" if "t \<in> set ?ts" "u \<in> set ?ts" for t u
      using rng [OF that] unfolding m2 v2 v1 .
  qed
  then obtain s3 where i3: "install_loop pid ?ts s2 = Ret s3" "bok s3"
      "view s3 = (put ?w2 (cur s2), put ?w2 (disk s2), dirt s2 - lhblock s2 ` set ?ts, {}, wlog s2 @ ?w2, disksize s2, bcache.more s2)"
    unfolding w2 Let_def by (elim exE conjE)
  have s3: "install_trans pid s2 = Ret s3" "bok s3" "view s3 = (put ?w2 (cur s2), put ?w2 (disk s2), {}, {}, wlog s2 @ ?w2, disksize s, bcache.more s)"
    using i3 unfolding d2 m2 e v2(6,7) v1(6,7) by (simp_all add: install_trans_def m2)
  note v3 = viewD [OF s3(3)]
  note m3 = log_more [OF v3(7)]
  have pb: "put ?w2 d ?a = d ?a" for d
    by (rule put_other) (use hm start_facts [OF g] in \<open>fastforce simp: image_image home_def\<close>)
  let ?t = "s3\<lparr>lhn := 0\<rparr>" and ?hz = "header 0 (lhblock s) ?h"
  have ca: "cur s3 ?a = ?h" "disk s3 ?a = ?h" using pb v2 v3 by simp_all
  obtain s4 where s4: "write_head pid ?t = Ret s4" "bok s4"
      "view s4 = ((cur s3)(?a := ?hz), (disk s3)(?a := ?hz), {}, {}, wlog s3 @ [(?a, ?hz)], disksize s, bcache.more ?t)"
    using write_head_spec [of ?t pid] s3(2) v3 m3 ca linvD(2) [OF l] start_facts [OF g] by (auto simp: NBUF_def)
  have "bcache.more ?t = bcache.more (s\<lparr>lhn := 0\<rparr>)" using v3(7) by (cases s; cases s3) simp
  moreover have "commit pid s = Ret s4" using True s1(1) s2(1) s3(1) s4(1) by (simp add: commit_def)
  moreover have "commit_writes s = ?w1 @ (?a, ?h) # ?w2 @ [(?a, ?hz)]" using True by (simp add: commit_writes_def Let_def)
  ultimately show ?thesis using s4(2,3) unfolding v3 v2 v1 by simp
qed

end
