(* ===== verification/Log_Crash.thy ===== *)
theory Log_Crash
  imports Log
begin

text \<open>
  Crashes. The power may fail after any write to the disk. The log makes a transaction atomic: what
  recovery installs is either the state before the transaction or the state after it, also when the
  recovery itself is interrupted, any number of times. \<open>logical\<close> is the disk with a committed
  transaction applied to it; it changes only when the header is written.
\<close>

section \<open>The disk with its log applied\<close>

definition hn :: "u32 \<Rightarrow> (u32 \<Rightarrow> block) \<Rightarrow> int" where
  "hn a d = sint (load32 (d a) 0)"

definition hblk :: "u32 \<Rightarrow> (u32 \<Rightarrow> block) \<Rightarrow> nat \<Rightarrow> u32" where
  "hblk a d t = load32 (d a) (4 + 4 * of_nat t)"

definition pend :: "u32 \<Rightarrow> (u32 \<Rightarrow> block) \<Rightarrow> (u32 \<times> block) list" where
  "pend a d = map (\<lambda>t. (hblk a d t, d (a + of_nat t + 1))) [0..<nat (hn a d)]"

definition logical :: "u32 \<Rightarrow> (u32 \<Rightarrow> block) \<Rightarrow> u32 \<Rightarrow> block" where
  "logical a d = put (pend a d) d"

definition recoverable :: "u32 \<Rightarrow> int \<Rightarrow> u32 \<Rightarrow> (u32 \<Rightarrow> block) \<Rightarrow> bool" where
  "recoverable a z N d \<longleftrightarrow> geometry a z N \<and> sb_ok d a z \<and> hn a d < z \<and> (\<forall>t. int t < hn a d \<longrightarrow> home a z N (hblk a d t))"

lemma put_agree: "(b \<notin> fst ` set ws \<Longrightarrow> e b = d b) \<Longrightarrow> put ws e b = put ws d b"
proof (induction ws arbitrary: d e)
  case (Cons w ws)
  obtain c x where w: "w = (c, x)" by (cases w)
  have "put ws (e(c := x)) b = put ws (d(c := x)) b" by (rule Cons.IH) (use Cons.prems w in auto)
  then show ?case by (simp add: w)
qed simp

lemma put_take: "b \<notin> fst ` set ws \<Longrightarrow> put (take k ws) d b = d b"
  by (rule put_other) (use set_take_subset [of k ws] in blast)

lemma header_zero: "header 0 f x = store32 x 0 0"
  by (simp add: header_def)

lemma logical_none: "hn a d = 0 \<Longrightarrow> logical a d = d"
  by (simp add: logical_def pend_def)

lemma hn_header: "d a = header 0 f x \<Longrightarrow> hn a d = 0"
  by (simp add: hn_def header_zero)

section \<open>Crashes during a commit\<close>

lemma home_keys: "linv s \<Longrightarrow> fst ` set (map (\<lambda>t. (lhblock s t, cur s (lhblock s t))) [0..<nat (lhn s)]) = lset s"
  by (simp add: lset_def image_image atLeast0LessThan)

lemma slot_keys:
  assumes l: "linv s" and b: "\<not> in_log (lstart s) (lsize s) b \<or> b = lstart s"
  shows "b \<notin> fst ` set (map (\<lambda>t. (slot_of s t, cur s (lhblock s t))) [0..<nat (lhn s)])"
proof
  assume "b \<in> fst ` set (map (\<lambda>t. (slot_of s t, cur s (lhblock s t))) [0..<nat (lhn s)])"
  then obtain t where t: "t < nat (lhn s)" "b = slot_of s t" by auto
  then have "int t < lsize s - 1" using linvD(5,6) [OF l] by linarith
  then show False using slot_facts(2,3) [OF linvD(3) [OF l]] t(2) b by auto
qed

lemma slot_range: "linv s \<Longrightarrow> t < nat (lhn s) \<Longrightarrow> int t < lsize s - 1"
  using linvD(5,6) [of s] by linarith

lemma slot_put:
  assumes l: "linv s" and t: "t < nat (lhn s)"
  shows "put (map (\<lambda>t. (slot_of s t, f t)) [0..<nat (lhn s)]) d (slot_of s t) = f t"
proof (rule put_inj)
  show "inj_on (slot_of s) (set [0..<nat (lhn s)])"
  proof (rule inj_onI)
    fix x y assume "x \<in> set [0..<nat (lhn s)]" "y \<in> set [0..<nat (lhn s)]" "slot_of s x = slot_of s y"
    then show "x = y" using slot_facts(5) [OF linvD(3) [OF l] slot_range [OF l] slot_range [OF l]] by simp
  qed
qed (use t in simp)

lemma crash_before:
  assumes l: "linv s" and d: "\<And>b. \<not> in_log (lstart s) (lsize s) b \<or> b = lstart s \<Longrightarrow> d b = disk s b"
  shows "recoverable (lstart s) (lsize s) (disksize s) d \<and> (\<forall>b. \<not> in_log (lstart s) (lsize s) b \<longrightarrow> logical (lstart s) d b = disk s b)"
proof -
  have g: "geometry (lstart s) (lsize s) (disksize s)" using linvD(3) [OF l] .
  then have "d 1 = disk s 1" using d [of 1] by (simp add: geometry_def)
  then have sb: "sb_ok d (lstart s) (lsize s)" using linvD(4) [OF l] by (simp add: sb_ok_def)
  have n: "hn (lstart s) d = 0" using d [of "lstart s"] linvD(9) [OF l] by (simp add: hn_def)
  then show ?thesis using g sb d by (simp add: recoverable_def logical_none geometry_def)
qed

lemma crash_after:
  assumes l: "linv s" and n: "lhn s > 0" and h: "d (lstart s) = header (lhn s) (lhblock s) (disk s (lstart s))"
    and log: "\<And>t. t < nat (lhn s) \<Longrightarrow> d (slot_of s t) = cur s (lhblock s t)"
    and d: "\<And>b. \<not> in_log (lstart s) (lsize s) b \<Longrightarrow> b \<notin> lset s \<Longrightarrow> d b = disk s b"
  shows "recoverable (lstart s) (lsize s) (disksize s) d \<and> (\<forall>b. \<not> in_log (lstart s) (lsize s) b \<longrightarrow> logical (lstart s) d b = cur s b)"
proof -
  have g: "geometry (lstart s) (lsize s) (disksize s)" using linvD(3) [OF l] .
  have "1 \<notin> lset s" using linvD(8) [OF l] by (auto simp: home_def)
  then have "d 1 = disk s 1" using d [of 1] g by (simp add: geometry_def)
  then have sb: "sb_ok d (lstart s) (lsize s)" using linvD(4) [OF l] by (simp add: sb_ok_def)
  have n30: "0 \<le> lhn s" "lhn s \<le> 30" using n linvD(3,6) [OF l] by (simp_all add: geometry_def LOGSIZE_def MAXOPBLOCKS_def)
  have hn: "hn (lstart s) d = lhn s" unfolding hn_def h by (rule header_load(1) [OF n30])
  have hb: "hblk (lstart s) d t = lhblock s t" if "int t < lhn s" for t unfolding hblk_def h using that by (rule header_load(2) [OF n30])
  have "pend (lstart s) d = map (\<lambda>t. (lhblock s t, cur s (lhblock s t))) [0..<nat (lhn s)]"
    unfolding pend_def hn by (rule map_cong) (use hb log in auto)
  then have "logical (lstart s) d b = (if b \<in> lset s then cur s b else d b)" for b
    unfolding logical_def by (simp only: put_same) (simp add: lset_def atLeast0LessThan)
  then have "logical (lstart s) d b = cur s b" if "\<not> in_log (lstart s) (lsize s) b" for b
    using d [OF that] linvD(11) [OF l] by simp
  moreover have "home (lstart s) (lsize s) (disksize s) (hblk (lstart s) d t)" if "int t < hn (lstart s) d" for t
    using that linvD(8) [OF l] hb hn by (simp add: lset_def)
  ultimately show ?thesis using g sb linvD(6) [OF l] hn by (simp add: recoverable_def)
qed

lemma crash_commit:
  assumes l: "linv s"
  defines "d \<equiv> \<lambda>k. put (take k (commit_writes s)) (disk s)"
  shows "recoverable (lstart s) (lsize s) (disksize s) (d k) \<and>
    (\<forall>b. \<not> in_log (lstart s) (lsize s) b \<longrightarrow> logical (lstart s) (d k) b = (if k \<le> nat (lhn s) then disk s b else cur s b))"
proof (cases "lhn s > 0")
  case False
  then have "lhn s = 0" "d k = disk s" using linvD(5) [OF l] by (simp_all add: d_def commit_writes_def)
  moreover have "cur s b = disk s b" for b using linvD(11) [OF l] \<open>lhn s = 0\<close> by (simp add: lset_def)
  ultimately show ?thesis using crash_before [OF l, of "disk s"] by simp
next
  case True
  let ?n = "nat (lhn s)" and ?a = "lstart s"
  let ?w1 = "map (\<lambda>t. (slot_of s t, cur s (lhblock s t))) [0..<?n]" and ?w2 = "map (\<lambda>t. (lhblock s t, cur s (lhblock s t))) [0..<?n]"
  let ?h = "header (lhn s) (lhblock s) (disk s ?a)"
  have cw: "commit_writes s = ?w1 @ (?a, ?h) # ?w2 @ [(?a, header 0 (lhblock s) ?h)]" using True by (simp add: commit_writes_def Let_def)
  have g: "geometry (lstart s) (lsize s) (disksize s)" using linvD(3) [OF l] .
  have hk: "b \<notin> fst ` set ?w2" if "in_log ?a (lsize s) b \<or> b \<notin> lset s" for b
    using that linvD(8) [OF l] unfolding home_keys [OF l] by (auto simp: home_def)
  have al: "in_log ?a (lsize s) ?a" using start_facts [OF g] by simp
  consider "k \<le> ?n" | "?n < k" "k \<le> ?n + 1 + ?n" | "?n + 1 + ?n < k" by linarith
  then show ?thesis
  proof cases
    case 1
    then have "d k = put (take k ?w1) (disk s)" by (simp add: d_def cw)
    then have "d k b = disk s b" if "\<not> in_log ?a (lsize s) b \<or> b = ?a" for b
      using put_take [OF slot_keys [OF l that]] by simp
    then show ?thesis using crash_before [OF l] 1 by auto
  next
    case 2
    define e where "e = (put ?w1 (disk s))(?a := ?h)"
    have dk: "d k = put (take (k - ?n - 1) ?w2) e" using 2 by (simp add: d_def cw e_def take_Cons')
    have sl: "d k (slot_of s t) = cur s (lhblock s t)" if t: "t < ?n" for t
    proof -
      have "in_log ?a (lsize s) (slot_of s t)" "slot_of s t \<noteq> ?a" using slot_facts(2,3) [OF g slot_range [OF l t]] .
      then show ?thesis using put_take [OF hk, of "slot_of s t"] slot_put [OF l t] by (simp add: dk e_def)
    qed
    have "d k ?a = ?h" using put_take [OF hk, of ?a] al by (simp add: dk e_def)
    moreover have "d k b = disk s b" if "\<not> in_log ?a (lsize s) b" "b \<notin> lset s" for b
      using put_take [OF hk] that al put_other [OF slot_keys [OF l]] by (auto simp: dk e_def)
    ultimately show ?thesis using crash_after [OF l True] sl 2 by auto
  next
    case 3
    then have dk: "d k = put (commit_writes s) (disk s)" by (simp add: d_def cw)
    define e where "e = put ?w2 ((put ?w1 (disk s))(?a := ?h))"
    have de: "d k = e(?a := header 0 (lhblock s) ?h)" by (simp add: dk cw e_def)
    then have n: "hn ?a (d k) = 0" by (intro hn_header) simp
    have eb: "e b = (if b \<in> lset s then cur s b else ((put ?w1 (disk s))(?a := ?h)) b)" for b
      unfolding e_def put_same by (simp add: lset_def atLeast0LessThan)
    have "d k b = cur s b" if "\<not> in_log ?a (lsize s) b" for b
      using that al put_other [OF slot_keys [OF l], of b] linvD(11) [OF l, of b] by (auto simp: de eb)
    moreover have "cur s 1 = disk s 1" using linvD(8) [OF l, of 1] linvD(11) [OF l, of 1] by (auto simp: home_def)
    ultimately show ?thesis using n g linvD(4) [OF l] 3 by (simp add: recoverable_def logical_none sb_ok_def geometry_def)
  qed
qed

section \<open>Recovery\<close>

definition log_boot :: "u32 \<Rightarrow> (u32 \<Rightarrow> block) \<Rightarrow> log" where
  "log_boot N d = binit \<lparr>bufs = [], order = [], disk = d, disksize = N, wlog = [], lstart = 0, lsize = 0, outstanding = 0,
     committing = False, ldev = 0, lhn = 0, lhblock = \<lambda>_. 0\<rparr>"

lemma binit_view: "bok (binit s)" "view (binit s) = (disk s, disk s, {}, {}, wlog s, disksize s, bcache.more s)"
proof -
  have n: "bufs (binit s) ! i = buf_zero" if "i < NBUF" for i using that by (simp add: binit_def)
  have c: "\<not> cached (binit s) b i" for b i by (auto simp: cached_def n buf_zero_def)
  have o: "distinct (order (binit s))" "set (order (binit s)) = {..<NBUF}" "length (bufs (binit s)) = NBUF"
    by (simp_all add: binit_def atLeast0LessThan)
  show "bok (binit s)" unfolding bok_def binv_def using o c by (simp add: n) (simp add: buf_zero_def initsleeplock_def free_buf_def)
  have "cur (binit s) b = disk (binit s) b" for b by (rule cur_disk) (simp add: c)
  then show "view (binit s) = (disk s, disk s, {}, {}, wlog s, disksize s, bcache.more s)"
    by (simp add: view_def dirt_def hb_def c fun_eq_iff) (simp add: binit_def)
qed

lemma readsb_spec:
  assumes ok: "bok s" "hb s = {}" "dirt s = {}" "1 < disksize s"
  shows "\<exists>s'. readsb pid 1 s = Ret (cur s 1, s') \<and> bok s' \<and> view s' = view s"
proof -
  obtain i t where t: "bread pid 1 1 s = Ret (i, t)" "bok t" "holds pid t i 1"
      "view t = (cur s, disk s, dirt s, insert 1 (hb s), wlog s, disksize s, bcache.more s)" "1 \<in> dirt s \<or> cur s 1 = disk s 1"
    by (rule bread_holds [OF ok(1), of 1]) (use ok in \<open>auto simp: NBUF_def\<close>)
  note v = viewD [OF t(4)]
  have "1 \<in> dirt t \<or> cur t 1 = disk t 1" using t(5) v by simp
  then obtain w where w: "brelse pid i t = Ret w" "bok w" "view w = (cur t, disk t, dirt t, hb t - {1}, wlog t, disksize t, bcache.more t)"
    by (rule brelse_holds [OF t(2,3)]) blast
  have "readsb pid 1 s = Ret (cur s 1, w)" using t(1) w(1) holdsD [OF t(3)] v by (simp add: readsb_def Let_def)
  then show ?thesis using w v ok(2) by (simp add: view_def)
qed

definition recovery_writes :: "u32 \<Rightarrow> (u32 \<Rightarrow> block) \<Rightarrow> (u32 \<times> block) list" where
  "recovery_writes a d = pend a d @ [(a, store32 (d a) 0 0)]"

lemma pend_keys:
  assumes r: "recoverable a z N d" and b: "in_log a z b \<or> b = 1"
  shows "b \<notin> fst ` set (pend a d)"
  using assms by (auto simp: recoverable_def pend_def home_def)

lemma recover_spec:
  assumes r: "recoverable a z N d" and s: "bok s" "view s = (d, d, {}, {}, [], N, m)" "ldev s = 1" "lstart s = a"
  shows "\<exists>s'. recover_from_log pid s = Ret s' \<and> bok s' \<and> lhn s' = 0 \<and> lstart s' = a \<and> ldev s' = 1 \<and> lsize s' = lsize s \<and>
    outstanding s' = outstanding s \<and> committing s' = committing s \<and>
    (let ws = recovery_writes a d in cur s' = put ws d \<and> disk s' = put ws d \<and> dirt s' = {} \<and> hb s' = {} \<and> wlog s' = ws \<and> disksize s' = N)"
proof -
  have g: "geometry a z N" and n: "hn a d < z" using r by (simp_all add: recoverable_def)
  note v = viewD [OF s(2)]
  have nl: "sint (load32 (cur s (lstart s)) 0) = hn a d" "hn a d \<le> LOGSIZE" using v s n g by (simp_all add: hn_def geometry_def)
  let ?f = "\<lambda>t. if int t < hn a d then hblk a d t else lhblock s t"
  have f: "?f = (\<lambda>t. if int t < hn a d then load32 (cur s (lstart s)) (4 + 4 * of_nat t) else lhblock s t)"
    unfolding hblk_def v(1) s(4) ..
  obtain s1 where s1: "read_head pid s = Ret s1" "bok s1" "view s1 = (d, d, {}, {}, [], N, bcache.more (s\<lparr>lhn := hn a d, lhblock := ?f\<rparr>))"
    using read_head_spec [OF s(1), of pid] v s start_facts [OF g] nl unfolding f by auto
  note v1 = viewD [OF s1(3)]
  note m1 = log_more [OF v1(7)]
  let ?ts = "[0..<nat (hn a d)]"
  have tz: "int t < z - 1" "home a z N (hblk a d t)" if "t \<in> set ?ts" for t using that n r by (auto simp: recoverable_def)
  have "\<exists>s2. install_loop pid ?ts s1 = Ret s2 \<and> bok s2 \<and>
       (let ws = map (\<lambda>t. (lhblock s1 t, cur s1 (slot_of s1 t))) ?ts
        in view s2 = (put ws (cur s1), put ws (disk s1), dirt s1 - lhblock s1 ` set ?ts, {}, wlog s1 @ ws, disksize s1, bcache.more s1))"
  proof (rule install_loop_spec [OF s1(2) v1(4)])
    fix t u assume tu: "t \<in> set ?ts" "u \<in> set ?ts"
    then show "slot_of s1 t < disksize s1 \<and> lhblock s1 t < disksize s1 \<and> lhblock s1 u \<noteq> slot_of s1 t"
      using slot_facts(1,2) [OF g tz(1)] tz(2) [of t] tz(2) [of u] s(4) v1 m1 by (auto simp: home_def)
  qed (use v1 m1 s in simp_all)
  moreover have w: "map (\<lambda>t. (lhblock s1 t, cur s1 (slot_of s1 t))) ?ts = pend a d"
    unfolding pend_def by (rule map_cong) (use v1 m1 s in auto)
  ultimately obtain s2 where i2: "install_loop pid ?ts s1 = Ret s2" "bok s2"
      "view s2 = (put (pend a d) d, put (pend a d) d, {}, {}, pend a d, N, bcache.more s1)"
    unfolding w Let_def v1 by auto
  note v2 = viewD [OF i2(3)]
  note m2 = log_more [OF v2(7)]
  have s2: "install_trans pid s1 = Ret s2" using i2(1) m1 by (simp add: install_trans_def)
  have pa: "put (pend a d) d a = d a" by (rule put_other) (use pend_keys [OF r, of a] start_facts [OF g] in simp)
  obtain s3 where s3: "write_head pid (s2\<lparr>lhn := 0\<rparr>) = Ret s3" "bok s3"
      "view s3 = ((put (pend a d) d)(a := store32 (d a) 0 0), (put (pend a d) d)(a := store32 (d a) 0 0), {}, {}, pend a d @ [(a, store32 (d a) 0 0)], N,
        bcache.more (s2\<lparr>lhn := 0\<rparr>))"
    using write_head_spec [of "s2\<lparr>lhn := 0\<rparr>" pid] i2(2) v2 m2 m1 s pa start_facts [OF g] by (auto simp: NBUF_def header_zero)
  note v3 = viewD [OF s3(3)]
  note m3 = log_more [OF v3(7)]
  have "recover_from_log pid s = Ret s3" using s1(1) s2 s3(1) by (simp add: recover_from_log_def)
  then show ?thesis using s3(2) v3 m3 m2 m1 s by (simp add: recovery_writes_def Let_def)
qed

lemma crash_recovery:
  assumes r: "recoverable a z N d"
  defines "e \<equiv> \<lambda>k. put (take k (recovery_writes a d)) d"
  shows "recoverable a z N (e k) \<and> (\<forall>b. \<not> in_log a z b \<longrightarrow> logical a (e k) b = logical a d b)"
proof (cases "k \<le> length (pend a d)")
  case True
  have g: "geometry a z N" using r by (simp add: recoverable_def)
  have ek: "e k = put (take k (pend a d)) d" using True by (simp add: e_def recovery_writes_def)
  have same: "e k b = d b" if "in_log a z b \<or> b = 1" for b using put_take [OF pend_keys [OF r that]] by (simp add: ek)
  have ea: "e k a = d a" using same start_facts [OF g] by simp
  then have h: "hn a (e k) = hn a d" "hblk a (e k) = hblk a d" by (simp add: hn_def, intro ext, simp add: hblk_def)
  have "pend a (e k) = pend a d"
    unfolding pend_def h
  proof (rule map_cong)
    fix t assume "t \<in> set [0..<nat (hn a d)]"
    then have "int t < z - 1" using r by (auto simp: recoverable_def)
    then have "in_log a z (a + of_nat t + 1)" by (rule slot_facts(2) [OF g])
    then show "(hblk a d t, e k (a + of_nat t + 1)) = (hblk a d t, d (a + of_nat t + 1))" using same by simp
  qed simp
  then have "logical a (e k) b = logical a d b" for b
    unfolding logical_def by (simp only:) (rule put_agree, simp only: ek, rule put_take)
  moreover have "recoverable a z N (e k)" using r same [of 1] h by (simp add: recoverable_def sb_ok_def)
  ultimately show ?thesis by blast
next
  case False
  have g: "geometry a z N" using r by (simp add: recoverable_def)
  have ek: "e k = (put (pend a d) d)(a := store32 (d a) 0 0)" using False by (simp add: e_def recovery_writes_def)
  have n: "hn a (e k) = 0" by (simp add: hn_def ek)
  have "e k 1 = d 1" using put_other [OF pend_keys [OF r, of 1]] start_facts [OF g] by (simp add: ek)
  then have "recoverable a z N (e k)" using r n by (simp add: recoverable_def sb_ok_def geometry_def)
  moreover have "logical a (e k) b = logical a d b" if "\<not> in_log a z b" for b
    using that start_facts [OF g] by (auto simp: logical_none [OF n]) (auto simp: ek logical_def)
  ultimately show ?thesis by blast
qed

lemma initlog_spec:
  assumes r: "recoverable a z N d"
  shows "\<exists>t. initlog pid 1 (log_boot N d) = Ret t \<and> linv t \<and> lset t = {} \<and> hb t = {} \<and> lstart t = a \<and> lsize t = z \<and> outstanding t = 0 \<and>
    \<not> committing t \<and> disksize t = N \<and> wlog t = recovery_writes a d \<and> disk t = put (recovery_writes a d) d \<and>
    (\<forall>b. \<not> in_log a z b \<longrightarrow> disk t b = logical a d b)"
proof -
  have g: "geometry a z N" using r by (simp add: recoverable_def)
  note b = binit_view [of "\<lparr>bufs = [], order = [], disk = d, disksize = N, wlog = [], lstart = 0, lsize = 0, outstanding = 0,
     committing = False, ldev = 0, lhn = 0, lhblock = \<lambda>_. 0\<rparr>", folded log_boot_def]
  have bv: "view (log_boot N d) = (d, d, {}, {}, [], N, bcache.more (log_boot N d))" using b(2) by (simp add: view_def)
  note v = viewD [OF bv]
  have "1 < disksize (log_boot N d)" using g v by (simp add: geometry_def)
  then obtain s where s: "readsb pid 1 (log_boot N d) = Ret (cur (log_boot N d) 1, s)" "bok s" "view s = view (log_boot N d)"
    using readsb_spec [OF b(1) v(4,3), of pid] by blast
  have sv: "view s = (d, d, {}, {}, [], N, bcache.more (log_boot N d))" using s(3) bv by simp
  note vs = viewD [OF sv]
  let ?s = "s\<lparr>lstart := load32 (d 1) 16, lsize := sint (load32 (d 1) 12), ldev := 1\<rparr>"
  have sb: "load32 (d 1) 16 = a" "sint (load32 (d 1) 12) = z" using r by (simp_all add: recoverable_def sb_ok_def)
  have "view ?s = (d, d, {}, {}, [], N, bcache.more ?s)" using vs by (simp add: view_def)
  then obtain t where t: "recover_from_log pid ?s = Ret t" "bok t" "lhn t = 0" "lstart t = a" "ldev t = 1" "lsize t = z"
      "outstanding t = outstanding ?s" "committing t = committing ?s" "cur t = put (recovery_writes a d) d" "disk t = put (recovery_writes a d) d"
      "dirt t = {}" "hb t = {}" "wlog t = recovery_writes a d" "disksize t = N"
    using recover_spec [OF r, of ?s _ pid] s(2) sb by (auto simp: Let_def)
  have i: "initlog pid 1 (log_boot N d) = Ret t" using s(1) t(1) v(1) by (simp add: initlog_def)
  have ds: "disk t = (put (pend a d) d)(a := store32 (d a) 0 0)" using t(10) by (simp add: recovery_writes_def)
  have oc: "outstanding t = 0" "\<not> committing t" using t(7,8) log_more [OF vs(7)] by (simp_all add: log_boot_def binit_def)
  have "disk t 1 = d 1" using put_other [OF pend_keys [OF r, of 1]] start_facts [OF g] by (simp add: ds)
  then have "sb_ok (disk t) a z" using r by (simp add: recoverable_def sb_ok_def)
  moreover have "sint (load32 (disk t a) 0) = 0" by (simp add: ds)
  ultimately have "linv t" unfolding linv_def lset_def using t g by (simp add: geometry_def)
  moreover have "disk t b = logical a d b" if "\<not> in_log a z b" for b
    using that start_facts [OF g] by (auto simp: ds logical_def)
  ultimately show ?thesis using i t oc by (simp add: lset_def)
qed

text \<open>Disks that crashes during recovery, any number of them, can leave.\<close>

inductive crashes :: "u32 \<Rightarrow> (u32 \<Rightarrow> block) \<Rightarrow> (u32 \<Rightarrow> block) \<Rightarrow> bool" for N d where
  crashes_refl: "crashes N d d"
| crashes_step: "crashes N d e \<Longrightarrow> initlog pid 1 (log_boot N e) = Ret t \<Longrightarrow> crashes N d (put (take k (wlog t)) e)"

lemma crashes_logical:
  "crashes N d e \<Longrightarrow> recoverable a z N d \<Longrightarrow> recoverable a z N e \<and> (\<forall>b. \<not> in_log a z b \<longrightarrow> logical a e b = logical a d b)"
proof (induction rule: crashes.induct)
  case (crashes_step e pid t k)
  then have r: "recoverable a z N e" "\<And>b. \<not> in_log a z b \<Longrightarrow> logical a e b = logical a d b" by blast+
  have "wlog t = recovery_writes a e" using initlog_spec [OF r(1), of pid] crashes_step.hyps(2) by auto
  then show ?case using crash_recovery [OF r(1), of k] r(2) by simp
qed simp

section \<open>Operations inside a transaction\<close>

lemma linv_cong:
  assumes "linv s" "bok s'" "cur s' = cur s" "disk s' = disk s" "dirt s' = dirt s" "disksize s' = disksize s"
    "lstart s' = lstart s" "lsize s' = lsize s" "ldev s' = ldev s" "lhn s' = lhn s" "lhblock s' = lhblock s"
  shows "linv s'"
  using assms by (simp add: linv_def lset_def)

lemma begin_op_linv: "linv s \<Longrightarrow> linv (snd (begin_op s))"
  by (simp add: begin_op_def linv_def lset_def)

lemma find_slot:
  assumes "linv s"
  shows "b \<in> lset s \<Longrightarrow> log_slot b s < nat (lhn s) \<and> lhblock s (log_slot b s) = b"
    and "b \<notin> lset s \<Longrightarrow> log_slot b s = nat (lhn s)"
proof -
  show "log_slot b s < nat (lhn s) \<and> lhblock s (log_slot b s) = b" if "b \<in> lset s"
  proof (cases "find (\<lambda>t. lhblock s t = b) [0..<nat (lhn s)]")
    case None
    then show ?thesis using that by (auto simp: find_None_iff lset_def)
  next
    case (Some t)
    then show ?thesis using find_SomeD [OF Some] by (simp add: log_slot_def)
  qed
  show "log_slot b s = nat (lhn s)" if "b \<notin> lset s"
  proof -
    have "find (\<lambda>t. lhblock s t = b) [0..<nat (lhn s)] = None" using that by (auto simp: find_None_iff lset_def)
    then show ?thesis by (simp add: log_slot_def)
  qed
qed

text \<open>The end of every update of the file system: change the block, log it, release it.\<close>

definition logged :: "int \<Rightarrow> nat \<Rightarrow> block \<Rightarrow> 'z log_scheme \<Rightarrow> 'z log_scheme res" where
  "logged pid i y s = rbind (log_write i (setbuf i (\<lambda>x. x\<lparr>bdata := y\<rparr>) s)) (brelse pid i)"

lemma logged_spec:
  assumes l: "linv s" and h: "holds pid s i b" and b: "home (lstart s) (lsize s) (disksize s) b"
    and o: "outstanding s \<ge> 1" and n: "lhn s < lsize s - 1"
  shows "\<exists>s'. logged pid i y s = Ret s' \<and> linv s' \<and> cur s' = (cur s)(b := y) \<and> disk s' = disk s \<and> wlog s' = wlog s \<and>
    hb s' = hb s - {b} \<and> lset s' = insert b (lset s) \<and> lhn s' \<le> lhn s + 1 \<and> disksize s' = disksize s \<and> log.more s' = log.more s \<and>
    lstart s' = lstart s \<and> lsize s' = lsize s \<and> outstanding s' = outstanding s \<and> committing s' = committing s \<and>
    (\<forall>j c. holds pid s j c \<longrightarrow> c \<noteq> b \<longrightarrow> holds pid s' j c)"
proof -
  define u where "u = setbuf i (\<lambda>x. x\<lparr>bdata := y\<rparr>) s"
  note u = set_holds [OF linvD(1) [OF l] h, where y = y, folded u_def]
  note uv = viewD [OF u(3)]
  note um = log_more [OF uv(7)]
  define t where "t = log_slot b s"
  define w where "w = u\<lparr>lhblock := (lhblock u)(t := b), lhn := (if int t = lhn u then lhn u + 1 else lhn u)\<rparr>"
  have bi: "bno (bufs u ! i) = b" using holdsD [OF u(2)] by simp
  have ts: "log_slot b u = t" unfolding t_def log_slot_def um ..
  have wok: "bok w" "holds pid w i b" "cur w = cur u" "disk w = disk u" "dirt w = dirt u" "hb w = hb u" "wlog w = wlog u" "disksize w = disksize u"
    using u by (simp_all add: w_def)
  define x where "x = setbuf i (\<lambda>x. x\<lparr>bdirty := True\<rparr>) w"
  note x = dirty_holds [OF wok(1,2), folded x_def]
  note xv = viewD [OF x(3)]
  note xm = log_more [OF xv(7)]
  have lz: "\<not> lhn s \<ge> LOGSIZE" using linvD(3) [OF l] n by (simp add: geometry_def)
  have lw: "log_write i u = Ret x"
    using n o lz by (simp add: log_write_def um Let_def bi ts) (simp add: x_def w_def um)
  have "b \<in> dirt x \<or> cur x b = disk x b" using xv by simp
  then obtain s' where s': "brelse pid i x = Ret s'" "bok s'" "view s' = (cur x, disk x, dirt x, hb x - {b}, wlog x, disksize x, bcache.more x)"
      "\<And>j c. holds pid x j c \<Longrightarrow> c \<noteq> b \<Longrightarrow> holds pid s' j c"
    by (rule brelse_holds [OF x(1,2)]) blast
  note v = viewD [OF s'(3)]
  note m = log_more [OF v(7)]
  have f: "lhn s' = (if b \<in> lset s then lhn s else lhn s + 1)" "lhblock s' = (lhblock s)(t := b)"
    "lstart s' = lstart s" "lsize s' = lsize s" "ldev s' = ldev s" "outstanding s' = outstanding s" "committing s' = committing s" "log.more s' = log.more s"
    using find_slot [OF l, of b] linvD(5) [OF l] um unfolding m xm by (auto simp: w_def t_def)
  have ls: "lset s' = insert b (lset s)" and inj: "inj_on (lhblock s') {..<nat (lhn s')}"
  proof -
    have "lset s' = insert b (lset s) \<and> inj_on (lhblock s') {..<nat (lhn s')}"
    proof (cases "b \<in> lset s")
      case True
      then have "lhblock s' = lhblock s" using find_slot(1) [OF l True] f(2) by (simp add: t_def fun_upd_idem)
      then show ?thesis using True linvD(7) [OF l] f(1) by (auto simp: lset_def)
    next
      case False
      then have t: "t = nat (lhn s)" "nat (lhn s + 1) = Suc (nat (lhn s))" using find_slot(2) [OF l] linvD(5) [OF l] by (simp_all add: t_def)
      then show ?thesis using False linvD(7) [OF l] f(1,2)
        by (auto simp: lset_def lessThan_Suc inj_on_insert inj_on_fun_updI fun_upd_image)
    qed
    then show "lset s' = insert b (lset s)" "inj_on (lhblock s') {..<nat (lhn s')}" by blast+
  qed
  have sv: "cur s' = (cur s)(b := y)" "disk s' = disk s" "wlog s' = wlog s" "hb s' = hb s - {b}" "disksize s' = disksize s" "dirt s' = insert b (dirt s)"
    unfolding v xv wok uv by simp_all
  have "linv s'" unfolding linv_def ls
    using linvD [OF l] inj b f s'(2) sv n by auto
  moreover have "holds pid s' j c" if "holds pid s j c" "c \<noteq> b" for j c
    by (rule s'(4) [OF x(4)]) (use u(4) [OF that(1)] that(2) in \<open>simp_all add: w_def\<close>)
  ultimately show ?thesis using lw s'(1) sv f ls by (simp add: logged_def u_def)
qed

definition update_block :: "int \<Rightarrow> u32 \<Rightarrow> block \<Rightarrow> 'z log_scheme \<Rightarrow> 'z log_scheme res" where
  "update_block pid b y s = rbind (bread pid (ldev s) b s) (\<lambda>(i, s). logged pid i y s)"

lemma read_home:
  assumes l: "linv s" and b: "b < disksize s" "b \<notin> hb s" and c: "card (lset s \<union> hb s) < NBUF"
  obtains i t where "bread pid 1 b s = Ret (i, t)" "linv t" "holds pid t i b" "hb t = insert b (hb s)"
    "cur t = cur s" "disk t = disk s" "wlog t = wlog s" "disksize t = disksize s" "bcache.more t = bcache.more s" "lset t = lset s"
    "\<And>j c. holds pid s j c \<Longrightarrow> holds pid t j c"
proof -
  obtain i t where t: "bread pid 1 b s = Ret (i, t)" "bok t" "holds pid t i b"
      "view t = (cur s, disk s, dirt s, insert b (hb s), wlog s, disksize s, bcache.more s)" "\<And>j c. holds pid s j c \<Longrightarrow> holds pid t j c"
    by (rule bread_holds [OF linvD(1) [OF l] b(2,1), of pid]) (use c linvD(10) [OF l] in auto)
  note v = viewD [OF t(4)]
  note m = log_more [OF v(7)]
  have "linv t" by (rule linv_cong [OF l t(2)]) (simp_all add: v m)
  then show ?thesis using that [OF t(1) _ t(3)] t(5) v m by (simp add: lset_def)
qed

lemma update_block_spec:
  assumes l: "linv s" and h: "hb s = {}" and b: "home (lstart s) (lsize s) (disksize s) b"
    and o: "outstanding s \<ge> 1" and n: "lhn s < lsize s - 1"
  shows "\<exists>s'. update_block pid b y s = Ret s' \<and> linv s' \<and> cur s' = (cur s)(b := y) \<and> disk s' = disk s \<and> wlog s' = wlog s \<and>
    hb s' = {} \<and> lset s' = insert b (lset s) \<and> lhn s' \<le> lhn s + 1 \<and> disksize s' = disksize s \<and>
    lstart s' = lstart s \<and> lsize s' = lsize s \<and> outstanding s' = outstanding s \<and> committing s' = committing s"
proof -
  have c: "card (lset s \<union> hb s) < NBUF" using lset_card [OF l] linvD(10) [OF l] h by simp
  have bs: "b < disksize s" "b \<notin> hb s" using b h by (simp_all add: home_def)
  obtain i t where t: "bread pid 1 b s = Ret (i, t)" "linv t" "holds pid t i b" "hb t = insert b (hb s)"
      "cur t = cur s" "disk t = disk s" "wlog t = wlog s" "disksize t = disksize s" "bcache.more t = bcache.more s" "lset t = lset s"
    by (rule read_home [OF l bs c, of pid]) blast
  note m = log_more [OF t(9)]
  have "home (lstart t) (lsize t) (disksize t) b" "outstanding t \<ge> 1" "lhn t < lsize t - 1" using b o n m t(8) by simp_all
  from logged_spec [OF t(2,3) this, of y] show ?thesis using t m h linvD(2) [OF l] by (auto simp: update_block_def)
qed

section \<open>Atomicity\<close>

lemma commit_linv:
  assumes l: "linv s" and s': "bok s'" "view s' = (put (commit_writes s) (cur s), put (commit_writes s) (disk s), {}, {}, wlog s @ commit_writes s, disksize s, bcache.more (s\<lparr>lhn := 0\<rparr>))"
  shows "linv s'" "lset s' = {}" "\<not> in_log (lstart s) (lsize s) b \<Longrightarrow> cur s' b = cur s b \<and> disk s' b = cur s b"
    "lstart s' = lstart s" "lsize s' = lsize s" "outstanding s' = outstanding s" "committing s' = committing s"
proof -
  note v = viewD [OF s'(2)]
  have "log.more (s\<lparr>lhn := 0\<rparr>) = log.more s" by simp
  note m = log_more [OF v(7)]
  let ?k = "Suc (length (commit_writes s))"
  have d: "disk s' = put (take ?k (commit_writes s)) (disk s)" by (simp add: v)
  note c = crash_commit [OF l, of ?k, folded d]
  have ke: "put (commit_writes s) (cur s) c = put (commit_writes s) (disk s) c" for c
  proof (rule put_agree)
    assume c: "c \<notin> fst ` set (commit_writes s)"
    show "cur s c = disk s c"
    proof (rule linvD(11) [OF l], rule notI)
      assume "c \<in> lset s"
      then show False using c by (force simp: commit_writes_def lset_def Let_def image_image)
    qed
  qed
  have kd: "cur s' c = disk s' c" for c using ke by (simp add: v)
  have n: "hn (lstart s) (disk s') = 0"
  proof (cases "lhn s > 0")
    case True
    have "disk s' (lstart s) = header 0 (lhblock s) (header (lhn s) (lhblock s) (disk s (lstart s)))"
      using True by (simp add: v commit_writes_def Let_def)
    then show ?thesis by (rule hn_header)
  next
    case False
    then show ?thesis using linvD(9) [OF l] by (simp add: v commit_writes_def hn_def)
  qed
  have ol: "disk s' c = cur s c" if "\<not> in_log (lstart s) (lsize s) c" for c
  proof -
    have "disk s' c = (if ?k \<le> nat (lhn s) then disk s c else cur s c)" using c that by (simp add: logical_none [OF n])
    moreover have "\<not> ?k \<le> nat (lhn s)" using linvD(5) [OF l] by (cases "lhn s > 0") (auto simp: commit_writes_def Let_def)
    ultimately show ?thesis by simp
  qed
  then show "\<not> in_log (lstart s) (lsize s) b \<Longrightarrow> cur s' b = cur s b \<and> disk s' b = cur s b" using kd by simp
  show "lset s' = {}" by (simp add: lset_def m)
  show "lstart s' = lstart s" "lsize s' = lsize s" "outstanding s' = outstanding s" "committing s' = committing s" by (simp_all add: m)
  show "linv s'" unfolding linv_def lset_def
    using c n s'(1) kd linvD(2,3) [OF l] by (auto simp: v m recoverable_def hn_def geometry_def)
qed

text \<open>C5. Transactions are atomic. The end of the last operation commits: it returns, what was written is
  on the disk, and the log is empty. If the power fails instead, after any number \<open>k\<close> of the writes
  of the commit, and again during any number of recoveries, then the next recovery ends with
  every block outside the log as it was before the transaction (if at most the log blocks were
  written) or as it is after it; there is nothing in between.\<close>

theorem log_atomic:
  assumes "linv s" and "hb s = {}" and "outstanding s = 1" and "\<not> committing s"
  shows "\<exists>s' ws. end_op pid s = Ret s' \<and> linv s' \<and> lset s' = {} \<and> hb s' = {} \<and> outstanding s' = 0 \<and> \<not> committing s' \<and>
    (\<forall>b. \<not> in_log (lstart s) (lsize s) b \<longrightarrow> cur s' b = cur s b \<and> disk s' b = cur s b) \<and>
    wlog s' = wlog s @ ws \<and> disk s' = put ws (disk s) \<and>
    (\<forall>k d. crashes (disksize s) (put (take k ws) (disk s)) d \<longrightarrow>
      (\<exists>t. initlog pid 1 (log_boot (disksize s) d) = Ret t \<and> linv t \<and> lset t = {} \<and>
        (\<forall>b. \<not> in_log (lstart s) (lsize s) b \<longrightarrow> disk t b = (if k \<le> nat (lhn s) then disk s b else cur s b))))"
proof -
  let ?u = "s\<lparr>outstanding := 0, committing := True\<rparr>"
  have lu: "linv ?u" "hb ?u = {}" and cw: "commit_writes ?u = commit_writes s"
    using assms by (simp_all add: linv_def lset_def commit_writes_def Let_def)
  obtain t where t: "commit pid ?u = Ret t" "bok t"
    "view t = (put (commit_writes s) (cur ?u), put (commit_writes s) (disk ?u), {}, {}, wlog ?u @ commit_writes s, disksize ?u, bcache.more (?u\<lparr>lhn := 0\<rparr>))"
    using commit_spec [OF lu, of pid] unfolding cw by blast
  note c = commit_linv [OF lu(1) t(2), unfolded cw, OF t(3)]
  note v = viewD [OF t(3)]
  let ?s' = "t\<lparr>committing := False\<rparr>"
  have e: "end_op pid s = Ret ?s'" using assms(3,4) t(1) by (simp add: end_op_def Let_def)
  have "\<exists>x. initlog pid 1 (log_boot (disksize s) d) = Ret x \<and> linv x \<and> lset x = {} \<and>
        (\<forall>b. \<not> in_log (lstart s) (lsize s) b \<longrightarrow> disk x b = (if k \<le> nat (lhn s) then disk s b else cur s b))"
    if cr: "crashes (disksize s) (put (take k (commit_writes s)) (disk s)) d" for k d
  proof -
    note cc = crash_commit [OF assms(1), of k]
    note r = crashes_logical [OF cr conjunct1 [OF cc]]
    show ?thesis using initlog_spec [OF conjunct1 [OF r], of pid] r cc by metis
  qed
  moreover have "linv ?s'" "lset ?s' = {}" using c(1,2) by (simp_all add: linv_def lset_def)
  ultimately show ?thesis using e c v by (intro exI [of _ ?s'] exI [of _ "commit_writes s"]) simp
qed

text \<open>A disk of 100 blocks with an empty log in blocks 2 to 31.\<close>

definition fresh_disk :: "u32 \<Rightarrow> block" where
  "fresh_disk b = (if b = 1 then store32 (store32 (\<lambda>_. 0) 12 30) 16 2 else (\<lambda>_. 0))"

lemma zero_load [simp]: "load32 (\<lambda>_. 0) a = 0"
  by (simp add: load32_def)

lemma fresh_recoverable: "recoverable 2 30 100 fresh_disk"
proof -
  have "load32 (fresh_disk 1) 16 = 2" by (simp add: fresh_disk_def aligned4_def)
  moreover have "load32 (fresh_disk 1) 12 = 30" by (simp add: fresh_disk_def aligned4_def)
  moreover have "hn 2 fresh_disk = 0" by (simp add: hn_def fresh_disk_def)
  ultimately show ?thesis by (simp add: recoverable_def geometry_def sb_ok_def in_log_def LOGSIZE_def MAXOPBLOCKS_def)
qed

lemma fresh_home: "32 \<le> b \<Longrightarrow> b < 100 \<Longrightarrow> home 2 30 100 b"
  by (auto simp: home_def in_log_def word_le_nat_alt)

lemma lset_lhn: "linv s \<Longrightarrow> card (lset s) = nat (lhn s)"
  using linvD(7) [of s] by (simp add: lset_def card_image)

lemma fresh_boot:
  obtains t where "initlog pid 1 (log_boot 100 fresh_disk) = Ret t" "linv t" "lset t = {}" "hb t = {}" "lstart t = 2" "lsize t = 30"
    "outstanding t = 0" "\<not> committing t" "disksize t = 100" "lhn t = 0"
proof -
  obtain t where t: "initlog pid 1 (log_boot 100 fresh_disk) = Ret t" "linv t" "lset t = {}" "hb t = {}" "lstart t = 2" "lsize t = 30"
    "outstanding t = 0" "\<not> committing t" "disksize t = 100"
    using initlog_spec [OF fresh_recoverable, of pid] by blast
  have "lhn t = 0" using t(3) linvD(5) [OF t(2)] lset_lhn [OF t(2)] by simp
  then show ?thesis using that t by blast
qed

theorem log_atomic_witness:
  "\<exists>s :: log. linv s \<and> lset s = {50} \<and> outstanding s = 1 \<and> \<not> committing s \<and> hb s = {} \<and>
    (\<exists>s' ws. end_op 1 s = Ret s' \<and> disk s' 50 = cur s 50 \<and> cur s 50 0 = 7 \<and> wlog s' = wlog s @ ws \<and>
      (\<forall>k d. crashes (disksize s) (put (take k ws) (disk s)) d \<longrightarrow>
        (\<exists>t. initlog 1 1 (log_boot (disksize s) d) = Ret t \<and> disk t 50 = (if k \<le> nat (lhn s) then disk s 50 else cur s 50))))"
proof -
  obtain t :: log where t: "linv t" "lset t = {}" "hb t = {}" "lstart t = 2" "lsize t = 30" "outstanding t = 0" "\<not> committing t" "disksize t = 100" "lhn t = 0"
    by (rule fresh_boot [of 1]) blast
  let ?u = "t\<lparr>outstanding := 1\<rparr>"
  have "linv ?u" "hb ?u = {}" "home (lstart ?u) (lsize ?u) (disksize ?u) 50" "outstanding ?u \<ge> 1" "lhn ?u < lsize ?u - 1"
    using t fresh_home [of 50] by (simp_all add: linv_def lset_def)
  from update_block_spec [OF this, of 1 "\<lambda>_. 7"]
  obtain s :: log where "linv s" "cur s = (cur ?u)(50 := \<lambda>_. 7)" "hb s = {}" "lset s = insert 50 (lset ?u)" "disksize s = disksize ?u"
      "lstart s = lstart ?u" "lsize s = lsize ?u" "outstanding s = outstanding ?u" "committing s = committing ?u" by blast
  then have s: "linv s" "cur s 50 = (\<lambda>_. 7)" "hb s = {}" "lset s = {50}" "lstart s = 2" "lsize s = 30" "outstanding s = 1" "\<not> committing s"
    using t by (simp_all add: lset_def)
  have "\<not> in_log (lstart s) (lsize s) 50" using s by (simp add: in_log_def)
  then show ?thesis using log_atomic [OF s(1,3,7,8), of 1] s by (intro exI [of _ s]) (simp, metis)
qed

section \<open>How many operations fit\<close>

fun updates :: "int \<Rightarrow> (u32 \<times> block) list \<Rightarrow> 'z log_scheme \<Rightarrow> 'z log_scheme res" where
  "updates pid [] s = Ret s"
| "updates pid ((b, y) # bs) s = rbind (update_block pid b y s) (updates pid bs)"

lemma update_full:
  assumes l: "linv s" and h: "hb s = {}" and b: "home (lstart s) (lsize s) (disksize s) b" and n: "lhn s \<ge> lsize s - 1"
  shows "update_block pid b y s = Panic ''too big a transaction''"
proof -
  have c: "card (lset s \<union> hb s) < NBUF" using lset_card [OF l] linvD(10) [OF l] h by simp
  have bs: "b < disksize s" "b \<notin> hb s" using b h by (simp_all add: home_def)
  obtain i t where t: "bread pid 1 b s = Ret (i, t)" "linv t" "holds pid t i b" "bcache.more t = bcache.more s"
    by (rule read_home [OF l bs c, of pid]) blast
  define u where "u = setbuf i (\<lambda>x. x\<lparr>bdata := y\<rparr>) t"
  have "bcache.more u = bcache.more s" using t(4) by (simp add: u_def)
  note m = log_more [OF this]
  have "logged pid i y t = Panic ''too big a transaction''" using n m by (simp add: logged_def log_write_def flip: u_def)
  then show ?thesis using t(1) linvD(2) [OF l] by (simp add: update_block_def)
qed

lemma updates_run:
  "linv s \<Longrightarrow> hb s = {} \<Longrightarrow> outstanding s \<ge> 1 \<Longrightarrow> distinct (map fst ws) \<Longrightarrow> lset s \<inter> fst ` set ws = {} \<Longrightarrow>
     (\<And>b. b \<in> fst ` set ws \<Longrightarrow> home (lstart s) (lsize s) (disksize s) b) \<Longrightarrow>
     if nat (lhn s) + length ws < nat (lsize s)
     then \<exists>s'. updates pid ws s = Ret s' \<and> linv s' \<and> hb s' = {} \<and> lhn s' = lhn s + int (length ws) \<and> cur s' = put ws (cur s) \<and>
       disk s' = disk s \<and> outstanding s' = outstanding s \<and> lsize s' = lsize s
     else updates pid ws s = Panic ''too big a transaction''"
proof (induction ws arbitrary: s)
  case Nil
  then show ?case using linvD(5,6) [of s] by auto
next
  case (Cons w ws)
  obtain b y where w: "w = (b, y)" by (cases w)
  have b: "home (lstart s) (lsize s) (disksize s) b" "b \<notin> lset s" using Cons.prems(5,6) w by auto
  show ?case
  proof (cases "lhn s < lsize s - 1")
    case False
    then show ?thesis using update_full [OF Cons.prems(1,2) b(1), of pid y] w linvD(5,6) [OF Cons.prems(1)] by simp
  next
    case True
    obtain s1 where s1: "update_block pid b y s = Ret s1" "linv s1" "cur s1 = (cur s)(b := y)" "disk s1 = disk s" "hb s1 = {}" "lset s1 = insert b (lset s)"
        "disksize s1 = disksize s" "lstart s1 = lstart s" "lsize s1 = lsize s" "outstanding s1 = outstanding s"
      using update_block_spec [OF Cons.prems(1,2) b(1) Cons.prems(3) True, of pid y] by blast
    have "finite (lset s)" by (simp add: lset_def)
    then have "nat (lhn s1) = Suc (nat (lhn s))" using lset_lhn [OF s1(2)] lset_lhn [OF Cons.prems(1)] b(2) s1(6) by simp
    then have n: "lhn s1 = lhn s + 1" using linvD(5) [OF Cons.prems(1)] by linarith
    have "if nat (lhn s1) + length ws < nat (lsize s1)
     then \<exists>s'. updates pid ws s1 = Ret s' \<and> linv s' \<and> hb s' = {} \<and> lhn s' = lhn s1 + int (length ws) \<and> cur s' = put ws (cur s1) \<and>
       disk s' = disk s1 \<and> outstanding s' = outstanding s1 \<and> lsize s' = lsize s1
     else updates pid ws s1 = Panic ''too big a transaction''"
      by (rule Cons.IH) (use s1 Cons.prems w in auto)
    then show ?thesis using s1 n w linvD(5) [OF Cons.prems(1)] by (simp add: nat_add_distrib add.assoc split: if_splits)
  qed
qed

text \<open>C33. The reservation of \<^verbatim>\<open>begin_op\<close> is too generous for the log that \<^verbatim>\<open>mkfs.c\<close> makes (30 blocks with
  the header): from an empty log three operations are admitted, 10 blocks each, and if they write
  30 different blocks the kernel panics at the last one. Up to 29 blocks, every write is accepted
  and readers see it, while the disk does not change before the commit.\<close>

theorem log_capacity:
  assumes "linv s" and "hb s = {}" and "lhn s = 0" and "outstanding s = 0" and "\<not> committing s" and "lsize s = 30"
    and "distinct (map fst ws)" and "\<forall>b \<in> fst ` set ws. home (lstart s) (lsize s) (disksize s) b"
  shows "\<exists>s1 s2 s3. begin_op s = (True, s1) \<and> begin_op s1 = (True, s2) \<and> begin_op s2 = (True, s3) \<and>
    (length ws = 30 \<longrightarrow> updates pid ws s3 = Panic ''too big a transaction'') \<and>
    (length ws < 30 \<longrightarrow> (\<exists>s'. updates pid ws s3 = Ret s' \<and> linv s' \<and> cur s' = put ws (cur s) \<and> disk s' = disk s))"
proof -
  have b: "begin_op s = (True, s\<lparr>outstanding := 1\<rparr>)" "begin_op (s\<lparr>outstanding := 1\<rparr>) = (True, s\<lparr>outstanding := 2\<rparr>)"
    "begin_op (s\<lparr>outstanding := 2\<rparr>) = (True, s\<lparr>outstanding := 3\<rparr>)"
    using assms by (simp_all add: begin_op_def LOGSIZE_def MAXOPBLOCKS_def)
  let ?u = "s\<lparr>outstanding := 3\<rparr>"
  have e: "lset ?u = {}" using assms(3) by (simp add: lset_def)
  have "if nat (lhn ?u) + length ws < nat (lsize ?u)
     then \<exists>s'. updates pid ws ?u = Ret s' \<and> linv s' \<and> hb s' = {} \<and> lhn s' = lhn ?u + int (length ws) \<and> cur s' = put ws (cur ?u) \<and>
       disk s' = disk ?u \<and> outstanding s' = outstanding ?u \<and> lsize s' = lsize ?u
     else updates pid ws ?u = Panic ''too big a transaction''"
    by (rule updates_run) (use assms e in \<open>auto simp: linv_def lset_def\<close>)
  then show ?thesis using b assms(3,6) by (auto split: if_splits)
qed

theorem log_capacity_witness:
  "\<exists>(s :: log) s1 s2 s3. linv s \<and> lhn s = 0 \<and> begin_op s = (True, s1) \<and> begin_op s1 = (True, s2) \<and> begin_op s2 = (True, s3) \<and>
    updates 1 (map (\<lambda>k. (of_nat k, \<lambda>_. 1)) [40..<70]) s3 = Panic ''too big a transaction''"
proof -
  obtain t :: log where t: "linv t" "hb t = {}" "lstart t = 2" "lsize t = 30" "outstanding t = 0" "\<not> committing t" "disksize t = 100" "lhn t = 0"
    by (rule fresh_boot [of 1]) blast
  let ?ws = "map (\<lambda>k. (of_nat k :: u32, \<lambda>_. 1 :: u8)) [40..<70]"
  have u: "unat (of_nat k :: u32) = k" if "k < 100" for k using that by (simp add: unsigned_of_nat take_bit_nat_eq_self)
  have "distinct (map fst ?ws)"
    by (simp add: distinct_map comp_def)
  moreover have "\<forall>b \<in> fst ` set ?ws. home (lstart t) (lsize t) (disksize t) b"
    using u t by (auto intro!: fresh_home simp: word_le_nat_alt word_less_nat_alt)
  ultimately show ?thesis using log_capacity [OF t(1,2,8,5,6,4), of ?ws 1] t(1,8) by fastforce
qed

end
