(* ===== verification/Fs_Alloc.thy ===== *)
theory Fs_Alloc
  imports Log_Crash
begin

text \<open>
  The block allocator of \<^verbatim>\<open>fs.c\<close>: a bit map on the disk, read through the buffer cache and changed
  through the log. The global \<^verbatim>\<open>sb\<close> is an argument, as the bytes of the super block with its fields
  at the offsets of \<^verbatim>\<open>struct superblock\<close>. The loops over blocks and bits count in \<^typ>\<open>nat\<close>: a file
  system has less than \<open>2 ^ 31\<close> blocks, so that the \<^verbatim>\<open>int\<close> counters of the code do not overflow.
\<close>

section \<open>Super block and bit map\<close>

definition sb_size :: "block \<Rightarrow> u32" where "sb_size sb = load32 sb 0"
definition sb_ninodes :: "block \<Rightarrow> u32" where "sb_ninodes sb = load32 sb 8"
definition sb_inodestart :: "block \<Rightarrow> u32" where "sb_inodestart sb = load32 sb 20"
definition sb_bmapstart :: "block \<Rightarrow> u32" where "sb_bmapstart sb = load32 sb 24"

definition BPB :: nat where "BPB = 512 * 8"

definition BBLOCK :: "nat \<Rightarrow> block \<Rightarrow> u32" where
  "BBLOCK b sb = of_nat (b div BPB) + sb_bmapstart sb"

definition bit_in :: "block \<Rightarrow> nat \<Rightarrow> bool" where
  "bit_in d bi \<longleftrightarrow> d (of_nat (bi div 8)) AND push_bit (bi mod 8) 1 \<noteq> 0"

definition mark_bit :: "nat \<Rightarrow> block \<Rightarrow> block" where
  "mark_bit bi d = d(of_nat (bi div 8) := d (of_nat (bi div 8)) OR push_bit (bi mod 8) 1)"

definition clear_bit :: "nat \<Rightarrow> block \<Rightarrow> block" where
  "clear_bit bi d = d(of_nat (bi div 8) := d (of_nat (bi div 8)) AND NOT (push_bit (bi mod 8) 1))"

section \<open>Blocks\<close>

definition bzero :: "int \<Rightarrow> u32 \<Rightarrow> u32 \<Rightarrow> 'z log_scheme \<Rightarrow> 'z log_scheme res" where
  "bzero pid dev blockno s =
     rbind (bread pid dev blockno s) (\<lambda>(bp, s).
       rbind (log_write bp (setbuf bp (\<lambda>b. b\<lparr>bdata := mem_set (bdata b) 0 0 BSIZE\<rparr>) s)) (brelse pid bp))"

fun balloc_loop :: "int \<Rightarrow> u32 \<Rightarrow> block \<Rightarrow> nat list \<Rightarrow> 'z log_scheme \<Rightarrow> (u32 \<times> 'z log_scheme) res" where
  "balloc_loop pid dev sb [] s = Panic ''balloc: out of blocks''"
| "balloc_loop pid dev sb (b # bs) s =
     rbind (bread pid dev (BBLOCK b sb) s) (\<lambda>(bp, s).
       case find (\<lambda>bi. b + bi < unat (sb_size sb) \<and> \<not> bit_in (bdata (bufs s ! bp)) bi) [0..<BPB] of
         Some bi \<Rightarrow>
           rbind (log_write bp (setbuf bp (\<lambda>x. x\<lparr>bdata := mark_bit bi (bdata x)\<rparr>) s)) (\<lambda>s.
             rbind (brelse pid bp s) (\<lambda>s.
               rbind (bzero pid dev (of_nat (b + bi)) s) (\<lambda>s. Ret (of_nat (b + bi), s))))
       | None \<Rightarrow> rbind (brelse pid bp s) (balloc_loop pid dev sb bs))"

definition balloc :: "int \<Rightarrow> u32 \<Rightarrow> block \<Rightarrow> 'z log_scheme \<Rightarrow> (u32 \<times> 'z log_scheme) res" where
  "balloc pid dev sb s =
     balloc_loop pid dev sb (map (\<lambda>k. k * BPB) [0..<(unat (sb_size sb) + BPB - 1) div BPB]) s"

definition bfree :: "int \<Rightarrow> u32 \<Rightarrow> block \<Rightarrow> u32 \<Rightarrow> 'z log_scheme \<Rightarrow> 'z log_scheme res" where
  "bfree pid dev sb b s =
     rbind (bread pid dev (BBLOCK (unat b) sb) s) (\<lambda>(bp, s).
       let bi = unat b mod BPB
       in if \<not> bit_in (bdata (bufs s ! bp)) bi then Panic ''freeing free block''
          else rbind (log_write bp (setbuf bp (\<lambda>x. x\<lparr>bdata := clear_bit bi (bdata x)\<rparr>) s)) (brelse pid bp))"

section \<open>Bits\<close>

lemma bit_in_bit: "bit_in d bi \<longleftrightarrow> bit (d (of_nat (bi div 8))) (bi mod 8)"
  by (simp only: bit_in_def bit_iff_and_push_bit_not_eq_0)

lemma byte_index: "bi < BPB \<Longrightarrow> bj < BPB \<Longrightarrow> (of_nat (bi div 8) :: u32) = of_nat (bj div 8) \<longleftrightarrow> bi div 8 = bj div 8"
proof -
  assume "bi < BPB" "bj < BPB"
  then have "bi div 8 < 512" "bj div 8 < 512" by (simp_all add: BPB_def)
  then show ?thesis by (simp add: word_unat_eq_iff unsigned_of_nat take_bit_nat_eq_self)
qed

lemma mark_bit_in: "bi < BPB \<Longrightarrow> bj < BPB \<Longrightarrow> bit_in (mark_bit bi d) bj \<longleftrightarrow> bj = bi \<or> bit_in d bj"
proof -
  assume b: "bi < BPB" "bj < BPB"
  have e: "bj = bi \<longleftrightarrow> bj div 8 = bi div 8 \<and> bj mod 8 = bi mod 8" by (metis div_mult_mod_eq)
  have m: "bj mod 8 < 8" by simp
  show ?thesis using byte_index [OF b] m
    by (cases "bj div 8 = bi div 8") (auto simp: bit_in_bit mark_bit_def e bit_or_iff bit_push_bit_iff bit_1_iff bit_exp_iff)
qed

lemma clear_bit_in: "bi < BPB \<Longrightarrow> bj < BPB \<Longrightarrow> bit_in (clear_bit bi d) bj \<longleftrightarrow> bj \<noteq> bi \<and> bit_in d bj"
proof -
  assume b: "bi < BPB" "bj < BPB"
  have e: "bj = bi \<longleftrightarrow> bj div 8 = bi div 8 \<and> bj mod 8 = bi mod 8" by (metis div_mult_mod_eq)
  have m: "bj mod 8 < 8" by simp
  show ?thesis using byte_index [OF b] m
    by (cases "bj div 8 = bi div 8") (auto simp: bit_in_bit clear_bit_def e bit_and_iff bit_not_iff bit_push_bit_iff bit_1_iff bit_exp_iff)
qed

section \<open>Allocation\<close>

text \<open>\<open>bitmap sb s b\<close>: block \<open>b\<close> is in use. Free blocks are data blocks.\<close>

definition bitmap :: "block \<Rightarrow> 'z log_scheme \<Rightarrow> nat \<Rightarrow> bool" where
  "bitmap sb s b \<longleftrightarrow> bit_in (cur s (BBLOCK b sb)) (b mod BPB)"

abbreviation home_of :: "'z log_scheme \<Rightarrow> u32 \<Rightarrow> bool" where
  "home_of s \<equiv> home (lstart s) (lsize s) (disksize s)"

definition map_block :: "block \<Rightarrow> u32 \<Rightarrow> bool" where
  "map_block sb c \<longleftrightarrow> (\<exists>b < unat (sb_size sb). c = BBLOCK b sb)"

definition alloc_ok :: "block \<Rightarrow> 'z log_scheme \<Rightarrow> bool" where
  "alloc_ok sb s \<longleftrightarrow> linv s \<and> (\<forall>b < unat (sb_size sb). home_of s (BBLOCK b sb) \<and>
     (\<not> bitmap sb s b \<longrightarrow> home_of s (of_nat b) \<and> \<not> map_block sb (of_nat b)))"

lemma BBLOCK_eq: "b < unat (sb_size sb) \<Longrightarrow> c < unat (sb_size sb) \<Longrightarrow> BBLOCK b sb = BBLOCK c sb \<longleftrightarrow> b div BPB = c div BPB"
proof -
  assume "b < unat (sb_size sb)" "c < unat (sb_size sb)"
  then have "b < 2 ^ 32" "c < 2 ^ 32" using unsigned_less [of "sb_size sb", where ?'a = nat] by simp_all
  then have "b div BPB < 2 ^ 32" "c div BPB < 2 ^ 32" by (auto intro: le_less_trans [OF div_le_dividend])
  then have "(of_nat (b div BPB) :: u32) = of_nat (c div BPB) \<longleftrightarrow> b div BPB = c div BPB"
    by (simp add: word_unat_eq_iff unsigned_of_nat take_bit_nat_eq_self)
  then show ?thesis by (simp add: BBLOCK_def)
qed

lemma rbind_assoc: "rbind (rbind m f) g = rbind m (\<lambda>x. rbind (f x) g)"
  by (cases m) simp_all

lemma setbuf_data: "setbuf i (\<lambda>x. x\<lparr>bdata := f (bdata x)\<rparr>) s = setbuf i (\<lambda>x. x\<lparr>bdata := f (bdata (bufs s ! i))\<rparr>) s"
  by (simp add: setbuf_def)

text \<open>Reading a block and giving it back changes nothing that can be seen.\<close>

definition unseen :: "int \<Rightarrow> 'z log_scheme \<Rightarrow> 'z log_scheme \<Rightarrow> bool" where
  "unseen pid s t \<longleftrightarrow> linv t \<and> cur t = cur s \<and> disk t = disk s \<and> wlog t = wlog s \<and> hb t = hb s \<and> disksize t = disksize s \<and>
     bcache.more t = bcache.more s \<and> (\<forall>j c. holds pid s j c \<longrightarrow> holds pid t j c)"

lemma unseenD:
  assumes "unseen pid s t"
  shows "linv t" "cur t = cur s" "disk t = disk s" "wlog t = wlog s" "hb t = hb s" "disksize t = disksize s"
    "lstart t = lstart s" "lsize t = lsize s" "outstanding t = outstanding s" "lhn t = lhn s" "lset t = lset s" "bcache.more t = bcache.more s"
    "holds pid s j c \<Longrightarrow> holds pid t j c" "bitmap sb t = bitmap sb s" "committing t = committing s" "log.more t = log.more s"
  using assms log_more [of t s] by (simp_all add: unseen_def lset_def bitmap_def [abs_def])

lemma read_release:
  assumes l: "linv s" and b: "b < disksize s" "b \<notin> hb s" and c: "card (lset s \<union> hb s) < NBUF"
  obtains i t u where "bread pid 1 b s = Ret (i, t)" "bdata (bufs t ! i) = cur s b" "brelse pid i t = Ret u" "unseen pid s u"
    "linv t" "holds pid t i b" "cur t = cur s" "lstart t = lstart s" "lsize t = lsize s" "disksize t = disksize s" "outstanding t = outstanding s" "lhn t = lhn s"
    "hb t = insert b (hb s)" "\<And>j c. holds pid s j c \<Longrightarrow> holds pid t j c" "lset t = lset s" "disk t = disk s" "wlog t = wlog s"
    "committing t = committing s" "log.more t = log.more s"
proof (rule read_home [OF l b c, of pid])
  fix i t assume t: "bread pid 1 b s = Ret (i, t)" "linv t" "holds pid t i b" "hb t = insert b (hb s)"
    "cur t = cur s" "disk t = disk s" "wlog t = wlog s" "disksize t = disksize s" "bcache.more t = bcache.more s" "lset t = lset s"
    "\<And>j c. holds pid s j c \<Longrightarrow> holds pid t j c"
  note m = log_more [OF t(9)]
  have "b \<in> dirt t \<or> cur t b = disk t b" using linvD(10,11) [OF t(2)] by auto
  then obtain u where u: "brelse pid i t = Ret u" "bok u" "view u = (cur t, disk t, dirt t, hb t - {b}, wlog t, disksize t, bcache.more t)"
      "\<And>j c. holds pid t j c \<Longrightarrow> c \<noteq> b \<Longrightarrow> holds pid u j c"
    by (rule brelse_holds [OF linvD(1) [OF t(2)] t(3)]) blast
  note v = viewD [OF u(3)]
  note mu = log_more [OF v(7)]
  have lu: "linv u" by (rule linv_cong [OF t(2) u(2)]) (simp_all add: v mu)
  have "holds pid u j c" if "holds pid s j c" for j c
  proof (rule u(4))
    show "holds pid t j c" using t(11) [OF that] .
    show "c \<noteq> b" using holdsD [OF that] b(2) by auto
  qed
  then have un: "unseen pid s u" using lu v t(4-9) b(2) by (auto simp: unseen_def)
  show thesis by (rule that [OF t(1) _ u(1) un t(2,3)]) (use t m holdsD [OF t(3)] in auto)
qed

text \<open>A block that is read, changed and logged.\<close>

definition wrote :: "int \<Rightarrow> 'z log_scheme \<Rightarrow> u32 \<Rightarrow> block \<Rightarrow> 'z log_scheme \<Rightarrow> bool" where
  "wrote pid s b y t \<longleftrightarrow> linv t \<and> cur t = (cur s)(b := y) \<and> disk t = disk s \<and> wlog t = wlog s \<and> hb t = hb s \<and> disksize t = disksize s \<and>
     lset t = insert b (lset s) \<and> lhn t \<le> lhn s + 1 \<and> log.more t = log.more s \<and> lstart t = lstart s \<and> lsize t = lsize s \<and>
     outstanding t = outstanding s \<and> committing t = committing s \<and> (\<forall>j c. holds pid s j c \<longrightarrow> holds pid t j c)"

lemma read_change:
  assumes l: "linv s" and b: "home_of s b" "b \<notin> hb s" and c: "card (lset s \<union> hb s) < NBUF"
    and o: "outstanding s \<ge> 1" and n: "lhn s < lsize s - 1"
  obtains i t u where "bread pid 1 b s = Ret (i, t)" "bdata (bufs t ! i) = cur s b" "logged pid i y t = Ret u" "wrote pid s b y u"
proof -
  have bs: "b < disksize s" using b(1) by (simp add: home_def)
  obtain i t where t: "bread pid 1 b s = Ret (i, t)" "bdata (bufs t ! i) = cur s b"
    "linv t" "holds pid t i b" "cur t = cur s" "lstart t = lstart s" "lsize t = lsize s" "disksize t = disksize s" "outstanding t = outstanding s" "lhn t = lhn s"
    "hb t = insert b (hb s)" "\<And>j c. holds pid s j c \<Longrightarrow> holds pid t j c" "lset t = lset s" "disk t = disk s" "wlog t = wlog s"
    "committing t = committing s" "log.more t = log.more s"
    by (rule read_release [OF l bs b(2) c, of pid]) blast
  have "home_of t b" "outstanding t \<ge> 1" "lhn t < lsize t - 1" using b(1) o n t by simp_all
  from logged_spec [OF t(3,4) this, of y] obtain u where u: "logged pid i y t = Ret u" "linv u" "cur u = (cur t)(b := y)" "disk u = disk t" "wlog u = wlog t"
    "hb u = hb t - {b}" "lset u = insert b (lset t)" "lhn u \<le> lhn t + 1" "disksize u = disksize t" "log.more u = log.more t" "lstart u = lstart t" "lsize u = lsize t"
    "outstanding u = outstanding t" "committing u = committing t" "\<And>j c. holds pid t j c \<Longrightarrow> c \<noteq> b \<Longrightarrow> holds pid u j c" by blast
  have "holds pid u j c" if "holds pid s j c" for j c
    using u(15) [OF t(12) [OF that]] holdsD [OF that] b(2) by auto
  then have "wrote pid s b y u" using u t b(2) by (auto simp: wrote_def)
  then show ?thesis using that [OF t(1,2) u(1)] by blast
qed

definition room_for :: "'z log_scheme \<Rightarrow> nat \<Rightarrow> bool" where
  "room_for s k \<longleftrightarrow> lhn s + int k < lsize s \<and> nat (lhn s) + k + card (hb s) \<le> NBUF \<and> outstanding s \<ge> 1"

text \<open>The caller holds no bit map block and no free block.\<close>

definition hb_ok :: "block \<Rightarrow> 'z log_scheme \<Rightarrow> bool" where
  "hb_ok sb s \<longleftrightarrow> (\<forall>c \<in> hb s. \<not> map_block sb c \<and> (\<forall>b < unat (sb_size sb). c = of_nat b \<longrightarrow> bitmap sb s b))"

lemma use_card: "linv s \<Longrightarrow> card (lset s \<union> hb s) \<le> nat (lhn s) + card (hb s)"
  using card_Un_le [of "lset s" "hb s"] lset_lhn [of s] by simp

lemma room_card: "linv s \<Longrightarrow> room_for s (Suc k) \<Longrightarrow> card (lset s \<union> hb s) < NBUF \<and> lhn s < lsize s - 1 \<and> outstanding s \<ge> 1"
  using use_card [of s] by (auto simp: room_for_def)

lemma wroteD:
  assumes "wrote pid s b y t"
  shows "linv t" "cur t = (cur s)(b := y)" "disk t = disk s" "wlog t = wlog s" "hb t = hb s" "disksize t = disksize s"
     "lset t = insert b (lset s)" "lhn t \<le> lhn s + 1" "log.more t = log.more s" "lstart t = lstart s" "lsize t = lsize s"
     "outstanding t = outstanding s" "committing t = committing s" "holds pid s j c \<Longrightarrow> holds pid t j c"
  using assms by (simp_all add: wrote_def)

lemma room_wrote: "wrote pid s b y t \<Longrightarrow> linv s \<Longrightarrow> room_for s (Suc k) \<Longrightarrow> room_for t k"
  using wroteD [of pid s b y t] linvD(5) [of s] linvD(5) [of t] by (auto simp: room_for_def)

lemma bzero_spec:
  assumes l: "linv s" and b: "home_of s b" "b \<notin> hb s" and r: "room_for s (Suc k)"
  obtains t where "bzero pid 1 b s = Ret t" "wrote pid s b (mem_set (cur s b) 0 0 BSIZE) t"
proof -
  note rc = room_card [OF l r]
  obtain i t u where t: "bread pid 1 b s = Ret (i, t)" "bdata (bufs t ! i) = cur s b" "logged pid i (mem_set (cur s b) 0 0 BSIZE) t = Ret u"
      "wrote pid s b (mem_set (cur s b) 0 0 BSIZE) u"
    by (rule read_change [OF l b, of pid "mem_set (cur s b) 0 0 BSIZE"]) (use rc in blast)+
  have "bzero pid 1 b s = Ret u"
    using t(1,3) setbuf_data [of i "\<lambda>d. mem_set d 0 0 BSIZE" t] by (simp add: bzero_def logged_def t(2))
  then show ?thesis using that t(4) by blast
qed

lemma chunk: "BPB dvd b \<Longrightarrow> bi < BPB \<Longrightarrow> BBLOCK (b + bi) sb = BBLOCK b sb \<and> (b + bi) mod BPB = bi"
  by (auto simp: BBLOCK_def elim!: dvdE)

definition took :: "int \<Rightarrow> block \<Rightarrow> 'z log_scheme \<Rightarrow> nat \<Rightarrow> 'z log_scheme \<Rightarrow> bool" where
  "took pid sb s c s' \<longleftrightarrow> (\<exists>t. wrote pid s (BBLOCK c sb) (mark_bit (c mod BPB) (cur s (BBLOCK c sb))) t \<and>
     wrote pid t (of_nat c) (mem_set (cur s (of_nat c)) 0 0 BSIZE) s')"

lemma unseen_alloc:
  assumes u: "unseen pid s t" and s: "alloc_ok sb s" "room_for s k" "hb_ok sb s"
  shows "alloc_ok sb t" "room_for t k" "hb_ok sb t"
  using s unseenD [OF u] by (simp_all add: alloc_ok_def room_for_def hb_ok_def)

lemma unseen_wrote: "unseen pid s t \<Longrightarrow> wrote pid t b y u \<Longrightarrow> wrote pid s b y u"
  using unseenD [of pid s t] by (simp add: wrote_def)

lemma unseen_took: "unseen pid s t \<Longrightarrow> took pid sb t c u \<Longrightarrow> took pid sb s c u"
  unfolding took_def using unseenD(2) [of pid s t] unseen_wrote by metis

lemma balloc_loop_spec:
  "alloc_ok sb s \<Longrightarrow> room_for s 2 \<Longrightarrow> hb_ok sb s \<Longrightarrow> (\<And>b. b \<in> set bs \<Longrightarrow> b < unat (sb_size sb) \<and> BPB dvd b) \<Longrightarrow>
     (if \<exists>b \<in> set bs. \<exists>bi < BPB. b + bi < unat (sb_size sb) \<and> \<not> bitmap sb s (b + bi)
      then \<exists>c s'. balloc_loop pid 1 sb bs s = Ret (of_nat c, s') \<and> c < unat (sb_size sb) \<and> \<not> bitmap sb s c \<and> took pid sb s c s'
      else balloc_loop pid 1 sb bs s = Panic ''balloc: out of blocks'')"
proof (induction bs arbitrary: s)
  case (Cons b bs)
  let ?N = "unat (sb_size sb)" and ?B = "BBLOCK b sb"
  have b: "b < ?N" "BPB dvd b" using Cons.prems(4) by auto
  have l: "linv s" using Cons.prems(1) by (simp add: alloc_ok_def)
  have hB: "home_of s ?B" "?B \<notin> hb s" using Cons.prems(1,3) b(1) by (auto simp: alloc_ok_def hb_ok_def map_block_def)
  have r: "room_for s (Suc 1)" using Cons.prems(2) by (simp add: numeral_2_eq_2)
  note rc = room_card [OF l r]
  have bd: "?B < disksize s" using hB(1) by (simp add: home_def)
  show ?case
  proof (cases "find (\<lambda>bi. b + bi < ?N \<and> \<not> bit_in (cur s ?B) bi) [0..<BPB]")
    case None
    obtain i t u where t: "bread pid 1 ?B s = Ret (i, t)" "bdata (bufs t ! i) = cur s ?B" "brelse pid i t = Ret u" "unseen pid s u"
      by (rule read_release [OF l bd hB(2) conjunct1 [OF rc], of pid]) (rule that)
    have none: "\<not> (b + bi < ?N \<and> \<not> bitmap sb s (b + bi))" if "bi < BPB" for bi
      using None that chunk [OF b(2) that, of sb] by (auto simp: find_None_iff bitmap_def)
    have e: "balloc_loop pid 1 sb (b # bs) s = balloc_loop pid 1 sb bs u" using t(1,3) None by (simp add: t(2))
    have "if \<exists>b \<in> set bs. \<exists>bi < BPB. b + bi < ?N \<and> \<not> bitmap sb u (b + bi)
      then \<exists>c s'. balloc_loop pid 1 sb bs u = Ret (of_nat c, s') \<and> c < ?N \<and> \<not> bitmap sb u c \<and> took pid sb u c s'
      else balloc_loop pid 1 sb bs u = Panic ''balloc: out of blocks''"
      by (rule Cons.IH [OF unseen_alloc [OF t(4) Cons.prems(1-3)]]) (use Cons.prems(4) in simp)
    note ih = this [unfolded unseenD(14) [OF t(4)]]
    show ?thesis
    proof (cases "\<exists>b \<in> set bs. \<exists>bi < BPB. b + bi < ?N \<and> \<not> bitmap sb s (b + bi)")
      case True
      then show ?thesis using ih unseen_took [OF t(4)] unfolding e by (simp only: if_True) fastforce
    next
      case False
      then show ?thesis using ih none unfolding e by auto
    qed
  next
    case (Some bi)
    have bi: "bi < BPB" "b + bi < ?N" "\<not> bit_in (cur s ?B) bi" using find_SomeD [OF Some] by auto
    note ch = chunk [OF b(2) bi(1), of sb]
    let ?c = "b + bi" and ?y = "mark_bit bi (cur s ?B)"
    have free: "\<not> bitmap sb s ?c" using bi(3) ch by (simp add: bitmap_def)
    then have hc: "home_of s (of_nat ?c)" "\<not> map_block sb (of_nat ?c)" "of_nat ?c \<notin> hb s"
      using Cons.prems(1,3) bi(2) by (auto simp: alloc_ok_def hb_ok_def)
    obtain i t u where t: "bread pid 1 ?B s = Ret (i, t)" "bdata (bufs t ! i) = cur s ?B" "logged pid i ?y t = Ret u" "wrote pid s ?B ?y u"
      by (rule read_change [OF l hB, of pid ?y]) (use rc in blast)+
    note w = wroteD [OF t(4)]
    have "of_nat ?c \<noteq> ?B" using hc(2) b(1) by (auto simp: map_block_def)
    then have cu: "cur u (of_nat ?c) = cur s (of_nat ?c)" by (simp add: w del: of_nat_add)
    have hu: "home_of u (of_nat ?c)" "of_nat ?c \<notin> hb u" using hc w by (simp_all del: of_nat_add)
    have "room_for u (Suc 0)" using room_wrote [OF t(4) l r] by simp
    then obtain v where v: "bzero pid 1 (of_nat ?c) u = Ret v" "wrote pid u (of_nat ?c) (mem_set (cur u (of_nat ?c)) 0 0 BSIZE) v"
      using bzero_spec [OF w(1) hu] by blast
    have e: "balloc_loop pid 1 sb (b # bs) s = Ret (of_nat ?c, v)"
      using t(1,3) v(1) Some setbuf_data [of i "mark_bit bi" t]
      by (simp add: t(2) logged_def rbind_assoc [symmetric] del: of_nat_add)
    have "took pid sb s ?c v" unfolding took_def using t(4) v(2) ch cu by (simp del: of_nat_add) blast
    then show ?thesis using e free bi(1,2) by (auto simp del: of_nat_add balloc_loop.simps)
  qed
qed simp

lemma size_2p32: "b < unat (sb_size sb) \<Longrightarrow> b < 2 ^ 32"
  using unsigned_less [of "sb_size sb", where ?'a = nat] by simp

lemma unat_block: "b < unat (sb_size sb) \<Longrightarrow> unat (of_nat b :: u32) = b"
  using size_2p32 [of b sb] by (simp add: unsigned_of_nat take_bit_nat_eq_self)

lemma balloc_spec:
  assumes s: "alloc_ok sb s" "room_for s 2" "hb_ok sb s"
  shows "if \<exists>b < unat (sb_size sb). \<not> bitmap sb s b
    then \<exists>c s'. balloc pid 1 sb s = Ret (of_nat c, s') \<and> c < unat (sb_size sb) \<and> \<not> bitmap sb s c \<and> took pid sb s c s'
    else balloc pid 1 sb s = Panic ''balloc: out of blocks''"
proof -
  let ?N = "unat (sb_size sb)"
  let ?bs = "map (\<lambda>k. k * BPB) [0..<(?N + BPB - 1) div BPB]"
  have p: "0 < BPB" by (simp add: BPB_def)
  have bs: "b < ?N \<and> BPB dvd b" if b: "b \<in> set ?bs" for b
  proof -
    obtain k where k: "k < (?N + BPB - 1) div BPB" "b = k * BPB" using b unfolding set_map set_upt by (elim imageE) simp
    then have "Suc k * BPB \<le> ?N + BPB - 1" using p k(1) by (metis Suc_leI less_eq_div_iff_mult_less_eq)
    then show ?thesis using k p by auto
  qed
  have all: "(\<exists>b \<in> set ?bs. \<exists>bi < BPB. b + bi < ?N \<and> \<not> bitmap sb s (b + bi)) \<longleftrightarrow> (\<exists>b < ?N. \<not> bitmap sb s b)"
  proof
    assume "\<exists>b < ?N. \<not> bitmap sb s b"
    then obtain b where b: "b < ?N" "\<not> bitmap sb s b" by blast
    have e: "b div BPB * BPB + b mod BPB = b" by simp
    have "Suc (b div BPB) * BPB \<le> ?N + BPB - 1" using b(1) e p by (simp only: mult_Suc)
    then have "b div BPB < (?N + BPB - 1) div BPB" using p by (metis Suc_le_eq less_eq_div_iff_mult_less_eq)
    then have "b div BPB * BPB \<in> set ?bs" by auto
    moreover have "b mod BPB < BPB" using p by simp
    ultimately show "\<exists>b \<in> set ?bs. \<exists>bi < BPB. b + bi < ?N \<and> \<not> bitmap sb s (b + bi)" using b e by metis
  qed blast
  show ?thesis using balloc_loop_spec [OF s, of ?bs pid, OF bs] unfolding all balloc_def .
qed

lemma took_facts:
  assumes s: "alloc_ok sb s" "hb_ok sb s" and c: "c < unat (sb_size sb)" "\<not> bitmap sb s c" and t: "took pid sb s c s'"
  shows "alloc_ok sb s'" "b < unat (sb_size sb) \<Longrightarrow> bitmap sb s' b \<longleftrightarrow> b = c \<or> bitmap sb s b" "hb_ok sb s'"
    "cur s' (of_nat c) = mem_set (cur s (of_nat c)) 0 0 BSIZE" "\<not> map_block sb x \<Longrightarrow> x \<noteq> of_nat c \<Longrightarrow> cur s' x = cur s x"
    "hb s' = hb s" "disk s' = disk s" "wlog s' = wlog s" "disksize s' = disksize s" "lstart s' = lstart s" "lsize s' = lsize s" "lhn s' \<le> lhn s + 2"
    "outstanding s' = outstanding s" "committing s' = committing s" "log.more s' = log.more s" "holds pid s j x \<Longrightarrow> holds pid s' j x"
proof -
  let ?B = "BBLOCK c sb" and ?y = "mark_bit (c mod BPB) (cur s (BBLOCK c sb))"
  obtain u where u: "wrote pid s ?B ?y u" "wrote pid u (of_nat c) (mem_set (cur s (of_nat c)) 0 0 BSIZE) s'" using t by (auto simp: took_def)
  note w = wroteD [OF u(1)] and v = wroteD [OF u(2)]
  have l: "linv s" and nm: "\<not> map_block sb (of_nat c)" using s(1) c by (auto simp: alloc_ok_def)
  have mb: "map_block sb (BBLOCK b sb)" if "b < unat (sb_size sb)" for b using that by (auto simp: map_block_def)
  show cc: "cur s' (of_nat c) = mem_set (cur s (of_nat c)) 0 0 BSIZE" by (simp add: v)
  show co: "cur s' x = cur s x" if "\<not> map_block sb x" "x \<noteq> of_nat c" for x using that mb [OF c(1)] by (auto simp: v w)
  have cb: "cur s' (BBLOCK b sb) = (if BBLOCK b sb = ?B then ?y else cur s (BBLOCK b sb))" if "b < unat (sb_size sb)" for b
    using mb [OF that] nm by (auto simp: v w)
  show bm: "bitmap sb s' b \<longleftrightarrow> b = c \<or> bitmap sb s b" if b: "b < unat (sb_size sb)" for b
  proof (cases "b div BPB = c div BPB")
    case True
    then have e: "BBLOCK b sb = ?B" using BBLOCK_eq [OF b c(1)] by simp
    have "b mod BPB < BPB" "c mod BPB < BPB" by (simp_all add: BPB_def)
    then have "bitmap sb s' b \<longleftrightarrow> b mod BPB = c mod BPB \<or> bitmap sb s b"
      using cb [OF b] mark_bit_in by (simp add: bitmap_def e)
    then show ?thesis using True by (metis div_mult_mod_eq)
  next
    case False
    then have "BBLOCK b sb \<noteq> ?B" using BBLOCK_eq [OF b c(1)] by simp
    then show ?thesis using cb [OF b] False by (auto simp: bitmap_def)
  qed
  show "alloc_ok sb s'" using s(1) bm v w by (simp add: alloc_ok_def)
  show "hb_ok sb s'" using s(2) bm v w by (simp add: hb_ok_def)
  show "holds pid s' j x" if "holds pid s j x" for j x by (rule v(14), rule w(14), rule that)
  show "hb s' = hb s" "disk s' = disk s" "wlog s' = wlog s" "disksize s' = disksize s" "lstart s' = lstart s" "lsize s' = lsize s" "lhn s' \<le> lhn s + 2"
    "outstanding s' = outstanding s" "committing s' = committing s" "log.more s' = log.more s"
    using w(8) v(8) by (simp_all add: v(3-6,9-13) w(3-6,9-13))
qed

lemma bfree_spec:
  assumes s: "alloc_ok sb s" "room_for s (Suc k)" "hb_ok sb s" and c: "c < unat (sb_size sb)"
  shows "if bitmap sb s c
    then \<exists>s'. bfree pid 1 sb (of_nat c) s = Ret s' \<and> wrote pid s (BBLOCK c sb) (clear_bit (c mod BPB) (cur s (BBLOCK c sb))) s'
    else bfree pid 1 sb (of_nat c) s = Panic ''freeing free block''"
proof -
  let ?B = "BBLOCK c sb" and ?y = "clear_bit (c mod BPB) (cur s (BBLOCK c sb))"
  have l: "linv s" and hB: "home_of s ?B" "?B \<notin> hb s" using s(1,3) c by (auto simp: alloc_ok_def hb_ok_def map_block_def)
  note rc = room_card [OF l s(2)] and uc = unat_block [OF c]
  obtain i t u where t: "bread pid 1 ?B s = Ret (i, t)" "bdata (bufs t ! i) = cur s ?B" "logged pid i ?y t = Ret u" "wrote pid s ?B ?y u"
    by (rule read_change [OF l hB, of pid ?y]) (use rc in blast)+
  have "bfree pid 1 sb (of_nat c) s = (if bitmap sb s c then Ret u else Panic ''freeing free block'')"
    using t(1,3) setbuf_data [of i "clear_bit (c mod BPB)" t] by (simp add: bfree_def uc t(2) bitmap_def Let_def logged_def)
  then show ?thesis using t(4) by simp
qed

lemma freed_bitmap:
  assumes c: "c < unat (sb_size sb)" and w: "wrote pid s (BBLOCK c sb) (clear_bit (c mod BPB) (cur s (BBLOCK c sb))) s'"
    and b: "b < unat (sb_size sb)"
  shows "bitmap sb s' b \<longleftrightarrow> b \<noteq> c \<and> bitmap sb s b"
proof (cases "b div BPB = c div BPB")
  case True
  then have e: "BBLOCK b sb = BBLOCK c sb" using BBLOCK_eq [OF b c(1)] by simp
  have "b mod BPB < BPB" "c mod BPB < BPB" by (simp_all add: BPB_def)
  then have "bitmap sb s' b \<longleftrightarrow> b mod BPB \<noteq> c mod BPB \<and> bitmap sb s b"
    using clear_bit_in wroteD(2) [OF w] by (simp add: bitmap_def e)
  then show ?thesis using True by (metis div_mult_mod_eq)
next
  case False
  then have "BBLOCK b sb \<noteq> BBLOCK c sb" using BBLOCK_eq [OF b c(1)] by simp
  then show ?thesis using False wroteD(2) [OF w] by (auto simp: bitmap_def)
qed

lemma balloc_effect:
  assumes s: "alloc_ok sb s" "room_for s 3" "hb_ok sb s" and free: "\<exists>b < unat (sb_size sb). \<not> bitmap sb s b"
  shows "\<exists>c s'. balloc pid 1 sb s = Ret (of_nat c, s') \<and> c < unat (sb_size sb) \<and> \<not> bitmap sb s c \<and> alloc_ok sb s' \<and> disk s' = disk s \<and>
      (\<forall>b < unat (sb_size sb). bitmap sb s' b \<longleftrightarrow> b = c \<or> bitmap sb s b) \<and> (\<forall>x < 512. cur s' (of_nat c) x = 0) \<and>
      (\<forall>b. \<not> map_block sb b \<longrightarrow> b \<noteq> of_nat c \<longrightarrow> cur s' b = cur s b) \<and>
      (\<exists>u. bfree pid 1 sb (of_nat c) s' = Ret u \<and> (\<forall>b < unat (sb_size sb). bitmap sb u b \<longleftrightarrow> bitmap sb s b) \<and>
        (\<forall>b. \<not> map_block sb b \<longrightarrow> cur u b = cur s' b))"
proof -
  have r2: "room_for s 2" using s(2) by (simp add: room_for_def)
  obtain c t where c: "balloc pid 1 sb s = Ret (of_nat c, t)" "c < unat (sb_size sb)" "\<not> bitmap sb s c" "took pid sb s c t"
    using balloc_spec [OF s(1) r2 s(3), of pid] free by auto
  note f = took_facts [OF s(1,3) c(2-4)]
  have z: "cur t (of_nat c) x = 0" if "x < 512" for x using that by (simp add: f(4) mem_set_def BSIZE_def)
  have "linv s" "linv t" using s(1) f(1) by (simp_all add: alloc_ok_def)
  then have "room_for t (Suc 0)" using s(2) f(6,11,12,13) linvD(5) [of s] linvD(5) [of t] by (auto simp: room_for_def)
  then obtain u where u: "bfree pid 1 sb (of_nat c) t = Ret u" "wrote pid t (BBLOCK c sb) (clear_bit (c mod BPB) (cur t (BBLOCK c sb))) u"
    using bfree_spec [OF f(1) _ f(3) c(2), of 0 pid] f(2) [OF c(2)] by auto
  have "map_block sb (BBLOCK c sb)" using c(2) by (auto simp: map_block_def)
  then have "cur u x = cur t x" if "\<not> map_block sb x" for x using that wroteD(2) [OF u(2)] by auto
  moreover have "bitmap sb u x \<longleftrightarrow> bitmap sb s x" if "x < unat (sb_size sb)" for x
    using freed_bitmap [OF c(2) u(2) that] f(2) [OF that] c(3) by blast
  ultimately show ?thesis using c f(1,2,5,7) z u(1) by blast
qed

text \<open>C32. The block allocator. Inside a transaction with log space, \<^verbatim>\<open>balloc\<close> returns a block that was free, as
  long as there is one: it is in use afterwards and reads zero, all other blocks keep their state
  and their contents, nothing reaches the disk before the commit, and \<^verbatim>\<open>bfree\<close> of it restores the
  bit map. On a full disk \<^verbatim>\<open>balloc\<close> panics. Freeing a free block panics.\<close>

theorem block_allocator:
  assumes "alloc_ok sb s" and "room_for s 3" and "hb_ok sb s"
  shows "(if \<exists>b < unat (sb_size sb). \<not> bitmap sb s b
    then \<exists>c s'. balloc pid 1 sb s = Ret (of_nat c, s') \<and> c < unat (sb_size sb) \<and> \<not> bitmap sb s c \<and> alloc_ok sb s' \<and> disk s' = disk s \<and>
      (\<forall>b < unat (sb_size sb). bitmap sb s' b \<longleftrightarrow> b = c \<or> bitmap sb s b) \<and> (\<forall>x < 512. cur s' (of_nat c) x = 0) \<and>
      (\<forall>b. \<not> map_block sb b \<longrightarrow> b \<noteq> of_nat c \<longrightarrow> cur s' b = cur s b) \<and>
      (\<exists>u. bfree pid 1 sb (of_nat c) s' = Ret u \<and> (\<forall>b < unat (sb_size sb). bitmap sb u b \<longleftrightarrow> bitmap sb s b) \<and>
        (\<forall>b. \<not> map_block sb b \<longrightarrow> cur u b = cur s' b))
    else balloc pid 1 sb s = Panic ''balloc: out of blocks'') \<and>
    (\<forall>c < unat (sb_size sb). \<not> bitmap sb s c \<longrightarrow> bfree pid 1 sb (of_nat c) s = Panic ''freeing free block'')"
proof -
  have r2: "room_for s 2" using assms(2) by (simp add: room_for_def)
  have r1: "room_for s (Suc 2)" using assms(2) by (simp add: numeral_3_eq_3 numeral_2_eq_2)
  have "bfree pid 1 sb (of_nat c) s = Panic ''freeing free block''" if "c < unat (sb_size sb)" "\<not> bitmap sb s c" for c
    using bfree_spec [OF assms(1) r1 assms(3) that(1), of pid] that(2) by simp
  moreover have "balloc pid 1 sb s = Panic ''balloc: out of blocks''" if "\<not> (\<exists>b < unat (sb_size sb). \<not> bitmap sb s b)"
    using balloc_spec [OF assms(1) r2 assms(3), of pid] that by (simp only: if_False)
  ultimately show ?thesis using balloc_effect [OF assms, of pid] by (simp only: split: if_split) blast
qed

text \<open>A disk of 100 blocks with the bit map in block 60; the first 64 blocks are in use.\<close>

definition map_disk :: "u32 \<Rightarrow> block" where
  "map_disk b = (if b = 1 then store32 (store32 (store32 (store32 (\<lambda>_. 0) 12 30) 16 2) 0 100) 24 60
     else if b = 60 then (\<lambda>a. if a < 8 then 0xFF else 0) else (\<lambda>_. 0))"

lemma map_disk_sb: "sb_size (map_disk 1) = 100" "sb_bmapstart (map_disk 1) = 60" "load32 (map_disk 1) 16 = 2" "load32 (map_disk 1) 12 = 30"
  by (simp_all add: map_disk_def sb_size_def sb_bmapstart_def aligned4_def)

lemma map_disk_recoverable: "recoverable 2 30 100 map_disk"
proof -
  have "hn 2 map_disk = 0" by (simp add: hn_def map_disk_def)
  then show ?thesis using map_disk_sb by (simp add: recoverable_def geometry_def sb_ok_def in_log_def LOGSIZE_def MAXOPBLOCKS_def)
qed

lemma map_disk_bits: "b < 100 \<Longrightarrow> BBLOCK b (map_disk 1) = 60 \<and> b mod BPB = b \<and> (bit_in (map_disk 60) b \<longleftrightarrow> b < 64)"
proof -
  assume b: "b < 100"
  have u: "(of_nat (b div 8) :: u32) < 8 \<longleftrightarrow> b < 64"
    using b by (simp add: word_less_nat_alt unsigned_of_nat take_bit_nat_eq_self) linarith
  have "bit (0xFF :: u8) (b mod 8)"
  proof -
    have "(0xFF :: u8) = mask 8" by (simp add: mask_eq_exp_minus_1)
    then show ?thesis by (simp only: bit_mask_iff) simp
  qed
  then have "bit_in (map_disk 60) b \<longleftrightarrow> b < 64" using u by (simp add: bit_in_bit map_disk_def)
  then show ?thesis using b map_disk_sb by (simp add: BBLOCK_def BPB_def)
qed

theorem block_allocator_witness:
  "\<exists>(s :: log) c s'. alloc_ok (map_disk 1) s \<and> room_for s 3 \<and> balloc 1 1 (map_disk 1) s = Ret (of_nat c, s') \<and> 64 \<le> c \<and> c < 100 \<and>
    cur s' (of_nat c) 0 = 0 \<and> bitmap (map_disk 1) s' c"
proof -
  obtain t :: log where t: "linv t" "lset t = {}" "hb t = {}" "lstart t = 2" "lsize t = 30" "disksize t = 100" "outstanding t = 0"
      "\<And>b. \<not> in_log 2 30 b \<Longrightarrow> disk t b = logical 2 map_disk b"
    using initlog_spec [OF map_disk_recoverable, of 1] by blast
  have n: "lhn t = 0" using t(1,2) linvD(5) [OF t(1)] lset_lhn [OF t(1)] by simp
  have h0: "hn 2 map_disk = 0" by (simp add: hn_def map_disk_def)
  have c60: "cur t 60 = map_disk 60" using linvD(11) [OF t(1), of 60] t(2,8) logical_none [OF h0] by (simp add: in_log_def)
  let ?s = "t\<lparr>outstanding := 1\<rparr>" and ?sb = "map_disk 1"
  have bm: "bitmap ?sb ?s b \<longleftrightarrow> b < 64" if "b < 100" for b using map_disk_bits [OF that] c60 by (simp add: bitmap_def)
  have mb: "map_block ?sb c \<longleftrightarrow> c = 60" for c using map_disk_bits map_disk_sb by (auto simp: map_block_def intro!: exI [of _ 0])
  have "home_of ?s (BBLOCK b ?sb) \<and> (\<not> bitmap ?sb ?s b \<longrightarrow> home_of ?s (of_nat b) \<and> \<not> map_block ?sb (of_nat b))" if b: "b < 100" for b
  proof -
    have u: "unat (of_nat b :: u32) = b" using b by (simp add: unsigned_of_nat take_bit_nat_eq_self)
    have "home 2 30 100 (of_nat b)" "(of_nat b :: u32) \<noteq> 60" if "64 \<le> b"
      using that u b by (auto intro!: fresh_home simp: word_le_nat_alt word_less_nat_alt)
    then show ?thesis using bm [OF b] map_disk_bits [OF b] fresh_home [of 60] t mb by auto
  qed
  then have a: "alloc_ok ?sb ?s" using t(1) map_disk_sb by (simp add: alloc_ok_def linv_def lset_def)
  have r: "room_for ?s 3" and h: "hb_ok ?sb ?s" using t n by (simp_all add: room_for_def hb_ok_def NBUF_def)
  have "\<exists>b < unat (sb_size ?sb). \<not> bitmap ?sb ?s b" using bm [of 64] map_disk_sb by (intro exI [of _ 64]) simp
  then obtain c s' where c: "balloc 1 1 ?sb ?s = Ret (of_nat c, s')" "c < unat (sb_size ?sb)" "\<not> bitmap ?sb ?s c"
      "\<forall>b < unat (sb_size ?sb). bitmap ?sb s' b \<longleftrightarrow> b = c \<or> bitmap ?sb ?s b" "\<forall>x < 512. cur s' (of_nat c) x = 0"
    using block_allocator [OF a r h, of 1] by (simp only: if_True) blast
  have "c < 100" "64 \<le> c" using c(2,3) bm map_disk_sb by auto
  moreover have "bitmap ?sb s' c" using c(2,4) by blast
  moreover have "cur s' (of_nat c) 0 = 0" using c(5) by simp
  ultimately show ?thesis using a r c(1) by blast
qed

end
