(* ===== verification/Fs.thy ===== *)
theory Fs
  imports Fs_Alloc Kern
begin

text \<open>
  The inodes, directories and path names of \<^verbatim>\<open>fs.c\<close>. The state adds to the kernel the log with the
  buffer cache and the disk, the sleep locks of the inode cache (the field \<^verbatim>\<open>lock\<close> of \<^verbatim>\<open>struct inode\<close>)
  and the global super block. An inode pointer is an index of the cache; \<open>me\<close> is the pid of the
  calling process. Calls run one at a time: waiting for a lock that is held makes no progress
  (\<^const>\<open>Refault\<close>). Bytes read or written are lists; the copy to or from memory is left to the caller.
  The read and write functions of devices (\<^verbatim>\<open>devsw\<close>) are arguments.
\<close>

section \<open>State\<close>

record fsys = kern +
  fslog :: log
  ilocks :: "sleeplock list"
  sblk :: block

definition onlog :: "(log \<Rightarrow> log res) \<Rightarrow> 'z fsys_scheme \<Rightarrow> 'z fsys_scheme res" where
  "onlog f s = rbind (f (fslog s)) (\<lambda>l. Ret (s\<lparr>fslog := l\<rparr>))"

definition onlogr :: "(log \<Rightarrow> ('a \<times> log) res) \<Rightarrow> 'z fsys_scheme \<Rightarrow> ('a \<times> 'z fsys_scheme) res" where
  "onlogr f s = rbind (f (fslog s)) (\<lambda>(r, l). Ret (r, s\<lparr>fslog := l\<rparr>))"

definition setinode :: "nat \<Rightarrow> (inode \<Rightarrow> inode) \<Rightarrow> 'z fsys_scheme \<Rightarrow> 'z fsys_scheme" where
  "setinode ip f s = s\<lparr>icache := (icache s)[ip := f (icache s ! ip)]\<rparr>"

definition setlock :: "nat \<Rightarrow> sleeplock \<Rightarrow> 'z fsys_scheme \<Rightarrow> 'z fsys_scheme" where
  "setlock ip lk s = s\<lparr>ilocks := (ilocks s)[ip := lk]\<rparr>"

definition T_DIR :: u16 where "T_DIR = 1"
definition T_FILE :: u16 where "T_FILE = 2"
definition T_DEV :: u16 where "T_DEV = 3"
definition NDEV :: int where "NDEV = 10"
definition ROOTDEV :: u32 where "ROOTDEV = 1"
definition ROOTINO :: u32 where "ROOTINO = 1"
definition NINDIRECT :: nat where "NINDIRECT = 128"
definition MAXFILE :: nat where "MAXFILE = NDIRECT + NINDIRECT"
definition DIRSIZ :: nat where "DIRSIZ = 14"

definition iinit :: "int \<Rightarrow> u32 \<Rightarrow> 'z fsys_scheme \<Rightarrow> 'z fsys_scheme res" where
  "iinit me dev s =
     rbind (onlogr (readsb me dev) (s\<lparr>ilocks := replicate NINODE initsleeplock\<rparr>)) (\<lambda>(sb, s). Ret (s\<lparr>sblk := sb\<rparr>))"

section \<open>Inodes on the disk\<close>

definition load16 :: "block \<Rightarrow> u32 \<Rightarrow> u16" where
  "load16 d a = ucast (d a) OR push_bit 8 (ucast (d (a + 1)))"

definition store16 :: "block \<Rightarrow> u32 \<Rightarrow> u16 \<Rightarrow> block" where
  "store16 d a v = d(a := ucast v, a + 1 := ucast (drop_bit 8 v))"

definition IPB :: u32 where "IPB = 8"

definition IBLOCK :: "u32 \<Rightarrow> block \<Rightarrow> u32" where
  "IBLOCK i sb = i div IPB + sb_inodestart sb"

definition dinode_at :: "u32 \<Rightarrow> u32" where
  "dinode_at i = (i mod IPB) * 64"

fun put_words :: "block \<Rightarrow> u32 \<Rightarrow> u32 list \<Rightarrow> block" where
  "put_words d a [] = d"
| "put_words d a (w # ws) = put_words (store32 d a w) (a + 4) ws"

definition put_dinode :: "inode \<Rightarrow> u32 \<Rightarrow> block \<Rightarrow> block" where
  "put_dinode x a d =
     put_words (store32 (store16 (store16 (store16 (store16 d a (itype x)) (a + 2) (imajor x)) (a + 4) (iminor x)) (a + 6) (inlink x))
       (a + 8) (isize x)) (a + 12) (iaddrs x)"

definition get_dinode :: "u32 \<Rightarrow> block \<Rightarrow> inode \<Rightarrow> inode" where
  "get_dinode a d x = x\<lparr>itype := load16 d a, imajor := load16 d (a + 2), iminor := load16 d (a + 4), inlink := load16 d (a + 6),
     isize := load32 d (a + 8), iaddrs := map (\<lambda>k. load32 d (a + 12 + 4 * of_nat k)) [0..<Suc NDIRECT]\<rparr>"

definition iupdate :: "int \<Rightarrow> nat \<Rightarrow> 'z fsys_scheme \<Rightarrow> 'z fsys_scheme res" where
  "iupdate me ip s =
     (let x = icache s ! ip
      in rbind (onlogr (bread me (idev x) (IBLOCK (inum x) (sblk s))) s) (\<lambda>(bp, s).
           rbind (onlog (\<lambda>l. log_write bp (setbuf bp (\<lambda>b. b\<lparr>bdata := put_dinode x (dinode_at (inum x)) (bdata b)\<rparr>) l)) s)
             (onlog (brelse me bp))))"

section \<open>The inode cache\<close>

definition iget :: "u32 \<Rightarrow> u32 \<Rightarrow> 'z fsys_scheme \<Rightarrow> (nat \<times> 'z fsys_scheme) res" where
  "iget dev i s =
     (case first_from (\<lambda>x. iref x > 0 \<and> idev x = dev \<and> inum x = i) (icache s) 0 of
        Some ip \<Rightarrow> Ret (ip, setinode ip (\<lambda>x. x\<lparr>iref := iref x + 1\<rparr>) s)
      | None \<Rightarrow>
          (case first_from (\<lambda>x. iref x = 0) (icache s) 0 of
             None \<Rightarrow> Panic ''iget: no inodes''
           | Some ip \<Rightarrow> Ret (ip, setinode ip (\<lambda>x. x\<lparr>idev := dev, inum := i, iref := 1, ivalid := False\<rparr>) s)))"

fun ialloc_loop :: "int \<Rightarrow> u32 \<Rightarrow> u16 \<Rightarrow> nat list \<Rightarrow> 'z fsys_scheme \<Rightarrow> (nat \<times> 'z fsys_scheme) res" where
  "ialloc_loop me dev t [] s = Panic ''ialloc: no inodes''"
| "ialloc_loop me dev t (n # ns) s =
     (let i = of_nat n; a = dinode_at i
      in rbind (onlogr (bread me dev (IBLOCK i (sblk s))) s) (\<lambda>(bp, s).
           if load16 (bdata (bufs (fslog s) ! bp)) a = 0 then
             rbind (onlog (\<lambda>l. log_write bp (setbuf bp (\<lambda>b. b\<lparr>bdata := store16 (mem_set (bdata b) a 0 64) a t\<rparr>) l)) s) (\<lambda>s.
               rbind (onlog (brelse me bp) s) (iget dev i))
           else rbind (onlog (brelse me bp) s) (ialloc_loop me dev t ns)))"

definition ialloc :: "int \<Rightarrow> u32 \<Rightarrow> u16 \<Rightarrow> 'z fsys_scheme \<Rightarrow> (nat \<times> 'z fsys_scheme) res" where
  "ialloc me dev t s = ialloc_loop me dev t [1..<unat (sb_ninodes (sblk s))] s"

definition ilock :: "int \<Rightarrow> nat \<Rightarrow> 'z fsys_scheme \<Rightarrow> 'z fsys_scheme res" where
  "ilock me ip s =
     (if iref (icache s ! ip) < 1 then Panic ''ilock''
      else case acquiresleep me (ilocks s ! ip) of None \<Rightarrow> Refault
      | Some lk \<Rightarrow>
          let s = setlock ip lk s; x = icache s ! ip
          in if ivalid x then Ret s
             else rbind (onlogr (bread me (idev x) (IBLOCK (inum x) (sblk s))) s) (\<lambda>(bp, s).
               let s = setinode ip (get_dinode (dinode_at (inum x)) (bdata (bufs (fslog s) ! bp))) s
               in rbind (onlog (brelse me bp) s) (\<lambda>s.
                    let s = setinode ip (\<lambda>x. x\<lparr>ivalid := True\<rparr>) s
                    in if itype (icache s ! ip) = 0 then Panic ''ilock: no type'' else Ret s)))"

definition iunlock :: "int \<Rightarrow> nat \<Rightarrow> 'z fsys_scheme \<Rightarrow> 'z fsys_scheme res" where
  "iunlock me ip s =
     (if \<not> holdingsleep me (ilocks s ! ip) \<or> iref (icache s ! ip) < 1 then Panic ''iunlock''
      else Ret (setlock ip (releasesleep (ilocks s ! ip)) s))"

section \<open>Content\<close>

definition set_addr :: "nat \<Rightarrow> nat \<Rightarrow> u32 \<Rightarrow> 'z fsys_scheme \<Rightarrow> 'z fsys_scheme" where
  "set_addr ip k a s = setinode ip (\<lambda>x. x\<lparr>iaddrs := (iaddrs x)[k := a]\<rparr>) s"

definition fs_balloc :: "int \<Rightarrow> u32 \<Rightarrow> 'z fsys_scheme \<Rightarrow> (u32 \<times> 'z fsys_scheme) res" where
  "fs_balloc me dev s = onlogr (balloc me dev (sblk s)) s"

definition fs_bfree :: "int \<Rightarrow> u32 \<Rightarrow> u32 \<Rightarrow> 'z fsys_scheme \<Rightarrow> 'z fsys_scheme res" where
  "fs_bfree me dev b s = onlog (bfree me dev (sblk s) b) s"

text \<open>The address in slot \<open>k\<close> of the inode, with a new block if there is none.\<close>

definition inode_addr :: "int \<Rightarrow> nat \<Rightarrow> nat \<Rightarrow> 'z fsys_scheme \<Rightarrow> (u32 \<times> 'z fsys_scheme) res" where
  "inode_addr me ip k s =
     (if iaddrs (icache s ! ip) ! k = 0 then
        rbind (fs_balloc me (idev (icache s ! ip)) s) (\<lambda>(a, s). Ret (a, set_addr ip k a s))
      else Ret (iaddrs (icache s ! ip) ! k, s))"

definition bmap :: "int \<Rightarrow> nat \<Rightarrow> u32 \<Rightarrow> 'z fsys_scheme \<Rightarrow> (u32 \<times> 'z fsys_scheme) res" where
  "bmap me ip bn s =
     (if unat bn < NDIRECT then inode_addr me ip (unat bn) s
      else let bn = unat (bn - of_nat NDIRECT)
      in if bn < NINDIRECT then
           rbind (inode_addr me ip NDIRECT s) (\<lambda>(a, s).
             rbind (onlogr (bread me (idev (icache s ! ip)) a) s) (\<lambda>(bp, s).
               let addr = load32 (bdata (bufs (fslog s) ! bp)) (4 * of_nat bn)
               in rbind (if addr = 0 then
                      rbind (fs_balloc me (idev (icache s ! ip)) s) (\<lambda>(addr, s).
                        rbind (onlog (\<lambda>l. log_write bp (setbuf bp (\<lambda>b. b\<lparr>bdata := store32 (bdata b) (4 * of_nat bn) addr\<rparr>) l)) s)
                          (\<lambda>s. Ret (addr, s)))
                    else Ret (addr, s)) (\<lambda>(addr, s).
                      rbind (onlog (brelse me bp) s) (\<lambda>s. Ret (addr, s)))))
         else Panic ''bmap: out of range'')"

fun itrunc_direct :: "int \<Rightarrow> nat \<Rightarrow> nat list \<Rightarrow> 'z fsys_scheme \<Rightarrow> 'z fsys_scheme res" where
  "itrunc_direct me ip [] s = Ret s"
| "itrunc_direct me ip (k # ks) s =
     (let x = icache s ! ip
      in if iaddrs x ! k \<noteq> 0 then rbind (fs_bfree me (idev x) (iaddrs x ! k) s) (\<lambda>s. itrunc_direct me ip ks (set_addr ip k 0 s))
         else itrunc_direct me ip ks s)"

fun itrunc_indirect :: "int \<Rightarrow> nat \<Rightarrow> nat \<Rightarrow> nat list \<Rightarrow> 'z fsys_scheme \<Rightarrow> 'z fsys_scheme res" where
  "itrunc_indirect me ip bp [] s = Ret s"
| "itrunc_indirect me ip bp (j # js) s =
     (let a = load32 (bdata (bufs (fslog s) ! bp)) (4 * of_nat j)
      in if a \<noteq> 0 then rbind (fs_bfree me (idev (icache s ! ip)) a s) (itrunc_indirect me ip bp js)
         else itrunc_indirect me ip bp js s)"

definition itrunc :: "int \<Rightarrow> nat \<Rightarrow> 'z fsys_scheme \<Rightarrow> 'z fsys_scheme res" where
  "itrunc me ip s =
     rbind (itrunc_direct me ip [0..<NDIRECT] s) (\<lambda>s.
       rbind (let x = icache s ! ip
              in if iaddrs x ! NDIRECT \<noteq> 0 then
                rbind (onlogr (bread me (idev x) (iaddrs x ! NDIRECT)) s) (\<lambda>(bp, s).
                  rbind (itrunc_indirect me ip bp [0..<NINDIRECT] s) (\<lambda>s.
                    rbind (onlog (brelse me bp) s) (\<lambda>s.
                      rbind (fs_bfree me (idev x) (iaddrs (icache s ! ip) ! NDIRECT) s) (\<lambda>s. Ret (set_addr ip NDIRECT 0 s)))))
              else Ret s) (\<lambda>s. iupdate me ip (setinode ip (\<lambda>x. x\<lparr>isize := 0\<rparr>) s)))"

definition iput :: "int \<Rightarrow> nat \<Rightarrow> 'z fsys_scheme \<Rightarrow> 'z fsys_scheme res" where
  "iput me ip s =
     (case acquiresleep me (ilocks s ! ip) of None \<Rightarrow> Refault
      | Some lk \<Rightarrow>
          let s = setlock ip lk s; x = icache s ! ip
          in rbind (if ivalid x \<and> inlink x = 0 \<and> iref x = 1 then
                 rbind (itrunc me ip s) (\<lambda>s.
                   rbind (iupdate me ip (setinode ip (\<lambda>x. x\<lparr>itype := 0\<rparr>) s)) (\<lambda>s.
                     Ret (setinode ip (\<lambda>x. x\<lparr>ivalid := False\<rparr>) s)))
               else Ret s) (\<lambda>s.
                 Ret (setinode ip (\<lambda>x. x\<lparr>iref := iref x - 1\<rparr>) (setlock ip (releasesleep (ilocks s ! ip)) s))))"

definition iunlockput :: "int \<Rightarrow> nat \<Rightarrow> 'z fsys_scheme \<Rightarrow> 'z fsys_scheme res" where
  "iunlockput me ip s = rbind (iunlock me ip s) (iput me ip)"

text \<open>\<^verbatim>\<open>begin_op(); iput(ip); end_op()\<close>, as the last close of a file and the exit of a process do it.\<close>

definition begin_op_fs :: "'z fsys_scheme \<Rightarrow> 'z fsys_scheme res" where
  "begin_op_fs s = (let (ok, l) = begin_op (fslog s) in if ok then Ret (s\<lparr>fslog := l\<rparr>) else Refault)"

definition iput_op :: "int \<Rightarrow> nat \<Rightarrow> 'z fsys_scheme \<Rightarrow> 'z fsys_scheme res" where
  "iput_op me ip s = rbind (begin_op_fs s) (\<lambda>s. rbind (iput me ip s) (onlog (end_op me)))"

section \<open>Reading and writing\<close>

record 's devsw =
  dread :: "nat \<Rightarrow> (nat \<Rightarrow> u32 \<Rightarrow> 's \<Rightarrow> ((int \<times> u8 list) \<times> 's) res) option"
  dwrite :: "nat \<Rightarrow> (nat \<Rightarrow> u8 list \<Rightarrow> 's \<Rightarrow> (int \<times> 's) res) option"

definition device :: "(nat \<Rightarrow> 'f option) \<Rightarrow> u16 \<Rightarrow> 'f option" where
  "device f major = (if sint major < 0 \<or> sint major \<ge> NDEV then None else f (nat (sint major)))"

text \<open>The pieces of a transfer: each lies inside one block.\<close>

function chunks :: "u32 \<Rightarrow> nat \<Rightarrow> (u32 \<times> nat) list" where
  "chunks off n =
     (if n = 0 then []
      else let m = min n (unat BSIZE - unat (off mod BSIZE)) in (off, m) # chunks (off + of_nat m) (n - m))"
  by pat_completeness auto
termination
proof (relation "measure snd", simp)
  fix off n x assume n: "n \<noteq> 0" and x: "x = min n (unat BSIZE - unat (off mod BSIZE))"
  have "unat (off mod BSIZE) < unat BSIZE" by (simp add: unat_mod BSIZE_def)
  then show "((off + of_nat x, n - x), off, n) \<in> measure snd" using n x by simp
qed

definition bytes_of :: "block \<Rightarrow> u32 \<Rightarrow> nat \<Rightarrow> u8 list" where
  "bytes_of d a m = map (\<lambda>k. d (a + of_nat k)) [0..<m]"

fun readi_loop :: "int \<Rightarrow> nat \<Rightarrow> (u32 \<times> nat) list \<Rightarrow> 'z fsys_scheme \<Rightarrow> (u8 list \<times> 'z fsys_scheme) res" where
  "readi_loop me ip [] s = Ret ([], s)"
| "readi_loop me ip ((off, m) # cs) s =
     rbind (bmap me ip (off div BSIZE) s) (\<lambda>(a, s).
       rbind (onlogr (bread me (idev (icache s ! ip)) a) s) (\<lambda>(bp, s).
         let bs = bytes_of (bdata (bufs (fslog s) ! bp)) (off mod BSIZE) m
         in rbind (onlog (brelse me bp) s) (\<lambda>s.
              rbind (readi_loop me ip cs s) (\<lambda>(rest, s). Ret (bs @ rest, s)))))"

definition readi :: "'z fsys_scheme devsw \<Rightarrow> int \<Rightarrow> nat \<Rightarrow> u32 \<Rightarrow> u32 \<Rightarrow> 'z fsys_scheme \<Rightarrow> ((int \<times> u8 list) \<times> 'z fsys_scheme) res" where
  "readi dv me ip off n s =
     (let x = icache s ! ip
      in if itype x = T_DEV then
           (case device (dread dv) (imajor x) of None \<Rightarrow> Ret ((-1, []), s) | Some f \<Rightarrow> f ip n s)
         else if off > isize x \<or> off + n < off then Ret ((-1, []), s)
         else let n = (if off + n > isize x then isize x - off else n)
         in rbind (readi_loop me ip (chunks off (unat n)) s) (\<lambda>(bs, s). Ret ((sint n, bs), s)))"

fun writei_loop :: "int \<Rightarrow> nat \<Rightarrow> (u32 \<times> nat) list \<Rightarrow> u8 list \<Rightarrow> 'z fsys_scheme \<Rightarrow> 'z fsys_scheme res" where
  "writei_loop me ip [] src s = Ret s"
| "writei_loop me ip ((off, m) # cs) src s =
     rbind (bmap me ip (off div BSIZE) s) (\<lambda>(a, s).
       rbind (onlogr (bread me (idev (icache s ! ip)) a) s) (\<lambda>(bp, s).
         rbind (onlog (\<lambda>l. log_write bp (setbuf bp (\<lambda>b. b\<lparr>bdata := mem_put (bdata b) (off mod BSIZE) (take m src)\<rparr>) l)) s) (\<lambda>s.
           rbind (onlog (brelse me bp) s) (writei_loop me ip cs (drop m src)))))"

definition writei :: "'z fsys_scheme devsw \<Rightarrow> int \<Rightarrow> nat \<Rightarrow> u8 list \<Rightarrow> u32 \<Rightarrow> 'z fsys_scheme \<Rightarrow> (int \<times> 'z fsys_scheme) res" where
  "writei dv me ip src off s =
     (let x = icache s ! ip; n = of_nat (length src)
      in if itype x = T_DEV then
           (case device (dwrite dv) (imajor x) of None \<Rightarrow> Ret (-1, s) | Some f \<Rightarrow> f ip src s)
         else if off > isize x \<or> off + n < off then Ret (-1, s)
         else if off + n > of_nat MAXFILE * BSIZE then Ret (-1, s)
         else rbind (writei_loop me ip (chunks off (length src)) src s) (\<lambda>s.
           rbind (if n > 0 \<and> off + n > isize (icache s ! ip) then iupdate me ip (setinode ip (\<lambda>x. x\<lparr>isize := off + n\<rparr>) s) else Ret s)
             (\<lambda>s. Ret (sint n, s))))"

record stat_t =
  st_type :: u16
  st_dev :: u32
  st_ino :: u32
  st_nlink :: u16
  st_size :: u32

definition stati :: "inode \<Rightarrow> stat_t" where
  "stati x = \<lparr>st_type = itype x, st_dev = idev x, st_ino = inum x, st_nlink = inlink x, st_size = isize x\<rparr>"

section \<open>Directories\<close>

text \<open>
  Names are lists of bytes; a NUL byte or the end of the list ends a name. A directory entry is 16
  bytes, the number of the inode and the name.
\<close>

definition name_of :: "u8 list \<Rightarrow> u8 list" where
  "name_of s = take DIRSIZ (takeWhile (\<lambda>c. c \<noteq> 0) s)"

definition namecmp :: "u8 list \<Rightarrow> u8 list \<Rightarrow> bool" where
  "namecmp s t \<longleftrightarrow> name_of s = name_of t"

definition de_inum :: "u8 list \<Rightarrow> u16" where
  "de_inum de = ucast (de ! 0) OR push_bit 8 (ucast (de ! 1))"

definition de_name :: "u8 list \<Rightarrow> u8 list" where
  "de_name de = drop 2 de"

definition dirent :: "u16 \<Rightarrow> u8 list \<Rightarrow> u8 list" where
  "dirent i nm = [ucast i, ucast (drop_bit 8 i)] @ take DIRSIZ (name_of nm @ replicate DIRSIZ 0)"

definition entry_offs :: "u32 \<Rightarrow> u32 list" where
  "entry_offs sz = map (\<lambda>k. 16 * of_nat k) [0..<(unat sz + 15) div 16]"

fun dirlookup_loop :: "'z fsys_scheme devsw \<Rightarrow> int \<Rightarrow> nat \<Rightarrow> u8 list \<Rightarrow> u32 list \<Rightarrow> 'z fsys_scheme \<Rightarrow>
    ((nat \<times> u32) option \<times> 'z fsys_scheme) res" where
  "dirlookup_loop dv me dp nm [] s = Ret (None, s)"
| "dirlookup_loop dv me dp nm (off # offs) s =
     rbind (readi dv me dp off 16 s) (\<lambda>((r, de), s).
       if r \<noteq> 16 then Panic ''dirlookup read''
       else if de_inum de = 0 then dirlookup_loop dv me dp nm offs s
       else if namecmp nm (de_name de) then
         rbind (iget (idev (icache s ! dp)) (ucast (de_inum de)) s) (\<lambda>(ip, s). Ret (Some (ip, off), s))
       else dirlookup_loop dv me dp nm offs s)"

definition dirlookup :: "'z fsys_scheme devsw \<Rightarrow> int \<Rightarrow> nat \<Rightarrow> u8 list \<Rightarrow> 'z fsys_scheme \<Rightarrow>
    ((nat \<times> u32) option \<times> 'z fsys_scheme) res" where
  "dirlookup dv me dp nm s =
     (if itype (icache s ! dp) \<noteq> T_DIR then Panic ''dirlookup not DIR''
      else dirlookup_loop dv me dp nm (entry_offs (isize (icache s ! dp))) s)"

text \<open>The offset of the first free entry, or the end of the directory.\<close>

fun dirlink_slot :: "'z fsys_scheme devsw \<Rightarrow> int \<Rightarrow> nat \<Rightarrow> u32 list \<Rightarrow> u32 \<Rightarrow> 'z fsys_scheme \<Rightarrow> (u32 \<times> 'z fsys_scheme) res" where
  "dirlink_slot dv me dp [] stop s = Ret (stop, s)"
| "dirlink_slot dv me dp (off # offs) stop s =
     rbind (readi dv me dp off 16 s) (\<lambda>((r, de), s).
       if r \<noteq> 16 then Panic ''dirlink read''
       else if de_inum de = 0 then Ret (off, s)
       else dirlink_slot dv me dp offs stop s)"

definition dirlink :: "'z fsys_scheme devsw \<Rightarrow> int \<Rightarrow> nat \<Rightarrow> u8 list \<Rightarrow> u32 \<Rightarrow> 'z fsys_scheme \<Rightarrow> (int \<times> 'z fsys_scheme) res" where
  "dirlink dv me dp nm i s =
     rbind (dirlookup dv me dp nm s) (\<lambda>(r, s).
       case r of Some (ip, _) \<Rightarrow> rbind (iput me ip s) (\<lambda>s. Ret (-1, s))
       | None \<Rightarrow>
           let offs = entry_offs (isize (icache s ! dp))
           in rbind (dirlink_slot dv me dp offs (16 * of_nat (length offs)) s) (\<lambda>(off, s).
                rbind (writei dv me dp (dirent (ucast i) nm) off s) (\<lambda>(r, s).
                  if r \<noteq> 16 then Panic ''dirlink'' else Ret (0, s))))"

section \<open>Paths\<close>

text \<open>A path is the list of its bytes up to the NUL byte that ends it.\<close>

definition SLASH :: u8 where "SLASH = 47"

definition skipelem :: "u8 list \<Rightarrow> (u8 list \<times> u8 list) option" where
  "skipelem path =
     (let path = dropWhile (\<lambda>c. c = SLASH) path
      in if path = [] then None
         else let elem = takeWhile (\<lambda>c. c \<noteq> SLASH) path; rest = dropWhile (\<lambda>c. c \<noteq> SLASH) path
         in Some (take DIRSIZ elem, dropWhile (\<lambda>c. c = SLASH) rest))"

lemma skipelem_shorter: "skipelem path = Some (nm, rest) \<Longrightarrow> length rest < length path"
proof -
  assume s: "skipelem path = Some (nm, rest)"
  let ?p = "dropWhile (\<lambda>c. c = SLASH) path"
  have p: "?p \<noteq> []" and r: "rest = dropWhile (\<lambda>c. c = SLASH) (dropWhile (\<lambda>c. c \<noteq> SLASH) ?p)"
    using s by (auto simp: skipelem_def Let_def split: if_splits)
  have "hd ?p \<noteq> SLASH" using p hd_dropWhile by blast
  then have "dropWhile (\<lambda>c. c \<noteq> SLASH) ?p = dropWhile (\<lambda>c. c \<noteq> SLASH) (tl ?p)" using p by (cases ?p) auto
  then have "length rest \<le> length (tl ?p)" unfolding r
    using length_dropWhile_le [of "\<lambda>c. c = SLASH" "dropWhile (\<lambda>c. c \<noteq> SLASH) (tl ?p)"] length_dropWhile_le [of "\<lambda>c. c \<noteq> SLASH" "tl ?p"] by simp
  also have "\<dots> < length ?p" using p by simp
  also have "\<dots> \<le> length path" by (rule length_dropWhile_le)
  finally show ?thesis .
qed

function namex_loop :: "'z fsys_scheme devsw \<Rightarrow> int \<Rightarrow> bool \<Rightarrow> u8 list \<Rightarrow> nat \<Rightarrow> 'z fsys_scheme \<Rightarrow>
    ((nat \<times> u8 list) option \<times> 'z fsys_scheme) res" where
  "namex_loop dv me nameiparent path ip s =
     (case skipelem path of
        None \<Rightarrow> if nameiparent then rbind (iput me ip s) (\<lambda>s. Ret (None, s)) else Ret (Some (ip, []), s)
      | Some (nm, path) \<Rightarrow>
          rbind (ilock me ip s) (\<lambda>s.
            if itype (icache s ! ip) \<noteq> T_DIR then rbind (iunlockput me ip s) (\<lambda>s. Ret (None, s))
            else if nameiparent \<and> path = [] then rbind (iunlock me ip s) (\<lambda>s. Ret (Some (ip, nm), s))
            else rbind (dirlookup dv me ip nm s) (\<lambda>(r, s).
              case r of None \<Rightarrow> rbind (iunlockput me ip s) (\<lambda>s. Ret (None, s))
              | Some (next, _) \<Rightarrow> rbind (iunlockput me ip s) (namex_loop dv me nameiparent path next))))"
  by pat_completeness auto
termination
  by (relation "measure (\<lambda>(dv, me, np, path, ip, s). length path)") (auto dest: skipelem_shorter)

definition namex :: "'z fsys_scheme devsw \<Rightarrow> nat \<Rightarrow> bool \<Rightarrow> u8 list \<Rightarrow> 'z fsys_scheme \<Rightarrow> ((nat \<times> u8 list) option \<times> 'z fsys_scheme) res" where
  "namex dv c nameiparent path s =
     (let me = pid (procs s ! c)
      in rbind (if path \<noteq> [] \<and> hd path = SLASH then iget ROOTDEV ROOTINO s
                else case cwd (procs s ! c) of None \<Rightarrow> Fault
                | Some ip \<Rightarrow> Ret (ip, setinode ip (\<lambda>x. x\<lparr>iref := iref x + 1\<rparr>) s)) (\<lambda>(ip, s).
           namex_loop dv me nameiparent path ip s))"

definition namei :: "'z fsys_scheme devsw \<Rightarrow> nat \<Rightarrow> u8 list \<Rightarrow> 'z fsys_scheme \<Rightarrow> (nat option \<times> 'z fsys_scheme) res" where
  "namei dv c path s = rbind (namex dv c False path s) (\<lambda>(r, s). Ret (map_option fst r, s))"

definition nameiparent :: "'z fsys_scheme devsw \<Rightarrow> nat \<Rightarrow> u8 list \<Rightarrow> 'z fsys_scheme \<Rightarrow> ((nat \<times> u8 list) option \<times> 'z fsys_scheme) res" where
  "nameiparent dv c path s = namex dv c True path s"

end
