(* ===== verification/Fs_Spec.thy ===== *)
theory Fs_Spec
  imports Fs File_Spec
begin

text \<open>
  What the file system leaves alone, and what an inode looks like on the disk. Releasing an inode
  provides the interface \<^const>\<open>inode_put\<close> that closing files and ending processes rely on.
\<close>

section \<open>The file system changes only its own state\<close>

definition fs_only :: "'z fsys_scheme \<Rightarrow> 'z fsys_scheme \<Rightarrow> bool" where
  "fs_only s s' \<longleftrightarrow> s' = s\<lparr>icache := icache s', ilocks := ilocks s', fslog := fslog s'\<rparr>"

lemma fs_only_refl [simp]: "fs_only s s"
  by (simp add: fs_only_def)

lemma fs_only_trans: "fs_only s t \<Longrightarrow> fs_only t u \<Longrightarrow> fs_only s u"
  by (cases s; cases t; cases u) (simp add: fs_only_def)

lemma fs_only_upd [simp]:
  "fs_only s (setinode ip f s)" "fs_only s (setlock ip lk s)" "fs_only s (set_addr ip k a s)" "fs_only s (s\<lparr>fslog := l\<rparr>)"
  by (simp_all add: fs_only_def setinode_def setlock_def set_addr_def)

lemma fs_only_after: "fs_only s t \<Longrightarrow> fs_only s (setinode ip f t)" "fs_only s t \<Longrightarrow> fs_only s (setlock ip lk t)" "fs_only s t \<Longrightarrow> fs_only s (set_addr ip k a t)"
  using fs_only_trans fs_only_upd by blast+

lemma fs_only_before: "fs_only (setinode ip f s) t \<Longrightarrow> fs_only s t" "fs_only (setlock ip lk s) t \<Longrightarrow> fs_only s t" "fs_only (set_addr ip k a s) t \<Longrightarrow> fs_only s t"
  using fs_only_trans fs_only_upd by blast+

lemma onlog_only: "onlog f s = Ret t \<Longrightarrow> fs_only s t" and onlogr_only: "onlogr g s = Ret (r, t) \<Longrightarrow> fs_only s t"
  by (auto simp: onlog_def onlogr_def rbind_eq_Ret)

lemma alloc_only: "fs_balloc me dev s = Ret (a, t) \<Longrightarrow> fs_only s t" "fs_bfree me dev b s = Ret t \<Longrightarrow> fs_only s t"
  by (simp_all add: fs_balloc_def onlogr_only fs_bfree_def onlog_only)

lemma iupdate_only: "iupdate me ip s = Ret t \<Longrightarrow> fs_only s t"
  unfolding iupdate_def Let_def by (auto simp: rbind_eq_Ret dest!: onlogr_only onlog_only intro: fs_only_trans)

lemma itrunc_direct_only: "itrunc_direct me ip ks s = Ret t \<Longrightarrow> fs_only s t"
proof (induction ks arbitrary: s)
  case (Cons k ks)
  show ?case
  proof (cases "iaddrs (icache s ! ip) ! k = 0")
    case True
    then show ?thesis using Cons by simp
  next
    case False
    then obtain u where u: "fs_bfree me (idev (icache s ! ip)) (iaddrs (icache s ! ip) ! k) s = Ret u" "itrunc_direct me ip ks (set_addr ip k 0 u) = Ret t"
      using Cons.prems by (auto simp: rbind_eq_Ret Let_def)
    show ?thesis using alloc_only(2) [OF u(1)] fs_only_before(3) [OF Cons.IH [OF u(2)]] by (rule fs_only_trans)
  qed
qed simp

lemma itrunc_indirect_only: "itrunc_indirect me ip bp js s = Ret t \<Longrightarrow> fs_only s t"
proof (induction js arbitrary: s)
  case (Cons j js)
  show ?case
  proof (cases "load32 (bdata (bufs (fslog s) ! bp)) (4 * of_nat j) = 0")
    case True
    then show ?thesis using Cons by simp
  next
    case False
    then obtain u where u: "fs_bfree me (idev (icache s ! ip)) (load32 (bdata (bufs (fslog s) ! bp)) (4 * of_nat j)) s = Ret u" "itrunc_indirect me ip bp js u = Ret t"
      using Cons.prems by (auto simp: rbind_eq_Ret Let_def)
    show ?thesis using alloc_only(2) [OF u(1)] Cons.IH [OF u(2)] by (rule fs_only_trans)
  qed
qed simp

lemma itrunc_only:
  assumes "itrunc me ip s = Ret t"
  shows "fs_only s t"
proof -
  obtain u v where u: "itrunc_direct me ip [0..<NDIRECT] s = Ret u"
    "(let x = icache u ! ip
              in if iaddrs x ! NDIRECT \<noteq> 0 then
                rbind (onlogr (bread me (idev x) (iaddrs x ! NDIRECT)) u) (\<lambda>(bp, s).
                  rbind (itrunc_indirect me ip bp [0..<NINDIRECT] s) (\<lambda>s.
                    rbind (onlog (brelse me bp) s) (\<lambda>s.
                      rbind (fs_bfree me (idev x) (iaddrs (icache s ! ip) ! NDIRECT) s) (\<lambda>s. Ret (set_addr ip NDIRECT 0 s)))))
              else Ret u) = Ret v" "iupdate me ip (setinode ip (\<lambda>x. x\<lparr>isize := 0\<rparr>) v) = Ret t"
    using assms unfolding itrunc_def by (auto simp: rbind_eq_Ret)
  have "fs_only u v" using u(2)
    by (auto simp: rbind_eq_Ret Let_def split: if_splits dest!: onlogr_only onlog_only itrunc_indirect_only alloc_only intro!: fs_only_after intro: fs_only_trans)
  moreover have "fs_only v t" using fs_only_before(1) [OF iupdate_only [OF u(3)]] .
  ultimately show ?thesis using itrunc_direct_only [OF u(1)] fs_only_trans by blast
qed

lemma iput_only:
  assumes "iput me ip s = Ret t"
  shows "fs_only s t"
proof -
  obtain lk u where lk: "acquiresleep me (ilocks s ! ip) = Some lk"
    "(let s = setlock ip lk s; x = icache s ! ip in if ivalid x \<and> inlink x = 0 \<and> iref x = 1 then
                 rbind (itrunc me ip s) (\<lambda>s.
                   rbind (iupdate me ip (setinode ip (\<lambda>x. x\<lparr>itype := 0\<rparr>) s)) (\<lambda>s.
                     Ret (setinode ip (\<lambda>x. x\<lparr>ivalid := False\<rparr>) s)))
               else Ret s) = Ret u" "t = setinode ip (\<lambda>x. x\<lparr>iref := iref x - 1\<rparr>) (setlock ip (releasesleep (ilocks u ! ip)) u)"
    using assms unfolding iput_def by (auto simp: rbind_eq_Ret Let_def split: option.splits)
  have "fs_only (setlock ip lk s) u" using lk(2)
    by (auto simp: rbind_eq_Ret Let_def split: if_splits dest!: itrunc_only iupdate_only fs_only_before(1) intro!: fs_only_after intro: fs_only_trans)
  then have "fs_only s u" by (rule fs_only_before(2))
  then show ?thesis unfolding lk(3) by (intro fs_only_after)
qed

lemma iput_op_only: "iput_op me ip s = Ret t \<Longrightarrow> fs_only s t"
  unfolding iput_op_def begin_op_fs_def
  by (auto simp: rbind_eq_Ret Let_def split: prod.splits if_splits dest!: iput_only onlog_only intro: fs_only_trans fs_only_upd)

lemma fs_only_core: "fs_only s t \<Longrightarrow> same_core s t"
  by (cases s; cases t) (simp add: fs_only_def same_core_def mcore_def)

interpretation fs_put: inode_put "iput_op me" for me
  by unfold_locales (rule fs_only_core [OF iput_op_only])

section \<open>Inodes on the disk\<close>

lemma load16_cong: "d a = e a \<Longrightarrow> d (a + 1) = e (a + 1) \<Longrightarrow> load16 d a = load16 e a"
  by (simp add: load16_def)

lemma load16_store16 [simp]: "load16 (store16 d a v) a = v"
proof (rule bit_word_eqI)
  fix n assume "n < LENGTH(16)"
  then consider "n < 8" | "8 \<le> n" "n < 16" by force
  then show "bit (load16 (store16 d a v) a) n = bit v n"
    by cases (simp_all add: load16_def store16_def bit_simps, linarith+)
qed

lemma put_words_outside:
  "(\<And>k. k < 4 * length ws \<Longrightarrow> x \<noteq> a + of_nat k) \<Longrightarrow> put_words d a ws x = d x"
proof (induction ws arbitrary: d a)
  case (Cons w ws)
  have "put_words (store32 d a w) (a + 4) ws x = store32 d a w x"
    by (rule Cons.IH) (use Cons.prems [of "k + 4" for k] in \<open>simp add: algebra_simps\<close>)
  moreover have "store32 d a w x = d x"
    using Cons.prems [of 0] Cons.prems [of 1] Cons.prems [of 2] Cons.prems [of 3] by (simp add: store32_def)
  ultimately show ?case by simp
qed simp

lemma of_nat_small: "j < 2 ^ 32 \<Longrightarrow> k < 2 ^ 32 \<Longrightarrow> (of_nat j :: u32) = of_nat k \<longleftrightarrow> j = k"
  by (simp add: word_unat_eq_iff unsigned_of_nat take_bit_nat_eq_self)

lemma put_words_load:
  "k < length ws \<Longrightarrow> 4 * length ws < 2 ^ 32 \<Longrightarrow> load32 (put_words d a ws) (a + 4 * of_nat k) = ws ! k"
proof (induction ws arbitrary: d a k)
  case (Cons w ws)
  show ?case
  proof (cases k)
    case 0
    have "put_words (store32 d a w) (a + 4) ws (a + of_nat i) = store32 d a w (a + of_nat i)" if "i < 4" for i
    proof (rule put_words_outside)
      fix j assume "j < 4 * length ws"
      then have "(of_nat i :: u32) \<noteq> of_nat (4 + j)" using that Cons.prems(2) by (subst of_nat_small) auto
      then show "a + of_nat i \<noteq> a + 4 + of_nat j" by (simp add: add.assoc)
    qed
    from this [of 0] this [of 1] this [of 2] this [of 3]
    have "load32 (put_words (store32 d a w) (a + 4) ws) a = load32 (store32 d a w) a" by (simp add: load32_def)
    then show ?thesis using 0 by simp
  next
    case (Suc j)
    then have "load32 (put_words (store32 d a w) (a + 4) ws) (a + 4 + 4 * of_nat j) = ws ! j" using Cons by simp
    then show ?thesis using Suc by (simp add: algebra_simps)
  qed
qed simp

text \<open>Reading an inode from the disk gives back what was written.\<close>

definition idata :: "inode \<Rightarrow> u16 \<times> u16 \<times> u16 \<times> u16 \<times> u32 \<times> u32 list" where
  "idata x = (itype x, imajor x, iminor x, inlink x, isize x, iaddrs x)"

lemma put_dinode_head:
  assumes n: "length (iaddrs x) = Suc NDIRECT" and i: "i < 12"
  shows "put_dinode x a d (a + of_nat i) =
    store32 (store16 (store16 (store16 (store16 d a (itype x)) (a + 2) (imajor x)) (a + 4) (iminor x)) (a + 6) (inlink x)) (a + 8) (isize x) (a + of_nat i)"
  unfolding put_dinode_def
proof (rule put_words_outside)
  fix k assume "k < 4 * length (iaddrs x)"
  then have "(of_nat i :: u32) \<noteq> of_nat (12 + k)" using i n by (subst of_nat_small) (auto simp: NDIRECT_def)
  then show "a + of_nat i \<noteq> a + 12 + of_nat k" by (simp add: add.assoc)
qed

lemma get_put_dinode:
  assumes n: "length (iaddrs x) = Suc NDIRECT"
  shows "idata (get_dinode a (put_dinode x a d) y) = idata x"
proof -
  note h = put_dinode_head [OF n, of _ a d]
  note hs = h [of 0] h [of 1] h [of 2] h [of 3] h [of 4] h [of 5] h [of 6] h [of 7] h [of 8] h [of 9] h [of 10] h [of 11]
  let ?m = "put_dinode x a d"
  have b: "load16 ?m a = itype x" "load16 ?m (a + 2) = imajor x" "load16 ?m (a + 4) = iminor x" "load16 ?m (a + 6) = inlink x"
    by (subst load16_store16 [of d, symmetric], rule load16_cong; use hs in \<open>simp add: store32_def store16_def add.assoc\<close>)+
  have s: "load32 ?m (a + 8) = isize x"
  proof -
    have "load32 ?m (a + 8) = load32 (store32 d (a + 8) (isize x)) (a + 8)"
      using hs by (simp add: load32_def store32_def store16_def add.assoc)
    then show ?thesis by simp
  qed
  have "map (\<lambda>k. load32 ?m (a + 12 + 4 * of_nat k)) [0..<Suc NDIRECT] = iaddrs x"
  proof (rule nth_equalityI)
    fix k assume "k < length (map (\<lambda>k. load32 ?m (a + 12 + 4 * of_nat k)) [0..<Suc NDIRECT])"
    then have k: "k < Suc NDIRECT" by simp
    have "load32 ?m (a + 12 + 4 * of_nat k) = iaddrs x ! k" unfolding put_dinode_def
      by (rule put_words_load) (use k n in \<open>simp_all add: NDIRECT_def\<close>)
    then show "map (\<lambda>k. load32 ?m (a + 12 + 4 * of_nat k)) [0..<Suc NDIRECT] ! k = iaddrs x ! k" using k by (simp del: upt_Suc)
  qed (use n in simp)
  then show ?thesis using b s by (simp add: idata_def get_dinode_def del: upt_Suc)
qed

end
