(* ===== verification/Spec2Isabelle.thy ===== *)
theory Spec2Isabelle
  imports Trap_Props Lock_Machine Pipe_Spec Ulib Umalloc_Props Grep Fs_Spec
begin

text \<open>
  A verification of the xv6 kernel of this repository: a 32-bit x86 kernel with copy-on-write
  \<^verbatim>\<open>fork\<close>, demand-paged \<^verbatim>\<open>mmap\<close>, a weighted scheduler and system call tracing.

  \<^item> \<open>Xv6_Prelude\<close>: the result type of kernel code, machine words, shared lemmas.
  \<^item> \<open>Phys_Mem\<close>: \<^verbatim>\<open>mmu.h\<close>, \<^verbatim>\<open>memlayout.h\<close> and byte-addressed physical memory.
  \<^item> \<open>Kalloc\<close>: \<^verbatim>\<open>kalloc.c\<close>.
  \<^item> \<open>Paging\<close>, \<open>Vm\<close>: the routines of \<^verbatim>\<open>vm.c\<close>; \<open>Vm_Inv\<close>, \<open>Vm_Spec\<close>, \<open>Vm_Space\<close>, \<open>Vm_Fork\<close>:
  the memory invariant and what each routine does under it; \<open>Vm_System\<close>: the memory of the
  machine as a transition system.
  \<^item> \<open>Proc_Types\<close>: the data of \<^verbatim>\<open>proc.h\<close>.
\<close>

end
